(* ===== verification/Prelude.thy ===== *)
theory Prelude
  imports Main "HOL-Library.Word" "HOL-Library.Signed_Division" "HOL-Library.Monad_Syntax"
    "HOL-Library.AList" "HOL-Library.Multiset"
begin

text \<open>
  What the components share: the machine integers of the C++ source, the option monad in which
  \<open>None\<close> is an execution with no defined result, association lists as the model of the
  standard library's maps, and the generic list lemmas the component proofs rest on.

  \<^item> \<open>ll\<close> is \<open>long long\<close>. It is an \<open>int\<close>; every sum, difference and product is taken through
    \<open>ll_wrap\<close>, two's complement at 64 bits. (C++ leaves signed overflow undefined; the
    compilers the build files name wrap, and the model says which value that is.)
  \<^item> \<open>u64\<close> is \<open>unsigned long long\<close>, \<open>std::size_t\<close> and \<open>uint64_t\<close>: a 64-bit word, whose
    arithmetic wraps as the source's does.
\<close>

section \<open>Machine integers\<close>

type_synonym ll = int

type_synonym u64 = "64 word"

type_synonym u8 = "8 word"

definition ll_wrap :: "int \<Rightarrow> ll" where
  "ll_wrap x = signed_take_bit 63 x"

definition LL_MAX :: ll where
  "LL_MAX = 9223372036854775807"

definition LL_MIN :: ll where
  "LL_MIN = - 9223372036854775808"

definition is_ll :: "int \<Rightarrow> bool" where
  "is_ll x \<longleftrightarrow> LL_MIN \<le> x \<and> x \<le> LL_MAX"

definition ll_add :: "ll \<Rightarrow> ll \<Rightarrow> ll" where
  "ll_add a b = ll_wrap (a + b)"

definition ll_sub :: "ll \<Rightarrow> ll \<Rightarrow> ll" where
  "ll_sub a b = ll_wrap (a - b)"

definition ll_mul :: "ll \<Rightarrow> ll \<Rightarrow> ll" where
  "ll_mul a b = ll_wrap (a * b)"

text \<open>Conversions between the signed and the unsigned 64-bit types keep the bits.\<close>

definition ll_of_u64 :: "u64 \<Rightarrow> ll" where
  "ll_of_u64 w = sint w"

definition u64_of_ll :: "ll \<Rightarrow> u64" where
  "u64_of_ll x = word_of_int x"

named_theorems ll_arith \<open>facts that take the wrap-around out of 64-bit signed arithmetic\<close>

lemma ll_wrap_id [ll_arith]: "is_ll x \<Longrightarrow> ll_wrap x = x"
  by (simp add: ll_wrap_def is_ll_def LL_MIN_def LL_MAX_def signed_take_bit_int_eq_self)

lemma is_ll_wrap [intro, simp]: "is_ll (ll_wrap x)"
  using signed_take_bit_int_greater_eq_minus_exp [of 63 x] signed_take_bit_int_less_exp [of 63 x]
  by (simp add: ll_wrap_def is_ll_def LL_MIN_def LL_MAX_def)

lemma ll_add_exact [ll_arith]: "is_ll (a + b) \<Longrightarrow> ll_add a b = a + b"
  by (simp add: ll_add_def ll_arith)

lemma ll_sub_exact [ll_arith]: "is_ll (a - b) \<Longrightarrow> ll_sub a b = a - b"
  by (simp add: ll_sub_def ll_arith)

lemma ll_mul_exact [ll_arith]: "is_ll (a * b) \<Longrightarrow> ll_mul a b = a * b"
  by (simp add: ll_mul_def ll_arith)

lemma is_ll_ops [intro, simp]: "is_ll (ll_add a b)" "is_ll (ll_sub a b)" "is_ll (ll_mul a b)"
  by (simp_all add: ll_add_def ll_sub_def ll_mul_def)

lemma ll_roundtrip: "is_ll x \<Longrightarrow> ll_of_u64 (u64_of_ll x) = x"
  by (simp add: ll_of_u64_def u64_of_ll_def is_ll_def LL_MIN_def LL_MAX_def sint_sbintrunc'
      signed_take_bit_int_eq_self)

text \<open>Subtracting at most what is there does not wrap; taking the smaller of two does not exceed either.\<close>

lemma unat_sub_le [simp]: "(b::u64) \<le> a \<Longrightarrow> unat (a - b) = unat a - unat b"
  by (simp add: unat_sub)

lemma unat_of_nat_id: "n < 2 ^ LENGTH('a) \<Longrightarrow> unat (of_nat n :: 'a::len word) = n"
  by (simp add: unsigned_of_nat take_bit_nat_eq_self)

lemma u64_eq_0_iff: "(w::u64) = 0 \<longleftrightarrow> unat w = 0"
  by (simp add: unat_eq_0)

section \<open>Executions with no defined result\<close>

text \<open>
  A computation is a value of \<open>'a option\<close>: \<open>None\<close> is undefined behaviour (a dereferenced end
  or dangling iterator, a division by zero, a read out of range) or a run that does not return
  (a spin on a lock that is held). Both are what the correctness theorems exclude: they state
  \<open>Some\<close>.
\<close>

lemma bind_eq_SomeI [intro]: "x = Some a \<Longrightarrow> f a = Some b \<Longrightarrow> x \<bind> f = Some b"
  by simp

lemma bind_SomeE [elim]:
  assumes "x \<bind> f = Some b"
  obtains a where "x = Some a" and "f a = Some b"
  using assms by (cases x) auto

section \<open>Association lists\<close>

text \<open>
  \<open>std::unordered_map\<close> is an association list with distinct keys; the order of its entries has
  no meaning (where the source iterates over such a map the order is a parameter).
  \<open>emplace\<close> inserts only when the key is absent.
\<close>

definition emplace :: "'k \<Rightarrow> 'v \<Rightarrow> ('k \<times> 'v) list \<Rightarrow> ('k \<times> 'v) list" where
  "emplace k v m = (case map_of m k of None \<Rightarrow> m @ [(k, v)] | Some _ \<Rightarrow> m)"

lemma map_of_emplace:
  "map_of (emplace k v m) = (case map_of m k of None \<Rightarrow> (map_of m)(k \<mapsto> v) | Some _ \<Rightarrow> map_of m)"
  by (auto simp: emplace_def map_add_def fun_eq_iff split: option.splits)

lemma map_of_emplace_same: "map_of (emplace k v m) k = Some (case map_of m k of None \<Rightarrow> v | Some w \<Rightarrow> w)"
  by (simp add: map_of_emplace split: option.splits)

lemma distinct_emplace [simp]:
  "distinct (map fst m) \<Longrightarrow> distinct (map fst (emplace k v m))"
  by (auto simp: emplace_def map_of_eq_None_iff split: option.splits)

lemma map_of_update [simp]: "map_of (AList.update k v m) = (map_of m)(k \<mapsto> v)"
  by (simp add: update_conv')

lemma map_of_delete [simp]: "map_of (AList.delete k m) = (map_of m)(k := None)"
  by (simp add: delete_conv')

lemma update_twice [simp]: "AList.update k v (AList.update k w m) = AList.update k v m"
  by (induction m) auto

section \<open>Lists ordered by a comparison\<close>

text \<open>
  The elements of a list after the first occurrence of \<open>x\<close>, and the last element before it:
  what \<open>++it\<close> and \<open>--it\<close> reach from an iterator at \<open>x\<close>.
\<close>

fun after :: "'a \<Rightarrow> 'a list \<Rightarrow> 'a list" where
  "after x [] = []"
| "after x (y # ys) = (if y = x then ys else after x ys)"

fun before :: "'a \<Rightarrow> 'a list \<Rightarrow> 'a list" where
  "before x [] = []"
| "before x (y # ys) = (if y = x then [] else y # before x ys)"

lemma after_notin [simp]: "x \<notin> set xs \<Longrightarrow> after x xs = []"
  by (induction xs) auto

lemma after_append [simp]: "x \<notin> set xs \<Longrightarrow> after x (xs @ x # ys) = ys"
  by (induction xs) auto

lemma before_append [simp]: "x \<notin> set xs \<Longrightarrow> before x (xs @ x # ys) = xs"
  by (induction xs) auto

lemma set_after: "set (after x xs) \<subseteq> set xs"
  by (induction xs) auto

lemma before_after: "x \<in> set xs \<Longrightarrow> before x xs @ x # after x xs = xs"
  by (induction xs) auto

text \<open>Insertion into a list kept strictly ordered by \<open>lt\<close> (a \<open>std::set\<close>); an element already there stays.\<close>

fun ins_by :: "('a \<Rightarrow> 'a \<Rightarrow> bool) \<Rightarrow> 'a \<Rightarrow> 'a list \<Rightarrow> 'a list" where
  "ins_by lt x [] = [x]"
| "ins_by lt x (y # ys) = (if lt x y then x # y # ys else if lt y x then y # ins_by lt x ys else y # ys)"

lemma set_ins_by_subset: "set (ins_by lt x ys) \<subseteq> insert x (set ys)"
  by (induction ys) auto

text \<open>A list strictly ordered by an asymmetric relation is determined by its elements.\<close>

lemma sorted_wrt_set_unique:
  assumes asym: "\<And>a b. R a b \<Longrightarrow> \<not> R b a"
    and "sorted_wrt R xs" "sorted_wrt R ys" "set xs = set ys"
  shows "xs = ys"
  using assms(2-)
proof (induction xs arbitrary: ys)
  case (Cons x xs)
  obtain y ys' where ys: "ys = y # ys'"
    using Cons.prems(3) by (cases ys) auto
  have irr: "\<not> R a a" for a
    using asym by blast
  have xy: "x = y"
  proof (rule ccontr)
    assume "x \<noteq> y"
    then have "x \<in> set ys'" "y \<in> set xs"
      using Cons.prems(3) ys by auto
    then show False
      using Cons.prems(1,2) ys asym by auto
  qed
  moreover have "x \<notin> set xs" "y \<notin> set ys'"
    using Cons.prems(1,2) irr ys by auto
  ultimately have "set xs = set ys'"
    using Cons.prems(3) ys by auto
  then show ?case
    using Cons xy ys by auto
qed simp

lemma ins_by_not_Nil [simp]: "ins_by lt x ys \<noteq> []"
  by (cases ys) auto

end
