(* ===== verification/Order.thy ===== *)
theory Order
  imports Prelude
begin

text \<open>
  \<open>matching::order\<close> (\<open>matching/order/inc/matching/order.hpp\<close>): the record every other component
  exchanges. The enumerations of the source have the fixed underlying type \<open>unsigned char\<close>, and
  an order read from the wire may hold any byte in them, so each datatype has, after the source's
  enumerators, one constructor for the bytes that name none of them; \<open>*_byte\<close> and \<open>byte_*\<close> are the
  two directions of the representation.

  The lemmas: \<open>can_amend\<close> compares what it means to compare (its 32-bit flag read is injective),
  \<open>update_display\<close>, and the memory layout of an order (the 160 bytes that are sent between the
  services) read back.
\<close>

section \<open>Enumerations\<close>

datatype order_side = BUY | SELL | BUY_STOP | SELL_STOP | BUY_SELL_STOP | SIDE_OTHER u8

datatype order_type = LIMIT | MARKET | TYPE_OTHER u8

datatype order_action_type =
    NEW | AMEND | CANCEL | DUMP | DUMP_END | INSERT_NEW | INSERT_AMEND | ACTION_OTHER u8

datatype order_time_condition =
    GTC | IOC | FOK | MAKER_ONLY | MAKER_ONLY_REPRICE | AUCTION | EXPIRY | TIME_OTHER u8

datatype order_status_type =
    OPEN | PARTIAL_FILL | FILLED | CANCELED_BY_USER
  | CANCELED_BY_MARKET_ORDER_NOT_FULL_MATCHED | CANCELED_BY_MARKET_ORDER_NOTHING_MATCH
  | CANCELED_ALL_BY_IOC | CANCELED_PARTIAL_BY_IOC | CANCELED_BY_FOK | CANCELED_BY_MAKER_ONLY
  | REJECT_CANCEL_ORDER_ID_NOT_FOUND | REJECT_AMEND_ORDER_ID_NOT_FOUND
  | REJECT_DISPLAY_QUANTITY_LARGER_THAN_QUANTITY | REJECT_BUY_STOP_TRIGGER_LARGE_THAN_STOP_LIMIT
  | REJECT_SELL_STOP_TRIGGER_LESS_THAN_STOP_LIMIT | REJECT_UNKNOW_ORDER_ACTION
  | REJECT_QUANTITY_ZERO | REJECT_LIMITE_ORDER_WITH_MARKET_PRICE
  | CANCELED_ALL_BY_AUCTION | CANCELED_PARTIAL_BY_AUCTION | REJECT_AUCTION_SUPPORT_BUY_SELL_ONLY
  | CANCELED_BY_AMEND | STATUS_OTHER u8

datatype order_matched_type = MAKER | TAKER | MATCHED_OTHER u8

section \<open>The record\<close>

text \<open>The field \<open>type\<close> of the source is \<open>order_kind\<close> here.\<close>

record order =
  account_id :: u64
  market_id :: u64
  price :: ll
  quantity :: u64
  display_quantity :: u64
  remain_quantity :: u64
  last_match_price :: ll
  last_match_quantity :: u64
  order_id :: u64
  client_order_id :: u64
  last_matched_order_id :: u64
  last_matched_order_id2 :: u64
  matched_id :: u64
  buy_stop_trigger_price :: ll
  buy_stop_limit_price :: ll
  sell_stop_trigger_price :: ll
  sell_stop_limit_price :: ll
  side :: order_side
  order_kind :: order_type
  time_condition :: order_time_condition
  filler :: u8
  order_action :: order_action_type
  order_state :: order_status_type
  matched_type :: order_matched_type
  timestamp_epoch_ms :: u64
  request_id :: u64

definition MARKET_PRICE :: ll where
  "MARKET_PRICE = LL_MAX"

definition STOP_PRICE :: ll where
  "STOP_PRICE = LL_MIN"

definition new_order :: order where
  "new_order = \<lparr>
     account_id = 0, market_id = 0, price = MARKET_PRICE, quantity = 0, display_quantity = 0,
     remain_quantity = 0, last_match_price = 0, last_match_quantity = 0, order_id = 0,
     client_order_id = 0, last_matched_order_id = 0, last_matched_order_id2 = 2, matched_id = 0,
     buy_stop_trigger_price = 0, buy_stop_limit_price = MARKET_PRICE,
     sell_stop_trigger_price = 0, sell_stop_limit_price = MARKET_PRICE,
     side = BUY, order_kind = LIMIT, time_condition = GTC, filler = 0, order_action = NEW,
     order_state = OPEN, matched_type = MAKER, timestamp_epoch_ms = 0, request_id = 0\<rparr>"

definition update_display :: "order \<Rightarrow> order" where
  "update_display o1 =
     o1\<lparr>display_quantity :=
          (if display_quantity o1 < remain_quantity o1 then display_quantity o1 else remain_quantity o1)\<rparr>"

section \<open>Bytes of the enumerations\<close>

fun side_byte :: "order_side \<Rightarrow> u8" where
  "side_byte BUY = 0x00"
| "side_byte SELL = 0x01"
| "side_byte BUY_STOP = 0x02"
| "side_byte SELL_STOP = 0x03"
| "side_byte BUY_SELL_STOP = 0x04"
| "side_byte (SIDE_OTHER b) = b"

definition byte_side :: "u8 \<Rightarrow> order_side" where
  "byte_side b =
     (if b = 0x00 then BUY else if b = 0x01 then SELL else if b = 0x02 then BUY_STOP
      else if b = 0x03 then SELL_STOP else if b = 0x04 then BUY_SELL_STOP else SIDE_OTHER b)"

fun type_byte :: "order_type \<Rightarrow> u8" where
  "type_byte LIMIT = 0x00"
| "type_byte MARKET = 0x01"
| "type_byte (TYPE_OTHER b) = b"

definition byte_type :: "u8 \<Rightarrow> order_type" where
  "byte_type b = (if b = 0x00 then LIMIT else if b = 0x01 then MARKET else TYPE_OTHER b)"

fun action_byte :: "order_action_type \<Rightarrow> u8" where
  "action_byte NEW = 0x00"
| "action_byte AMEND = 0x01"
| "action_byte CANCEL = 0x02"
| "action_byte DUMP = 0x03"
| "action_byte DUMP_END = 0x04"
| "action_byte INSERT_NEW = 0x05"
| "action_byte INSERT_AMEND = 0x06"
| "action_byte (ACTION_OTHER b) = b"

definition byte_action :: "u8 \<Rightarrow> order_action_type" where
  "byte_action b =
     (if b = 0x00 then NEW else if b = 0x01 then AMEND else if b = 0x02 then CANCEL
      else if b = 0x03 then DUMP else if b = 0x04 then DUMP_END else if b = 0x05 then INSERT_NEW
      else if b = 0x06 then INSERT_AMEND else ACTION_OTHER b)"

fun time_byte :: "order_time_condition \<Rightarrow> u8" where
  "time_byte GTC = 0x00"
| "time_byte IOC = 0x01"
| "time_byte FOK = 0x02"
| "time_byte MAKER_ONLY = 0x03"
| "time_byte MAKER_ONLY_REPRICE = 0x04"
| "time_byte AUCTION = 0x05"
| "time_byte EXPIRY = 0x06"
| "time_byte (TIME_OTHER b) = b"

definition byte_time :: "u8 \<Rightarrow> order_time_condition" where
  "byte_time b =
     (if b = 0x00 then GTC else if b = 0x01 then IOC else if b = 0x02 then FOK
      else if b = 0x03 then MAKER_ONLY else if b = 0x04 then MAKER_ONLY_REPRICE
      else if b = 0x05 then AUCTION else if b = 0x06 then EXPIRY else TIME_OTHER b)"

fun status_byte :: "order_status_type \<Rightarrow> u8" where
  "status_byte OPEN = 0x00"
| "status_byte PARTIAL_FILL = 0x01"
| "status_byte FILLED = 0x02"
| "status_byte CANCELED_BY_USER = 0x03"
| "status_byte CANCELED_BY_MARKET_ORDER_NOT_FULL_MATCHED = 0x04"
| "status_byte CANCELED_BY_MARKET_ORDER_NOTHING_MATCH = 0x05"
| "status_byte CANCELED_ALL_BY_IOC = 0x06"
| "status_byte CANCELED_PARTIAL_BY_IOC = 0x07"
| "status_byte CANCELED_BY_FOK = 0x08"
| "status_byte CANCELED_BY_MAKER_ONLY = 0x09"
| "status_byte REJECT_CANCEL_ORDER_ID_NOT_FOUND = 0x0A"
| "status_byte REJECT_AMEND_ORDER_ID_NOT_FOUND = 0x0B"
| "status_byte REJECT_DISPLAY_QUANTITY_LARGER_THAN_QUANTITY = 0x0C"
| "status_byte REJECT_BUY_STOP_TRIGGER_LARGE_THAN_STOP_LIMIT = 0x0D"
| "status_byte REJECT_SELL_STOP_TRIGGER_LESS_THAN_STOP_LIMIT = 0x12"
| "status_byte REJECT_UNKNOW_ORDER_ACTION = 0x14"
| "status_byte REJECT_QUANTITY_ZERO = 0x15"
| "status_byte REJECT_LIMITE_ORDER_WITH_MARKET_PRICE = 0x16"
| "status_byte CANCELED_ALL_BY_AUCTION = 0x17"
| "status_byte CANCELED_PARTIAL_BY_AUCTION = 0x18"
| "status_byte REJECT_AUCTION_SUPPORT_BUY_SELL_ONLY = 0x19"
| "status_byte CANCELED_BY_AMEND = 0x20"
| "status_byte (STATUS_OTHER b) = b"

definition byte_status :: "u8 \<Rightarrow> order_status_type" where
  "byte_status b =
     (if b = 0x00 then OPEN else if b = 0x01 then PARTIAL_FILL else if b = 0x02 then FILLED
      else if b = 0x03 then CANCELED_BY_USER
      else if b = 0x04 then CANCELED_BY_MARKET_ORDER_NOT_FULL_MATCHED
      else if b = 0x05 then CANCELED_BY_MARKET_ORDER_NOTHING_MATCH
      else if b = 0x06 then CANCELED_ALL_BY_IOC else if b = 0x07 then CANCELED_PARTIAL_BY_IOC
      else if b = 0x08 then CANCELED_BY_FOK else if b = 0x09 then CANCELED_BY_MAKER_ONLY
      else if b = 0x0A then REJECT_CANCEL_ORDER_ID_NOT_FOUND
      else if b = 0x0B then REJECT_AMEND_ORDER_ID_NOT_FOUND
      else if b = 0x0C then REJECT_DISPLAY_QUANTITY_LARGER_THAN_QUANTITY
      else if b = 0x0D then REJECT_BUY_STOP_TRIGGER_LARGE_THAN_STOP_LIMIT
      else if b = 0x12 then REJECT_SELL_STOP_TRIGGER_LESS_THAN_STOP_LIMIT
      else if b = 0x14 then REJECT_UNKNOW_ORDER_ACTION
      else if b = 0x15 then REJECT_QUANTITY_ZERO
      else if b = 0x16 then REJECT_LIMITE_ORDER_WITH_MARKET_PRICE
      else if b = 0x17 then CANCELED_ALL_BY_AUCTION else if b = 0x18 then CANCELED_PARTIAL_BY_AUCTION
      else if b = 0x19 then REJECT_AUCTION_SUPPORT_BUY_SELL_ONLY
      else if b = 0x20 then CANCELED_BY_AMEND else STATUS_OTHER b)"

fun matched_byte :: "order_matched_type \<Rightarrow> u8" where
  "matched_byte MAKER = 0x00"
| "matched_byte TAKER = 0x01"
| "matched_byte (MATCHED_OTHER b) = b"

definition byte_matched :: "u8 \<Rightarrow> order_matched_type" where
  "byte_matched b = (if b = 0x00 then MAKER else if b = 0x01 then TAKER else MATCHED_OTHER b)"

text \<open>
  An enumeration value is canonical when it is the reading of its own byte. All values that are
  not built with an \<open>_OTHER\<close> constructor are, and everything read from memory is.
\<close>

definition canonical_order :: "order \<Rightarrow> bool" where
  "canonical_order o1 \<longleftrightarrow>
     byte_side (side_byte (side o1)) = side o1 \<and> byte_type (type_byte (order_kind o1)) = order_kind o1
     \<and> byte_time (time_byte (time_condition o1)) = time_condition o1
     \<and> byte_action (action_byte (order_action o1)) = order_action o1
     \<and> byte_status (status_byte (order_state o1)) = order_state o1
     \<and> byte_matched (matched_byte (matched_type o1)) = matched_type o1"

named_theorems enum_bytes \<open>an enumeration and its byte\<close>

lemma side_byte_byte_side [enum_bytes, simp]: "side_byte (byte_side b) = b"
  by (simp add: byte_side_def)

lemma type_byte_byte_type [enum_bytes, simp]: "type_byte (byte_type b) = b"
  by (simp add: byte_type_def)

lemma action_byte_byte_action [enum_bytes, simp]: "action_byte (byte_action b) = b"
  by (simp add: byte_action_def)

lemma time_byte_byte_time [enum_bytes, simp]: "time_byte (byte_time b) = b"
  by (simp add: byte_time_def)

lemma status_byte_byte_status [enum_bytes, simp]: "status_byte (byte_status b) = b"
  by (simp add: byte_status_def)

lemma matched_byte_byte_matched [enum_bytes, simp]: "matched_byte (byte_matched b) = b"
  by (simp add: byte_matched_def)

section \<open>Comparing two orders for an amendment\<close>

text \<open>
  \<open>_get_flag_value\<close> reads the four bytes at \<open>side\<close> (\<open>side\<close>, \<open>type\<close>, \<open>time_condition\<close>, \<open>filler\<close>)
  as one little-endian 32-bit number.
\<close>

definition get_flag_value :: "order \<Rightarrow> 32 word" where
  "get_flag_value o1 =
     of_nat (unat (side_byte (side o1)) + 256 * (unat (type_byte (order_kind o1))
       + 256 * (unat (time_byte (time_condition o1)) + 256 * unat (filler o1))))"

definition can_amend :: "order \<Rightarrow> order \<Rightarrow> bool" where
  "can_amend o1 o2 =
     (if get_flag_value o1 \<noteq> get_flag_value o2 then False
      else if (if side o1 = BUY \<or> side o1 = SELL then price o1 \<noteq> price o2
               else if side o1 = BUY_STOP then
                 buy_stop_limit_price o1 \<noteq> buy_stop_limit_price o2
                 \<or> buy_stop_trigger_price o1 \<noteq> buy_stop_trigger_price o2
               else if side o1 = SELL_STOP then
                 sell_stop_limit_price o1 \<noteq> sell_stop_limit_price o2
                 \<or> sell_stop_trigger_price o1 \<noteq> sell_stop_trigger_price o2
               else
                 buy_stop_limit_price o1 \<noteq> buy_stop_limit_price o2
                 \<or> buy_stop_trigger_price o1 \<noteq> buy_stop_trigger_price o2
                 \<or> sell_stop_limit_price o1 \<noteq> sell_stop_limit_price o2
                 \<or> sell_stop_trigger_price o1 \<noteq> sell_stop_trigger_price o2) then False
      else if quantity o1 > remain_quantity o2 then False
      else True)"

lemma unat_u8_less [simp]: "unat (b::u8) < 256"
  using unsigned_less [of b] by simp

lemma get_flag_value_eq_iff:
  "get_flag_value o1 = get_flag_value o2 \<longleftrightarrow>
     side_byte (side o1) = side_byte (side o2) \<and> type_byte (order_kind o1) = type_byte (order_kind o2)
     \<and> time_byte (time_condition o1) = time_byte (time_condition o2) \<and> filler o1 = filler o2"
proof -
  have digits: "a + 256 * b = a' + 256 * b' \<longleftrightarrow> a = a' \<and> b = b'"
    if "a < 256" "a' < 256" for a b a' b' :: nat
  proof
    assume eq: "a + 256 * b = a' + 256 * b'"
    then have "(a + 256 * b) mod 256 = (a' + 256 * b') mod 256" by simp
    then have "a = a'" using that by (simp only: mod_mult_self2 mod_less)
    then show "a = a' \<and> b = b'" using eq by simp
  qed simp
  have "unat (get_flag_value x) =
      unat (side_byte (side x)) + 256 * (unat (type_byte (order_kind x))
       + 256 * (unat (time_byte (time_condition x)) + 256 * unat (filler x)))" for x
  proof -
    have "a + 256 * (b + 256 * (c + 256 * d)) < 4294967296"
      if "a < 256" "b < 256" "c < 256" "d < 256" for a b c d :: nat
    proof -
      have step: "x + 256 * y < 256 * n" if "x < 256" "y < n" for x y n :: nat
        using that by linarith
      show ?thesis
        using step [OF that(1) step [OF that(2) step [OF that(3,4)]]] by simp
    qed
    from this [of "unat (side_byte (side x))" "unat (type_byte (order_kind x))"
        "unat (time_byte (time_condition x))" "unat (filler x)"]
    show ?thesis
      unfolding get_flag_value_def by (subst unat_of_nat_id) simp_all
  qed
  then have "get_flag_value o1 = get_flag_value o2 \<longleftrightarrow>
     unat (side_byte (side o1)) + 256 * (unat (type_byte (order_kind o1))
       + 256 * (unat (time_byte (time_condition o1)) + 256 * unat (filler o1))) =
     unat (side_byte (side o2)) + 256 * (unat (type_byte (order_kind o2))
       + 256 * (unat (time_byte (time_condition o2)) + 256 * unat (filler o2)))"
    by (simp only: word_unat_eq_iff)
  also have "\<dots> \<longleftrightarrow> unat (side_byte (side o1)) = unat (side_byte (side o2))
     \<and> unat (type_byte (order_kind o1)) = unat (type_byte (order_kind o2))
     \<and> unat (time_byte (time_condition o1)) = unat (time_byte (time_condition o2))
     \<and> unat (filler o1) = unat (filler o2)"
    by (simp only: digits [OF unat_u8_less unat_u8_less])
  finally show ?thesis
    by (simp only: word_unat_eq_iff)
qed

section \<open>The 160 bytes of an order\<close>

text \<open>
  The services exchange orders as the raw memory of the struct (\<open>sizeof(order)\<close> bytes, reinterpreted
  at the other end): seventeen 64-bit fields, seven single bytes, one byte of padding and two more
  64-bit fields, little-endian, as the x86-64 layout of the declaration has them.
\<close>

fun le_bytes :: "nat \<Rightarrow> nat \<Rightarrow> u8 list" where
  "le_bytes 0 x = []"
| "le_bytes (Suc k) x = of_nat (x mod 256) # le_bytes k (x div 256)"

fun le_nat :: "u8 list \<Rightarrow> nat" where
  "le_nat [] = 0"
| "le_nat (b # bs) = unat b + 256 * le_nat bs"

definition sizeof_order :: nat where
  "sizeof_order = 160"

definition bytes_u64 :: "u64 \<Rightarrow> u8 list" where
  "bytes_u64 w = le_bytes 8 (unat w)"

definition u64_at :: "u8 list \<Rightarrow> nat \<Rightarrow> u64" where
  "u64_at bs off = of_nat (le_nat (take 8 (drop off bs)))"

definition ll_at :: "u8 list \<Rightarrow> nat \<Rightarrow> ll" where
  "ll_at bs off = ll_of_u64 (u64_at bs off)"

definition order_bytes :: "u8 \<Rightarrow> order \<Rightarrow> u8 list" where
  "order_bytes padding o1 =
     concat (map bytes_u64
       [account_id o1, market_id o1, u64_of_ll (price o1), quantity o1, display_quantity o1,
        remain_quantity o1, u64_of_ll (last_match_price o1), last_match_quantity o1, order_id o1,
        client_order_id o1, last_matched_order_id o1, last_matched_order_id2 o1, matched_id o1,
        u64_of_ll (buy_stop_trigger_price o1), u64_of_ll (buy_stop_limit_price o1),
        u64_of_ll (sell_stop_trigger_price o1), u64_of_ll (sell_stop_limit_price o1)])
     @ [side_byte (side o1), type_byte (order_kind o1), time_byte (time_condition o1), filler o1,
        action_byte (order_action o1), status_byte (order_state o1), matched_byte (matched_type o1), padding]
     @ bytes_u64 (timestamp_epoch_ms o1) @ bytes_u64 (request_id o1)"

definition order_at :: "u8 list \<Rightarrow> order" where
  "order_at bs = \<lparr>
     account_id = u64_at bs 0, market_id = u64_at bs 8, price = ll_at bs 16, quantity = u64_at bs 24,
     display_quantity = u64_at bs 32, remain_quantity = u64_at bs 40, last_match_price = ll_at bs 48,
     last_match_quantity = u64_at bs 56, order_id = u64_at bs 64, client_order_id = u64_at bs 72,
     last_matched_order_id = u64_at bs 80, last_matched_order_id2 = u64_at bs 88,
     matched_id = u64_at bs 96, buy_stop_trigger_price = ll_at bs 104,
     buy_stop_limit_price = ll_at bs 112, sell_stop_trigger_price = ll_at bs 120,
     sell_stop_limit_price = ll_at bs 128, side = byte_side (bs ! 136), order_kind = byte_type (bs ! 137),
     time_condition = byte_time (bs ! 138), filler = bs ! 139, order_action = byte_action (bs ! 140),
     order_state = byte_status (bs ! 141), matched_type = byte_matched (bs ! 142),
     timestamp_epoch_ms = u64_at bs 144, request_id = u64_at bs 152\<rparr>"

definition wf_order :: "order \<Rightarrow> bool" where
  "wf_order o1 \<longleftrightarrow> canonical_order o1 \<and> is_ll (price o1) \<and> is_ll (last_match_price o1)
     \<and> is_ll (buy_stop_trigger_price o1) \<and> is_ll (buy_stop_limit_price o1)
     \<and> is_ll (sell_stop_trigger_price o1) \<and> is_ll (sell_stop_limit_price o1)"

lemma length_le_bytes [simp]: "length (le_bytes k x) = k"
  by (induction k arbitrary: x) auto

lemma length_bytes_u64 [simp]: "length (bytes_u64 w) = 8"
  by (simp add: bytes_u64_def)

lemma length_order_bytes [simp]: "length (order_bytes pad o1) = sizeof_order"
  by (simp add: order_bytes_def sizeof_order_def)

lemma le_nat_le_bytes: "le_nat (le_bytes k x) = x mod 256 ^ k"
  by (induction k arbitrary: x) (simp_all add: unat_of_nat mod_mult2_eq)

lemma u64_of_bytes [simp]: "of_nat (le_nat (bytes_u64 w)) = w"
proof -
  have "unat w < 256 ^ 8"
    using unsigned_less [of w] by simp
  then show ?thesis
    by (simp add: bytes_u64_def le_nat_le_bytes)
qed

lemma u64_at_app:
  "u64_at (bytes_u64 w @ bs) 0 = w"
  "length as = n \<Longrightarrow> n \<le> off \<Longrightarrow> u64_at (as @ bs) off = u64_at bs (off - n)"
  by (simp_all add: u64_at_def)

lemma order_at_bytes:
  assumes "wf_order o1"
  shows "order_at (order_bytes pad o1) = o1"
proof -
  have u64_at_skip: "u64_at (bytes_u64 w @ bs) n = u64_at bs (n - 8)"
    and nth_skip: "(bytes_u64 w @ bs) ! n = bs ! (n - 8)" if "8 \<le> n" for w bs n
    using that by (simp_all add: u64_at_app nth_append)
  have u64_at_skip1: "u64_at (b # bs) n = u64_at bs (n - 1)" if "0 < n" for b bs n
    using that by (cases n) (simp_all add: u64_at_def)
  show ?thesis
    using assms unfolding wf_order_def canonical_order_def
    by (cases o1) (simp add: order_at_def order_bytes_def ll_at_def ll_roundtrip u64_at_app(1)
        u64_at_app(1) [where bs = "[]", simplified] u64_at_skip nth_skip u64_at_skip1)
qed

section \<open>Facts about the operations\<close>

lemma update_display_le: "display_quantity (update_display o1) \<le> remain_quantity (update_display o1)"
  by (auto simp: update_display_def)

lemma update_display_id: "display_quantity o1 \<le> remain_quantity o1 \<Longrightarrow> update_display o1 = o1"
  by (simp add: update_display_def)

lemma can_amend_quantity: "can_amend o1 o2 \<Longrightarrow> quantity o1 \<le> remain_quantity o2"
  by (auto simp: can_amend_def split: if_splits)

lemma can_amend_flags:
  assumes "can_amend o1 o2" "canonical_order o1" "canonical_order o2"
  shows "side o1 = side o2 \<and> order_kind o1 = order_kind o2 \<and> time_condition o1 = time_condition o2
     \<and> filler o1 = filler o2"
proof -
  have "get_flag_value o1 = get_flag_value o2"
    using assms(1) by (simp add: can_amend_def split: if_splits)
  then show ?thesis
    using assms(2,3) unfolding get_flag_value_eq_iff canonical_order_def by metis
qed

end
