(* ===== verification/Order_Handler.thy ===== *)
theory Order_Handler
  imports Order
begin

text \<open>
  \<open>matching::order_handler\<close> (\<open>matching/order/inc/matching/order_handler.hpp\<close>) cuts the byte stream
  of a connection into orders: \<open>handle\<close> is given whatever one read returned and calls the handler
  once per complete order, keeping the bytes of an incomplete one in \<open>buff_\<close> / \<open>rest_\<close>. The calls to
  the handler are the list of orders a call returns.

  The lemmas: the invariant (\<open>rest_ < sizeof(order)\<close>, the buffer keeps its size), the abstract
  behaviour (the handler sees the stream, however it was cut) and, with the memory layout of
  \<open>Order\<close>, that what one end sends is what the other end's handler is called with.
\<close>

section \<open>State and operations\<close>

record order_handler =
  buff :: "u8 list"
  rest :: nat

definition new_handler :: order_handler where
  "new_handler = \<lparr>buff = replicate sizeof_order 0, rest = 0\<rparr>"

text \<open>Moving a handler: construction starts afresh, assignment takes the pending bytes along.\<close>

definition move_construct :: "order_handler \<Rightarrow> order_handler" where
  "move_construct h = new_handler"

definition memcpy :: "u8 list \<Rightarrow> nat \<Rightarrow> u8 list \<Rightarrow> u8 list" where
  "memcpy dst off src = take off dst @ src @ drop (off + length src) dst"

definition move_assign :: "order_handler \<Rightarrow> order_handler \<Rightarrow> order_handler" where
  "move_assign this h = this\<lparr>buff := memcpy (buff this) 0 (take (rest h) (buff h)), rest := rest h\<rparr>"

text \<open>The \<open>while\<close> loop over the complete orders of a read.\<close>

function deliver :: "u8 list \<Rightarrow> order list \<times> u8 list" where
  "deliver bs =
     (if length bs \<ge> sizeof_order then
        let (os, left) = deliver (drop sizeof_order bs) in (order_at (take sizeof_order bs) # os, left)
      else ([], bs))"
  by pat_completeness auto
termination
  by (relation "measure length") (auto simp: sizeof_order_def)

declare deliver.simps [simp del]

definition keep_left :: "order_handler \<Rightarrow> u8 list \<Rightarrow> order_handler" where
  "keep_left h left =
     (if length left \<noteq> 0 then h\<lparr>buff := memcpy (buff h) 0 left, rest := length left\<rparr> else h)"

definition handle_bytes :: "order_handler \<Rightarrow> u8 list \<Rightarrow> order list \<times> order_handler" where
  "handle_bytes h bs =
     (if rest h \<noteq> 0 then
        let need = sizeof_order - rest h;
            cp_size = (if need < length bs then need else length bs);
            h1 = h\<lparr>buff := memcpy (buff h) (rest h) (take cp_size bs), rest := rest h + cp_size\<rparr>
        in if sizeof_order \<noteq> rest h1 then ([], h1)
           else let first = order_at (buff h1);
                    (os, left) = deliver (drop cp_size bs)
                in (first # os, keep_left (h1\<lparr>rest := 0\<rparr>) left)
      else let (os, left) = deliver bs in (os, keep_left h left))"

text \<open>The reads of a connection, in order.\<close>

fun handle_reads :: "order_handler \<Rightarrow> u8 list list \<Rightarrow> order list \<times> order_handler" where
  "handle_reads h [] = ([], h)"
| "handle_reads h (bs # bss) =
     (let (os, h1) = handle_bytes h bs; (os', h2) = handle_reads h1 bss in (os @ os', h2))"

section \<open>Invariant and abstract behaviour\<close>

definition wf_handler :: "order_handler \<Rightarrow> bool" where
  "wf_handler h \<longleftrightarrow> length (buff h) = sizeof_order \<and> rest h < sizeof_order"

definition pending :: "order_handler \<Rightarrow> u8 list" where
  "pending h = take (rest h) (buff h)"

lemma deliver_short [simp]: "length bs < sizeof_order \<Longrightarrow> deliver bs = ([], bs)"
  by (simp add: deliver.simps [of bs])

lemma deliver_chunk:
  "length c = sizeof_order \<Longrightarrow>
     deliver (c @ bs) = (order_at c # fst (deliver bs), snd (deliver bs))"
  by (simp add: deliver.simps [of "c @ bs"] split: prod.splits)

lemma deliver_left: "length (snd (deliver bs)) < sizeof_order"
proof (induction bs rule: deliver.induct)
  case (1 bs)
  then show ?case
    by (cases "length bs \<ge> sizeof_order") (auto simp: deliver.simps [of bs] split: prod.splits)
qed

lemma deliver_append:
  "deliver (xs @ ys) =
     (fst (deliver xs) @ fst (deliver (snd (deliver xs) @ ys)), snd (deliver (snd (deliver xs) @ ys)))"
proof (induction xs rule: deliver.induct)
  case (1 bs)
  show ?case
  proof (cases "length bs \<ge> sizeof_order")
    case True
    define c r where "c = take sizeof_order bs" and "r = drop sizeof_order bs"
    have c: "length c = sizeof_order" and bs: "bs = c @ r"
      using True by (simp_all add: c_def r_def)
    have "deliver (r @ ys) =
       (fst (deliver r) @ fst (deliver (snd (deliver r) @ ys)), snd (deliver (snd (deliver r) @ ys)))"
      using "1"[OF True] by (simp add: r_def)
    then show ?thesis
      by (simp add: bs deliver_chunk [OF c])
  qed simp
qed

lemma memcpy_at [simp]:
  "off + length src \<le> length dst \<Longrightarrow> length (memcpy dst off src) = length dst"
  by (simp add: memcpy_def)

lemma take_memcpy:
  "off + length src \<le> length dst \<Longrightarrow> take (off + length src) (memcpy dst off src) = take off dst @ src"
  by (simp add: memcpy_def)

lemma keep_left_ok:
  assumes "length (buff h) = sizeof_order" "rest h = 0" "length left < sizeof_order"
  shows "wf_handler (keep_left h left)" "pending (keep_left h left) = left"
  using assms take_memcpy [of 0 left "buff h"]
  by (auto simp: keep_left_def wf_handler_def pending_def sizeof_order_def)

lemma wf_new_handler: "wf_handler new_handler" "pending new_handler = []"
  by (simp_all add: wf_handler_def pending_def new_handler_def sizeof_order_def)

lemma handle_bytes_ok:
  assumes wf: "wf_handler h"
  shows "wf_handler (snd (handle_bytes h bs))
    \<and> fst (handle_bytes h bs) = fst (deliver (pending h @ bs))
    \<and> pending (snd (handle_bytes h bs)) = snd (deliver (pending h @ bs))"
proof (cases "rest h = 0")
  case True
  then show ?thesis
    using wf keep_left_ok [of h "snd (deliver bs)"] deliver_left [of bs]
    by (auto simp: handle_bytes_def pending_def wf_handler_def split: prod.splits)
next
  case False
  define n where "n = sizeof_order - rest h"
  have len: "length (pending h) = rest h" and r: "rest h + n = sizeof_order"
    using wf by (simp_all add: wf_handler_def pending_def n_def)
  show ?thesis
  proof (cases "length bs < n")
    case True
    then show ?thesis
      using False wf r take_memcpy [of "rest h" bs "buff h"] len
      by (auto simp: handle_bytes_def n_def [symmetric] wf_handler_def pending_def)
  next
    case ge: False
    define c where "c = memcpy (buff h) (rest h) (take n bs)"
    have c: "c = pending h @ take n bs" "length c = sizeof_order"
      using ge r wf by (auto simp: c_def memcpy_def wf_handler_def pending_def)
    have split: "pending h @ bs = c @ drop n bs"
      by (simp add: c(1))
    have cp: "(if n < length bs then n else length bs) = n"
      using ge by simp
    show ?thesis
      unfolding handle_bytes_def split deliver_chunk [OF c(2)]
      using False r c(2) keep_left_ok [of "h\<lparr>buff := c, rest := 0\<rparr>" "snd (deliver (drop n bs))"]
        deliver_left [of "drop n bs"]
      by (auto simp: n_def [symmetric] cp c_def [symmetric] Let_def split: prod.splits)
  qed
qed

lemma handle_reads_ok:
  "wf_handler h \<Longrightarrow> wf_handler (snd (handle_reads h bss))
    \<and> fst (handle_reads h bss) = fst (deliver (pending h @ concat bss))
    \<and> pending (snd (handle_reads h bss)) = snd (deliver (pending h @ concat bss))"
proof (induction bss arbitrary: h)
  case Nil
  then show ?case
    by (simp add: wf_handler_def pending_def)
next
  case (Cons bs bss)
  have step: "wf_handler (snd (handle_bytes h bs))"
    "fst (handle_bytes h bs) = fst (deliver (pending h @ bs))"
    "pending (snd (handle_bytes h bs)) = snd (deliver (pending h @ bs))"
    using handle_bytes_ok [OF Cons.prems, of bs] by simp_all
  then show ?case
    using Cons.IH [OF step(1)] deliver_append [of "pending h @ bs" "concat bss"]
    by (simp add: split_beta)
qed

lemma deliver_orders:
  assumes "\<forall>o1 \<in> set os. wf_order o1"
  shows "deliver (concat (map (order_bytes pad) os)) = (os, [])"
  using assms
proof (induction os)
  case Nil
  show ?case
    by (simp add: sizeof_order_def)
next
  case (Cons o1 os)
  then show ?case
    by (simp add: deliver_chunk order_at_bytes)
qed

section \<open>Properties\<close>

text \<open>
  C39: whatever way the network cuts the stream, the handler is called with the same
  orders as for the stream in one piece, the buffer never overruns and the unread tail is kept.
\<close>

theorem handle_reads_independent_of_cuts:
  assumes "wf_handler h" and "concat bss = concat bss'"
  shows "fst (handle_reads h bss) = fst (handle_reads h bss')
    \<and> pending (snd (handle_reads h bss)) = pending (snd (handle_reads h bss'))
    \<and> wf_handler (snd (handle_reads h bss))"
  using handle_reads_ok [OF assms(1), of bss] handle_reads_ok [OF assms(1), of bss'] assms(2)
  by simp

theorem handle_reads_cuts_witness:
  "fst (handle_reads new_handler [[1, 2], [3]]) = fst (handle_reads new_handler [[1], [], [2, 3]])"
  using handle_reads_independent_of_cuts [of new_handler "[[1, 2], [3]]" "[[1], [], [2, 3]]"]
    wf_new_handler(1)
  by simp

text \<open>
  C40: the bytes of any sequence of orders, cut anywhere, make a fresh handler call its
  callback with exactly those orders, in order, and leave nothing pending.
\<close>

theorem handle_reads_roundtrip:
  assumes "\<forall>o1 \<in> set os. wf_order o1" and "concat bss = concat (map (order_bytes pad) os)"
  shows "fst (handle_reads new_handler bss) = os \<and> pending (snd (handle_reads new_handler bss)) = []"
  using handle_reads_ok [OF wf_new_handler(1), of bss] assms deliver_orders [OF assms(1), of pad]
    wf_new_handler(2)
  by simp

theorem handle_reads_roundtrip_witness:
  "fst (handle_reads new_handler [take 3 (order_bytes 0 new_order), drop 3 (order_bytes 0 new_order)])
     = [new_order]"
proof -
  have "wf_order new_order"
    by (simp add: wf_order_def new_order_def canonical_order_def is_ll_def LL_MIN_def LL_MAX_def
        MARKET_PRICE_def byte_side_def byte_type_def byte_time_def byte_action_def byte_status_def
        byte_matched_def)
  then show ?thesis
    using handle_reads_roundtrip [of "[new_order]"
        "[take 3 (order_bytes 0 new_order), drop 3 (order_bytes 0 new_order)]" 0]
    by simp
qed

end
