(* ===== verification/Book.thy ===== *)
theory Book
  imports Order
begin

text \<open>
  The books of an engine (the type aliases at the head of \<open>matching/inc/matching/engine.hpp\<close>).
  A book is a \<open>std::map\<close> from prices to levels, kept in the order of its comparison: \<open>std::greater\<close>
  for the bids, \<open>std::less\<close> for the asks (and the other way round for the stop books). A level is a
  \<open>std::map\<close> (or, in the stop books, a \<open>std::set\<close>) of the orders at that price in ascending
  order of their ids, that is, of their age. The entries are pointers to the slots of the engine's
  order map; a slot's address is named by the order id it is filed under.

  The model keeps a book as the list of its levels in iteration order. The lemmas are proved once,
  in a locale over the comparison, for the two comparisons the source uses.
\<close>

type_synonym book = "(ll \<times> u64 list) list"

type_synonym key_comp = "ll \<Rightarrow> ll \<Rightarrow> bool"

definition greater :: key_comp where
  "greater a b \<longleftrightarrow> a > b"

definition less :: key_comp where
  "less a b \<longleftrightarrow> a < b"

section \<open>Operations\<close>

text \<open>\<open>book[px][oid] = ptr\<close>: the level is made when the price has none.\<close>

fun book_insert :: "key_comp \<Rightarrow> ll \<Rightarrow> u64 \<Rightarrow> book \<Rightarrow> book" where
  "book_insert cmp px oid [] = [(px, [oid])]"
| "book_insert cmp px oid ((q, ids) # ls) =
     (if cmp px q then (px, [oid]) # (q, ids) # ls
      else if cmp q px then (q, ids) # book_insert cmp px oid ls
      else (q, ins_by (<) oid ids) # ls)"

text \<open>
  \<open>level.erase(oid)\<close>, then the level itself when it is empty: \<open>erase_from_normal_book\<close> and the two
  \<open>erase_*_stop\<close> functions. \<open>find\<close> of a price without a level is the end iterator, which they
  dereference: \<open>None\<close>.
\<close>

definition erase_from_book :: "ll \<Rightarrow> u64 \<Rightarrow> book \<Rightarrow> book option" where
  "erase_from_book px oid bk =
     (case map_of bk px of
        None \<Rightarrow> None
      | Some ids \<Rightarrow>
          (let ids' = remove1 oid ids
           in Some (if ids' = [] then AList.delete px bk else AList.update px ids' bk)))"

text \<open>\<open>begin()\<close> of the first level: \<open>Some None\<close> is the end iterator; an empty level has no first entry.\<close>

fun book_begin :: "book \<Rightarrow> (ll \<times> u64) option option" where
  "book_begin [] = Some None"
| "book_begin ((px, oid # ids) # ls) = Some (Some (px, oid))"
| "book_begin ((px, []) # ls) = None"

fun levels_after :: "ll \<Rightarrow> book \<Rightarrow> book" where
  "levels_after px [] = []"
| "levels_after px ((q, ids) # ls) = (if q = px then ls else levels_after px ls)"

fun levels_before :: "ll \<Rightarrow> book \<Rightarrow> book" where
  "levels_before px [] = []"
| "levels_before px ((q, ids) # ls) = (if q = px then [] else (q, ids) # levels_before px ls)"

text \<open>The entries of a book in iteration order, each with the price of its level.\<close>

definition entries :: "book \<Rightarrow> (ll \<times> u64) list" where
  "entries bk = concat (map (\<lambda>(px, ids). map (Pair px) ids) bk)"

text \<open>Price-time priority: by price in the order of the book, at one price by id.\<close>

definition entry_before :: "key_comp \<Rightarrow> ll \<times> u64 \<Rightarrow> ll \<times> u64 \<Rightarrow> bool" where
  "entry_before cmp = (\<lambda>(p, i) (q, j). cmp p q \<or> p = q \<and> i < j)"

definition book_ids :: "book \<Rightarrow> u64 list" where
  "book_ids bk = map snd (entries bk)"

text \<open>Well-formed: levels strictly ordered by price, entries of a level by id, no level empty.\<close>

definition wf_book :: "key_comp \<Rightarrow> book \<Rightarrow> bool" where
  "wf_book cmp bk \<longleftrightarrow> sorted_wrt cmp (map fst bk) \<and> (\<forall>(px, ids) \<in> set bk. ids \<noteq> [] \<and> sorted_wrt (<) ids)"

section \<open>Entries\<close>

lemma entries_Nil [simp]: "entries [] = []"
  by (simp add: entries_def)

lemma entries_Cons [simp]: "entries ((px, ids) # ls) = map (Pair px) ids @ entries ls"
  by (simp add: entries_def)

lemma entries_append [simp]: "entries (xs @ ys) = entries xs @ entries ys"
  by (simp add: entries_def)

lemma in_entries: "(px, oid) \<in> set (entries bk) \<longleftrightarrow> (\<exists>ids. (px, ids) \<in> set bk \<and> oid \<in> set ids)"
  by (induction bk) auto

lemma book_ids_Nil [simp]: "book_ids [] = []"
  by (simp add: book_ids_def)

lemma book_ids_Cons [simp]: "book_ids ((px, ids) # ls) = ids @ book_ids ls"
  by (simp add: book_ids_def comp_def)

lemma in_book_ids: "oid \<in> set (book_ids bk) \<longleftrightarrow> (\<exists>px. (px, oid) \<in> set (entries bk))"
  by (force simp: book_ids_def)

lemma wf_book_Nil [simp]: "wf_book cmp []"
  by (simp add: wf_book_def)

lemma wf_book_Cons:
  "wf_book cmp ((px, ids) # ls) \<longleftrightarrow>
     ids \<noteq> [] \<and> sorted_wrt (<) ids \<and> (\<forall>q \<in> fst ` set ls. cmp px q) \<and> wf_book cmp ls"
  by (auto simp: wf_book_def)

lemma wf_book_begin:
  "wf_book cmp bk \<Longrightarrow> book_begin bk = Some (case entries bk of [] \<Rightarrow> None | e # _ \<Rightarrow> Some e)"
  by (cases bk rule: book_begin.cases) (auto simp: wf_book_def)

lemma wf_book_entries_Nil: "wf_book cmp bk \<Longrightarrow> entries bk = [] \<longleftrightarrow> bk = []"
  by (cases bk rule: book_begin.cases) (auto simp: wf_book_def)

lemma sorted_ins_by_less:
  "sorted_wrt (<) ids \<Longrightarrow> sorted_wrt (<) (ins_by (<) (x::u64) ids) \<and> set (ins_by (<) x ids) = insert x (set ids)"
  by (induction ids) auto

lemma sorted_remove1:
  "sorted_wrt (<) (ids :: u64 list) \<Longrightarrow> sorted_wrt (<) (remove1 x ids) \<and> set (remove1 x ids) = set ids - {x}"
  by (induction ids) auto

section \<open>Books over a comparison\<close>

text \<open>
  What the source relies on of \<open>std::greater<long long>\<close> and \<open>std::less<long long>\<close>: a strict
  total order. Under it the operations keep a book well-formed and do to its set of entries what
  the map operations promise.
\<close>

locale price_order =
  fixes cmp :: key_comp
  assumes cmp_irrefl: "\<not> cmp a a"
    and cmp_trans: "cmp a b \<Longrightarrow> cmp b c \<Longrightarrow> cmp a c"
    and cmp_total: "a \<noteq> b \<Longrightarrow> cmp a b \<or> cmp b a"
begin

lemma wf_book_distinct: "wf_book cmp bk \<Longrightarrow> distinct (map fst bk)"
proof -
  have "sorted_wrt cmp xs \<Longrightarrow> distinct xs" for xs
    using cmp_irrefl by (induction xs) auto
  then show "wf_book cmp bk \<Longrightarrow> distinct (map fst bk)"
    by (simp add: wf_book_def)
qed

lemma later_price:
  assumes "wf_book cmp ((q, ids) # ls)" "e \<in> set (entries ls)"
  shows "cmp q (fst e)" "fst e \<noteq> q"
proof -
  obtain px oid where e: "e = (px, oid)" by fastforce
  then obtain js where "(px, js) \<in> set ls"
    using assms(2) by (auto simp: in_entries)
  then show "cmp q (fst e)"
    using assms(1) by (auto simp: e wf_book_Cons dest: bspec)
  then show "fst e \<noteq> q"
    using cmp_irrefl by metis
qed

lemma book_insert_prices: "fst ` set (book_insert cmp px oid bk) = insert px (fst ` set bk)"
proof (induction bk)
  case (Cons l ls)
  then show ?case
    using cmp_total [of px "fst l"] by (cases l) auto
qed simp

lemma book_insert_entries:
  "wf_book cmp bk \<Longrightarrow>
     set (entries (book_insert cmp px oid bk)) = insert (px, oid) (set (entries bk))"
proof (induction bk)
  case (Cons l ls)
  obtain q ids where l: "l = (q, ids)" by fastforce
  then show ?case
    using Cons cmp_total [of px q] cmp_irrefl [of px] sorted_ins_by_less [of ids oid]
    by (auto simp: wf_book_Cons)
qed simp

lemma wf_book_insert:
  "wf_book cmp bk \<Longrightarrow> wf_book cmp (book_insert cmp px oid bk)"
proof (induction bk)
  case (Cons l ls)
  obtain q ids where l: "l = (q, ids)" by fastforce
  show ?case
    using Cons cmp_total [of px q] cmp_trans sorted_ins_by_less [of ids oid]
      book_insert_prices [of px oid ls]
    by (auto simp: l wf_book_Cons)
qed (simp add: wf_book_def)

lemma wf_book_delete: "wf_book cmp bk \<Longrightarrow> wf_book cmp (AList.delete px bk)"
  by (induction bk) (auto simp: wf_book_Cons AList.delete_eq)

lemma wf_book_update:
  "wf_book cmp bk \<Longrightarrow> px \<in> fst ` set bk \<Longrightarrow> ids \<noteq> [] \<Longrightarrow> sorted_wrt (<) ids \<Longrightarrow>
     wf_book cmp (AList.update px ids bk)"
proof (induction bk)
  case (Cons l ls)
  obtain q js where l: "l = (q, js)" by fastforce
  have "fst ` set (AList.update px ids ls) = insert px (fst ` set ls)"
    by (simp add: dom_update)
  then show ?case
    using Cons by (auto simp: l wf_book_Cons)
qed simp

lemma delete_entries:
  "wf_book cmp bk \<Longrightarrow> set (entries (AList.delete px bk)) = {e \<in> set (entries bk). fst e \<noteq> px}"
  by (induction bk) (auto simp: wf_book_Cons AList.delete_eq)

lemma update_entries:
  "wf_book cmp bk \<Longrightarrow> px \<in> fst ` set bk \<Longrightarrow>
     set (entries (AList.update px ids bk)) = {e \<in> set (entries bk). fst e \<noteq> px} \<union> Pair px ` set ids"
proof (induction bk)
  case (Cons l ls)
  obtain q js where l: "l = (q, js)" by fastforce
  show ?case
    using Cons later_price(2) [OF Cons.prems(1) [unfolded l]] by (auto simp: l wf_book_Cons)
qed simp

lemma map_of_level: "wf_book cmp bk \<Longrightarrow> (px, ids) \<in> set bk \<Longrightarrow> map_of bk px = Some ids"
  using wf_book_distinct by (simp add: map_of_is_SomeI)

lemma erase_from_book_ok:
  assumes wf: "wf_book cmp bk" and mem: "(px, oid) \<in> set (entries bk)"
  shows "\<exists>bk'. erase_from_book px oid bk = Some bk' \<and> wf_book cmp bk'
    \<and> set (entries bk') = set (entries bk) - {(px, oid)}"
proof -
  from mem obtain ids where ids: "(px, ids) \<in> set bk" "oid \<in> set ids"
    by (auto simp: in_entries)
  have lv: "map_of bk px = Some ids"
    using wf ids(1) by (rule map_of_level)
  have "sorted_wrt (<) ids"
    using wf ids(1) by (auto simp: wf_book_def)
  note rm = sorted_remove1 [OF this, of oid]
  have px: "px \<in> fst ` set bk"
    using ids(1) by force
  have in_ids: "i \<in> set ids" if "(px, js) \<in> set bk" "i \<in> set js" for js i
    using map_of_level [OF wf that(1)] lv that(2) by simp
  have "{e \<in> set (entries bk). fst e = px} = Pair px ` set ids"
  proof (intro set_eqI iffI)
    fix e assume "e \<in> {e \<in> set (entries bk). fst e = px}"
    then obtain js where "e = (px, snd e)" "(px, js) \<in> set bk" "snd e \<in> set js"
      by (cases e) (auto simp: in_entries)
    then show "e \<in> Pair px ` set ids"
      using in_ids by (metis imageI)
  qed (use ids(1) in \<open>auto simp: in_entries\<close>)
  then have parts: "set (entries bk) = {e \<in> set (entries bk). fst e \<noteq> px} \<union> Pair px ` set ids"
    by blast
  have minus: "A - {(px, oid)} = B \<union> Pair px ` (I - {oid})"
    if "A = B \<union> Pair px ` I" "\<forall>e \<in> B. fst e \<noteq> px" for A B I
    using that by auto
  have left: "set (entries bk) - {(px, oid)}
      = {e \<in> set (entries bk). fst e \<noteq> px} \<union> Pair px ` set (remove1 oid ids)"
    using minus [OF parts] rm by simp
  show ?thesis
  proof (cases "remove1 oid ids = []")
    case True
    then show ?thesis
      using lv wf_book_delete [OF wf, of px] delete_entries [OF wf, of px] left
      by (simp add: erase_from_book_def)
  next
    case False
    then show ?thesis
      using lv wf_book_update [OF wf px False] rm update_entries [OF wf px, of "remove1 oid ids"] left
      by (simp add: erase_from_book_def)
  qed
qed

text \<open>The price of an entry is not after any price that comes later in the book.\<close>

lemma entries_sorted:
  "wf_book cmp bk \<Longrightarrow>
     sorted_wrt (\<lambda>(p, i) (q, j). cmp p q \<or> p = q \<and> i < j) (entries bk)"
proof (induction bk)
  case (Cons l ls)
  obtain q ids where l: "l = (q, ids)" by fastforce
  have "sorted_wrt (<) ids"
    using Cons.prems by (simp add: l wf_book_Cons)
  then have "sorted_wrt (\<lambda>(p, i) (q, j). cmp p q \<or> p = q \<and> i < j) (map (Pair q) ids)"
    unfolding sorted_wrt_map by (rule sorted_wrt_mono_rel [rotated]) simp
  moreover have "(\<lambda>(p, i) (q, j). cmp p q \<or> p = q \<and> i < j) x y"
    if "x \<in> set (map (Pair q) ids)" "y \<in> set (entries ls)" for x y
    using that later_price(1) [OF Cons.prems [unfolded l] that(2)] by (cases y) auto
  ultimately show ?case
    using Cons by (simp add: l wf_book_Cons sorted_wrt_append)
qed simp

lemma entry_before_asym: "entry_before cmp a b \<Longrightarrow> \<not> entry_before cmp b a"
  by (cases a; cases b; simp add: entry_before_def) (metis cmp_trans cmp_irrefl less_asym)

lemma wf_entries_sorted: "wf_book cmp bk \<Longrightarrow> sorted_wrt (entry_before cmp) (entries bk)"
  unfolding entry_before_def by (rule entries_sorted)

text \<open>Insertion puts the entry at its place by price and id; erasing takes it out and keeps the order.\<close>

lemma entries_insert:
  assumes "wf_book cmp bk" "(px, oid) \<notin> set (entries bk)"
  shows "entries (book_insert cmp px oid bk)
    = filter (\<lambda>en. entry_before cmp en (px, oid)) (entries bk) @ (px, oid)
      # filter (entry_before cmp (px, oid)) (entries bk)"
proof (rule sorted_wrt_set_unique [of "entry_before cmp"])
  have total: "en = (px, oid) \<or> entry_before cmp en (px, oid) \<or> entry_before cmp (px, oid) en" for en
    using cmp_total by (cases en) (fastforce simp: entry_before_def)
  show "set (entries (book_insert cmp px oid bk))
    = set (filter (\<lambda>en. entry_before cmp en (px, oid)) (entries bk) @ (px, oid)
      # filter (entry_before cmp (px, oid)) (entries bk))"
    unfolding book_insert_entries [OF assms(1)] using assms(2) total by (simp; blast)
  have "entry_before cmp a b"
    if "entry_before cmp a (px, oid)" "entry_before cmp (px, oid) b" for a b
    using that cmp_trans by (fastforce simp: entry_before_def split: prod.splits)
  then show "sorted_wrt (entry_before cmp)
     (filter (\<lambda>en. entry_before cmp en (px, oid)) (entries bk) @ (px, oid)
      # filter (entry_before cmp (px, oid)) (entries bk))"
    using wf_entries_sorted [OF assms(1)] by (auto simp: sorted_wrt_append sorted_wrt_filter)
qed (use wf_entries_sorted [OF wf_book_insert [OF assms(1)]] entry_before_asym in blast)+

lemma entries_erase:
  assumes "wf_book cmp bk" "(px, oid) \<in> set (entries bk)"
  shows "\<exists>bk'. erase_from_book px oid bk = Some bk' \<and> wf_book cmp bk'
    \<and> entries bk' = filter (\<lambda>en. en \<noteq> (px, oid)) (entries bk)"
proof -
  obtain bk' where b: "erase_from_book px oid bk = Some bk'" "wf_book cmp bk'"
    "set (entries bk') = set (entries bk) - {(px, oid)}"
    using erase_from_book_ok [OF assms] by blast
  have "entries bk' = filter (\<lambda>en. en \<noteq> (px, oid)) (entries bk)"
    using wf_entries_sorted [OF b(2)] wf_entries_sorted [OF assms(1)] b(3)
    by (intro sorted_wrt_set_unique [of "entry_before cmp"] entry_before_asym sorted_wrt_filter) auto
  then show ?thesis
    using b by blast
qed

lemma distinct_entries: "wf_book cmp bk \<Longrightarrow> distinct (entries bk)"
proof (induction bk)
  case (Cons l ls)
  obtain q ids where l: "l = (q, ids)" by fastforce
  have "distinct ids"
    using Cons.prems by (simp add: l wf_book_Cons strict_sorted_iff)
  moreover have "set (map (Pair q) ids) \<inter> set (entries ls) = {}"
    using later_price(2) [OF Cons.prems [unfolded l]] by force
  ultimately show ?case
    using Cons by (simp add: l wf_book_Cons distinct_map inj_on_def)
qed simp

text \<open>What follows an entry: the next of its level, or the first of the next level.\<close>

lemma next_entry:
  assumes "wf_book cmp bk" "entries bk = pre @ (px, oid) # post"
  shows "\<exists>level. map_of bk px = Some level \<and> oid \<in> set level \<and>
    (case after oid level of [] \<Rightarrow> book_begin (levels_after px bk) | oid' # _ \<Rightarrow> Some (Some (px, oid')))
      = Some (case post of [] \<Rightarrow> None | en # _ \<Rightarrow> Some en)"
  using assms
proof (induction bk arbitrary: pre)
  case (Cons l ls)
  obtain q js where l: "l = (q, js)" by fastforce
  have wf: "wf_book cmp ls"
    using Cons.prems(1) by (simp add: l wf_book_Cons)
  show ?case
  proof (cases "px = q")
    case True
    have no: "(px, oid) \<notin> set (entries ls)"
      using later_price(2) [OF Cons.prems(1) [unfolded l]] True by force
    have dj: "distinct js"
      using Cons.prems(1) by (auto simp: l wf_book_Cons strict_sorted_iff)
    have "(px, oid) \<in> set (map (Pair q) js @ entries ls)"
      using Cons.prems(2) by (simp add: l)
    then obtain us vs where js: "js = us @ oid # vs"
      using no True by (auto dest: split_list)
    then have "map (Pair px) us @ (px, oid) # (map (Pair px) vs @ entries ls) = pre @ (px, oid) # post"
      using Cons.prems(2) True by (simp add: l)
    moreover have "(px, oid) \<notin> set (map (Pair px) us)" "(px, oid) \<notin> set pre"
      using dj js distinct_entries [OF Cons.prems(1)] Cons.prems(2) by auto
    ultimately have post: "post = map (Pair px) vs @ entries ls"
      using after_append by metis
    have "after oid js = vs"
      using dj js by simp
    then show ?thesis
      using wf_book_begin [OF wf] post True by (cases vs) (simp_all add: l js)
  next
    case False
    have "(px, oid) \<notin> set (map (Pair q) js)"
      using False by auto
    then have "map (Pair q) js \<noteq> A @ (px, oid) # B" for A B
      by (metis in_set_conv_decomp)
    then obtain pre' where "entries ls = pre' @ (px, oid) # post"
      using Cons.prems(2)
      by (auto simp: l append_eq_append_conv2 append_eq_Cons_conv Cons_eq_append_conv)
    then show ?thesis
      using Cons.IH [OF wf] False by (auto simp: l split: list.splits)
  qed
qed simp

end

interpretation greater: price_order greater
  by unfold_locales (auto simp: greater_def)

interpretation less: price_order less
  by unfold_locales (auto simp: less_def)

end
