(* ===== verification/Implier.thy ===== *)
theory Implier
  imports Prelude Complex_Main "HOL-Library.Log_Nat"
begin

text \<open>
  The implied prices (\<open>implier/inc/*.hpp\<close>) and the rounding they use (\<open>inc/math.hpp\<close>). An implier
  derives the price of one instrument from the prices of two legs: \<open>add_*\<close> sums them, \<open>minus_*\<close>
  takes the difference, \<open>repo_out_*\<close> scales the first by the second as a rate. Asks round up to the
  tick, bids round down, and a commission in pips is charged on each leg. The virtual call
  \<open>implier::matchd_price\<close> is \<open>matchd_price\<close>, by cases on the class; \<open>None\<close> is a division by zero or
  a conversion out of range.

  The repo prices go through \<open>double\<close>: \<open>double_of\<close> is the rounding to 53 significant bits, ties to
  even, that every conversion to and every operation on \<open>double\<close> ends with (the magnitudes here
  are far from overflow and from the subnormal range).

  The contract of a quote is stated as two locales, one per direction, which the \<open>add\<close> and \<open>minus\<close>
  impliers interpret; the lemma that two quotes of one instrument do not cross is proved from it.
\<close>

section \<open>inc/math.hpp\<close>

text \<open>\<open>%\<close> and \<open>/\<close> truncate towards zero and trap on a zero divisor and on \<open>LLONG_MIN / -1\<close>.\<close>

definition divisible :: "ll \<Rightarrow> ll \<Rightarrow> bool" where
  "divisible a b \<longleftrightarrow> b \<noteq> 0 \<and> \<not> (a = LL_MIN \<and> b = - 1)"

definition round_down :: "ll \<Rightarrow> ll \<Rightarrow> ll option" where
  "round_down px mini_tick =
     (if \<not> divisible px mini_tick then None
      else let md = px smod mini_tick
           in if md \<ge> 0 then Some (ll_sub px md) else Some (ll_sub (ll_sub px md) mini_tick))"

definition round_up :: "ll \<Rightarrow> ll \<Rightarrow> ll option" where
  "round_up px mini_tick =
     (if \<not> divisible px mini_tick then None
      else let md = px smod mini_tick
           in if md = 0 then Some px
              else if md > 0 then Some (ll_sub (ll_add px mini_tick) md)
              else Some (ll_sub px md))"

definition handle_pips :: "ll \<Rightarrow> ll \<Rightarrow> ll" where
  "handle_pips px pips =
     (let commission = (if px < 0 then ll_sub 0 px else px)
      in ll_mul commission pips sdiv 10000)"

section \<open>double\<close>

definition pow2 :: "int \<Rightarrow> rat" where
  "pow2 e = (if e \<ge> 0 then 2 ^ nat e else 1 / 2 ^ nat (- e))"

definition half_even :: "rat \<Rightarrow> int" where
  "half_even x =
     (let f = \<lfloor>x\<rfloor>; r = x - of_int f
      in if r < 1 / 2 then f else if r > 1 / 2 then f + 1 else if even f then f else f + 1)"

text \<open>The exponent \<open>e\<close> with \<open>2 ^ e \<le> a < 2 ^ (e + 1)\<close>, from the bit lengths of the fraction.\<close>

definition binade :: "rat \<Rightarrow> int" where
  "binade a =
     (let (p, q) = quotient_of a; k = int (floorlog 2 (nat p)) - int (floorlog 2 (nat q))
      in if pow2 k \<le> a then k else k - 1)"

definition double_of :: "rat \<Rightarrow> rat" where
  "double_of x =
     (if x = 0 then 0
      else let u = pow2 (binade \<bar>x\<bar> - 52) in sgn x * of_int (half_even (\<bar>x\<bar> / u)) * u)"

text \<open>Conversion of a \<open>double\<close> to \<open>long long\<close>: truncation, undefined out of range.\<close>

definition ll_of_double :: "rat \<Rightarrow> ll option" where
  "ll_of_double x =
     (let i = (if x < 0 then \<lceil>x\<rceil> else \<lfloor>x\<rfloor>) in if is_ll i then Some i else None)"

section \<open>The impliers\<close>

datatype implier =
    Add_Ask (implier_pips: ll)
  | Add_Bid (implier_pips: ll)
  | Minus_Ask (implier_pips: ll)
  | Minus_Bid (implier_pips: ll)
  | Repo_Out_Ask (implier_pips: ll) (implier_factor: u64)
  | Repo_Out_Bid (implier_pips: ll) (implier_factor: u64)

definition add_ask_matchd_price :: "ll \<Rightarrow> ll \<Rightarrow> ll \<Rightarrow> ll \<Rightarrow> ll option" where
  "add_ask_matchd_price pips leg1_price leg2_price mini_tick =
     round_up (ll_add (ll_add (ll_add leg1_price leg2_price) (handle_pips leg1_price pips))
                 (handle_pips leg2_price pips)) mini_tick"

definition add_bid_matchd_price :: "ll \<Rightarrow> ll \<Rightarrow> ll \<Rightarrow> ll \<Rightarrow> ll option" where
  "add_bid_matchd_price pips leg1_price leg2_price mini_tick =
     round_down (ll_sub (ll_sub (ll_add leg1_price leg2_price) (handle_pips leg1_price pips))
                   (handle_pips leg2_price pips)) mini_tick"

definition minus_ask_matchd_price :: "ll \<Rightarrow> ll \<Rightarrow> ll \<Rightarrow> ll \<Rightarrow> ll option" where
  "minus_ask_matchd_price pips leg1_price leg2_price mini_tick =
     round_up (ll_add (ll_add (ll_sub leg1_price leg2_price) (handle_pips leg1_price pips))
                 (handle_pips leg2_price pips)) mini_tick"

definition minus_bid_matchd_price :: "ll \<Rightarrow> ll \<Rightarrow> ll \<Rightarrow> ll \<Rightarrow> ll option" where
  "minus_bid_matchd_price pips leg1_price leg2_price mini_tick =
     round_down (ll_sub (ll_sub (ll_sub leg1_price leg2_price) (handle_pips leg1_price pips))
                   (handle_pips leg2_price pips)) mini_tick"

text \<open>\<open>leg1_price * (double(factor_) + leg2_price) / factor_\<close>; dividing by a zero factor gives no number.\<close>

definition repo_rate_price :: "u64 \<Rightarrow> ll \<Rightarrow> ll \<Rightarrow> rat option" where
  "repo_rate_price factor leg1_price leg2_price =
     (let f = double_of (of_int (uint factor));
          s = double_of (f + double_of (of_int leg2_price));
          p = double_of (double_of (of_int leg1_price) * s)
      in if f = 0 then None else Some (double_of (p / f)))"

definition repo_out_ask_matchd_price :: "ll \<Rightarrow> u64 \<Rightarrow> ll \<Rightarrow> ll \<Rightarrow> ll \<Rightarrow> ll option" where
  "repo_out_ask_matchd_price pips factor leg1_price leg2_price mini_tick = do {
     x \<leftarrow> repo_rate_price factor leg1_price leg2_price;
     px \<leftarrow> ll_of_double x;
     r \<leftarrow> round_up px 1;
     round_up (ll_add r (handle_pips leg1_price pips)) mini_tick }"

definition repo_out_bid_matchd_price :: "ll \<Rightarrow> u64 \<Rightarrow> ll \<Rightarrow> ll \<Rightarrow> ll \<Rightarrow> ll option" where
  "repo_out_bid_matchd_price pips factor leg1_price leg2_price mini_tick = do {
     x \<leftarrow> repo_rate_price factor leg1_price leg2_price;
     px \<leftarrow> ll_of_double (double_of (x - double_of (of_int (handle_pips leg1_price pips))));
     round_down px mini_tick }"

fun matchd_price :: "implier \<Rightarrow> ll \<Rightarrow> ll \<Rightarrow> ll \<Rightarrow> ll option" where
  "matchd_price (Add_Ask pips) l1 l2 t = add_ask_matchd_price pips l1 l2 t"
| "matchd_price (Add_Bid pips) l1 l2 t = add_bid_matchd_price pips l1 l2 t"
| "matchd_price (Minus_Ask pips) l1 l2 t = minus_ask_matchd_price pips l1 l2 t"
| "matchd_price (Minus_Bid pips) l1 l2 t = minus_bid_matchd_price pips l1 l2 t"
| "matchd_price (Repo_Out_Ask pips factor) l1 l2 t = repo_out_ask_matchd_price pips factor l1 l2 t"
| "matchd_price (Repo_Out_Bid pips factor) l1 l2 t = repo_out_bid_matchd_price pips factor l1 l2 t"

section \<open>Rounding\<close>

lemma smod_pos: "0 < t \<Longrightarrow> x smod t = (if x \<ge> 0 then x mod t else - ((- x) mod t))" for x t :: int
  by (cases "x = 0") (simp_all add: signed_modulo_int_def)

lemma smod_nonneg:
  assumes "0 < t" "0 \<le> (x::int)"
  shows "0 \<le> x smod t" "x smod t \<le> x" "x smod t < t" "t dvd x - x smod t"
  using assms by (simp_all add: smod_pos zmod_le_nonneg_dividend)

lemma smod_neg:
  assumes "0 < t" "(x::int) < 0"
  shows "x smod t \<le> 0" "x \<le> x smod t" "- t < x smod t" "t dvd x - x smod t"
proof -
  have m: "x smod t = - ((- x) mod t)"
    using assms by (simp add: smod_pos)
  have "t dvd - x - (- x) mod t" by (rule dvd_minus_mod)
  then have "t dvd - (- x - (- x) mod t)" by (simp only: dvd_minus_iff)
  then show "t dvd x - x smod t" by (simp add: m add.commute)
  show "x smod t \<le> 0" "- t < x smod t" using assms by (simp_all add: m)
  show "x \<le> x smod t"
    using zmod_le_nonneg_dividend [of "- x" t] assms by (simp add: m)
qed

lemma smod_bounds: "0 < t \<Longrightarrow> \<bar>x smod t\<bar> < t \<and> t dvd x - x smod t" for x t :: int
  using smod_nonneg [of t x] smod_neg [of t x] by (cases "0 \<le> x") auto

lemma dvd_unique:
  assumes "t dvd a" "t dvd b" "\<bar>a - b\<bar> < t"
  shows "a = (b::int)"
proof -
  have "t dvd a - b" using assms(1,2) by simp
  then show ?thesis
    using assms(3) by (metis abs_ge_zero diff_eq_eq dvd_abs_iff le_less_trans linorder_not_less
        zdvd_imp_le abs_zero zero_less_abs_iff add_0)
qed

text \<open>
  The result of rounding, as a number: for a positive tick and no wrap-around, the tick's multiple
  next below or next above.
\<close>

definition tick_below :: "int \<Rightarrow> int \<Rightarrow> int" where
  "tick_below x t = x - x mod t"

definition tick_above :: "int \<Rightarrow> int \<Rightarrow> int" where
  "tick_above x t = - tick_below (- x) t"

lemma tick_below: "0 < t \<Longrightarrow> t dvd tick_below x t \<and> tick_below x t \<le> x \<and> x < tick_below x t + t"
  by (simp add: tick_below_def dvd_minus_mod)

lemma tick_above: "0 < t \<Longrightarrow> t dvd tick_above x t \<and> x \<le> tick_above x t \<and> tick_above x t < x + t"
  using tick_below [of t "- x"] by (simp add: tick_above_def)

lemma tick_below_mono: "0 < t \<Longrightarrow> x \<le> y \<Longrightarrow> tick_below x t \<le> tick_below y t"
proof -
  assume "0 < t" "x \<le> y"
  then have "t * (x div t) \<le> t * (y div t)"
    by (simp add: zdiv_mono1)
  then show ?thesis
    by (simp add: tick_below_def minus_mod_eq_mult_div)
qed

lemma tick_above_mono: "0 < t \<Longrightarrow> x \<le> y \<Longrightarrow> tick_above x t \<le> tick_above y t"
  using tick_below_mono [of t "- y" "- x"] by (simp add: tick_above_def)

lemma round_down_eq:
  assumes "0 < t" "is_ll x" "is_ll (x - t)"
  shows "round_down x t = Some (tick_below x t)"
proof -
  have b: "\<bar>x smod t\<bar> < t" and d: "t dvd x - x smod t"
    using smod_bounds [OF assms(1)] by auto
  have ge: "0 \<le> x \<and> x smod t \<le> x \<or> x < 0 \<and> x smod t = 0" if "x smod t \<ge> 0"
    using smod_nonneg [OF assms(1), of x] smod_neg [OF assms(1), of x] that by linarith
  have lt: "x < 0 \<and> x \<le> x smod t" if "x smod t < 0"
    using smod_nonneg [OF assms(1), of x] smod_neg [OF assms(1), of x] that by linarith
  show ?thesis
  proof (cases "x smod t \<ge> 0")
    case True
    then have "is_ll (x - x smod t)"
      using assms b ge by (auto simp: is_ll_def)
    moreover have "x - x smod t = tick_below x t"
      using dvd_unique [OF d, of "tick_below x t"] tick_below [OF assms(1), of x] b True by auto
    ultimately show ?thesis
      using assms True by (simp add: round_down_def divisible_def ll_arith)
  next
    case False
    then have "is_ll (x - x smod t)" "is_ll (x - x smod t - t)"
      using assms b lt by (auto simp: is_ll_def LL_MAX_def)
    moreover have "x - x smod t - t = tick_below x t"
      using dvd_unique [of t "x - x smod t - t" "tick_below x t"] d tick_below [OF assms(1), of x] b False
      by auto
    ultimately show ?thesis
      using assms False by (simp add: round_down_def divisible_def ll_arith)
  qed
qed

lemma round_up_eq:
  assumes "0 < t" "is_ll x" "is_ll (x + t)"
  shows "round_up x t = Some (tick_above x t)"
proof -
  have b: "\<bar>x smod t\<bar> < t" and d: "t dvd x - x smod t"
    using smod_bounds [OF assms(1)] by auto
  have lt: "x < 0 \<and> x \<le> x smod t" if "x smod t < 0"
    using smod_nonneg [OF assms(1), of x] smod_neg [OF assms(1), of x] that by linarith
  consider "x smod t = 0" | "x smod t > 0" | "x smod t < 0" by linarith
  then show ?thesis
  proof cases
    case 1
    then have "x = tick_above x t"
      using dvd_unique [of t x "tick_above x t"] d tick_above [OF assms(1), of x] by auto
    with 1 assms show ?thesis
      by (simp add: round_up_def divisible_def)
  next
    case 2
    then have "is_ll (x + t - x smod t)"
      using assms b by (auto simp: is_ll_def)
    moreover have "x + t - x smod t = tick_above x t"
      using dvd_unique [of t "x + t - x smod t" "tick_above x t"] d tick_above [OF assms(1), of x] b 2
      by (auto simp: algebra_simps) (smt (verit) dvd_add_triv_left_iff add_diff_eq)
    ultimately show ?thesis
      using assms 2 by (simp add: round_up_def divisible_def ll_arith)
  next
    case 3
    then have "is_ll (x - x smod t)"
      using assms b lt by (auto simp: is_ll_def LL_MAX_def)
    moreover have "x - x smod t = tick_above x t"
      using dvd_unique [OF d, of "tick_above x t"] tick_above [OF assms(1), of x] b 3 by auto
    ultimately show ?thesis
      using assms 3 by (simp add: round_up_def divisible_def ll_arith)
  qed
qed

section \<open>The contract of a quote\<close>

text \<open>
  The range in which no 64-bit operation of a quote wraps: legs and tick of at most 49 bits and a
  commission of at most 100%.
\<close>

definition quote_range :: "ll \<Rightarrow> ll \<Rightarrow> ll \<Rightarrow> ll \<Rightarrow> bool" where
  "quote_range pips l1 l2 t \<longleftrightarrow>
     0 \<le> pips \<and> pips \<le> 10000 \<and> 0 < t \<and> t \<le> 562949953421312
     \<and> \<bar>l1\<bar> \<le> 562949953421312 \<and> \<bar>l2\<bar> \<le> 562949953421312"

definition commission :: "ll \<Rightarrow> ll \<Rightarrow> int" where
  "commission px pips = \<bar>px\<bar> * pips div 10000"

lemma commission_bounds:
  assumes "0 \<le> pips" "pips \<le> 10000"
  shows "0 \<le> commission px pips" "commission px pips \<le> \<bar>px\<bar>"
proof -
  show "0 \<le> commission px pips"
    using assms by (simp add: commission_def pos_imp_zdiv_nonneg_iff)
  have "\<bar>px\<bar> * pips div 10000 \<le> \<bar>px\<bar> * 10000 div 10000"
    using assms by (intro zdiv_mono1 mult_left_mono) simp_all
  then show "commission px pips \<le> \<bar>px\<bar>"
    by (simp add: commission_def)
qed

lemma handle_pips_eq:
  assumes "0 \<le> pips" "pips \<le> 10000" "\<bar>px\<bar> \<le> 562949953421312"
  shows "handle_pips px pips = commission px pips"
proof -
  have "\<bar>px\<bar> * pips \<le> 562949953421312 * 10000"
    using assms by (intro mult_mono) simp_all
  moreover have "0 \<le> \<bar>px\<bar> * pips"
    using assms by simp
  ultimately have "is_ll (\<bar>px\<bar> * pips)"
    by (simp add: is_ll_def LL_MIN_def LL_MAX_def)
  moreover have "(if px < 0 then ll_sub 0 px else px) = \<bar>px\<bar>"
    using assms by (simp add: ll_arith is_ll_def LL_MIN_def LL_MAX_def)
  moreover have "x sdiv 10000 = x div 10000" if "0 \<le> x" for x :: int
    using that by (cases "x = 0") (simp_all add: signed_divide_int_def)
  ultimately show ?thesis
    using \<open>0 \<le> \<bar>px\<bar> * pips\<close> by (simp add: handle_pips_def commission_def ll_arith)
qed

text \<open>
  A quote of a synthetic instrument whose fair value is \<open>fair\<close> of its legs: an ask quote is the
  first tick at or above fair value plus commissions, a bid quote the last tick at or below fair
  value less commissions.
\<close>

locale ask_quote =
  fixes quote :: "ll \<Rightarrow> ll \<Rightarrow> ll \<Rightarrow> ll \<Rightarrow> ll option" and fair :: "ll \<Rightarrow> ll \<Rightarrow> int"
  assumes ask_quote: "quote_range pips l1 l2 t \<Longrightarrow>
    quote pips l1 l2 t = Some (tick_above (fair l1 l2 + commission l1 pips + commission l2 pips) t)"
begin

lemma ask_covers:
  assumes "quote_range pips l1 l2 t"
  shows "\<exists>p. quote pips l1 l2 t = Some p \<and> t dvd p
    \<and> fair l1 l2 + commission l1 pips + commission l2 pips \<le> p
    \<and> p < fair l1 l2 + commission l1 pips + commission l2 pips + t"
  using assms ask_quote [OF assms] tick_above [of t] by (auto simp: quote_range_def)

end

locale bid_quote =
  fixes quote :: "ll \<Rightarrow> ll \<Rightarrow> ll \<Rightarrow> ll \<Rightarrow> ll option" and fair :: "ll \<Rightarrow> ll \<Rightarrow> int"
  assumes bid_quote: "quote_range pips l1 l2 t \<Longrightarrow>
    quote pips l1 l2 t = Some (tick_below (fair l1 l2 - commission l1 pips - commission l2 pips) t)"
begin

lemma bid_covered:
  assumes "quote_range pips l1 l2 t"
  shows "\<exists>p. quote pips l1 l2 t = Some p \<and> t dvd p
    \<and> p \<le> fair l1 l2 - commission l1 pips - commission l2 pips
    \<and> fair l1 l2 - commission l1 pips - commission l2 pips < p + t"
  using assms bid_quote [OF assms] tick_below [of t] by (auto simp: quote_range_def)

end

locale two_sided_quote =
  ask: ask_quote ask_q fair + bid: bid_quote bid_q fair
  for ask_q bid_q :: "ll \<Rightarrow> ll \<Rightarrow> ll \<Rightarrow> ll \<Rightarrow> ll option" and fair :: "ll \<Rightarrow> ll \<Rightarrow> int"
begin

lemma not_crossed:
  assumes "quote_range pips a1 a2 t" "quote_range pips b1 b2 t" "fair b1 b2 \<le> fair a1 a2"
  shows "\<exists>pa pb. ask_q pips a1 a2 t = Some pa \<and> bid_q pips b1 b2 t = Some pb \<and> pb \<le> pa"
proof -
  have "0 \<le> commission x pips" for x
    using assms(1) commission_bounds(1) [of pips x] by (simp add: quote_range_def)
  from this [of a1] this [of a2] this [of b1] this [of b2] show ?thesis
    using assms ask.ask_covers [OF assms(1)] bid.bid_covered [OF assms(2)] by fastforce
qed

end

lemma quote_arith:
  assumes "quote_range pips l1 l2 t" "\<bar>raw\<bar> \<le> 1125899906842624"
  shows "handle_pips l1 pips = commission l1 pips" "handle_pips l2 pips = commission l2 pips"
    "ll_add (ll_add raw (commission l1 pips)) (commission l2 pips)
       = raw + commission l1 pips + commission l2 pips"
    "ll_sub (ll_sub raw (commission l1 pips)) (commission l2 pips)
       = raw - commission l1 pips - commission l2 pips"
    "is_ll (raw + commission l1 pips + commission l2 pips)"
    "is_ll (raw + commission l1 pips + commission l2 pips + t)"
    "is_ll (raw - commission l1 pips - commission l2 pips)"
    "is_ll (raw - commission l1 pips - commission l2 pips - t)"
proof -
  have c: "0 \<le> commission x pips \<and> commission x pips \<le> 562949953421312"
    if "\<bar>x\<bar> \<le> 562949953421312" for x
    using assms(1) that commission_bounds [of pips x] by (simp add: quote_range_def)
  note b = c [of l1] c [of l2]
  show "handle_pips l1 pips = commission l1 pips" "handle_pips l2 pips = commission l2 pips"
    using assms(1) by (simp_all add: quote_range_def handle_pips_eq)
  have r: "is_ll (raw + commission l1 pips)" "is_ll (raw - commission l1 pips)"
    "is_ll (raw + commission l1 pips + commission l2 pips)"
    "is_ll (raw + commission l1 pips + commission l2 pips + t)"
    "is_ll (raw - commission l1 pips - commission l2 pips)"
    "is_ll (raw - commission l1 pips - commission l2 pips - t)"
    using assms b unfolding quote_range_def is_ll_def LL_MIN_def LL_MAX_def by linarith+
  then show "ll_add (ll_add raw (commission l1 pips)) (commission l2 pips)
       = raw + commission l1 pips + commission l2 pips"
    "ll_sub (ll_sub raw (commission l1 pips)) (commission l2 pips)
       = raw - commission l1 pips - commission l2 pips"
    by (simp_all add: ll_arith)
  show "is_ll (raw + commission l1 pips + commission l2 pips)"
    "is_ll (raw + commission l1 pips + commission l2 pips + t)"
    "is_ll (raw - commission l1 pips - commission l2 pips)"
    "is_ll (raw - commission l1 pips - commission l2 pips - t)"
    by (fact r)+
qed

lemma quote_sum:
  assumes "quote_range pips l1 l2 t"
  shows "\<bar>l1 + l2\<bar> \<le> 1125899906842624" "\<bar>l1 - l2\<bar> \<le> 1125899906842624"
    "ll_add l1 l2 = l1 + l2" "ll_sub l1 l2 = l1 - l2" "0 < t"
proof -
  show b: "\<bar>l1 + l2\<bar> \<le> 1125899906842624" "\<bar>l1 - l2\<bar> \<le> 1125899906842624" "0 < t"
    using assms unfolding quote_range_def by linarith+
  have "is_ll (l1 + l2)" "is_ll (l1 - l2)"
    using b unfolding is_ll_def LL_MIN_def LL_MAX_def by linarith+
  then show "ll_add l1 l2 = l1 + l2" "ll_sub l1 l2 = l1 - l2"
    by (simp_all add: ll_arith)
qed

lemma quote_round:
  assumes "quote_range pips l1 l2 t" "\<bar>raw\<bar> \<le> 1125899906842624"
  shows "round_up (ll_add (ll_add raw (handle_pips l1 pips)) (handle_pips l2 pips)) t
       = Some (tick_above (raw + commission l1 pips + commission l2 pips) t)"
    "round_down (ll_sub (ll_sub raw (handle_pips l1 pips)) (handle_pips l2 pips)) t
       = Some (tick_below (raw - commission l1 pips - commission l2 pips) t)"
  using quote_arith [OF assms] quote_sum(5) [OF assms(1)] by (simp_all add: round_up_eq round_down_eq)

interpretation add_q: two_sided_quote add_ask_matchd_price add_bid_matchd_price "(+)"
  by unfold_locales
    (simp_all add: add_ask_matchd_price_def add_bid_matchd_price_def quote_sum quote_round)

interpretation minus_q: two_sided_quote minus_ask_matchd_price minus_bid_matchd_price "(-)"
  by unfold_locales
    (simp_all add: minus_ask_matchd_price_def minus_bid_matchd_price_def quote_sum quote_round)

end
