(* ===== verification/Engine_State.thy ===== *)
theory Engine_State
  imports Book Implier
begin

text \<open>
  The state of the matching engines (\<open>matching/inc/matching/engine.hpp\<close>) as one store.

  Engines and impliers are objects the source reaches through pointers, and one engine's matcher
  works on the books of others through the legs of its impliers, so the model has one record \<open>sys\<close>
  with all of them, addressed by numbers. An order is reached through a reference: \<open>Arg\<close>, the
  object the caller of \<open>handle\<close> passed, or \<open>Slot e oid\<close>, the entry filed under \<open>oid\<close> in engine
  \<open>e\<close>'s order map. A slot that is not there is a dangling pointer, and using it is undefined (\<open>None\<close>).

  Also here: the callbacks, the clock and the id generator, which the whole engine shares, and the
  static functions that change one order.
\<close>

section \<open>Records\<close>

text \<open>
  \<open>engine::iterator\<close>. The position is the pair \<open>_it1\<close>, \<open>_it2\<close> by its keys, or \<open>None\<close> when \<open>_it1\<close> is the
  end of the book; \<open>_side\<close> is the side of the orders that would match against the book it walks, so
  a \<open>BUY\<close> iterator walks the asks.
\<close>

record iter =
  it_e :: "nat option"
  it_side :: order_side
  it_pos :: "(ll \<times> u64) option"
  it_remain :: u64

text \<open>\<open>engine::implier_base\<close> with the virtual price function of its class.\<close>

record implier_obj =
  imp_priority :: u64
  imp_kind :: implier
  imp_leg1 :: iter
  imp_leg2 :: iter

text \<open>
  \<open>engine\<close>. \<open>bid_local\<close> / \<open>bid_impliers\<close> are \<open>_bid_book_matcher\<close> (its \<open>_local\<close>, and its \<open>_impliers\<close> in
  descending priority, by address), and likewise for the asks. \<open>mutex\<close> is the flag of \<open>_mutex\<close>;
  \<open>mutex_set\<close> holds the engines whose mutexes \<open>handle\<close> takes, in the order of their addresses, which
  the numbering of the engines follows.
\<close>

record engine =
  odr_map :: "(u64 \<times> order) list"
  bid_book :: book
  ask_book :: book
  bid_stop_book :: book
  ask_stop_book :: book
  bid_local :: iter
  ask_local :: iter
  bid_impliers :: "(u64 \<times> nat) list"
  ask_impliers :: "(u64 \<times> nat) list"
  cb_records :: "order list"
  mini_tick :: ll
  is_auction :: bool
  mutex :: bool
  mutex_set :: "nat list"

text \<open>
  Everything: the engines, the impliers, the static members \<open>_id\<close> and \<open>_node_id\<close>, the order object
  of the current call, and the environment: what each reading of the clock returns (seconds and
  nanoseconds), in which order the standard library walks an unordered map with given keys, and the
  calls made to the engines' callbacks so far.
\<close>

record sys =
  engs :: "nat \<Rightarrow> engine"
  imps :: "nat \<Rightarrow> implier_obj"
  ids :: u64
  node_id :: u64
  arg :: order
  clock :: "nat \<Rightarrow> u64 \<times> u64"
  ticks :: nat
  umap_order :: "u64 list \<Rightarrow> u64 list"
  out :: "(nat \<times> order) list"

datatype oref = Arg | Slot nat u64

section \<open>Access\<close>

abbreviation upd_eng :: "nat \<Rightarrow> (engine \<Rightarrow> engine) \<Rightarrow> sys \<Rightarrow> sys" where
  "upd_eng e f s \<equiv> s\<lparr>engs := (engs s)(e := f (engs s e))\<rparr>"

definition slot :: "sys \<Rightarrow> nat \<Rightarrow> u64 \<Rightarrow> order option" where
  "slot s e oid = map_of (odr_map (engs s e)) oid"

definition put_slot :: "nat \<Rightarrow> u64 \<Rightarrow> order \<Rightarrow> sys \<Rightarrow> sys" where
  "put_slot e oid o1 s = upd_eng e (\<lambda>x. x\<lparr>odr_map := AList.update oid o1 (odr_map x)\<rparr>) s"

fun get_ref :: "sys \<Rightarrow> oref \<Rightarrow> order option" where
  "get_ref s Arg = Some (arg s)"
| "get_ref s (Slot e oid) = slot s e oid"

fun put_ref :: "oref \<Rightarrow> order \<Rightarrow> sys \<Rightarrow> sys" where
  "put_ref Arg o1 s = s\<lparr>arg := o1\<rparr>"
| "put_ref (Slot e oid) o1 s = put_slot e oid o1 s"

text \<open>The book an iterator walks.\<close>

definition walked :: "engine \<Rightarrow> order_side \<Rightarrow> book" where
  "walked x sd = (if sd = BUY then ask_book x else bid_book x)"

definition set_walked :: "order_side \<Rightarrow> book \<Rightarrow> engine \<Rightarrow> engine" where
  "set_walked sd bk x = (if sd = BUY then x\<lparr>ask_book := bk\<rparr> else x\<lparr>bid_book := bk\<rparr>)"

section \<open>Clock, callbacks, ids\<close>

text \<open>\<open>current()\<close>: nanoseconds since the epoch.\<close>

definition current :: "sys \<Rightarrow> u64 \<times> sys" where
  "current s =
     (let (tv_sec, tv_nsec) = clock s (ticks s)
      in (tv_sec * 1000000000 + tv_nsec, s\<lparr>ticks := Suc (ticks s)\<rparr>))"

definition callback :: "nat \<Rightarrow> oref \<Rightarrow> sys \<Rightarrow> sys option" where
  "callback e r s = do {
     o1 \<leftarrow> get_ref s r;
     let (now, s1) = current s;
     let o2 = o1\<lparr>timestamp_epoch_ms := now div 1000000\<rparr>;
     let s2 = put_ref r o2 s1;
     Some (if is_auction (engs s2 e)
           then upd_eng e (\<lambda>x. x\<lparr>cb_records := cb_records x @ [o2]\<rparr>) s2
           else s2\<lparr>out := out s2 @ [(e, o2)]\<rparr>) }"

text \<open>\<open>engine::set_node_id\<close> and \<open>engine::get_id\<close>: the node in the top seven bits.\<close>

definition set_node_id :: "u64 \<Rightarrow> sys \<Rightarrow> sys" where
  "set_node_id n s = s\<lparr>node_id := push_bit 57 n\<rparr>"

definition get_id :: "sys \<Rightarrow> u64 \<times> sys" where
  "get_id s = (or (ids s) (node_id s), s\<lparr>ids := ids s + 1\<rparr>)"

section \<open>Orders that match\<close>

definition match_order ::
    "order \<Rightarrow> order_matched_type \<Rightarrow> u64 \<Rightarrow> ll \<Rightarrow> u64 \<Rightarrow> u64 \<Rightarrow> u64 \<Rightarrow> order" where
  "match_order o1 match_type mid last_price last_quantity last_id last_id2 =
     (let o2 = o1\<lparr>matched_type := match_type, matched_id := mid, last_match_price := last_price,
                  last_match_quantity := last_quantity, last_matched_order_id := last_id,
                  last_matched_order_id2 := last_id2,
                  remain_quantity := remain_quantity o1 - last_quantity\<rparr>;
          o3 = (if remain_quantity o2 = 0 then o2\<lparr>order_state := FILLED\<rparr>
                else o2\<lparr>order_state := PARTIAL_FILL\<rparr>)
      in update_display o3)"

definition maker_match_order :: "order \<Rightarrow> u64 \<Rightarrow> u64 \<Rightarrow> u64 \<Rightarrow> u64 \<Rightarrow> order" where
  "maker_match_order o1 mid last_quantity last_id last_id2 =
     match_order o1 MAKER mid (price o1) last_quantity last_id last_id2"

section \<open>Facts\<close>

lemma match_order_simps [simp]:
  "remain_quantity (match_order o1 mt mid px q i j) = remain_quantity o1 - q"
  "price (match_order o1 mt mid px q i j) = price o1"
  "order_id (match_order o1 mt mid px q i j) = order_id o1"
  "quantity (match_order o1 mt mid px q i j) = quantity o1"
  "side (match_order o1 mt mid px q i j) = side o1"
  "time_condition (match_order o1 mt mid px q i j) = time_condition o1"
  "last_match_quantity (match_order o1 mt mid px q i j) = q"
  "last_match_price (match_order o1 mt mid px q i j) = px"
  "matched_type (match_order o1 mt mid px q i j) = mt"
  "order_state (match_order o1 mt mid px q i j) = (if remain_quantity o1 = q then FILLED else PARTIAL_FILL)"
  by (auto simp: match_order_def update_display_def Let_def)

lemma match_order_display:
  "display_quantity (match_order o1 mt mid px q i j) \<le> remain_quantity o1 - q"
  using update_display_le by (metis match_order_def match_order_simps(1))

lemma slot_put_slot [simp]:
  "slot (put_slot e oid o1 s) e' oid' = (if e = e' \<and> oid = oid' then Some o1 else slot s e' oid')"
  by (simp add: slot_def put_slot_def)

lemma put_slot_frame [simp]:
  "bid_book (engs (put_slot e oid o1 s) e') = bid_book (engs s e')"
  "ask_book (engs (put_slot e oid o1 s) e') = ask_book (engs s e')"
  "bid_stop_book (engs (put_slot e oid o1 s) e') = bid_stop_book (engs s e')"
  "ask_stop_book (engs (put_slot e oid o1 s) e') = ask_stop_book (engs s e')"
  "bid_local (engs (put_slot e oid o1 s) e') = bid_local (engs s e')"
  "ask_local (engs (put_slot e oid o1 s) e') = ask_local (engs s e')"
  "bid_impliers (engs (put_slot e oid o1 s) e') = bid_impliers (engs s e')"
  "ask_impliers (engs (put_slot e oid o1 s) e') = ask_impliers (engs s e')"
  "is_auction (engs (put_slot e oid o1 s) e') = is_auction (engs s e')"
  "cb_records (engs (put_slot e oid o1 s) e') = cb_records (engs s e')"
  "arg (put_slot e oid o1 s) = arg s" "out (put_slot e oid o1 s) = out s"
  "ids (put_slot e oid o1 s) = ids s" "ticks (put_slot e oid o1 s) = ticks s"
  by (simp_all add: put_slot_def)

end
