(* ===== verification/Iterator.thy ===== *)
theory Iterator
  imports Engine_State
begin

text \<open>
  \<open>engine::iterator\<close> (\<open>engine.hpp\<close>): a cursor over the resting orders of one side of one engine in
  price-time order, which caches the quantity it has not promised away yet.

  The lemmas: \<open>reset\<close> and \<open>next\<close> enumerate the entries of the book in order and stop at its end,
  \<open>previous\<close> undoes \<open>next\<close>, \<open>erase\<close> removes exactly the order it stands on and moves to the next.
\<close>

section \<open>Definitions\<close>

definition it_book :: "sys \<Rightarrow> iter \<Rightarrow> book option" where
  "it_book s it = (case it_e it of None \<Rightarrow> None | Some e \<Rightarrow> Some (walked (engs s e) (it_side it)))"

text \<open>Standing at a position: at an order, its remaining quantity is read; the end reads nothing.\<close>

definition it_load :: "sys \<Rightarrow> iter \<Rightarrow> (ll \<times> u64) option \<Rightarrow> iter option" where
  "it_load s it pos =
     (case pos of
        None \<Rightarrow> Some (it\<lparr>it_pos := None\<rparr>)
      | Some (px, oid) \<Rightarrow> do {
          e \<leftarrow> it_e it;
          o1 \<leftarrow> slot s e oid;
          Some (it\<lparr>it_pos := Some (px, oid), it_remain := remain_quantity o1\<rparr>) })"

definition iter_reset :: "sys \<Rightarrow> iter \<Rightarrow> iter option" where
  "iter_reset s it = do {
     bk \<leftarrow> it_book s it;
     pos \<leftarrow> book_begin bk;
     it_load s it pos }"

definition null_iter :: iter where
  "null_iter = \<lparr>it_e = None, it_side = BUY, it_pos = None, it_remain = 0\<rparr>"

definition new_iter :: "sys \<Rightarrow> nat \<Rightarrow> order_side \<Rightarrow> iter option" where
  "new_iter s e sd = iter_reset s \<lparr>it_e = Some e, it_side = sd, it_pos = None, it_remain = 0\<rparr>"

text \<open>The order the iterator stands on; at the end, or on an entry that is gone, there is none.\<close>

definition it_deref :: "sys \<Rightarrow> iter \<Rightarrow> (nat \<times> ll \<times> u64) option" where
  "it_deref s it = do {
     e \<leftarrow> it_e it;
     (px, oid) \<leftarrow> it_pos it;
     level \<leftarrow> map_of (walked (engs s e) (it_side it)) px;
     if oid \<in> set level then Some (e, px, oid) else None }"

definition iter_next :: "sys \<Rightarrow> iter \<Rightarrow> iter option" where
  "iter_next s it = do {
     (e, px, oid) \<leftarrow> it_deref s it;
     let bk = walked (engs s e) (it_side it);
     level \<leftarrow> map_of bk px;
     case after oid level of
       oid' # _ \<Rightarrow> it_load s it (Some (px, oid'))
     | [] \<Rightarrow> do {
         pos \<leftarrow> book_begin (levels_after px bk);
         it_load s it pos } }"

definition iter_previous :: "sys \<Rightarrow> iter \<Rightarrow> iter option" where
  "iter_previous s it = do {
     (e, px, oid) \<leftarrow> it_deref s it;
     let bk = walked (engs s e) (it_side it);
     level \<leftarrow> map_of bk px;
     case rev (before oid level) of
       oid' # _ \<Rightarrow> it_load s it (Some (px, oid'))
     | [] \<Rightarrow>
         (case rev (levels_before px bk) of
            [] \<Rightarrow> Some it
          | (px', level') # _ \<Rightarrow>
              (case rev level' of
                 [] \<Rightarrow> None
               | oid' # _ \<Rightarrow> it_load s it (Some (px', oid')))) }"

fun iter_advance :: "nat \<Rightarrow> sys \<Rightarrow> iter \<Rightarrow> iter option" where
  "iter_advance 0 s it = Some it"
| "iter_advance (Suc n) s it = iter_next s it \<bind> iter_advance n s"

fun iter_retreat :: "nat \<Rightarrow> sys \<Rightarrow> iter \<Rightarrow> iter option" where
  "iter_retreat 0 s it = Some it"
| "iter_retreat (Suc n) s it = iter_previous s it \<bind> iter_retreat n s"

definition iter_index :: "nat \<Rightarrow> sys \<Rightarrow> iter \<Rightarrow> iter option" where
  "iter_index n s it = iter_reset s it \<bind> iter_advance n s"

definition it_valid :: "iter \<Rightarrow> bool" where
  "it_valid it \<longleftrightarrow> it_e it \<noteq> None \<and> it_pos it \<noteq> None"

definition it_order :: "sys \<Rightarrow> iter \<Rightarrow> order option" where
  "it_order s it = do { (e, px, oid) \<leftarrow> it_deref s it; slot s e oid }"

text \<open>Sizes and quantities of the walked book, whole or up to a limit price (\<open>std::size_t\<close> sums).\<close>

definition within_limit :: "order_side \<Rightarrow> ll \<Rightarrow> book \<Rightarrow> book" where
  "within_limit sd limited_price bk =
     takeWhile (\<lambda>(px, _). if sd = BUY then px \<le> limited_price else px \<ge> limited_price) bk"

definition levels_order_size :: "book \<Rightarrow> u64" where
  "levels_order_size bk = sum_list (map (\<lambda>(_, ids). of_nat (length ids)) bk)"

fun slots_quantity :: "sys \<Rightarrow> nat \<Rightarrow> u64 list \<Rightarrow> u64 option" where
  "slots_quantity s e [] = Some 0"
| "slots_quantity s e (oid # oids) = do {
     o1 \<leftarrow> slot s e oid;
     q \<leftarrow> slots_quantity s e oids;
     Some (remain_quantity o1 + q) }"

definition iter_price_size :: "sys \<Rightarrow> iter \<Rightarrow> u64 option" where
  "iter_price_size s it = map_option (\<lambda>bk. of_nat (length bk)) (it_book s it)"

definition iter_order_size :: "sys \<Rightarrow> iter \<Rightarrow> u64 option" where
  "iter_order_size s it = map_option levels_order_size (it_book s it)"

definition iter_order_size_limited :: "sys \<Rightarrow> iter \<Rightarrow> ll \<Rightarrow> u64 option" where
  "iter_order_size_limited s it limited_price =
     map_option (\<lambda>bk. levels_order_size (within_limit (it_side it) limited_price bk)) (it_book s it)"

definition iter_quantity :: "sys \<Rightarrow> iter \<Rightarrow> u64 option" where
  "iter_quantity s it = do { e \<leftarrow> it_e it; bk \<leftarrow> it_book s it; slots_quantity s e (book_ids bk) }"

definition iter_quantity_limited :: "sys \<Rightarrow> iter \<Rightarrow> ll \<Rightarrow> u64 option" where
  "iter_quantity_limited s it limited_price = do {
     e \<leftarrow> it_e it;
     bk \<leftarrow> it_book s it;
     slots_quantity s e (book_ids (within_limit (it_side it) limited_price bk)) }"

text \<open>
  \<open>erase\<close>: the entry, then the level if it was the last, then the iterator moves on, and at last the
  order leaves the order map under the id it had.
\<close>

definition iter_erase :: "sys \<Rightarrow> iter \<Rightarrow> (iter \<times> sys) option" where
  "iter_erase s it =
     (if \<not> it_valid it then Some (it, s)
      else do {
        (e, px, oid) \<leftarrow> it_deref s it;
        o1 \<leftarrow> slot s e oid;
        let bk = walked (engs s e) (it_side it);
        level \<leftarrow> map_of bk px;
        let level' = remove1 oid level;
        let bk' = (if level' = [] then AList.delete px bk else AList.update px level' bk);
        let s1 = upd_eng e (set_walked (it_side it) bk') s;
        pos \<leftarrow> (case after oid level of
                  oid' # _ \<Rightarrow> Some (Some (px, oid'))
                | [] \<Rightarrow> book_begin (levels_after px bk));
        it1 \<leftarrow> it_load s1 it pos;
        Some (it1, upd_eng e (\<lambda>x. x\<lparr>odr_map := AList.delete (order_id o1) (odr_map x)\<rparr>) s1) })"

text \<open>\<open>maker_match\<close> and \<open>taker_match\<close> of the iterator.\<close>

definition iter_maker_match :: "sys \<Rightarrow> iter \<Rightarrow> u64 \<Rightarrow> u64 \<Rightarrow> u64 \<Rightarrow> u64 \<Rightarrow> (iter \<times> sys) option" where
  "iter_maker_match s it mid last_quantity last_id last_id2 = do {
     (e, px, oid) \<leftarrow> it_deref s it;
     o1 \<leftarrow> slot s e oid;
     let s1 = put_slot e oid (maker_match_order o1 mid last_quantity last_id last_id2) s;
     s2 \<leftarrow> callback e (Slot e oid) s1;
     o2 \<leftarrow> slot s2 e oid;
     if remain_quantity o2 = 0 then iter_erase s2 it
     else Some (it\<lparr>it_remain := remain_quantity o2\<rparr>, s2) }"

definition iter_taker_match ::
    "nat \<Rightarrow> oref \<Rightarrow> u64 \<Rightarrow> ll \<Rightarrow> u64 \<Rightarrow> u64 \<Rightarrow> u64 \<Rightarrow> sys \<Rightarrow> sys option" where
  "iter_taker_match e r mid last_price last_quantity last_id last_id2 s = do {
     o1 \<leftarrow> get_ref s r;
     callback e r (put_ref r (match_order o1 TAKER mid last_price last_quantity last_id last_id2) s) }"

text \<open>The price at the top of the engine's own side, and of the walked side.\<close>

definition iter_top_price_own_side :: "sys \<Rightarrow> iter \<Rightarrow> ll option" where
  "iter_top_price_own_side s it = do {
     e \<leftarrow> it_e it;
     let bk = (if it_side it = BUY then bid_book (engs s e)
               else if it_side it = SELL then ask_book (engs s e) else []);
     (case bk of
        (px, oid # _) # _ \<Rightarrow> map_option price (slot s e oid)
      | _ \<Rightarrow> Some MARKET_PRICE) }"

definition iter_top_price :: "sys \<Rightarrow> iter \<Rightarrow> ll option" where
  "iter_top_price s it =
     (if \<not> it_valid it then Some MARKET_PRICE else map_option price (it_order s it))"

definition iter_top_quantity :: "sys \<Rightarrow> iter \<Rightarrow> u64 option" where
  "iter_top_quantity s it =
     (if \<not> it_valid it then Some 0 else map_option remain_quantity (it_order s it))"

definition iter_top_matching_quantity :: "iter \<Rightarrow> u64" where
  "iter_top_matching_quantity it = (if \<not> it_valid it then 0 else it_remain it)"

definition iter_reduce_matching :: "u64 \<Rightarrow> iter \<Rightarrow> iter" where
  "iter_reduce_matching q it = it\<lparr>it_remain := it_remain it - q\<rparr>"

end
