(* ===== verification/Matcher.thy ===== *)
theory Matcher
  imports Iterator
begin

text \<open>
  \<open>engine::matcher\<close> (\<open>engine.hpp\<close>): matches an order against the orders resting on one side of an
  engine and against the implied orders its impliers derive from two legs on other engines.
  \<open>normal_match\<close> fills what it can and rests, cancels or reprices the remainder by the order's time
  condition; \<open>fok_match\<close> first collects enough matches to fill the order, and only then executes
  them.

  A matcher is named by its engine and the side of its iterator: \<open>BUY\<close> is \<open>_ask_book_matcher\<close>, which
  walks the asks, \<open>SELL\<close> is \<open>_bid_book_matcher\<close>. The comparison is a parameter, as in the source.
  The two \<open>while\<close> loops are \<open>partial_function (option)\<close>: \<open>None\<close> also covers a loop that does not
  end, and what is proved about them in \<open>Matching\<close> says \<open>Some\<close>.
\<close>

section \<open>The two matchers of an engine\<close>

definition mat_local :: "sys \<Rightarrow> nat \<Rightarrow> order_side \<Rightarrow> iter" where
  "mat_local s e sd = (if sd = BUY then ask_local (engs s e) else bid_local (engs s e))"

definition set_mat_local :: "nat \<Rightarrow> order_side \<Rightarrow> iter \<Rightarrow> sys \<Rightarrow> sys" where
  "set_mat_local e sd it s =
     upd_eng e (\<lambda>x. if sd = BUY then x\<lparr>ask_local := it\<rparr> else x\<lparr>bid_local := it\<rparr>) s"

definition mat_impliers :: "sys \<Rightarrow> nat \<Rightarrow> order_side \<Rightarrow> (u64 \<times> nat) list" where
  "mat_impliers s e sd = (if sd = BUY then ask_impliers (engs s e) else bid_impliers (engs s e))"

definition set_mat_impliers :: "nat \<Rightarrow> order_side \<Rightarrow> (u64 \<times> nat) list \<Rightarrow> sys \<Rightarrow> sys" where
  "set_mat_impliers e sd l s =
     upd_eng e (\<lambda>x. if sd = BUY then x\<lparr>ask_impliers := l\<rparr> else x\<lparr>bid_impliers := l\<rparr>) s"

abbreviation upd_imp :: "nat \<Rightarrow> (implier_obj \<Rightarrow> implier_obj) \<Rightarrow> sys \<Rightarrow> sys" where
  "upd_imp a f s \<equiv> s\<lparr>imps := (imps s)(a := f (imps s a))\<rparr>"

section \<open>Registration of impliers\<close>

definition insert_mutex :: "nat \<Rightarrow> nat \<Rightarrow> sys \<Rightarrow> sys" where
  "insert_mutex e m s = upd_eng e (\<lambda>x. x\<lparr>mutex_set := ins_by (<) m (mutex_set x)\<rparr>) s"

definition erase_mutex :: "nat \<Rightarrow> nat \<Rightarrow> sys \<Rightarrow> sys" where
  "erase_mutex e m s = upd_eng e (\<lambda>x. x\<lparr>mutex_set := remove1 m (mutex_set x)\<rparr>) s"

text \<open>The leg's mutex is taken or dropped only \<open>if (leg)\<close>, that is, when the leg's iterator is valid.\<close>

definition leg_mutex :: "(nat \<Rightarrow> nat \<Rightarrow> sys \<Rightarrow> sys) \<Rightarrow> nat \<Rightarrow> iter \<Rightarrow> sys \<Rightarrow> sys" where
  "leg_mutex f e leg s =
     (if it_valid leg then (case it_e leg of None \<Rightarrow> s | Some m \<Rightarrow> f e m s) else s)"

definition unset_implier :: "nat \<Rightarrow> order_side \<Rightarrow> nat \<Rightarrow> sys \<Rightarrow> sys" where
  "unset_implier e sd a s =
     (let prio = imp_priority (imps s a); l = mat_impliers s e sd
      in case map_of l prio of
           None \<Rightarrow> s
         | Some b \<Rightarrow>
             let s1 = leg_mutex erase_mutex e (imp_leg1 (imps s b)) s;
                 s2 = leg_mutex erase_mutex e (imp_leg2 (imps s b)) s1
             in set_mat_impliers e sd (AList.delete prio l) s2)"

fun insert_implier :: "u64 \<Rightarrow> nat \<Rightarrow> (u64 \<times> nat) list \<Rightarrow> (u64 \<times> nat) list" where
  "insert_implier prio a [] = [(prio, a)]"
| "insert_implier prio a ((q, b) # l) =
     (if prio > q then (prio, a) # (q, b) # l
      else if q > prio then (q, b) # insert_implier prio a l else (q, b) # l)"

definition set_implier :: "nat \<Rightarrow> order_side \<Rightarrow> nat \<Rightarrow> sys \<Rightarrow> sys" where
  "set_implier e sd a s =
     (let s1 = unset_implier e sd a s;
          s2 = set_mat_impliers e sd
                 (insert_implier (imp_priority (imps s a)) a (mat_impliers s1 e sd)) s1;
          s3 = leg_mutex insert_mutex e (imp_leg1 (imps s a)) s2
      in leg_mutex insert_mutex e (imp_leg2 (imps s a)) s3)"

section \<open>Reset\<close>

definition reset_implier :: "nat \<Rightarrow> sys \<Rightarrow> sys option" where
  "reset_implier a s = do {
     leg1 \<leftarrow> iter_reset s (imp_leg1 (imps s a));
     leg2 \<leftarrow> iter_reset s (imp_leg2 (imps s a));
     Some (upd_imp a (\<lambda>x. x\<lparr>imp_leg1 := leg1, imp_leg2 := leg2\<rparr>) s) }"

fun reset_impliers :: "(u64 \<times> nat) list \<Rightarrow> sys \<Rightarrow> sys option" where
  "reset_impliers [] s = Some s"
| "reset_impliers ((prio, a) # l) s = reset_implier a s \<bind> reset_impliers l"

definition matcher_reset :: "nat \<Rightarrow> order_side \<Rightarrow> sys \<Rightarrow> sys option" where
  "matcher_reset e sd s = do {
     it \<leftarrow> iter_reset s (mat_local s e sd);
     let s1 = set_mat_local e sd it s;
     reset_impliers (mat_impliers s1 e sd) s1 }"

section \<open>The best price\<close>

text \<open>The price of an implied order: \<open>MARKET_PRICE\<close> (no price) unless both legs are valid.\<close>

definition implied_price :: "sys \<Rightarrow> nat \<Rightarrow> nat \<Rightarrow> ll option" where
  "implied_price s e a =
     (let imp = imps s a
      in if it_valid (imp_leg1 imp) \<and> it_valid (imp_leg2 imp) then do {
           o1 \<leftarrow> it_order s (imp_leg1 imp);
           o2 \<leftarrow> it_order s (imp_leg2 imp);
           matchd_price (imp_kind imp) (price o1) (price o2) (mini_tick (engs s e)) }
         else Some MARKET_PRICE)"

fun top_price_loop :: "key_comp \<Rightarrow> sys \<Rightarrow> nat \<Rightarrow> (u64 \<times> nat) list \<Rightarrow> ll \<Rightarrow> ll option" where
  "top_price_loop cmp s e [] px = Some px"
| "top_price_loop cmp s e ((prio, a) # l) px = do {
     matched_price \<leftarrow> implied_price s e a;
     top_price_loop cmp s e l
       (if matched_price \<noteq> MARKET_PRICE \<and> (px = MARKET_PRICE \<or> cmp matched_price px)
        then matched_price else px) }"

definition matcher_top_price :: "key_comp \<Rightarrow> sys \<Rightarrow> nat \<Rightarrow> order_side \<Rightarrow> ll option" where
  "matcher_top_price cmp s e sd = do {
     px \<leftarrow> iter_top_price s (mat_local s e sd);
     top_price_loop cmp s e (mat_impliers s e sd) px }"

text \<open>An implied price better than the own side's top is moved one tick behind it.\<close>

definition uncross :: "key_comp \<Rightarrow> order_side \<Rightarrow> ll \<Rightarrow> ll \<Rightarrow> ll \<Rightarrow> ll" where
  "uncross cmp sd tick own matched_price =
     (if own \<noteq> MARKET_PRICE \<and> cmp matched_price own then
        (if sd = SELL then ll_sub own tick else if sd = BUY then ll_add own tick else matched_price)
      else matched_price)"

fun top_loop :: "key_comp \<Rightarrow> sys \<Rightarrow> nat \<Rightarrow> order_side \<Rightarrow> ll \<Rightarrow> (u64 \<times> nat) list \<Rightarrow>
    ll \<times> u64 \<times> nat option \<Rightarrow> (ll \<times> u64 \<times> nat option) option" where
  "top_loop cmp s e sd own [] best = Some best"
| "top_loop cmp s e sd own ((prio, a) # l) (top_px, top_qty, rt) = do {
     implied \<leftarrow> implied_price s e a;
     let matched_price = uncross cmp sd (mini_tick (engs s e)) own implied;
     top_loop cmp s e sd own l
       (if implied \<noteq> MARKET_PRICE \<and> (top_px = MARKET_PRICE \<or> cmp matched_price top_px)
        then (matched_price,
              (let q1 = iter_top_matching_quantity (imp_leg1 (imps s a));
                   q2 = iter_top_matching_quantity (imp_leg2 (imps s a))
               in if q1 < q2 then q1 else q2),
              Some a)
        else (top_px, top_qty, rt)) }"

definition matcher_top :: "key_comp \<Rightarrow> sys \<Rightarrow> nat \<Rightarrow> order_side \<Rightarrow> (ll \<times> u64 \<times> nat option) option" where
  "matcher_top cmp s e sd = do {
     top_px \<leftarrow> iter_top_price s (mat_local s e sd);
     own \<leftarrow> iter_top_price_own_side s (mat_local s e sd);
     top_loop cmp s e sd own (mat_impliers s e sd)
       (top_px, iter_top_matching_quantity (mat_local s e sd), None) }"

section \<open>best_bid and best_ask\<close>

definition best_bid :: "nat \<Rightarrow> sys \<Rightarrow> (ll \<times> sys) option" where
  "best_bid e s = do {
     s1 \<leftarrow> matcher_reset e SELL s;
     px \<leftarrow> matcher_top_price greater s1 e SELL;
     Some (px, s1) }"

definition best_ask :: "nat \<Rightarrow> sys \<Rightarrow> (ll \<times> sys) option" where
  "best_ask e s = do {
     s1 \<leftarrow> matcher_reset e BUY s;
     px \<leftarrow> matcher_top_price less s1 e BUY;
     Some (px, s1) }"

section \<open>normal_match\<close>

text \<open>One execution of the loop's body after the price check: a trade with a resting order or with both legs.\<close>

definition trade_local :: "nat \<Rightarrow> order_side \<Rightarrow> oref \<Rightarrow> ll \<Rightarrow> u64 \<Rightarrow> u64 \<Rightarrow> sys \<Rightarrow> sys option" where
  "trade_local e sd r top_px q mid s = do {
     maker \<leftarrow> it_order s (mat_local s e sd);
     let local_id = order_id maker;
     o1 \<leftarrow> get_ref s r;
     (it, s1) \<leftarrow> iter_maker_match s (mat_local s e sd) mid q (order_id o1) 0;
     iter_taker_match e r mid top_px q local_id 0 (set_mat_local e sd it s1) }"

definition trade_implied :: "nat \<Rightarrow> oref \<Rightarrow> ll \<Rightarrow> u64 \<Rightarrow> u64 \<Rightarrow> nat \<Rightarrow> sys \<Rightarrow> sys option" where
  "trade_implied e r top_px q mid a s = do {
     maker1 \<leftarrow> it_order s (imp_leg1 (imps s a));
     maker2 \<leftarrow> it_order s (imp_leg2 (imps s a));
     let id1 = order_id maker1;
     let id2 = order_id maker2;
     o1 \<leftarrow> get_ref s r;
     (leg1, s1) \<leftarrow> iter_maker_match s (imp_leg1 (imps s a)) mid q (order_id o1) id2;
     let s2 = upd_imp a (\<lambda>x. x\<lparr>imp_leg1 := leg1\<rparr>) s1;
     o2 \<leftarrow> get_ref s2 r;
     (leg2, s3) \<leftarrow> iter_maker_match s2 (imp_leg2 (imps s2 a)) mid q (order_id o2) id1;
     iter_taker_match e r mid top_px q id1 id2 (upd_imp a (\<lambda>x. x\<lparr>imp_leg2 := leg2\<rparr>) s3) }"

text \<open>\<open>True\<close> with the state: the function returned from inside the loop.\<close>

partial_function (option) match_loop ::
    "key_comp \<Rightarrow> nat \<Rightarrow> order_side \<Rightarrow> oref \<Rightarrow> ll \<Rightarrow> sys \<Rightarrow> (bool \<times> sys) option" where
  "match_loop cmp e sd r tick s = do {
     o1 \<leftarrow> get_ref s r;
     if remain_quantity o1 = 0 then Some (False, s)
     else do {
       (top_px, top_qty, imp) \<leftarrow> matcher_top cmp s e sd;
       if top_px = MARKET_PRICE then Some (False, s)
       else if price o1 \<noteq> MARKET_PRICE \<and> cmp (price o1) top_px then Some (False, s)
       else if time_condition o1 = MAKER_ONLY then do {
         s1 \<leftarrow> callback e r (put_ref r (o1\<lparr>order_state := CANCELED_BY_MAKER_ONLY\<rparr>) s);
         Some (True, s1) }
       else if time_condition o1 = MAKER_ONLY_REPRICE then
         Some (False, put_ref r (o1\<lparr>price := ll_add top_px tick\<rparr>) s)
       else do {
         let q = (if top_qty < remain_quantity o1 then top_qty else remain_quantity o1);
         let (mid, s1) = get_id s;
         s2 \<leftarrow> (case imp of
                 None \<Rightarrow> trade_local e sd r top_px q mid s1
               | Some a \<Rightarrow> trade_implied e r top_px q mid a s1);
         match_loop cmp e sd r tick s2 } } }"

declare match_loop.simps [code]

text \<open>\<open>self[o.price][o.order_id] = &emplace(o.order_id, o)\<close>: the order rests on its own side.\<close>

definition rest_order :: "nat \<Rightarrow> order_side \<Rightarrow> oref \<Rightarrow> sys \<Rightarrow> sys option" where
  "rest_order e sd r s = do {
     o1 \<leftarrow> get_ref s r;
     Some (upd_eng e (\<lambda>x.
       let x1 = x\<lparr>odr_map := emplace (order_id o1) o1 (odr_map x)\<rparr>
       in if sd = BUY then x1\<lparr>bid_book := book_insert greater (price o1) (order_id o1) (bid_book x1)\<rparr>
          else x1\<lparr>ask_book := book_insert less (price o1) (order_id o1) (ask_book x1)\<rparr>) s) }"

definition finish_cancel :: "nat \<Rightarrow> oref \<Rightarrow> order_status_type \<Rightarrow> sys \<Rightarrow> sys option" where
  "finish_cancel e r st s = do {
     o1 \<leftarrow> get_ref s r;
     callback e r (put_ref r (o1\<lparr>order_state := st\<rparr>) s) }"

definition finish_rest :: "nat \<Rightarrow> order_side \<Rightarrow> oref \<Rightarrow> sys \<Rightarrow> sys option" where
  "finish_rest e sd r s = do {
     s1 \<leftarrow> rest_order e sd r s;
     o1 \<leftarrow> get_ref s1 r;
     if remain_quantity o1 = quantity o1 then callback e r s1 else Some s1 }"

definition match_finish :: "nat \<Rightarrow> order_side \<Rightarrow> oref \<Rightarrow> sys \<Rightarrow> sys option" where
  "match_finish e sd r s = do {
     o1 \<leftarrow> get_ref s r;
     if remain_quantity o1 = 0 then Some s
     else if time_condition o1 = IOC then
       finish_cancel e r
         (if quantity o1 = remain_quantity o1 then CANCELED_ALL_BY_IOC else CANCELED_PARTIAL_BY_IOC) s
     else if time_condition o1 = AUCTION then
       finish_cancel e r
         (if quantity o1 = remain_quantity o1 then CANCELED_ALL_BY_AUCTION
          else CANCELED_PARTIAL_BY_AUCTION) s
     else if price o1 = MARKET_PRICE then do {
       (px, s1) \<leftarrow> (if sd = BUY then best_bid e s else best_ask e s);
       o2 \<leftarrow> get_ref s1 r;
       let s2 = put_ref r (o2\<lparr>price := px\<rparr>) s1;
       if px = MARKET_PRICE then finish_cancel e r CANCELED_BY_MARKET_ORDER_NOTHING_MATCH s2
       else finish_rest e sd r s2 }
     else finish_rest e sd r s }"

definition normal_match :: "key_comp \<Rightarrow> nat \<Rightarrow> order_side \<Rightarrow> oref \<Rightarrow> ll \<Rightarrow> sys \<Rightarrow> sys option" where
  "normal_match cmp e sd r tick s = do {
     s1 \<leftarrow> matcher_reset e sd s;
     (returned, s2) \<leftarrow> match_loop cmp e sd r tick s1;
     if returned then Some s2 else match_finish e sd r s2 }"

section \<open>fok_match\<close>

record matched_record =
  rec_price :: ll
  rec_quantity :: u64
  rec_leg1 :: iter
  rec_leg2 :: iter

text \<open>\<open>matcher::match\<close>: the next match at or within the limit, promised but not executed.\<close>

definition promise_leg :: "sys \<Rightarrow> u64 \<Rightarrow> iter \<Rightarrow> iter option" where
  "promise_leg s q leg =
     (let leg' = iter_reduce_matching q leg
      in if iter_top_matching_quantity leg' = 0 then iter_next s leg' else Some leg')"

definition matcher_match ::
    "key_comp \<Rightarrow> nat \<Rightarrow> order_side \<Rightarrow> ll \<Rightarrow> u64 \<Rightarrow> sys \<Rightarrow> (matched_record option \<times> sys) option" where
  "matcher_match cmp e sd limited_price qty s = do {
     (top_px, top_qty, imp) \<leftarrow> matcher_top cmp s e sd;
     if top_px = MARKET_PRICE then Some (None, s)
     else if limited_price \<noteq> MARKET_PRICE \<and> cmp limited_price top_px then Some (None, s)
     else do {
       let q = (if top_qty > qty then qty else top_qty);
       case imp of
         None \<Rightarrow> do {
           let lcl = mat_local s e sd;
           let rt = \<lparr>rec_price = top_px, rec_quantity = q, rec_leg1 = lcl, rec_leg2 = null_iter\<rparr>;
           if q = iter_top_matching_quantity lcl then do {
             lcl' \<leftarrow> iter_next s lcl;
             Some (Some rt, set_mat_local e sd lcl' s) }
           else Some (Some rt, s) }
       | Some a \<Rightarrow> do {
           let leg1 = imp_leg1 (imps s a);
           let leg2 = imp_leg2 (imps s a);
           leg1' \<leftarrow> promise_leg s q leg1;
           leg2' \<leftarrow> promise_leg s q leg2;
           Some (Some \<lparr>rec_price = top_px, rec_quantity = q, rec_leg1 = leg1, rec_leg2 = leg2\<rparr>,
                 upd_imp a (\<lambda>x. x\<lparr>imp_leg1 := leg1', imp_leg2 := leg2'\<rparr>) s) } } }"

partial_function (option) fok_collect ::
    "key_comp \<Rightarrow> nat \<Rightarrow> order_side \<Rightarrow> ll \<Rightarrow> u64 \<Rightarrow> matched_record list \<Rightarrow> sys \<Rightarrow>
       (u64 \<times> matched_record list \<times> sys) option" where
  "fok_collect cmp e sd limited_price remain records s =
     (if remain = 0 then Some (remain, records, s)
      else do {
        (record, s1) \<leftarrow> matcher_match cmp e sd limited_price remain s;
        case record of
          None \<Rightarrow> Some (remain, records, s1)
        | Some rt \<Rightarrow>
            fok_collect cmp e sd limited_price (remain - rec_quantity rt) (records @ [rt]) s1 })"

declare fok_collect.simps [code]

definition fok_trade :: "nat \<Rightarrow> oref \<Rightarrow> matched_record \<Rightarrow> sys \<Rightarrow> sys option" where
  "fok_trade e r rt s = do {
     let (mid, s0) = get_id s;
     maker1 \<leftarrow> it_order s0 (rec_leg1 rt);
     let id1 = order_id maker1;
     if \<not> it_valid (rec_leg2 rt) then do {
       o1 \<leftarrow> get_ref s0 r;
       (_, s1) \<leftarrow> iter_maker_match s0 (rec_leg1 rt) mid (rec_quantity rt) (order_id o1) 0;
       iter_taker_match e r mid (rec_price rt) (rec_quantity rt) id1 0 s1 }
     else do {
       maker2 \<leftarrow> it_order s0 (rec_leg2 rt);
       let id2 = order_id maker2;
       o1 \<leftarrow> get_ref s0 r;
       (_, s1) \<leftarrow> iter_maker_match s0 (rec_leg1 rt) mid (rec_quantity rt) (order_id o1) id2;
       o2 \<leftarrow> get_ref s1 r;
       (_, s2) \<leftarrow> iter_maker_match s1 (rec_leg2 rt) mid (rec_quantity rt) (order_id o2) id1;
       iter_taker_match e r mid (rec_price rt) (rec_quantity rt) id1 id2 s2 } }"

fun fok_execute :: "nat \<Rightarrow> oref \<Rightarrow> matched_record list \<Rightarrow> sys \<Rightarrow> sys option" where
  "fok_execute e r [] s = Some s"
| "fok_execute e r (rt # rts) s = fok_trade e r rt s \<bind> fok_execute e r rts"

definition fok_match :: "key_comp \<Rightarrow> nat \<Rightarrow> order_side \<Rightarrow> oref \<Rightarrow> sys \<Rightarrow> sys option" where
  "fok_match cmp e sd r s = do {
     s1 \<leftarrow> matcher_reset e sd s;
     o1 \<leftarrow> get_ref s1 r;
     (remain, records, s2) \<leftarrow> fok_collect cmp e sd (price o1) (remain_quantity o1) [] s1;
     if remain \<noteq> 0 then finish_cancel e r CANCELED_BY_FOK s2
     else fok_execute e r records s2 }"

end
