(* ===== verification/Engine.thy ===== *)
theory Engine
  imports Matcher
begin

text \<open>
  \<open>matching::engine\<close> (\<open>engine.hpp\<close>): the stop books and their triggers, and the operations on an
  order: \<open>handle_new\<close>, \<open>handle_cancel\<close>, \<open>handle_amend\<close>, and the public \<open>handle\<close> that locks, dispatches
  on the action, dumps, inserts and, after an auction order, rewrites and releases the callbacks it
  held back. The order the source passes by reference is the field \<open>arg\<close> of the state.
\<close>

section \<open>Construction\<close>

definition end_iter :: "nat \<Rightarrow> order_side \<Rightarrow> iter" where
  "end_iter e sd = \<lparr>it_e = Some e, it_side = sd, it_pos = None, it_remain = 0\<rparr>"

definition new_engine :: "nat \<Rightarrow> ll \<Rightarrow> engine" where
  "new_engine e tick = \<lparr>
     odr_map = [], bid_book = [], ask_book = [], bid_stop_book = [], ask_stop_book = [],
     bid_local = end_iter e SELL, ask_local = end_iter e BUY, bid_impliers = [], ask_impliers = [],
     cb_records = [], mini_tick = tick, is_auction = False, mutex = False, mutex_set = [e]\<rparr>"

text \<open>\<open>implier_base\<close>'s constructor, with the two legs at the top of the books they walk.\<close>

definition new_implier_base ::
    "sys \<Rightarrow> u64 \<Rightarrow> nat \<Rightarrow> nat \<Rightarrow> order_side \<Rightarrow> order_side \<Rightarrow> implier \<Rightarrow> implier_obj option" where
  "new_implier_base s priority leg1_e leg2_e leg1_side leg2_side kind = do {
     leg1 \<leftarrow> new_iter s leg1_e leg1_side;
     leg2 \<leftarrow> new_iter s leg2_e leg2_side;
     Some \<lparr>imp_priority = priority, imp_kind = kind, imp_leg1 = leg1, imp_leg2 = leg2\<rparr> }"

section \<open>Matching on either side\<close>

text \<open>The choice every caller makes between \<open>fok_match\<close> and \<open>normal_match\<close>.\<close>

definition match_asks :: "nat \<Rightarrow> oref \<Rightarrow> sys \<Rightarrow> sys option" where
  "match_asks e r s = do {
     o1 \<leftarrow> get_ref s r;
     if time_condition o1 = FOK then fok_match less e BUY r s
     else normal_match less e BUY r (ll_mul (mini_tick (engs s e)) (- 1)) s }"

definition match_bids :: "nat \<Rightarrow> oref \<Rightarrow> sys \<Rightarrow> sys option" where
  "match_bids e r s = do {
     o1 \<leftarrow> get_ref s r;
     if time_condition o1 = FOK then fok_match greater e SELL r s
     else normal_match greater e SELL r (mini_tick (engs s e)) s }"

section \<open>The stop books\<close>

definition all_slots :: "sys \<Rightarrow> nat \<Rightarrow> u64 list \<Rightarrow> bool" where
  "all_slots s e oids \<longleftrightarrow> (\<forall>oid \<in> set oids. slot s e oid \<noteq> None)"

text \<open>
  Inserting into and erasing from a level of a stop book compares the orders behind its pointers, so
  those must exist.
\<close>

definition level_of :: "ll \<Rightarrow> book \<Rightarrow> u64 list" where
  "level_of px bk = (case map_of bk px of None \<Rightarrow> [] | Some oids \<Rightarrow> oids)"

definition insert_buy_stop :: "nat \<Rightarrow> ll \<Rightarrow> u64 \<Rightarrow> sys \<Rightarrow> sys option" where
  "insert_buy_stop e trigger oid s =
     (if all_slots s e (oid # level_of trigger (bid_stop_book (engs s e))) then
        Some (upd_eng e (\<lambda>x. x\<lparr>bid_stop_book := book_insert less trigger oid (bid_stop_book x)\<rparr>) s)
      else None)"

definition insert_sell_stop :: "nat \<Rightarrow> ll \<Rightarrow> u64 \<Rightarrow> sys \<Rightarrow> sys option" where
  "insert_sell_stop e trigger oid s =
     (if all_slots s e (oid # level_of trigger (ask_stop_book (engs s e))) then
        Some (upd_eng e (\<lambda>x. x\<lparr>ask_stop_book := book_insert greater trigger oid (ask_stop_book x)\<rparr>) s)
      else None)"

definition erase_buy_stop :: "nat \<Rightarrow> order \<Rightarrow> sys \<Rightarrow> sys option" where
  "erase_buy_stop e o1 s =
     (if all_slots s e (level_of (buy_stop_trigger_price o1) (bid_stop_book (engs s e))) then do {
        bk \<leftarrow> erase_from_book (buy_stop_trigger_price o1) (order_id o1) (bid_stop_book (engs s e));
        Some (upd_eng e (\<lambda>x. x\<lparr>bid_stop_book := bk\<rparr>) s) }
      else None)"

definition erase_sell_stop :: "nat \<Rightarrow> order \<Rightarrow> sys \<Rightarrow> sys option" where
  "erase_sell_stop e o1 s =
     (if all_slots s e (level_of (sell_stop_trigger_price o1) (ask_stop_book (engs s e))) then do {
        bk \<leftarrow> erase_from_book (sell_stop_trigger_price o1) (order_id o1) (ask_stop_book (engs s e));
        Some (upd_eng e (\<lambda>x. x\<lparr>ask_stop_book := bk\<rparr>) s) }
      else None)"

text \<open>The levels a best price triggers, in book order; the rest of the book stays.\<close>

definition buy_stop_fires :: "ll \<Rightarrow> ll \<times> u64 list \<Rightarrow> bool" where
  "buy_stop_fires best lv \<longleftrightarrow> best \<noteq> MARKET_PRICE \<and> best \<ge> fst lv"

definition sell_stop_fires :: "ll \<Rightarrow> ll \<times> u64 list \<Rightarrow> bool" where
  "sell_stop_fires best lv \<longleftrightarrow> best \<noteq> MARKET_PRICE \<and> best \<le> fst lv"

fun run_buy_stops :: "nat \<Rightarrow> u64 list \<Rightarrow> sys \<Rightarrow> sys option" where
  "run_buy_stops e [] s = Some s"
| "run_buy_stops e (oid # oids) s = do {
     o1 \<leftarrow> slot s e oid;
     s1 \<leftarrow> match_asks e (Slot e oid) (put_slot e oid (o1\<lparr>price := buy_stop_limit_price o1\<rparr>) s);
     run_buy_stops e oids s1 }"

fun run_sell_stops :: "nat \<Rightarrow> u64 list \<Rightarrow> sys \<Rightarrow> sys option" where
  "run_sell_stops e [] s = Some s"
| "run_sell_stops e (oid # oids) s = do {
     o1 \<leftarrow> slot s e oid;
     s1 \<leftarrow> match_bids e (Slot e oid) (put_slot e oid (o1\<lparr>price := sell_stop_limit_price o1\<rparr>) s);
     run_sell_stops e oids s1 }"

partial_function (option) trigger_buy_stop :: "nat \<Rightarrow> sys \<Rightarrow> sys option" where
  "trigger_buy_stop e s = do {
     (best, s1) \<leftarrow> best_ask e s;
     let odr_list = concat (map snd (filter (buy_stop_fires best) (bid_stop_book (engs s1 e))));
     let s2 = upd_eng e (\<lambda>x. x\<lparr>bid_stop_book :=
                           filter (\<lambda>lv. \<not> buy_stop_fires best lv) (bid_stop_book x)\<rparr>) s1;
     s3 \<leftarrow> run_buy_stops e odr_list s2;
     if odr_list = [] then Some s3 else trigger_buy_stop e s3 }"

partial_function (option) trigger_sell_stop :: "nat \<Rightarrow> sys \<Rightarrow> sys option" where
  "trigger_sell_stop e s = do {
     (best, s1) \<leftarrow> best_bid e s;
     let odr_list = concat (map snd (filter (sell_stop_fires best) (ask_stop_book (engs s1 e))));
     let s2 = upd_eng e (\<lambda>x. x\<lparr>ask_stop_book :=
                           filter (\<lambda>lv. \<not> sell_stop_fires best lv) (ask_stop_book x)\<rparr>) s1;
     s3 \<leftarrow> run_sell_stops e odr_list s2;
     if odr_list = [] then Some s3 else trigger_sell_stop e s3 }"

declare trigger_buy_stop.simps [code] trigger_sell_stop.simps [code]

section \<open>handle_new\<close>

definition upd_arg :: "(order \<Rightarrow> order) \<Rightarrow> sys \<Rightarrow> sys" where
  "upd_arg f s = s\<lparr>arg := f (arg s)\<rparr>"

definition reject :: "nat \<Rightarrow> order_status_type \<Rightarrow> sys \<Rightarrow> sys option" where
  "reject e st s = callback e Arg (upd_arg (\<lambda>o1. o1\<lparr>order_state := st, remain_quantity := 0\<rparr>) s)"

definition init_new_order :: "sys \<Rightarrow> sys" where
  "init_new_order s =
     (let s1 = (if order_id (arg s) = 0
                then let (oid, s0) = get_id s in upd_arg (\<lambda>o1. o1\<lparr>order_id := oid\<rparr>) s0 else s)
      in upd_arg (\<lambda>o1. o1\<lparr>remain_quantity := quantity o1, order_state := OPEN\<rparr>) s1)"

definition trigger_stops :: "nat \<Rightarrow> sys \<Rightarrow> sys option" where
  "trigger_stops e s =
     (if remain_quantity (arg s) > 0 then trigger_sell_stop e s \<bind> trigger_buy_stop e else Some s)"

text \<open>\<open>&((_odr_map.emplace(o.order_id, o).first)->second)\<close>.\<close>

definition emplace_arg :: "nat \<Rightarrow> sys \<Rightarrow> sys" where
  "emplace_arg e s = upd_eng e (\<lambda>x. x\<lparr>odr_map := emplace (order_id (arg s)) (arg s) (odr_map x)\<rparr>) s"

definition new_buy :: "nat \<Rightarrow> sys \<Rightarrow> sys option" where
  "new_buy e s =
     (let s1 = init_new_order s
      in if order_kind (arg s1) \<noteq> MARKET \<and> price (arg s1) = MARKET_PRICE
         then reject e REJECT_LIMITE_ORDER_WITH_MARKET_PRICE s1
         else match_asks e Arg s1 \<bind> trigger_stops e)"

definition new_sell :: "nat \<Rightarrow> sys \<Rightarrow> sys option" where
  "new_sell e s =
     (let s1 = init_new_order s
      in if order_kind (arg s1) \<noteq> MARKET \<and> price (arg s1) = MARKET_PRICE
         then reject e REJECT_LIMITE_ORDER_WITH_MARKET_PRICE s1
         else match_bids e Arg s1 \<bind> trigger_stops e)"

definition new_buy_stop :: "nat \<Rightarrow> sys \<Rightarrow> sys option" where
  "new_buy_stop e s = do {
     (best_a, s1) \<leftarrow> best_ask e (upd_arg (\<lambda>o1. o1\<lparr>price := STOP_PRICE\<rparr>) s);
     if buy_stop_limit_price (arg s1) = MARKET_PRICE then
       reject e REJECT_LIMITE_ORDER_WITH_MARKET_PRICE s1
     else if buy_stop_trigger_price (arg s1) > buy_stop_limit_price (arg s1) then
       reject e REJECT_BUY_STOP_TRIGGER_LARGE_THAN_STOP_LIMIT s1
     else do {
       let s2 = init_new_order s1;
       if best_a \<noteq> MARKET_PRICE \<and> buy_stop_trigger_price (arg s2) \<le> best_a then
         match_asks e Arg (upd_arg (\<lambda>o1. o1\<lparr>price := buy_stop_limit_price o1\<rparr>) s2) \<bind> trigger_stops e
       else do {
         s3 \<leftarrow> insert_buy_stop e (buy_stop_trigger_price (arg s2)) (order_id (arg s2)) (emplace_arg e s2);
         callback e Arg s3 } } }"

definition new_sell_stop :: "nat \<Rightarrow> sys \<Rightarrow> sys option" where
  "new_sell_stop e s = do {
     (best_b, s1) \<leftarrow> best_bid e (upd_arg (\<lambda>o1. o1\<lparr>price := STOP_PRICE\<rparr>) s);
     if sell_stop_limit_price (arg s1) = MARKET_PRICE then
       reject e REJECT_LIMITE_ORDER_WITH_MARKET_PRICE s1
     else if sell_stop_trigger_price (arg s1) < sell_stop_limit_price (arg s1) then
       reject e REJECT_SELL_STOP_TRIGGER_LESS_THAN_STOP_LIMIT s1
     else do {
       let s2 = init_new_order s1;
       if best_b \<noteq> MARKET_PRICE \<and> sell_stop_trigger_price (arg s2) \<ge> best_b then
         match_bids e Arg (upd_arg (\<lambda>o1. o1\<lparr>price := sell_stop_limit_price o1\<rparr>) s2) \<bind> trigger_stops e
       else do {
         s3 \<leftarrow> insert_sell_stop e (sell_stop_trigger_price (arg s2)) (order_id (arg s2)) (emplace_arg e s2);
         callback e Arg s3 } } }"

definition new_buy_sell_stop :: "nat \<Rightarrow> sys \<Rightarrow> sys option" where
  "new_buy_sell_stop e s = do {
     (best_a, s0) \<leftarrow> best_ask e (upd_arg (\<lambda>o1. o1\<lparr>price := STOP_PRICE\<rparr>) s);
     (best_b, s1) \<leftarrow> best_bid e s0;
     if buy_stop_limit_price (arg s1) = MARKET_PRICE then
       reject e REJECT_LIMITE_ORDER_WITH_MARKET_PRICE s1
     else if buy_stop_trigger_price (arg s1) > buy_stop_limit_price (arg s1) then
       reject e REJECT_BUY_STOP_TRIGGER_LARGE_THAN_STOP_LIMIT s1
     else if sell_stop_limit_price (arg s1) = MARKET_PRICE then
       reject e REJECT_LIMITE_ORDER_WITH_MARKET_PRICE s1
     else if sell_stop_trigger_price (arg s1) < sell_stop_limit_price (arg s1) then
       reject e REJECT_SELL_STOP_TRIGGER_LESS_THAN_STOP_LIMIT s1
     else do {
       let s2 = init_new_order s1;
       if best_a \<noteq> MARKET_PRICE \<and> buy_stop_trigger_price (arg s2) \<le> best_a then
         match_asks e Arg (upd_arg (\<lambda>o1. o1\<lparr>price := buy_stop_limit_price o1\<rparr>) s2) \<bind> trigger_stops e
       else if best_b = MARKET_PRICE \<or> sell_stop_trigger_price (arg s2) \<ge> best_b then
         match_bids e Arg (upd_arg (\<lambda>o1. o1\<lparr>price := sell_stop_limit_price o1\<rparr>) s2) \<bind> trigger_stops e
       else do {
         let s3 = emplace_arg e s2;
         s4 \<leftarrow> insert_buy_stop e (buy_stop_trigger_price (arg s3)) (order_id (arg s3)) s3;
         s5 \<leftarrow> insert_sell_stop e (sell_stop_trigger_price (arg s4)) (order_id (arg s4)) s4;
         callback e Arg s5 } } }"

definition handle_new :: "nat \<Rightarrow> sys \<Rightarrow> sys option" where
  "handle_new e s =
     (let s1 = (if order_action (arg s) = NEW then upd_arg (\<lambda>o1. o1\<lparr>order_id := 0\<rparr>) s else s)
      in if quantity (arg s1) = 0 then reject e REJECT_QUANTITY_ZERO s1
         else if display_quantity (arg s1) > quantity (arg s1) then
           reject e REJECT_DISPLAY_QUANTITY_LARGER_THAN_QUANTITY s1
         else if side (arg s1) = BUY then new_buy e s1
         else if side (arg s1) = SELL then new_sell e s1
         else if side (arg s1) = BUY_STOP then new_buy_stop e s1
         else if side (arg s1) = SELL_STOP then new_sell_stop e s1
         else if side (arg s1) = BUY_SELL_STOP then new_buy_sell_stop e s1
         else reject e REJECT_UNKNOW_ORDER_ACTION s1)"

section \<open>handle_cancel\<close>

text \<open>
  Taking an order off the bids or the asks: stops of the other direction are triggered when it was
  alone at the top.
\<close>

definition alone_on_top :: "book \<Rightarrow> ll \<Rightarrow> bool" where
  "alone_on_top bk px = (case bk of (q, oids) # _ \<Rightarrow> length oids = 1 \<and> px = q | [] \<Rightarrow> False)"

definition cancel_bid :: "nat \<Rightarrow> order \<Rightarrow> sys \<Rightarrow> sys option" where
  "cancel_bid e ori s = do {
     let trigger = alone_on_top (bid_book (engs s e)) (price ori);
     bk \<leftarrow> erase_from_book (price ori) (order_id ori) (bid_book (engs s e));
     let s1 = upd_eng e (\<lambda>x. x\<lparr>bid_book := bk\<rparr>) s;
     if trigger then trigger_sell_stop e s1 else Some s1 }"

definition cancel_ask :: "nat \<Rightarrow> order \<Rightarrow> sys \<Rightarrow> sys option" where
  "cancel_ask e ori s = do {
     let trigger = alone_on_top (ask_book (engs s e)) (price ori);
     bk \<leftarrow> erase_from_book (price ori) (order_id ori) (ask_book (engs s e));
     let s1 = upd_eng e (\<lambda>x. x\<lparr>ask_book := bk\<rparr>) s;
     if trigger then trigger_buy_stop e s1 else Some s1 }"

definition cancel_from_books :: "nat \<Rightarrow> order \<Rightarrow> sys \<Rightarrow> sys option" where
  "cancel_from_books e ori s =
     (if side ori = BUY then cancel_bid e ori s
      else if side ori = SELL then cancel_ask e ori s
      else if side ori = BUY_STOP then
        (if price ori = STOP_PRICE then erase_buy_stop e ori s else cancel_bid e ori s)
      else if side ori = SELL_STOP then
        (if price ori = STOP_PRICE then erase_sell_stop e ori s else cancel_ask e ori s)
      else if price ori = STOP_PRICE then erase_buy_stop e ori s \<bind> erase_sell_stop e ori
      else if price ori = buy_stop_limit_price ori then cancel_bid e ori s
      else cancel_ask e ori s)"

text \<open>The state of the cancelled order that is reported: by the user, or by an amendment.\<close>

definition mark_cancelled :: "nat \<Rightarrow> u64 \<Rightarrow> order \<Rightarrow> sys \<Rightarrow> sys option" where
  "mark_cancelled e oid ori s =
     (if order_action (arg s) = CANCEL then
        callback e (Slot e oid) (put_slot e oid (ori\<lparr>order_state := CANCELED_BY_USER\<rparr>) s)
      else if order_action (arg s) = AMEND then
        callback e (Slot e oid) (put_slot e oid (ori\<lparr>order_state := CANCELED_BY_AMEND\<rparr>) s)
      else Some s)"

definition handle_cancel :: "nat \<Rightarrow> sys \<Rightarrow> (bool \<times> sys) option" where
  "handle_cancel e s =
     (case slot s e (order_id (arg s)) of
        None \<Rightarrow> do {
          let s1 = upd_arg (\<lambda>o1. o1\<lparr>remain_quantity := 0\<rparr>) s;
          if order_action (arg s1) = CANCEL then do {
            s2 \<leftarrow> callback e Arg (upd_arg (\<lambda>o1. o1\<lparr>order_state := REJECT_CANCEL_ORDER_ID_NOT_FOUND\<rparr>) s1);
            Some (False, s2) }
          else if order_action (arg s1) = AMEND then
            Some (False, upd_arg (\<lambda>o1. o1\<lparr>order_state := REJECT_AMEND_ORDER_ID_NOT_FOUND\<rparr>) s1)
          else Some (False, s1) }
      | Some ori0 \<Rightarrow> do {
          let oid = order_id (arg s);
          s1 \<leftarrow> mark_cancelled e oid ori0 s;
          ori \<leftarrow> slot s1 e oid;
          s2 \<leftarrow> cancel_from_books e ori s1;
          Some (True, upd_eng e (\<lambda>x. x\<lparr>odr_map := AList.delete oid (odr_map x)\<rparr>) s2) })"

section \<open>handle_amend\<close>

definition handle_amend :: "nat \<Rightarrow> sys \<Rightarrow> sys option" where
  "handle_amend e s =
     (if quantity (arg s) = 0 then reject e REJECT_QUANTITY_ZERO s
      else if display_quantity (arg s) > quantity (arg s) then
        reject e REJECT_DISPLAY_QUANTITY_LARGER_THAN_QUANTITY s
      else case slot s e (order_id (arg s)) of
        None \<Rightarrow> reject e REJECT_AMEND_ORDER_ID_NOT_FOUND s
      | Some ori0 \<Rightarrow>
          (let oid = order_id (arg s);
               ori = ori0\<lparr>order_action := order_action (arg s)\<rparr>;
               s1 = put_slot e oid ori s;
               client = client_order_id ori
           in if can_amend (arg s1) ori then
                callback e (Slot e oid)
                  (put_slot e oid
                     (ori\<lparr>quantity := quantity (arg s1), display_quantity := display_quantity (arg s1),
                          remain_quantity := quantity (arg s1), request_id := request_id (arg s1)\<rparr>) s1)
              else do {
                (cancelled, s2) \<leftarrow> handle_cancel e s1;
                if cancelled then
                  handle_new e (upd_arg (\<lambda>o1. o1\<lparr>client_order_id := client, order_id := 0,
                                                 order_action := NEW\<rparr>) s2)
                else Some s2 }))"

section \<open>handle\<close>

text \<open>\<open>lock\<close> spins on a mutex that is held; in a run of one thread it never gets it.\<close>

fun lock_all :: "nat list \<Rightarrow> sys \<Rightarrow> sys option" where
  "lock_all [] s = Some s"
| "lock_all (m # ms) s =
     (if mutex (engs s m) then None else lock_all ms (upd_eng m (\<lambda>x. x\<lparr>mutex := True\<rparr>) s))"

fun unlock_all :: "nat list \<Rightarrow> sys \<Rightarrow> sys" where
  "unlock_all [] s = s"
| "unlock_all (m # ms) s = unlock_all ms (upd_eng m (\<lambda>x. x\<lparr>mutex := False\<rparr>) s)"

definition lock :: "nat \<Rightarrow> sys \<Rightarrow> sys option" where
  "lock e s = lock_all (mutex_set (engs s e)) s"

definition unlock :: "nat \<Rightarrow> sys \<Rightarrow> sys" where
  "unlock e s = unlock_all (rev (mutex_set (engs s e))) s"

text \<open>\<open>_callback(o)\<close> itself, without the clock and the auction's buffer.\<close>

definition emit :: "nat \<Rightarrow> order \<Rightarrow> sys \<Rightarrow> sys" where
  "emit e o1 s = s\<lparr>out := out s @ [(e, o1)]\<rparr>"

definition dump_order :: "order \<Rightarrow> order" where
  "dump_order o1 =
     (if order_action o1 = NEW then o1\<lparr>order_action := INSERT_NEW\<rparr>
      else if order_action o1 = AMEND then o1\<lparr>order_action := INSERT_AMEND\<rparr> else o1)"

text \<open>The entries of the order map in the order the standard library walks them.\<close>

definition walk_map :: "sys \<Rightarrow> nat \<Rightarrow> order list" where
  "walk_map s e = List.map_filter (slot s e) (umap_order s (map fst (odr_map (engs s e))))"

definition handle_dump :: "nat \<Rightarrow> sys \<Rightarrow> sys" where
  "handle_dump e s =
     emit e (new_order\<lparr>order_action := DUMP_END\<rparr>) (fold (emit e) (map dump_order (walk_map s e)) s)"

definition recovery :: "sys \<Rightarrow> nat \<Rightarrow> order list" where
  "recovery s e = walk_map s e"

definition insert_bid :: "nat \<Rightarrow> sys \<Rightarrow> sys" where
  "insert_bid e s =
     upd_eng e (\<lambda>x. x\<lparr>bid_book := book_insert greater (price (arg s)) (order_id (arg s)) (bid_book x)\<rparr>)
       (emplace_arg e s)"

definition insert_ask :: "nat \<Rightarrow> sys \<Rightarrow> sys" where
  "insert_ask e s =
     upd_eng e (\<lambda>x. x\<lparr>ask_book := book_insert less (price (arg s)) (order_id (arg s)) (ask_book x)\<rparr>)
       (emplace_arg e s)"

definition handle_insert :: "nat \<Rightarrow> sys \<Rightarrow> sys option" where
  "handle_insert e s0 = do {
     let s = upd_arg (\<lambda>o1. if order_action o1 = INSERT_NEW then o1\<lparr>order_action := NEW\<rparr>
                           else if order_action o1 = INSERT_AMEND then o1\<lparr>order_action := AMEND\<rparr>
                           else o1) s0;
     let o1 = arg s;
     s1 \<leftarrow> (if side o1 = BUY then Some (insert_bid e s)
            else if side o1 = SELL then Some (insert_ask e s)
            else if side o1 = BUY_STOP then
              (if price o1 = buy_stop_limit_price o1 then Some (insert_bid e s)
               else let s2 = upd_arg (\<lambda>o2. o2\<lparr>price := STOP_PRICE\<rparr>) s
                    in insert_buy_stop e (buy_stop_trigger_price o1) (order_id o1) (emplace_arg e s2))
            else if side o1 = SELL_STOP then
              (if price o1 = sell_stop_limit_price o1 then Some (insert_ask e s)
               else let s2 = upd_arg (\<lambda>o2. o2\<lparr>price := STOP_PRICE\<rparr>) s
                    in insert_buy_stop e (buy_stop_trigger_price o1) (order_id o1) (emplace_arg e s2))
            else if side o1 = BUY_SELL_STOP then do {
              s2 \<leftarrow> insert_buy_stop e (buy_stop_trigger_price o1) (order_id o1) (emplace_arg e s);
              insert_sell_stop e (sell_stop_trigger_price o1) (order_id o1) s2 }
            else Some s);
     Some (emit e (arg s1) s1) }"

text \<open>
  After an auction order: the price of the last trade that is not the auction order's own
  cancellation is put on every record held back, and the records go out.
\<close>

definition auction_cancelled :: "order \<Rightarrow> bool" where
  "auction_cancelled o1 \<longleftrightarrow> order_state o1 = CANCELED_ALL_BY_AUCTION \<or> order_state o1 = CANCELED_PARTIAL_BY_AUCTION"

definition auction_price :: "order \<Rightarrow> ll \<Rightarrow> ll" where
  "auction_price o1 last_price =
     (if side o1 = BUY then
        (if remain_quantity o1 \<noteq> 0 then buy_stop_limit_price o1
         else if last_price < 0 then 0 else last_price)
      else if side o1 = SELL then
        (if remain_quantity o1 \<noteq> 0 then sell_stop_limit_price o1
         else if last_price > 0 then 0 else last_price)
      else last_price)"

definition auction_records :: "order \<Rightarrow> order list \<Rightarrow> order list" where
  "auction_records o1 recs =
     (case filter (\<lambda>r. \<not> auction_cancelled r) (rev recs) of
        [] \<Rightarrow> recs
      | last_rec # _ \<Rightarrow> map (\<lambda>r. r\<lparr>last_match_price := auction_price o1 (last_match_price last_rec)\<rparr>) recs)"

definition finish_auction :: "nat \<Rightarrow> sys \<Rightarrow> sys" where
  "finish_auction e s =
     (if is_auction (engs s e) then
        let s1 = upd_eng e (\<lambda>x. x\<lparr>is_auction := False\<rparr>) s;
            recs = auction_records (arg s1) (cb_records (engs s1 e))
        in upd_eng e (\<lambda>x. x\<lparr>cb_records := []\<rparr>) (fold (emit e) recs s1)
      else s)"

definition dispatch :: "nat \<Rightarrow> sys \<Rightarrow> sys option" where
  "dispatch e s =
     (if order_action (arg s) = NEW then handle_new e s
      else if order_action (arg s) = CANCEL then map_option snd (handle_cancel e s)
      else if order_action (arg s) = AMEND then handle_amend e s
      else if order_action (arg s) = DUMP then Some (handle_dump e s)
      else handle_insert e s)"

definition handle :: "nat \<Rightarrow> sys \<Rightarrow> sys option" where
  "handle e s = do {
     s1 \<leftarrow> lock e s;
     if time_condition (arg s1) = AUCTION \<and> side (arg s1) \<noteq> BUY \<and> side (arg s1) \<noteq> SELL then
       (let s2 = upd_arg (\<lambda>o1. o1\<lparr>order_state := REJECT_AUCTION_SUPPORT_BUY_SELL_ONLY\<rparr>) s1
        in Some (emit e (arg s2) s2))
     else do {
       let s2 = (if time_condition (arg s1) = AUCTION
                 then upd_eng e (\<lambda>x. x\<lparr>is_auction := True\<rparr>) s1 else s1);
       s3 \<leftarrow> dispatch e s2;
       Some (unlock e (finish_auction e s3)) } }"

text \<open>A call of \<open>handle\<close> with an order, and a sequence of calls to the engines.\<close>

definition submit :: "nat \<times> order \<Rightarrow> sys \<Rightarrow> sys option" where
  "submit eo s = handle (fst eo) (s\<lparr>arg := snd eo\<rparr>)"

fun submits :: "(nat \<times> order) list \<Rightarrow> sys \<Rightarrow> sys option" where
  "submits [] s = Some s"
| "submits (eo # eos) s = submit eo s \<bind> submits eos"

text \<open>A state with engines numbered from 0, no impliers, and the given clock and id counter.\<close>

definition init_sys :: "(nat \<Rightarrow> u64 \<times> u64) \<Rightarrow> u64 \<Rightarrow> ll \<Rightarrow> sys" where
  "init_sys clk first_id tick = \<lparr>
     engs = (\<lambda>e. new_engine e tick),
     imps = (\<lambda>_. \<lparr>imp_priority = 0, imp_kind = Add_Ask 0, imp_leg1 = null_iter, imp_leg2 = null_iter\<rparr>),
     ids = first_id, node_id = 0, arg = new_order, clock = clk, ticks = 0, umap_order = (\<lambda>xs. xs),
     out = []\<rparr>"

end
