(* ===== verification/Matching.thy ===== *)
theory Matching
  imports Engine
begin

text \<open>
  What matching does when no implier is registered: the books of an engine as lists of orders, the
  invariant that ties books, order map and orders together, and the reference \<open>sweep\<close>, a greedy fill in
  price-time order, which \<open>normal_match\<close> and \<open>fok_match\<close> are shown to implement.
\<close>

section \<open>Callbacks as a log\<close>

definition stamp :: "sys \<Rightarrow> order \<Rightarrow> order" where
  "stamp s o1 = o1\<lparr>timestamp_epoch_ms := fst (current s) div 1000000\<rparr>"

definition record_event :: "nat \<Rightarrow> order \<Rightarrow> sys \<Rightarrow> sys" where
  "record_event e o1 s =
     (if is_auction (engs s e) then upd_eng e (\<lambda>x. x\<lparr>cb_records := cb_records x @ [o1]\<rparr>) s
      else s\<lparr>out := out s @ [(e, o1)]\<rparr>)"

text \<open>The reports of an engine since they were last released, in order.\<close>

definition log_of :: "sys \<Rightarrow> nat \<Rightarrow> order list" where
  "log_of s e = (if is_auction (engs s e) then cb_records (engs s e)
                 else map snd (filter (\<lambda>x. fst x = e) (out s)))"

abbreviation ticked :: "sys \<Rightarrow> sys" where
  "ticked s \<equiv> s\<lparr>ticks := Suc (ticks s)\<rparr>"

lemma stamp_simps [simp]:
  "remain_quantity (stamp s o1) = remain_quantity o1" "price (stamp s o1) = price o1"
  "order_id (stamp s o1) = order_id o1" "quantity (stamp s o1) = quantity o1"
  "side (stamp s o1) = side o1" "time_condition (stamp s o1) = time_condition o1"
  "last_match_quantity (stamp s o1) = last_match_quantity o1" "order_kind (stamp s o1) = order_kind o1"
  "last_match_price (stamp s o1) = last_match_price o1" "matched_type (stamp s o1) = matched_type o1"
  "order_state (stamp s o1) = order_state o1" "order_action (stamp s o1) = order_action o1"
  "display_quantity (stamp s o1) = display_quantity o1" "client_order_id (stamp s o1) = client_order_id o1"
  by (simp_all add: stamp_def)

lemma record_event_frame [simp]:
  "bid_book (engs (record_event e o1 s) e') = bid_book (engs s e')"
  "ask_book (engs (record_event e o1 s) e') = ask_book (engs s e')"
  "bid_stop_book (engs (record_event e o1 s) e') = bid_stop_book (engs s e')"
  "ask_stop_book (engs (record_event e o1 s) e') = ask_stop_book (engs s e')"
  "bid_local (engs (record_event e o1 s) e') = bid_local (engs s e')"
  "ask_local (engs (record_event e o1 s) e') = ask_local (engs s e')"
  "bid_impliers (engs (record_event e o1 s) e') = bid_impliers (engs s e')"
  "ask_impliers (engs (record_event e o1 s) e') = ask_impliers (engs s e')"
  "odr_map (engs (record_event e o1 s) e') = odr_map (engs s e')"
  "mini_tick (engs (record_event e o1 s) e') = mini_tick (engs s e')"
  "is_auction (engs (record_event e o1 s) e') = is_auction (engs s e')"
  "mutex (engs (record_event e o1 s) e') = mutex (engs s e')"
  "mutex_set (engs (record_event e o1 s) e') = mutex_set (engs s e')"
  "imps (record_event e o1 s) = imps s" "ids (record_event e o1 s) = ids s"
  "node_id (record_event e o1 s) = node_id s" "arg (record_event e o1 s) = arg s"
  "clock (record_event e o1 s) = clock s" "ticks (record_event e o1 s) = ticks s"
  "umap_order (record_event e o1 s) = umap_order s"
  "e' \<noteq> e \<Longrightarrow> engs (record_event e o1 s) e' = engs s e'"
  by (simp_all add: record_event_def)

lemma log_record_event [simp]: "log_of (record_event e o1 s) e = log_of s e @ [o1]"
  by (simp add: log_of_def record_event_def)

lemma is_auction_put_ref [simp]: "is_auction (engs (put_ref r o1 s) e) = is_auction (engs s e)"
  by (cases r) (simp_all add: put_slot_def)

lemma engs_ticks [simp]: "engs (s\<lparr>ticks := n\<rparr>) = engs s"
  by simp

lemma slot_ticked [simp]: "slot (s\<lparr>ticks := n\<rparr>) = slot s"
  by (simp add: slot_def fun_eq_iff)

lemma put_ref_ticked: "put_ref r o1 (s\<lparr>ticks := n\<rparr>) = (put_ref r o1 s)\<lparr>ticks := n\<rparr>"
  by (cases r) (simp_all add: put_slot_def)

lemma callback_eq:
  "callback e r s =
     map_option (\<lambda>o1. record_event e (stamp s o1) (put_ref r (stamp s o1) (ticked s))) (get_ref s r)"
  by (cases "get_ref s r")
    (simp_all add: callback_def record_event_def stamp_def current_def Let_def split_beta)

text \<open>What matching on engine \<open>e\<close> leaves alone.\<close>

definition eng_const where
  "eng_const x = (bid_stop_book x, ask_stop_book x, bid_impliers x, ask_impliers x, mini_tick x,
                  is_auction x, mutex x, mutex_set x)"

definition stable :: "nat \<Rightarrow> sys \<Rightarrow> sys \<Rightarrow> bool" where
  "stable e s s' \<longleftrightarrow> imps s' = imps s \<and> node_id s' = node_id s \<and> clock s' = clock s
     \<and> umap_order s' = umap_order s \<and> (\<forall>e'. e' \<noteq> e \<longrightarrow> engs s' e' = engs s e')
     \<and> eng_const (engs s' e) = eng_const (engs s e)"

lemma stable_refl [simp, intro]: "stable e s s"
  by (simp add: stable_def)

lemma stable_trans [trans]: "stable e s s' \<Longrightarrow> stable e s' s'' \<Longrightarrow> stable e s s''"
  by (simp add: stable_def)

lemma stable_record_event [simp]: "stable e s (record_event e o1 s') = stable e s s'"
  by (simp add: stable_def eng_const_def)

lemma stable_ticks [simp]: "stable e s (s'\<lparr>ticks := n\<rparr>) = stable e s s'"
  by (simp add: stable_def)

lemma stable_arg [simp]: "stable e s (s'\<lparr>arg := n\<rparr>) = stable e s s'"
  by (simp add: stable_def)

lemma stable_ids [simp]: "stable e s (s'\<lparr>ids := n\<rparr>) = stable e s s'"
  by (simp add: stable_def)

lemma stable_put_slot [simp]: "stable e s (put_slot e oid o1 s') = stable e s s'"
  by (auto simp: stable_def eng_const_def put_slot_def)

lemma stableD:
  assumes "stable e s s'"
  shows "mat_impliers s' e sd = mat_impliers s e sd" "is_auction (engs s' e) = is_auction (engs s e)"
    "mini_tick (engs s' e) = mini_tick (engs s e)" "node_id s' = node_id s"
    "bid_stop_book (engs s' e) = bid_stop_book (engs s e)"
    "ask_stop_book (engs s' e) = ask_stop_book (engs s e)"
    "mutex_set (engs s' e) = mutex_set (engs s e)" "mutex (engs s' e) = mutex (engs s e)"
  using assms by (simp_all add: stable_def eng_const_def mat_impliers_def)

section \<open>Books as lists of orders\<close>

definition side_cmp :: "order_side \<Rightarrow> key_comp" where
  "side_cmp sd = (if sd = BUY then less else greater)"

definition orders_of :: "sys \<Rightarrow> nat \<Rightarrow> order_side \<Rightarrow> order list" where
  "orders_of s e sd = map (\<lambda>oid. the (slot s e oid)) (book_ids (walked (engs s e) sd))"

text \<open>
  A side is well-formed: its book is ordered, and each entry leads to an order in the map with that
  id, that price, a quantity left to trade and the right side.
\<close>

definition own_side :: "order_side \<Rightarrow> order_side" where
  "own_side sd = (if sd = BUY then SELL else BUY)"

definition wf_resting :: "order_side \<Rightarrow> ll \<Rightarrow> u64 \<Rightarrow> order \<Rightarrow> bool" where
  "wf_resting sd px oid o1 \<longleftrightarrow> order_id o1 = oid \<and> price o1 = px \<and> px \<noteq> MARKET_PRICE
     \<and> remain_quantity o1 \<noteq> 0 \<and> side o1 = own_side sd"

definition wf_side :: "sys \<Rightarrow> nat \<Rightarrow> order_side \<Rightarrow> bool" where
  "wf_side s e sd \<longleftrightarrow> wf_book (side_cmp sd) (walked (engs s e) sd)
     \<and> (\<forall>en \<in> set (entries (walked (engs s e) sd)).
          case slot s e (snd en) of None \<Rightarrow> False | Some o1 \<Rightarrow> wf_resting sd (fst en) (snd en) o1)"

interpretation side: price_order "side_cmp sd"
  by (cases "sd = BUY") (simp_all add: side_cmp_def greater.price_order_axioms less.price_order_axioms)

lemma walked_set_walked [simp]:
  "walked (set_walked sd bk x) sd = bk"
  "(sd' = BUY) \<noteq> (sd = BUY) \<Longrightarrow> walked (set_walked sd bk x) sd' = walked x sd'"
  by (auto simp: walked_def set_walked_def)

lemma set_walked_frame [simp]:
  "odr_map (set_walked sd bk x) = odr_map x" "eng_const (set_walked sd bk x) = eng_const x"
  "bid_local (set_walked sd bk x) = bid_local x" "ask_local (set_walked sd bk x) = ask_local x"
  "cb_records (set_walked sd bk x) = cb_records x" "is_auction (set_walked sd bk x) = is_auction x"
  by (simp_all add: set_walked_def eng_const_def)

lemma wf_side_order:
  assumes "wf_side s e sd" "(px, oid) \<in> set (entries (walked (engs s e) sd))"
  obtains o1 where "slot s e oid = Some o1" "wf_resting sd px oid o1"
proof (cases "slot s e oid")
  case None
  then show ?thesis
    using assms by (auto simp: wf_side_def dest: bspec)
next
  case (Some o1)
  then have "wf_resting sd px oid o1"
    using assms by (auto simp: wf_side_def dest: bspec)
  then show ?thesis
    using Some that by blast
qed

lemma orders_of_entries:
  "wf_side s e sd \<Longrightarrow>
     map (\<lambda>o1. (price o1, order_id o1)) (orders_of s e sd) = entries (walked (engs s e) sd)"
proof -
  assume wf: "wf_side s e sd"
  have "(\<lambda>o1. (price o1, order_id o1)) (the (slot s e (snd en))) = en"
    if mem: "en \<in> set (entries (walked (engs s e) sd))" for en
  proof -
    obtain px oid where en: "en = (px, oid)" by fastforce
    obtain o1 where "slot s e oid = Some o1" "wf_resting sd px oid o1"
      using wf mem unfolding en by (rule wf_side_order)
    then show ?thesis
      by (simp add: en wf_resting_def)
  qed
  then show ?thesis
    unfolding orders_of_def book_ids_def map_map comp_def by (intro map_idI) simp
qed

lemma orders_of_slot:
  assumes "wf_side s e sd" "o1 \<in> set (orders_of s e sd)"
  shows "slot s e (order_id o1) = Some o1" "wf_resting sd (price o1) (order_id o1) o1"
    "(price o1, order_id o1) \<in> set (entries (walked (engs s e) sd))"
proof -
  obtain px oid where en: "(px, oid) \<in> set (entries (walked (engs s e) sd))" "o1 = the (slot s e oid)"
    using assms(2) by (auto simp: orders_of_def book_ids_def)
  obtain o2 where "slot s e oid = Some o2" "wf_resting sd px oid o2"
    using assms(1) en(1) by (rule wf_side_order)
  then show "slot s e (order_id o1) = Some o1" "wf_resting sd (price o1) (order_id o1) o1"
    "(price o1, order_id o1) \<in> set (entries (walked (engs s e) sd))"
    using en by (auto simp: wf_resting_def)
qed

lemma distinct_order_ids:
  assumes "wf_side s e sd"
  shows "distinct (map order_id (orders_of s e sd))"
proof -
  have d: "distinct (orders_of s e sd)"
    using side.distinct_entries [of sd] assms orders_of_entries [OF assms]
    by (metis distinct_map wf_side_def)
  have "inj_on order_id (set (orders_of s e sd))"
    using orders_of_slot(1) [OF assms] by (metis (no_types) inj_onI option.inject)
  then show ?thesis
    using d by (simp add: distinct_map)
qed

section \<open>A trade with the order at the top\<close>

text \<open>The iterator stands at the top of its book, with the quantity left there.\<close>

definition at_top :: "sys \<Rightarrow> nat \<Rightarrow> order_side \<Rightarrow> iter \<Rightarrow> bool" where
  "at_top s e sd it \<longleftrightarrow> it_e it = Some e \<and> it_side it = sd \<and>
     (case orders_of s e sd of
        [] \<Rightarrow> it_pos it = None
      | m # _ \<Rightarrow> it_pos it = Some (price m, order_id m) \<and> it_remain it = remain_quantity m)"

lemma iter_reset_top:
  assumes wf: "wf_side s e sd" and it: "it_e it = Some e" "it_side it = sd"
  shows "\<exists>it'. iter_reset s it = Some it' \<and> at_top s e sd it'"
proof -
  have bk: "book_begin (walked (engs s e) sd)
      = Some (case entries (walked (engs s e) sd) of [] \<Rightarrow> None | en # _ \<Rightarrow> Some en)"
    using wf wf_book_begin [of "side_cmp sd"] by (simp add: wf_side_def)
  show ?thesis
  proof (cases "orders_of s e sd")
    case Nil
    then show ?thesis
      using orders_of_entries [OF wf] bk it
      by (simp add: iter_reset_def it_book_def it_load_def at_top_def)
  next
    case (Cons m ms)
    then have "slot s e (order_id m) = Some m"
      by (intro orders_of_slot [OF wf]) simp
    then show ?thesis
      using Cons orders_of_entries [OF wf, symmetric] bk it
      by (simp add: iter_reset_def it_book_def it_load_def at_top_def)
  qed
qed

text \<open>The first level of a well-formed book that has a first order.\<close>

lemma top_level:
  assumes "wf_side s e sd" "orders_of s e sd = m # ms"
  obtains ids ls where "walked (engs s e) sd = (price m, order_id m # ids) # ls"
    and "slot s e (order_id m) = Some m" and "wf_resting sd (price m) (order_id m) m"
proof -
  obtain px js ls where b: "walked (engs s e) sd = (px, js) # ls"
    using assms(2) by (cases "walked (engs s e) sd") (auto simp: orders_of_def)
  moreover from this have "js \<noteq> []"
    using assms(1) by (simp add: wf_side_def wf_book_Cons)
  ultimately obtain ids where "walked (engs s e) sd = (px, hd js # ids) # ls"
    by (cases js) auto
  then have "walked (engs s e) sd = (price m, order_id m # ids) # ls"
    using orders_of_entries [OF assms(1)] assms(2) by simp
  then show ?thesis
    using that orders_of_slot [OF assms(1), of m] assms(2) by simp
qed

text \<open>A side depends on its book and on the orders its entries lead to.\<close>

lemma side_cong:
  assumes "walked (engs s' e) sd = walked (engs s e) sd"
    and "\<And>i. i \<in> set (book_ids (walked (engs s e) sd)) \<Longrightarrow> slot s' e i = slot s e i"
  shows "wf_side s' e sd = wf_side s e sd" "orders_of s' e sd = orders_of s e sd"
proof -
  have "slot s' e (snd en) = slot s e (snd en)" if "en \<in> set (entries (walked (engs s e) sd))" for en
    using that assms(2) by (auto simp: book_ids_def)
  then show "wf_side s' e sd = wf_side s e sd"
    by (simp add: wf_side_def assms(1))
  show "orders_of s' e sd = orders_of s e sd"
    using assms by (simp add: orders_of_def)
qed

lemma book_ids_orders:
  "wf_side s e sd \<Longrightarrow> book_ids (walked (engs s e) sd) = map order_id (orders_of s e sd)"
  by (simp add: book_ids_def orders_of_entries [symmetric] comp_def)

text \<open>The orders of the two sides are different orders.\<close>

lemma sides_disjoint:
  assumes "wf_side s e sd" "wf_side s e sd'" "(sd' = BUY) \<noteq> (sd = BUY)"
    and "m \<in> set (orders_of s e sd)"
  shows "order_id m \<notin> set (book_ids (walked (engs s e) sd'))"
proof
  assume "order_id m \<in> set (book_ids (walked (engs s e) sd'))"
  then obtain m' where m': "m' \<in> set (orders_of s e sd')" "order_id m' = order_id m"
    using book_ids_orders [OF assms(2)] by auto
  have "m' = m"
    using orders_of_slot(1) [OF assms(1,4)] orders_of_slot(1) [OF assms(2) m'(1)] m'(2) by simp
  then have "own_side sd = own_side sd'"
    using orders_of_slot(2) [OF assms(1,4)] orders_of_slot(2) [OF assms(2) m'(1)]
    by (simp add: wf_resting_def)
  then show False
    using assms(3) by (simp add: own_side_def split: if_splits)
qed

text \<open>What one execution does to the side: the top order \<open>m\<close> is replaced by \<open>m'\<close>, or gone when filled.\<close>

definition traded ::
    "nat \<Rightarrow> order_side \<Rightarrow> order \<Rightarrow> order \<Rightarrow> order list \<Rightarrow> sys \<Rightarrow> sys \<Rightarrow> bool" where
  "traded e sd m m' ms s s' \<longleftrightarrow>
     orders_of s' e sd = (if remain_quantity m' = 0 then ms else m' # ms)
     \<and> wf_side s' e sd
     \<and> (\<forall>sd'. (sd' = BUY) \<noteq> (sd = BUY) \<longrightarrow> walked (engs s' e) sd' = walked (engs s e) sd')
     \<and> (\<forall>j. slot s' e j = (if j = order_id m then (if remain_quantity m' = 0 then None else Some m')
                           else slot s e j))
     \<and> log_of s' e = log_of s e @ [m'] \<and> arg s' = arg s \<and> ids s' = ids s \<and> stable e s s'
     \<and> mat_local s' e = mat_local s e
     \<and> (distinct (map fst (odr_map (engs s e))) \<longrightarrow> distinct (map fst (odr_map (engs s' e))))"

lemma stamp_put_slot [simp]: "stamp (put_slot e oid o1 s) = stamp s"
  by (simp add: stamp_def fun_eq_iff current_def put_slot_def Let_def split_beta)

lemma put_slot_update [simp]: "put_slot e oid o1 (put_slot e oid o2 s) = put_slot e oid o1 s"
  by (simp add: put_slot_def comp_def)

lemma odr_map_put_slot:
  "odr_map (engs (put_slot e oid o1 s) e) = AList.update oid o1 (odr_map (engs s e))"
  by (simp add: put_slot_def)

lemma slot_record_event [simp]: "slot (record_event e o1 s) = slot s"
  by (simp add: slot_def fun_eq_iff)

lemma walked_frame [simp]:
  "walked (engs (record_event e o1 s) e') sd = walked (engs s e') sd"
  "walked (engs (put_slot e oid o1 s) e') sd = walked (engs s e') sd"
  by (simp_all add: walked_def)

lemma log_frame [simp]:
  "log_of (put_slot e' oid o1 s) e = log_of s e" "log_of (s\<lparr>ticks := n\<rparr>) e = log_of s e"
  "log_of (s\<lparr>arg := a\<rparr>) e = log_of s e" "log_of (s\<lparr>ids := i\<rparr>) e = log_of s e"
  by (simp_all add: log_of_def)

lemma mat_local_frame [simp]:
  "mat_local (record_event e o1 s) = mat_local s" "mat_local (put_slot e oid o1 s) = mat_local s"
  "mat_local (s\<lparr>ticks := n\<rparr>) = mat_local s" "mat_local (s\<lparr>arg := a\<rparr>) = mat_local s"
  "mat_local (s\<lparr>ids := i\<rparr>) = mat_local s"
  by (simp_all add: mat_local_def fun_eq_iff)

lemma maker_match_order_simps [simp]:
  "remain_quantity (maker_match_order m mid q i j) = remain_quantity m - q"
  "price (maker_match_order m mid q i j) = price m" "order_id (maker_match_order m mid q i j) = order_id m"
  "side (maker_match_order m mid q i j) = side m" "quantity (maker_match_order m mid q i j) = quantity m"
  "last_match_quantity (maker_match_order m mid q i j) = q"
  "last_match_price (maker_match_order m mid q i j) = price m"
  "matched_type (maker_match_order m mid q i j) = MAKER"
  by (simp_all add: maker_match_order_def)

lemma put_slot_ticked [simp]: "put_slot e oid o1 (s\<lparr>ticks := n\<rparr>) = (put_slot e oid o1 s)\<lparr>ticks := n\<rparr>"
  by (simp add: put_slot_def)

lemma head_ids:
  assumes "wf_side s e sd" "orders_of s e sd = m # ms"
  shows "book_ids (walked (engs s e) sd) = order_id m # map order_id ms" "\<forall>x \<in> set ms. order_id x \<noteq> order_id m"
    "\<forall>x \<in> set ms. slot s e (order_id x) = Some x"
proof -
  show "book_ids (walked (engs s e) sd) = order_id m # map order_id ms"
    using book_ids_orders [OF assms(1)] assms(2) by simp
  have "order_id m \<notin> order_id ` set ms"
    using distinct_order_ids [OF assms(1)] assms(2) by simp
  then show "\<forall>x \<in> set ms. order_id x \<noteq> order_id m"
    by (metis imageI)
  show "\<forall>x \<in> set ms. slot s e (order_id x) = Some x"
    using orders_of_slot(1) [OF assms(1)] assms(2) by simp
qed

lemma maker_match_part:
  assumes wf: "wf_side s e sd" and os: "orders_of s e sd = m # ms"
    and it: "it_e it = Some e" "it_side it = sd" "it_pos it = Some (price m, order_id m)"
    and q: "q < remain_quantity m"
    and m': "m' = stamp s (maker_match_order m mid q tid tid2)"
  shows "\<exists>it' s'. iter_maker_match s it mid q tid tid2 = Some (it', s') \<and> at_top s' e sd it'
    \<and> traded e sd m m' ms s s'"
proof -
  obtain ids ls where bk: "walked (engs s e) sd = (price m, order_id m # ids) # ls"
    and sl: "slot s e (order_id m) = Some m" and wr: "wf_resting sd (price m) (order_id m) m"
    using wf os by (rule top_level)
  define s' where "s' = record_event e m' (ticked (put_slot e (order_id m) m' s))"
  have rq: "remain_quantity m' = remain_quantity m - q" "remain_quantity m' \<noteq> 0"
    "price m' = price m" "order_id m' = order_id m" "side m' = side m"
    using q by (auto simp: m')
  have deref: "it_deref s it = Some (e, price m, order_id m)"
    by (simp add: it_deref_def it bk)
  have run: "iter_maker_match s it mid q tid tid2 = Some (it\<lparr>it_remain := remain_quantity m'\<rparr>, s')"
    using rq(1,2) by (simp add: iter_maker_match_def deref sl callback_eq s'_def m' [symmetric])
  have sl': "slot s' e j = (if j = order_id m then Some m' else slot s e j)" for j
    by (simp add: s'_def)
  have w: "walked (engs s' e) sd' = walked (engs s e) sd'" for sd'
    by (simp add: s'_def walked_def)
  have os': "orders_of s' e sd = m' # ms"
    using head_ids [OF wf os] by (auto simp: orders_of_def w sl' intro!: map_idI)
  have wrm: "wf_resting sd (price m) (order_id m) m'"
    using wr rq by (simp add: wf_resting_def)
  have wf': "wf_side s' e sd"
    unfolding wf_side_def w
  proof (intro conjI ballI)
    show "wf_book (side_cmp sd) (walked (engs s e) sd)"
      using wf by (simp add: wf_side_def)
    fix en assume en: "en \<in> set (entries (walked (engs s e) sd))"
    then have ok: "case slot s e (snd en) of None \<Rightarrow> False | Some o1 \<Rightarrow> wf_resting sd (fst en) (snd en) o1"
      using wf by (simp add: wf_side_def)
    show "case slot s' e (snd en) of None \<Rightarrow> False | Some o1 \<Rightarrow> wf_resting sd (fst en) (snd en) o1"
    proof (cases "snd en = order_id m")
      case True
      moreover from this have "fst en = price m"
        using ok sl by (simp add: wf_resting_def)
      ultimately show ?thesis
        using wrm by (simp add: sl')
    next
      case False
      then show ?thesis
        using ok by (simp add: sl')
    qed
  qed
  have "traded e sd m m' ms s s'"
    using wf' os' rq sl' w by (simp add: traded_def s'_def odr_map_put_slot distinct_update)
  moreover have "at_top s' e sd (it\<lparr>it_remain := remain_quantity m'\<rparr>)"
    using it rq by (simp add: at_top_def os')
  ultimately show ?thesis
    using run by blast
qed

text \<open>The book without its first order, as \<open>erase\<close> leaves it.\<close>

definition pop_top :: "book \<Rightarrow> book" where
  "pop_top bk = (case bk of (px, oid # oid' # js) # ls \<Rightarrow> (px, oid' # js) # ls | _ # ls \<Rightarrow> ls | [] \<Rightarrow> [])"

lemma pop_top_simp [simp]:
  "pop_top ((px, oid # js) # ls) = (if js = [] then ls else (px, js) # ls)"
  by (cases js) (simp_all add: pop_top_def)

lemma popped:
  assumes wf: "wf_side s e sd" and os: "orders_of s e sd = m # ms"
    and w: "walked (engs s' e) sd = pop_top (walked (engs s e) sd)"
    and sl: "\<And>j. j \<noteq> order_id m \<Longrightarrow> slot s' e j = slot s e j"
  shows "wf_side s' e sd" "orders_of s' e sd = ms"
proof -
  obtain js ls where bk: "walked (engs s e) sd = (price m, order_id m # js) # ls"
    using wf os by (rule top_level)
  have ent: "entries (pop_top (walked (engs s e) sd)) = tl (entries (walked (engs s e) sd))"
    "book_ids (pop_top (walked (engs s e) sd)) = map order_id ms"
    using head_ids(1) [OF wf os] by (auto simp: bk)
  show "wf_side s' e sd"
    unfolding wf_side_def
  proof (intro conjI ballI)
    show "wf_book (side_cmp sd) (walked (engs s' e) sd)"
      using wf by (auto simp: w wf_side_def bk wf_book_Cons)
    fix en assume en: "en \<in> set (entries (walked (engs s' e) sd))"
    then have "snd en \<in> set (book_ids (pop_top (walked (engs s e) sd)))"
      by (simp add: book_ids_def w)
    then have "snd en \<noteq> order_id m"
      using head_ids(2) [OF wf os] unfolding ent by auto
    moreover have "en \<in> set (entries (walked (engs s e) sd))"
      using en unfolding w ent by (cases "entries (walked (engs s e) sd)") auto
    ultimately show "case slot s' e (snd en) of None \<Rightarrow> False | Some o1 \<Rightarrow> wf_resting sd (fst en) (snd en) o1"
      using wf by (simp add: wf_side_def sl)
  qed
  show "orders_of s' e sd = ms"
    using head_ids [OF wf os] by (simp add: orders_of_def w ent sl map_idI)
qed

lemma erase_top:
  assumes wb: "wf_book (side_cmp sd) (walked (engs s e) sd)"
    and bk: "walked (engs s e) sd = (px, oid # js) # ls"
    and sl: "slot s e oid = Some m" "order_id m = oid"
    and it: "it_e it = Some e" "it_side it = sd" "it_pos it = Some (px, oid)"
  defines "s1 \<equiv> upd_eng e (set_walked sd (pop_top (walked (engs s e) sd))) s"
  shows "iter_erase s it = iter_reset s1 it \<bind>
    (\<lambda>it'. Some (it', upd_eng e (\<lambda>x. x\<lparr>odr_map := AList.delete oid (odr_map x)\<rparr>) s1))"
proof -
  have deref: "it_deref s it = Some (e, px, oid)"
    by (simp add: it_deref_def it bk)
  have "px \<notin> fst ` set ls" "oid \<notin> set js"
    using wb side.cmp_irrefl by (auto simp: bk wf_book_Cons)
  moreover have "walked (engs s1 e) sd = pop_top (walked (engs s e) sd)"
    by (simp add: s1_def)
  ultimately show ?thesis
    by (cases js) (auto simp: iter_erase_def it_valid_def it deref sl bk iter_reset_def it_book_def
        s1_def delete_idem Let_def split: option.splits)
qed

lemma maker_match_full:
  assumes wf: "wf_side s e sd" and os: "orders_of s e sd = m # ms"
    and it: "it_e it = Some e" "it_side it = sd" "it_pos it = Some (price m, order_id m)"
    and m': "m' = stamp s (maker_match_order m mid (remain_quantity m) tid tid2)"
  shows "\<exists>it' s'. iter_maker_match s it mid (remain_quantity m) tid tid2 = Some (it', s') \<and> at_top s' e sd it'
    \<and> traded e sd m m' ms s s'"
proof -
  obtain js ls where bk: "walked (engs s e) sd = (price m, order_id m # js) # ls"
    and sl: "slot s e (order_id m) = Some m"
    using wf os by (rule top_level)
  define s2 where "s2 = record_event e m' (ticked (put_slot e (order_id m) m' s))"
  define s3 where "s3 = upd_eng e (set_walked sd (pop_top (walked (engs s2 e) sd))) s2"
  define s' where "s' = upd_eng e (\<lambda>x. x\<lparr>odr_map := AList.delete (order_id m) (odr_map x)\<rparr>) s3"
  have rq: "remain_quantity m' = 0" "order_id m' = order_id m"
    by (simp_all add: m')
  have w2: "walked (engs s2 e) sd' = walked (engs s e) sd'" for sd'
    by (simp add: s2_def walked_def)
  have sl2: "slot s2 e (order_id m) = Some m'"
    by (simp add: s2_def)
  have erase: "iter_erase s2 it = iter_reset s3 it \<bind> (\<lambda>it'. Some (it', s'))"
    unfolding s'_def s3_def using wf bk w2 sl2 rq(2) it
    by (intro erase_top [where m = m' and px = "price m" and js = js and ls = ls]) (simp_all add: wf_side_def)
  have sl3: "slot s3 e j = (if j = order_id m then Some m' else slot s e j)" for j
    by (simp add: slot_def s3_def) (simp add: s2_def odr_map_put_slot)
  have sl': "slot s' e j = (if j = order_id m then None else slot s e j)" for j
    using sl3 [of j] by (simp add: slot_def s'_def)
  have w3: "walked (engs s3 e) sd = pop_top (walked (engs s e) sd)"
    by (simp add: s3_def w2)
  have w': "walked (engs s' e) sd' = walked (engs s3 e) sd'" for sd'
    by (simp add: s'_def walked_def)
  note side3 = popped [OF wf os w3] and side' = popped [OF wf os w' [of sd, unfolded w3]]
  obtain it' where it': "iter_reset s3 it = Some it'" "at_top s3 e sd it'"
    using iter_reset_top [OF side3(1) it(1,2)] sl3 by auto
  have top': "at_top s' e sd it'"
    using it'(2) side3(2) side'(2) sl3 sl' by (simp add: at_top_def)
  have run: "iter_maker_match s it mid (remain_quantity m) tid tid2 = Some (it', s')"
    using rq(1) erase it'(1) bk it
    by (simp add: iter_maker_match_def it_deref_def sl callback_eq m' [symmetric] s2_def)
  have s2: "log_of s2 e = log_of s e @ [m']" "arg s2 = arg s" "ids s2 = ids s" "stable e s s2"
    "mat_local s2 e = mat_local s e"
    by (simp_all add: s2_def)
  have "log_of s' e = log_of s2 e" "arg s' = arg s2" "ids s' = ids s2" "mat_local s' e = mat_local s2 e"
    by (simp_all add: s'_def s3_def log_of_def mat_local_def fun_eq_iff)
  moreover have "stable e s2 s'"
    by (simp add: stable_def s'_def s3_def set_walked_def eng_const_def)
  moreover have "walked (engs s' e) sd' = walked (engs s e) sd'" if "(sd' = BUY) \<noteq> (sd = BUY)" for sd'
    using that by (simp add: w' s3_def w2)
  moreover have "distinct (map fst (odr_map (engs s e))) \<Longrightarrow> distinct (map fst (odr_map (engs s' e)))"
    by (simp add: s'_def s3_def s2_def odr_map_put_slot distinct_update distinct_delete)
  ultimately have "traded e sd m m' ms s s'"
    using side' rq sl' s2 stable_trans [OF s2(4)] unfolding traded_def by simp
  then show ?thesis
    using run top' by blast
qed
end
