(* ===== verification/Sweep.thy ===== *)
theory Sweep
  imports Matching
begin

text \<open>
  The reference that matching implements, and the refinement: a loop over the greedy fill \<open>sweep\<close>
  of a list of quotes in price-time order. The engine's own loop, with its iterator, its erasures and
  its reports, is shown to end and to do what \<open>sweep\<close> says.
\<close>

section \<open>The reference\<close>

text \<open>What can be traded against: id, price and quantity of a resting order; and the fills taken from it.\<close>

type_synonym quote = "u64 \<times> ll \<times> u64"

definition quote_of :: "order \<Rightarrow> quote" where
  "quote_of o1 = (order_id o1, price o1, remain_quantity o1)"

fun sweep :: "key_comp \<Rightarrow> ll \<Rightarrow> u64 \<Rightarrow> quote list \<Rightarrow> quote list \<times> u64 \<times> quote list" where
  "sweep cmp lmt n [] = ([], n, [])"
| "sweep cmp lmt n ((i, px, q) # qs) =
     (if n = 0 \<or> lmt \<noteq> MARKET_PRICE \<and> cmp lmt px then ([], n, (i, px, q) # qs)
      else if q \<le> n then
        (let (fs, n', qs') = sweep cmp lmt (n - q) qs in ((i, px, q) # fs, n', qs'))
      else ([(i, px, n)], 0, (i, px, q - n) # qs))"

text \<open>What is reported of a trade, and the reports of a list of fills: the maker's, then the taker's.\<close>

definition trade_of :: "order \<Rightarrow> u64 \<times> order_matched_type \<times> ll \<times> u64" where
  "trade_of o1 = (order_id o1, matched_type o1, last_match_price o1, last_match_quantity o1)"

definition reports :: "u64 \<Rightarrow> quote list \<Rightarrow> (u64 \<times> order_matched_type \<times> ll \<times> u64) list" where
  "reports tid fs = concat (map (\<lambda>(i, px, q). [(i, MAKER, px, q), (tid, TAKER, px, q)]) fs)"

lemma reports_simps [simp]:
  "reports tid [] = []"
  "reports tid ((i, px, q) # fs) = (i, MAKER, px, q) # (tid, TAKER, px, q) # reports tid fs"
  "reports tid (fs @ gs) = reports tid fs @ reports tid gs"
  by (simp_all add: reports_def)

section \<open>Facts about the reference\<close>

text \<open>Nothing is lost: what is filled and what is left add up, on both sides.\<close>

definition total :: "quote list \<Rightarrow> nat" where
  "total qs = sum_list (map (\<lambda>(i, px, q). unat q) qs)"

lemma total_simps [simp]:
  "total [] = 0" "total ((i, px, q) # qs) = unat q + total qs"
  by (simp_all add: total_def)

lemma sweep_conserves:
  "sweep cmp lmt n qs = (fs, n', qs') \<Longrightarrow>
     unat n = total fs + unat n' \<and> total qs = total fs + total qs'"
proof (induction cmp lmt n qs arbitrary: fs rule: sweep.induct)
  case (2 cmp lmt n i px q qs)
  show ?case
  proof (cases "n = 0 \<or> lmt \<noteq> MARKET_PRICE \<and> cmp lmt px")
    case False
    then show ?thesis
    proof (cases "q \<le> n")
      case True
      obtain gs where "sweep cmp lmt (n - q) qs = (gs, n', qs')" "fs = (i, px, q) # gs"
        using 2 False True by (auto split: prod.splits)
      then show ?thesis
        using 2(1) [OF False True] True by (auto simp: word_le_nat_alt)
    next
      case nq: False
      then have "n \<le> q" by simp
      then show ?thesis
        using 2(2) False nq by (auto simp: word_le_nat_alt)
    qed
  qed (use 2 in auto)
qed simp

text \<open>No fill is worse than the limit.\<close>

lemma sweep_limit:
  "sweep cmp lmt n qs = (fs, n', qs') \<Longrightarrow> lmt \<noteq> MARKET_PRICE \<Longrightarrow> (i, px, q) \<in> set fs \<Longrightarrow> \<not> cmp lmt px"
proof (induction cmp lmt n qs arbitrary: fs rule: sweep.induct)
  case (2 cmp lmt n j p r qs)
  then show ?case
    by (auto split: if_splits prod.splits)
qed simp

text \<open>The fills are a prefix of the queue, complete but perhaps for the last: price-time priority.\<close>

lemma sweep_priority:
  "sweep cmp lmt n qs = (fs, n', qs') \<Longrightarrow>
     (\<exists>k. fs = take k qs \<and> qs' = drop k qs)
     \<or> (\<exists>k i px q r. k < length qs \<and> qs ! k = (i, px, q) \<and> r < q \<and> n' = 0
          \<and> fs = take k qs @ [(i, px, r)] \<and> qs' = (i, px, q - r) # drop (Suc k) qs)"
proof (induction cmp lmt n qs arbitrary: fs rule: sweep.induct)
  case (2 cmp lmt n j p r qs)
  show ?case
  proof (cases "n = 0 \<or> lmt \<noteq> MARKET_PRICE \<and> cmp lmt p")
    case True
    then show ?thesis
      using 2(2) by (intro disjI1 exI [of _ 0]) auto
  next
    case False
    show ?thesis
    proof (cases "r \<le> n")
      case True
      then obtain gs where gs: "sweep cmp lmt (n - r) qs = (gs, n', qs')" "fs = (j, p, r) # gs"
        using 2(2) False by (auto split: prod.splits)
      from 2(1) [OF False True gs(1)] show ?thesis
      proof (elim disjE exE conjE)
        fix k assume "gs = take k qs" "qs' = drop k qs"
        then show ?thesis
          using gs(2) by (intro disjI1 exI [of _ "Suc k"]) simp
      next
        fix k i px q t
        assume "k < length qs" "qs ! k = (i, px, q)" "t < q" "n' = 0" "gs = take k qs @ [(i, px, t)]"
          "qs' = (i, px, q - t) # drop (Suc k) qs"
        then show ?thesis
          using gs(2)
          by (intro disjI2 exI [of _ "Suc k"] exI [of _ i] exI [of _ px] exI [of _ q] exI [of _ t]) simp
      qed
    next
      case nq: False
      then show ?thesis
        using 2(2) False
        by (intro disjI2 exI [of _ 0] exI [of _ j] exI [of _ p] exI [of _ r] exI [of _ n]) auto
    qed
  qed
qed simp

text \<open>An order that comes out as large as it went in has traded nothing.\<close>

lemma sweep_nothing:
  assumes "sweep cmp lmt n qs = (fs, n, qs')" "n \<noteq> 0" "\<forall>(i, px, q) \<in> set qs. q \<noteq> 0"
  shows "fs = []"
proof (cases qs)
  case (Cons x qs0)
  obtain i px q where x: "x = (i, px, q)" by (cases x)
  have q: "q \<noteq> 0"
    using assms(3) Cons x by auto
  show ?thesis
  proof (rule ccontr)
    assume "fs \<noteq> []"
    then have "0 < total fs"
      using assms(1,2) q by (auto simp: Cons x unat_eq_0 unat_gt_0 split: if_splits prod.splits)
    then show False
      using sweep_conserves [OF assms(1)] by simp
  qed
qed (use assms(1) in simp)

text \<open>It stops only when the order is filled, the book is empty or the next price is beyond the limit.\<close>

lemma sweep_stops:
  "sweep cmp lmt n qs = (fs, n', qs') \<Longrightarrow>
     n' = 0 \<or> qs' = [] \<or> lmt \<noteq> MARKET_PRICE \<and> cmp lmt (fst (snd (hd qs')))"
proof (induction cmp lmt n qs arbitrary: fs rule: sweep.induct)
  case (2 cmp lmt n j p r qs)
  then show ?case
    by (auto split: if_splits prod.splits)
qed simp

section \<open>What matching keeps\<close>

text \<open>The fields of the taker that matching does not write.\<close>

definition strip :: "order \<Rightarrow> order" where
  "strip o1 = o1\<lparr>matched_type := MAKER, matched_id := 0, last_match_price := 0, last_match_quantity := 0,
     last_matched_order_id := 0, last_matched_order_id2 := 0, remain_quantity := 0, order_state := OPEN,
     display_quantity := 0, timestamp_epoch_ms := 0\<rparr>"

lemma strip_eqD:
  assumes "strip o1 = strip o2"
  shows "order_id o1 = order_id o2" "price o1 = price o2" "quantity o1 = quantity o2" "side o1 = side o2"
    "time_condition o1 = time_condition o2" "order_kind o1 = order_kind o2" "order_action o1 = order_action o2"
  using assms by (cases o1; cases o2; simp add: strip_def)+

lemma strip_match_order [simp]: "strip (match_order o1 mt mid px q i j) = strip o1"
  by (simp add: strip_def match_order_def Let_def update_display_def)

lemma strip_stamp [simp]: "strip (stamp s o1) = strip o1"
  by (simp add: strip_def stamp_def)

definition progress :: "nat \<Rightarrow> order_side \<Rightarrow> sys \<Rightarrow> sys \<Rightarrow> bool" where
  "progress e sd s s' \<longleftrightarrow> stable e s s' \<and> strip (arg s') = strip (arg s)
     \<and> (\<forall>sd'. (sd' = BUY) \<noteq> (sd = BUY) \<longrightarrow>
          walked (engs s' e) sd' = walked (engs s e) sd' \<and> mat_local s' e sd' = mat_local s e sd')
     \<and> set (book_ids (walked (engs s' e) sd)) \<subseteq> set (book_ids (walked (engs s e) sd))
     \<and> (\<forall>j. j \<notin> set (book_ids (walked (engs s e) sd)) \<longrightarrow> slot s' e j = slot s e j)
     \<and> (\<forall>j \<in> set (book_ids (walked (engs s e) sd)).
          j \<notin> set (book_ids (walked (engs s' e) sd)) \<longrightarrow> slot s' e j = None)
     \<and> (\<forall>j. slot s' e j \<noteq> None \<longrightarrow> slot s e j \<noteq> None)
     \<and> (distinct (map fst (odr_map (engs s e))) \<longrightarrow> distinct (map fst (odr_map (engs s' e))))"

lemma progress_refl [simp]: "progress e sd s s"
  by (simp add: progress_def)

lemma progressE:
  assumes "progress e sd s s'"
  shows "stable e s s'" "strip (arg s') = strip (arg s)"
    "(sd' = BUY) \<noteq> (sd = BUY) \<Longrightarrow> walked (engs s' e) sd' = walked (engs s e) sd'"
    "(sd' = BUY) \<noteq> (sd = BUY) \<Longrightarrow> mat_local s' e sd' = mat_local s e sd'"
    "j \<in> set (book_ids (walked (engs s' e) sd)) \<Longrightarrow> j \<in> set (book_ids (walked (engs s e) sd))"
    "j \<notin> set (book_ids (walked (engs s e) sd)) \<Longrightarrow> slot s' e j = slot s e j"
    "j \<in> set (book_ids (walked (engs s e) sd)) \<Longrightarrow> j \<notin> set (book_ids (walked (engs s' e) sd)) \<Longrightarrow> slot s' e j = None"
    "slot s e j = None \<Longrightarrow> slot s' e j = None"
    "distinct (map fst (odr_map (engs s e))) \<Longrightarrow> distinct (map fst (odr_map (engs s' e)))"
  using assms unfolding progress_def by blast+

lemma progress_trans [trans]:
  assumes p: "progress e sd s s'" and p': "progress e sd s' s''"
  shows "progress e sd s s''"
  unfolding progress_def
proof (intro conjI allI impI ballI)
  show "stable e s s''"
    using progressE(1) [OF p] progressE(1) [OF p'] by (rule stable_trans)
  show "strip (arg s'') = strip (arg s)"
    using progressE(2) [OF p] progressE(2) [OF p'] by simp
  show "walked (engs s'' e) sd' = walked (engs s e) sd'" "mat_local s'' e sd' = mat_local s e sd'"
    if "(sd' = BUY) \<noteq> (sd = BUY)" for sd'
    using progressE(3,4) [OF p that] progressE(3,4) [OF p' that] by simp_all
  show "set (book_ids (walked (engs s'' e) sd)) \<subseteq> set (book_ids (walked (engs s e) sd))"
    using progressE(5) [OF p] progressE(5) [OF p'] by blast
  show "slot s'' e j = slot s e j" if "j \<notin> set (book_ids (walked (engs s e) sd))" for j
    using that progressE(5,6) [OF p] progressE(6) [OF p'] by metis
  show "slot s'' e j = None"
    if "j \<in> set (book_ids (walked (engs s e) sd))" "j \<notin> set (book_ids (walked (engs s'' e) sd))" for j
    using that progressE(7) [OF p] progressE(6,7) [OF p'] by metis
  show "slot s e j \<noteq> None" if "slot s'' e j \<noteq> None" for j
    using that progressE(8) [OF p] progressE(8) [OF p'] by metis
  show "distinct (map fst (odr_map (engs s'' e)))" if "distinct (map fst (odr_map (engs s e)))"
    using that progressE(9) [OF p] progressE(9) [OF p'] by metis
qed

lemma progress_ids [simp]: "progress e sd (s\<lparr>ids := i\<rparr>) s' = progress e sd s s'"
  by (simp add: progress_def stable_def slot_def)

lemma wf_other:
  assumes p: "progress e sd s s'" and wf: "wf_side s e sd" "wf_side s e sd'" and sd': "(sd' = BUY) \<noteq> (sd = BUY)"
  shows "wf_side s' e sd'" "orders_of s' e sd' = orders_of s e sd'"
proof -
  have w: "walked (engs s' e) sd' = walked (engs s e) sd'"
    using p sd' by (simp add: progress_def)
  have "slot s' e i = slot s e i" if i: "i \<in> set (book_ids (walked (engs s e) sd'))" for i
  proof -
    obtain m where "m \<in> set (orders_of s e sd')" "order_id m = i"
      using i by (auto simp: book_ids_orders [OF wf(2)])
    then have "i \<notin> set (book_ids (walked (engs s e) sd))"
      using sides_disjoint [OF wf(2) wf(1)] sd' by auto
    then show ?thesis
      using p by (simp add: progress_def)
  qed
  then show "wf_side s' e sd'" "orders_of s' e sd' = orders_of s e sd'"
    using side_cong [OF w] wf(2) by simp_all
qed

section \<open>One trade\<close>

lemma stamp_arg [simp]: "stamp (s\<lparr>arg := a\<rparr>) = stamp s"
  by (simp add: stamp_def fun_eq_iff current_def Let_def split_beta)

lemma taker_match_arg:
  "iter_taker_match e Arg mid px q i j s =
     Some (record_event e (stamp s (match_order (arg s) TAKER mid px q i j))
             ((ticked s)\<lparr>arg := stamp s (match_order (arg s) TAKER mid px q i j)\<rparr>))"
  by (simp add: iter_taker_match_def callback_eq)

lemma trade_of_match:
  "trade_of (stamp s (match_order o1 mt mid px q i j)) = (order_id o1, mt, px, q)"
  by (simp add: trade_of_def)

lemma traded_progress:
  assumes t: "traded e sd m m' ms s s'" and wf: "wf_side s e sd" and os: "orders_of s e sd = m # ms"
    and m': "order_id m' = order_id m"
  shows "progress e sd s s'"
proof -
  have ids: "book_ids (walked (engs s e) sd) = order_id m # map order_id ms"
    using head_ids(1) [OF wf os] .
  have wf': "wf_side s' e sd"
    using t by (simp add: traded_def)
  have ids': "book_ids (walked (engs s' e) sd) =
      (if remain_quantity m' = 0 then map order_id ms else order_id m # map order_id ms)"
    using book_ids_orders [OF wf'] t m' by (simp add: traded_def)
  have sl: "slot s e (order_id m) = Some m"
    using orders_of_slot(1) [OF wf] os by simp
  show ?thesis
    using t ids ids' sl by (auto simp: progress_def traded_def)
qed

lemma local_trade:
  assumes wf: "wf_side s e sd" and os: "orders_of s e sd = m # ms"
    and it: "it_e it = Some e" "it_side it = sd" "it_pos it = Some (price m, order_id m)"
    and q: "q \<noteq> 0" "q \<le> remain_quantity m"
  shows "\<exists>it' s1. iter_maker_match s it mid q tid 0 = Some (it', s1) \<and> at_top s1 e sd it'
     \<and> wf_side s1 e sd \<and> progress e sd s s1 \<and> arg s1 = arg s \<and> ids s1 = ids s
     \<and> mat_local s1 e = mat_local s e
     \<and> map quote_of (orders_of s1 e sd) = (if q = remain_quantity m then map quote_of ms
          else (order_id m, price m, remain_quantity m - q) # map quote_of ms)
     \<and> map trade_of (log_of s1 e) = map trade_of (log_of s e) @ [(order_id m, MAKER, price m, q)]"
proof -
  define m' where "m' = stamp s (maker_match_order m mid q tid 0)"
  have "\<exists>it' s1. iter_maker_match s it mid q tid 0 = Some (it', s1) \<and> at_top s1 e sd it'
    \<and> traded e sd m m' ms s s1"
  proof (cases "q = remain_quantity m")
    case True
    then show ?thesis
      using maker_match_full [OF wf os it] m'_def by blast
  next
    case False
    then show ?thesis
      using maker_match_part [OF wf os it _ m'_def] q by simp
  qed
  then obtain it' s1 where r: "iter_maker_match s it mid q tid 0 = Some (it', s1)" "at_top s1 e sd it'"
    and t: "traded e sd m m' ms s s1"
    by blast
  have m': "order_id m' = order_id m" "remain_quantity m' = remain_quantity m - q" "quote_of m' = (order_id m, price m, remain_quantity m - q)"
    "trade_of m' = (order_id m, MAKER, price m, q)"
    by (simp_all add: m'_def quote_of_def trade_of_def)
  have "progress e sd s s1"
    using t wf os m'(1) by (rule traded_progress)
  then show ?thesis
    using r t m' by (auto simp: traded_def)
qed


lemma progress_record [simp]: "progress e sd s (record_event e o1 s') = progress e sd s s'"
  by (simp add: progress_def)

lemma progress_ticks [simp]: "progress e sd s (s'\<lparr>ticks := n\<rparr>) = progress e sd s s'"
  by (simp add: progress_def)

lemma progress_arg: "strip a = strip (arg s') \<Longrightarrow> progress e sd s (s'\<lparr>arg := a\<rparr>) = progress e sd s s'"
  by (simp add: progress_def slot_def)

lemma slot_frame [simp]:
  "slot (s\<lparr>arg := a\<rparr>) = slot s" "slot (s\<lparr>ids := i\<rparr>) = slot s" 
  by (simp_all add: slot_def fun_eq_iff)

lemma slot_set_mat_local [simp]: "slot (set_mat_local e sd it s) = slot s"
  by (simp add: slot_def fun_eq_iff set_mat_local_def)

lemma walked_set_mat_local [simp]: "walked (engs (set_mat_local e sd it s) e') sd' = walked (engs s e') sd'"
  by (simp add: walked_def set_mat_local_def)

lemma mat_local_set [simp]:
  "mat_local (set_mat_local e sd it s) e sd' = (if (sd' = BUY) = (sd = BUY) then it else mat_local s e sd')"
  by (simp add: mat_local_def set_mat_local_def)

lemma set_mat_local_frame [simp]:
  "arg (set_mat_local e sd it s) = arg s" "ids (set_mat_local e sd it s) = ids s"
  "log_of (set_mat_local e sd it s) e' = log_of s e'" "stable e s0 (set_mat_local e sd it s) = stable e s0 s"
  "odr_map (engs (set_mat_local e sd it s) e') = odr_map (engs s e')"
  by (auto simp: set_mat_local_def log_of_def stable_def eng_const_def)

lemma progress_set_mat_local [simp]: "progress e sd s (set_mat_local e sd it s') = progress e sd s s'"
  by (auto simp: progress_def)

text \<open>Changes that do not touch books or slots leave the sides as they are.\<close>

lemma side_frame [simp]:
  "wf_side (record_event e o1 s) e' sd = wf_side s e' sd" "orders_of (record_event e o1 s) e' sd = orders_of s e' sd"
  "wf_side (s\<lparr>ticks := n\<rparr>) e' sd = wf_side s e' sd" "orders_of (s\<lparr>ticks := n\<rparr>) e' sd = orders_of s e' sd"
  "wf_side (s\<lparr>arg := a\<rparr>) e' sd = wf_side s e' sd" "orders_of (s\<lparr>arg := a\<rparr>) e' sd = orders_of s e' sd"
  "wf_side (s\<lparr>ids := i\<rparr>) e' sd = wf_side s e' sd" "orders_of (s\<lparr>ids := i\<rparr>) e' sd = orders_of s e' sd"
  "wf_side (set_mat_local e sd2 it s) e' sd = wf_side s e' sd"
  "orders_of (set_mat_local e sd2 it s) e' sd = orders_of s e' sd"
  by (simp_all add: wf_side_def orders_of_def)

lemma at_top_frame [simp]:
  "at_top (record_event e o1 s) e' sd = at_top s e' sd" "at_top (s\<lparr>ticks := n\<rparr>) e' sd = at_top s e' sd"
  "at_top (s\<lparr>arg := a\<rparr>) e' sd = at_top s e' sd" "at_top (s\<lparr>ids := i\<rparr>) e' sd = at_top s e' sd"
  "at_top (set_mat_local e sd2 it s) e' sd = at_top s e' sd"
  by (simp_all add: at_top_def fun_eq_iff)

lemma it_order_top:
  assumes "wf_side s e sd" "orders_of s e sd = m # ms"
    and "it_e it = Some e" "it_side it = sd" "it_pos it = Some (price m, order_id m)"
  shows "it_order s it = Some m"
proof -
  obtain js ls where "walked (engs s e) sd = (price m, order_id m # js) # ls" "slot s e (order_id m) = Some m"
    using assms(1,2) by (rule top_level)
  then show ?thesis
    using assms by (simp add: it_order_def it_deref_def)
qed

lemma trade_local_step:
  assumes wf: "wf_side s e sd" and os: "orders_of s e sd = m # ms" and top: "at_top s e sd (mat_local s e sd)"
    and q: "q \<noteq> 0" "q \<le> remain_quantity m"
  shows "\<exists>s'. trade_local e sd Arg (price m) q mid s = Some s' \<and> progress e sd s s' \<and> wf_side s' e sd
     \<and> at_top s' e sd (mat_local s' e sd) \<and> ids s' = ids s
     \<and> map quote_of (orders_of s' e sd) = (if q = remain_quantity m then map quote_of ms
          else (order_id m, price m, remain_quantity m - q) # map quote_of ms)
     \<and> remain_quantity (arg s') = remain_quantity (arg s) - q
     \<and> map trade_of (log_of s' e) = map trade_of (log_of s e) @ reports (order_id (arg s)) [(order_id m, price m, q)]"
proof -
  have it: "it_e (mat_local s e sd) = Some e" "it_side (mat_local s e sd) = sd"
    "it_pos (mat_local s e sd) = Some (price m, order_id m)"
    using top by (simp_all add: at_top_def os)
  obtain it' s1 where s1: "iter_maker_match s (mat_local s e sd) mid q (order_id (arg s)) 0 = Some (it', s1)"
    "at_top s1 e sd it'" "wf_side s1 e sd" "progress e sd s s1" "arg s1 = arg s" "ids s1 = ids s"
    "map quote_of (orders_of s1 e sd) = (if q = remain_quantity m then map quote_of ms
          else (order_id m, price m, remain_quantity m - q) # map quote_of ms)"
    "map trade_of (log_of s1 e) = map trade_of (log_of s e) @ [(order_id m, MAKER, price m, q)]"
    using local_trade [OF wf os it q] by blast
  show ?thesis
    using s1 it_order_top [OF wf os it]
    by (simp add: trade_local_def taker_match_arg trade_of_match progress_arg Let_def)
qed


section \<open>The loop\<close>

text \<open>The top of the walked side, when no implier is registered.\<close>

lemma top_price_own_side_Some:
  assumes wf: "wf_side s e (own_side sd)" and it: "it_e it = Some e" "it_side it = sd"
  shows "\<exists>px. iter_top_price_own_side s it = Some px"
proof (cases "orders_of s e (own_side sd)")
  case Nil
  then have "entries (walked (engs s e) (own_side sd)) = []"
    using orders_of_entries [OF wf] by simp
  then have "walked (engs s e) (own_side sd) = []"
    using wf side.wf_book_distinct wf_book_entries_Nil by (auto simp: wf_side_def)
  then show ?thesis
    using it by (auto simp: iter_top_price_own_side_def own_side_def walked_def split: if_splits)
next
  case (Cons m ms)
  obtain js ls where "walked (engs s e) (own_side sd) = (price m, order_id m # js) # ls"
    "slot s e (order_id m) = Some m"
    using wf Cons by (rule top_level)
  then show ?thesis
    using it by (auto simp: iter_top_price_own_side_def own_side_def walked_def split: if_splits)
qed

lemma matcher_top_local:
  assumes wf: "wf_side s e sd" "wf_side s e (own_side sd)" and top: "at_top s e sd (mat_local s e sd)"
    and imp: "mat_impliers s e sd = []"
  shows "matcher_top cmp s e sd = Some (case orders_of s e sd of [] \<Rightarrow> (MARKET_PRICE, 0, None)
           | m # _ \<Rightarrow> (price m, remain_quantity m, None))"
proof -
  have it: "it_e (mat_local s e sd) = Some e" "it_side (mat_local s e sd) = sd"
    using top by (simp_all add: at_top_def)
  obtain own where own: "iter_top_price_own_side s (mat_local s e sd) = Some own"
    using top_price_own_side_Some [OF wf(2) it] by blast
  show ?thesis
  proof (cases "orders_of s e sd")
    case Nil
    then show ?thesis
      using top own
      by (simp add: matcher_top_def imp at_top_def iter_top_price_def it_valid_def
          iter_top_matching_quantity_def)
  next
    case (Cons m ms)
    then have pos: "it_pos (mat_local s e sd) = Some (price m, order_id m)"
      "it_remain (mat_local s e sd) = remain_quantity m"
      using top by (simp_all add: at_top_def)
    show ?thesis
      using it_order_top [OF wf(1) Cons it pos(1)] own
      by (simp add: matcher_top_def imp Cons pos it iter_top_price_def it_valid_def
          iter_top_matching_quantity_def)
  qed
qed

text \<open>What the loop establishes: the outcome of \<open>sweep\<close>, in the book, in the taker and in the reports.\<close>

definition swept :: "key_comp \<Rightarrow> nat \<Rightarrow> order_side \<Rightarrow> sys \<Rightarrow> sys \<Rightarrow> bool" where
  "swept cmp e sd s s' \<longleftrightarrow>
     (case sweep cmp (price (arg s)) (remain_quantity (arg s)) (map quote_of (orders_of s e sd)) of
        (fs, n, qs) \<Rightarrow> map quote_of (orders_of s' e sd) = qs \<and> remain_quantity (arg s') = n
          \<and> map trade_of (log_of s' e) = map trade_of (log_of s e) @ reports (order_id (arg s)) fs
          \<and> ids s' = ids s + of_nat (length fs) \<and> (fs = [] \<longrightarrow> arg s' = arg s))
     \<and> progress e sd s s' \<and> wf_side s' e sd"

lemma progressD:
  assumes "progress e sd s s'"
  shows "mat_impliers s' e sd' = mat_impliers s e sd'" "price (arg s') = price (arg s)"
    "order_id (arg s') = order_id (arg s)" "time_condition (arg s') = time_condition (arg s)"
    "quantity (arg s') = quantity (arg s)" "side (arg s') = side (arg s)"
  using stableD(1) [OF progressE(1) [OF assms]] strip_eqD [OF progressE(2) [OF assms]] by simp_all

lemma own_side_opposite: "(own_side sd = BUY) \<noteq> (sd = BUY)"
  by (simp add: own_side_def)

theorem match_loop_sweeps:
  assumes "wf_side s e sd" "wf_side s e (own_side sd)" "at_top s e sd (mat_local s e sd)"
    and "mat_impliers s e sd = []"
    and "time_condition (arg s) \<noteq> MAKER_ONLY" "time_condition (arg s) \<noteq> MAKER_ONLY_REPRICE"
  shows "\<exists>s'. match_loop cmp e sd Arg tick s = Some (False, s') \<and> swept cmp e sd s s'
    \<and> at_top s' e sd (mat_local s' e sd)"
  using assms
proof (induction "length (orders_of s e sd)" arbitrary: s rule: less_induct)
  case less
  note wf = less.prems(1,2) and top = less.prems(3) and imp = less.prems(4)
  show ?case
  proof (cases "orders_of s e sd")
    case Nil
    then show ?thesis
      using top wf matcher_top_local [OF wf top imp, of cmp]
      by (intro exI [of _ s], subst match_loop.simps) (simp add: swept_def)
  next
    case os: (Cons m ms)
    have m: "remain_quantity m \<noteq> 0" "price m \<noteq> MARKET_PRICE"
      using orders_of_slot(2) [OF wf(1), of m] by (simp_all add: os wf_resting_def)
    show ?thesis
    proof (cases "remain_quantity (arg s) = 0 \<or> price (arg s) \<noteq> MARKET_PRICE \<and> cmp (price (arg s)) (price m)")
      case True
      then show ?thesis
        using top wf matcher_top_local [OF wf top imp, of cmp] m
        by (intro exI [of _ s], subst match_loop.simps) (auto simp: swept_def os quote_of_def)
    next
      case False
      define q where "q = (if remain_quantity m < remain_quantity (arg s) then remain_quantity m else remain_quantity (arg s))"
      define s0 where "s0 = snd (get_id s)"
      have s0: "s0 = s\<lparr>ids := ids s + 1\<rparr>"
        by (simp add: s0_def get_id_def)
      have q: "q \<noteq> 0" "q \<le> remain_quantity m"
        using False m by (auto simp: q_def)
      obtain s1 where s1: "trade_local e sd Arg (price m) q (fst (get_id s)) s0 = Some s1"
        "progress e sd s0 s1" "wf_side s1 e sd" "at_top s1 e sd (mat_local s1 e sd)" "ids s1 = ids s0"
        "map quote_of (orders_of s1 e sd) = (if q = remain_quantity m then map quote_of ms
            else (order_id m, price m, remain_quantity m - q) # map quote_of ms)"
        "remain_quantity (arg s1) = remain_quantity (arg s0) - q"
        "map trade_of (log_of s1 e) = map trade_of (log_of s0 e) @ reports (order_id (arg s0)) [(order_id m, price m, q)]"
        using trade_local_step [of s0 e sd m ms q "fst (get_id s)"] wf(1) top os q
        by (auto simp: s0)
      have p1: "progress e sd s s1"
        using s1(2) by (simp add: s0)
      have loop: "match_loop cmp e sd Arg tick s = match_loop cmp e sd Arg tick s1"
        using False m less.prems(5,6) matcher_top_local [OF wf top imp] s1(1)
        by (subst match_loop.simps) (auto simp: os q_def s0_def split_beta Let_def split: if_splits)
      show ?thesis
      proof (cases "remain_quantity m \<le> remain_quantity (arg s)")
        case full: True
        then have "q = remain_quantity m"
          by (auto simp: q_def)
        then have "length (orders_of s1 e sd) < length (orders_of s e sd)"
          using s1(6) by (metis length_map lessI list.size(4) os add.right_neutral add_Suc_right)
        moreover have "wf_side s1 e (own_side sd)"
          using p1 wf own_side_opposite by (rule wf_other)
        ultimately obtain s' where s': "match_loop cmp e sd Arg tick s1 = Some (False, s')"
          "swept cmp e sd s1 s'" "at_top s' e sd (mat_local s' e sd)"
          using less.hyps [of s1] s1(3,4) less.prems(4-6) progressD [OF p1] by auto
        have "swept cmp e sd s s'"
          using s'(2) s1(5-8) progressD [OF p1] progress_trans [OF p1] False full \<open>q = remain_quantity m\<close>
          by (auto simp: swept_def os quote_of_def s0 split: prod.splits)
        then show ?thesis
          using s' loop by auto
      next
        case part: False
        then have q': "q = remain_quantity (arg s)"
          by (auto simp: q_def)
        then have "match_loop cmp e sd Arg tick s1 = Some (False, s1)"
          using s1(7) by (subst match_loop.simps) (simp add: s0)
        moreover have "swept cmp e sd s s1"
          using s1(3,5-8) p1 False part q' by (auto simp: swept_def os quote_of_def s0)
        ultimately show ?thesis
          using loop s1(4) by auto
      qed
    qed
  qed
qed

end
