(* ===== verification/Fill_Or_Kill.thy ===== *)
theory Fill_Or_Kill
  imports Sweep
begin

text \<open>
  \<open>fok_match\<close> without impliers: the records collected first, with copies of the iterator, are exactly
  the fills of \<open>sweep\<close>; executing them one after the other gives what the loop of \<open>normal_match\<close> gives;
  and when they are not enough nothing but the report of the cancellation happens.
\<close>

section \<open>The iterator on the way through the book\<close>

text \<open>The iterator stands on the order number \<open>k\<close> of its side, or at the end.\<close>

definition at_index :: "sys \<Rightarrow> nat \<Rightarrow> order_side \<Rightarrow> nat \<Rightarrow> iter \<Rightarrow> bool" where
  "at_index s e sd k it \<longleftrightarrow> it_e it = Some e \<and> it_side it = sd \<and>
     (case drop k (orders_of s e sd) of
        [] \<Rightarrow> it_pos it = None
      | m # _ \<Rightarrow> it_pos it = Some (price m, order_id m) \<and> it_remain it = remain_quantity m)"

lemma at_index_0: "at_index s e sd 0 it = at_top s e sd it"
  by (simp add: at_index_def at_top_def)

lemma at_index_set_mat_local [simp]: "at_index (set_mat_local e sd' it' s) e' sd k = at_index s e' sd k"
  by (simp add: at_index_def fun_eq_iff)

lemma entries_drop:
  assumes "wf_side s e sd" "drop k (orders_of s e sd) = m # ms"
  shows "entries (walked (engs s e) sd) = take k (entries (walked (engs s e) sd)) @ (price m, order_id m)
    # map (\<lambda>o1. (price o1, order_id o1)) ms"
proof -
  let ?f = "\<lambda>o1. (price o1, order_id o1)"
  have "map ?f (orders_of s e sd) = take k (map ?f (orders_of s e sd)) @ map ?f (drop k (orders_of s e sd))"
    by (simp add: drop_map [symmetric])
  then show ?thesis
    by (simp add: assms(2) orders_of_entries [OF assms(1)])
qed

lemma in_drop_orders: "drop k (orders_of s e sd) = m # ms \<Longrightarrow> m \<in> set (orders_of s e sd)"
  by (metis in_set_dropD list.set_intros(1))

lemma deref_index:
  assumes "wf_side s e sd" "drop k (orders_of s e sd) = m # ms" "at_index s e sd k it"
  shows "it_deref s it = Some (e, price m, order_id m)" "it_order s it = Some m"
proof -
  obtain level where "map_of (walked (engs s e) sd) (price m) = Some level" "order_id m \<in> set level"
    using side.next_entry [of sd, OF _ entries_drop [OF assms(1,2)]] assms(1) by (auto simp: wf_side_def)
  then show d: "it_deref s it = Some (e, price m, order_id m)"
    using assms(2,3) by (simp add: it_deref_def at_index_def)
  then show "it_order s it = Some m"
    using orders_of_slot(1) [OF assms(1) in_drop_orders [OF assms(2)]] by (simp add: it_order_def)
qed

lemma next_index:
  assumes wf: "wf_side s e sd" and os: "drop k (orders_of s e sd) = m # ms" and it: "at_index s e sd k it"
  shows "\<exists>it'. iter_next s it = Some it' \<and> at_index s e sd (Suc k) it'"
proof -
  obtain level where lv: "map_of (walked (engs s e) sd) (price m) = Some level"
    and nx: "(case after (order_id m) level of [] \<Rightarrow> book_begin (levels_after (price m) (walked (engs s e) sd))
        | oid' # _ \<Rightarrow> Some (Some (price m, oid')))
      = Some (case map (\<lambda>o1. (price o1, order_id o1)) ms of [] \<Rightarrow> None | en # _ \<Rightarrow> Some en)"
    using side.next_entry [of sd, OF _ entries_drop [OF wf os]] wf by (auto simp: wf_side_def)
  have side: "it_side it = sd" "it_e it = Some e"
    using it by (simp_all add: at_index_def)
  have run: "iter_next s it = it_load s it (case ms of [] \<Rightarrow> None | m' # _ \<Rightarrow> Some (price m', order_id m'))"
    using deref_index(1) [OF wf os it] lv nx side
    by (cases "after (order_id m) level"; cases ms) (auto simp: iter_next_def)
  have dr: "drop (Suc k) (orders_of s e sd) = ms"
    using os by (metis drop_Suc tl_drop list.sel(3))
  show ?thesis
  proof (cases ms)
    case Nil
    then show ?thesis
      using side dr by (simp add: run it_load_def at_index_def)
  next
    case (Cons m' ms')
    then have "slot s e (order_id m') = Some m'"
      using orders_of_slot(1) [OF wf in_drop_orders] dr by blast
    then show ?thesis
      using side dr Cons by (simp add: run it_load_def at_index_def)
  qed
qed

section \<open>Collecting\<close>

definition rec_ok :: "nat \<Rightarrow> order_side \<Rightarrow> quote \<Rightarrow> matched_record \<Rightarrow> bool" where
  "rec_ok e sd = (\<lambda>(i, px, q) rt. rec_price rt = px \<and> rec_quantity rt = q \<and> it_e (rec_leg1 rt) = Some e
     \<and> it_side (rec_leg1 rt) = sd \<and> it_pos (rec_leg1 rt) = Some (px, i) \<and> rec_leg2 rt = null_iter)"

lemma matcher_top_index:
  assumes wf: "wf_side s e sd" "wf_side s e (own_side sd)" and it: "at_index s e sd k (mat_local s e sd)"
    and imp: "mat_impliers s e sd = []"
  shows "matcher_top cmp s e sd = Some (case drop k (orders_of s e sd) of [] \<Rightarrow> (MARKET_PRICE, 0, None)
           | m # _ \<Rightarrow> (price m, remain_quantity m, None))"
proof -
  have side: "it_e (mat_local s e sd) = Some e" "it_side (mat_local s e sd) = sd"
    using it by (simp_all add: at_index_def)
  obtain own where own: "iter_top_price_own_side s (mat_local s e sd) = Some own"
    using top_price_own_side_Some [OF wf(2) side] by blast
  show ?thesis
  proof (cases "drop k (orders_of s e sd)")
    case Nil
    then show ?thesis
      using it own by (simp add: matcher_top_def imp at_index_def iter_top_price_def it_valid_def
          iter_top_matching_quantity_def)
  next
    case (Cons m ms)
    then show ?thesis
      using it own deref_index(2) [OF wf(1) Cons it]
      by (simp add: matcher_top_def imp at_index_def iter_top_price_def it_valid_def
          iter_top_matching_quantity_def)
  qed
qed

lemma set_mat_local_set [simp]:
  "set_mat_local e sd it (set_mat_local e sd it' s) = set_mat_local e sd it s"
  by (simp add: set_mat_local_def)

lemma iter_set_mat_local [simp]:
  "it_load (set_mat_local e sd it s) = it_load s" "it_deref (set_mat_local e sd it s) = it_deref s"
  "iter_next (set_mat_local e sd it s) = iter_next s"
proof -
  show l: "it_load (set_mat_local e sd it s) = it_load s"
    by (auto simp: fun_eq_iff it_load_def split: option.split)
  show d: "it_deref (set_mat_local e sd it s) = it_deref s"
    by (simp add: fun_eq_iff it_deref_def)
  show "iter_next (set_mat_local e sd it s) = iter_next s"
    unfolding fun_eq_iff iter_next_def l d walked_set_mat_local by blast
qed

lemma mat_impliers_set_mat_local [simp]: "mat_impliers (set_mat_local e sd it s) e' sd' = mat_impliers s e' sd'"
  by (simp add: mat_impliers_def set_mat_local_def)

lemma fok_collect_sweeps:
  assumes "wf_side s e sd" "wf_side s e (own_side sd)" "at_index s e sd k it" "mat_impliers s e sd = []"
    and "sweep cmp lmt n (map quote_of (drop k (orders_of s e sd))) = (fs, n', qs)"
  shows "\<exists>rs it'. fok_collect cmp e sd lmt n recs (set_mat_local e sd it s)
     = Some (n', recs @ rs, set_mat_local e sd it' s) \<and> list_all2 (rec_ok e sd) fs rs
     \<and> it_e it' = Some e \<and> it_side it' = sd"
  using assms(3,5)
proof (induction "drop k (orders_of s e sd)" arbitrary: k it n fs recs)
  case Nil
  then show ?case
    using matcher_top_index [of "set_mat_local e sd it s" e sd k cmp] assms(1,2,4)
    by (subst fok_collect.simps) (auto simp: matcher_match_def at_index_def)
next
  case (Cons m ms)
  let ?s = "set_mat_local e sd it s"
  note os = Cons.hyps(2) [symmetric]
  have m: "remain_quantity m \<noteq> 0" "price m \<noteq> MARKET_PRICE"
    using orders_of_slot(2) [OF assms(1) in_drop_orders [OF os]] by (simp_all add: wf_resting_def)
  have it: "it_e it = Some e" "it_side it = sd" "it_pos it = Some (price m, order_id m)"
    "it_remain it = remain_quantity m"
    using Cons.prems(1) by (simp_all add: at_index_def os)
  have top: "matcher_top cmp ?s e sd = Some (price m, remain_quantity m, None)"
    using matcher_top_index [of ?s e sd k cmp] assms(1,2,4) Cons.prems(1) os by simp
  have sw: "sweep cmp lmt n (quote_of m # map quote_of ms) = (fs, n', qs)"
    using Cons.prems(2) by (simp add: os)
  show ?case
  proof (cases "n = 0 \<or> lmt \<noteq> MARKET_PRICE \<and> cmp lmt (price m)")
    case True
    then show ?thesis
      using sw top m it by (subst fok_collect.simps) (auto simp: matcher_match_def quote_of_def)
  next
    case False
    define rt where "rt q = \<lparr>rec_price = price m, rec_quantity = q, rec_leg1 = it, rec_leg2 = null_iter\<rparr>" for q
    have ok: "rec_ok e sd (order_id m, price m, q) (rt q)" for q
      by (simp add: rec_ok_def rt_def it)
    have tq: "iter_top_matching_quantity it = remain_quantity m"
      by (simp add: iter_top_matching_quantity_def it_valid_def it)
    show ?thesis
    proof (cases "remain_quantity m \<le> n")
      case full: True
      obtain it1 where it1: "iter_next s it = Some it1" "at_index s e sd (Suc k) it1"
        using next_index [OF assms(1) os Cons.prems(1)] by blast
      have nx: "iter_next ?s it = Some it1"
        using it1(1) by simp
      have step: "fok_collect cmp e sd lmt n recs ?s
          = fok_collect cmp e sd lmt (n - remain_quantity m) (recs @ [rt (remain_quantity m)]) (set_mat_local e sd it1 s)"
        using False m full top nx tq
        by (subst fok_collect.simps) (auto simp: matcher_match_def rt_def Let_def split: if_splits)
      obtain gs where gs: "sweep cmp lmt (n - remain_quantity m) (map quote_of ms) = (gs, n', qs)"
        "fs = (order_id m, price m, remain_quantity m) # gs"
        using sw False full by (auto simp: quote_of_def split: prod.splits)
      have dr: "ms = drop (Suc k) (orders_of s e sd)"
        using os by (metis drop_Suc tl_drop list.sel(3))
      obtain rs it' where "fok_collect cmp e sd lmt (n - remain_quantity m) (recs @ [rt (remain_quantity m)])
          (set_mat_local e sd it1 s) = Some (n', (recs @ [rt (remain_quantity m)]) @ rs, set_mat_local e sd it' s)"
        "list_all2 (rec_ok e sd) gs rs" "it_e it' = Some e" "it_side it' = sd"
        using Cons.hyps(1) [OF dr it1(2)] gs(1) dr by metis
      then show ?thesis
        using step gs(2) ok by (intro exI [of _ "rt (remain_quantity m) # rs"] exI [of _ it']) simp
    next
      case part: False
      have fs: "fs = [(order_id m, price m, n)]" "n' = 0"
        using sw False part by (auto simp: quote_of_def)
      have "fok_collect cmp e sd lmt n recs ?s = fok_collect cmp e sd lmt 0 (recs @ [rt n]) ?s"
        using False m part top tq
        by (subst fok_collect.simps) (auto simp: matcher_match_def rt_def Let_def split: if_splits)
      also have "\<dots> = Some (0, recs @ [rt n], ?s)"
        by (subst fok_collect.simps) simp
      finally show ?thesis
        using fs ok it by (intro exI [of _ "[rt n]"] exI [of _ it]) simp
    qed
  qed
qed

section \<open>Executing\<close>

lemma fok_trade_step:
  assumes wf: "wf_side s e sd" and os: "orders_of s e sd = m # ms"
    and rt: "rec_ok e sd (order_id m, price m, q) rt" and q: "q \<noteq> 0" "q \<le> remain_quantity m"
  shows "\<exists>s'. fok_trade e Arg rt s = Some s' \<and> progress e sd s s' \<and> wf_side s' e sd \<and> ids s' = ids s + 1
     \<and> mat_local s' e = mat_local s e \<and> map quote_of (orders_of s' e sd) = (if q = remain_quantity m then map quote_of ms
          else (order_id m, price m, remain_quantity m - q) # map quote_of ms)
     \<and> remain_quantity (arg s') = remain_quantity (arg s) - q
     \<and> map trade_of (log_of s' e) = map trade_of (log_of s e) @ reports (order_id (arg s)) [(order_id m, price m, q)]"
proof -
  define s0 where "s0 = s\<lparr>ids := ids s + 1\<rparr>"
  have id: "snd (get_id s) = s0"
    by (simp add: get_id_def s0_def)
  have it: "it_e (rec_leg1 rt) = Some e" "it_side (rec_leg1 rt) = sd"
    "it_pos (rec_leg1 rt) = Some (price m, order_id m)"
    and r: "rec_price rt = price m" "rec_quantity rt = q" "\<not> it_valid (rec_leg2 rt)"
    using rt by (simp_all add: rec_ok_def it_valid_def null_iter_def)
  have s0: "wf_side s0 e sd" "orders_of s0 e sd = m # ms"
    using wf os by (simp_all add: s0_def)
  obtain it' s1 where s1: "iter_maker_match s0 (rec_leg1 rt) (fst (get_id s)) q (order_id (arg s0)) 0 = Some (it', s1)"
    "wf_side s1 e sd" "progress e sd s0 s1" "arg s1 = arg s0" "ids s1 = ids s0" "mat_local s1 e = mat_local s0 e"
    "map quote_of (orders_of s1 e sd) = (if q = remain_quantity m then map quote_of ms
          else (order_id m, price m, remain_quantity m - q) # map quote_of ms)"
    "map trade_of (log_of s1 e) = map trade_of (log_of s0 e) @ [(order_id m, MAKER, price m, q)]"
    using local_trade [OF s0 it q] by blast
  have run: "fok_trade e Arg rt s = iter_taker_match e Arg (fst (get_id s)) (price m) q (order_id m) 0 s1"
    using it_order_top [OF s0 it] s1(1) r by (simp add: fok_trade_def split_beta Let_def id)
  show ?thesis
    using s1 by (simp add: run taker_match_arg trade_of_match progress_arg s0_def)
qed

lemma sweep_fill_head:
  assumes "sweep cmp lmt n ((i, px, q) # qs) = ((j, p, r) # fs, n', qs')" "q \<noteq> 0"
  shows "j = i" "p = px" "r \<noteq> 0" "r \<le> q" "n \<noteq> 0"
    "sweep cmp lmt (n - r) (if r = q then qs else (i, px, q - r) # qs) = (fs, n', qs')"
  using assms by (auto split: if_splits prod.splits)

lemma fok_execute_sweeps:
  assumes "wf_side s e sd" "wf_side s e (own_side sd)"
    and "sweep cmp (price (arg s)) (remain_quantity (arg s)) (map quote_of (orders_of s e sd)) = (fs, n', qs)"
    and "list_all2 (rec_ok e sd) fs rs"
  shows "\<exists>s'. fok_execute e Arg rs s = Some s' \<and> swept cmp e sd s s' \<and> mat_local s' e = mat_local s e"
  using assms
proof (induction fs arbitrary: s rs)
  case Nil
  have "n' = remain_quantity (arg s) \<and> qs = map quote_of (orders_of s e sd)"
    using Nil.prems(3) by (cases "map quote_of (orders_of s e sd)") (auto split: if_splits prod.splits)
  then show ?case
    using Nil by (simp add: swept_def)
next
  case (Cons f fs)
  note wf = Cons.prems(1,2)
  obtain i px q where f: "f = (i, px, q)" by (cases f)
  obtain rt rs' where rs: "rs = rt # rs'" "rec_ok e sd f rt" "list_all2 (rec_ok e sd) fs rs'"
    using Cons.prems(4) by (cases rs) auto
  obtain m ms where os: "orders_of s e sd = m # ms"
    using Cons.prems(3) by (cases "orders_of s e sd") auto
  have m: "remain_quantity m \<noteq> 0"
    using orders_of_slot(2) [OF wf(1), of m] by (simp add: os wf_resting_def)
  note h = sweep_fill_head [OF Cons.prems(3) [unfolded os list.map quote_of_def [of m] f] m]
  obtain s1 where s1: "fok_trade e Arg rt s = Some s1" "progress e sd s s1" "wf_side s1 e sd" "ids s1 = ids s + 1"
    "mat_local s1 e = mat_local s e" "map quote_of (orders_of s1 e sd) = (if q = remain_quantity m then map quote_of ms
          else (order_id m, price m, remain_quantity m - q) # map quote_of ms)"
    "remain_quantity (arg s1) = remain_quantity (arg s) - q"
    "map trade_of (log_of s1 e) = map trade_of (log_of s e) @ reports (order_id (arg s)) [(order_id m, price m, q)]"
    using fok_trade_step [OF wf(1) os _ h(3,4)] rs(2) f h(1,2) by blast
  have sw: "sweep cmp (price (arg s1)) (remain_quantity (arg s1)) (map quote_of (orders_of s1 e sd)) = (fs, n', qs)"
    using h(6) s1(6,7) progressD [OF s1(2)] by simp
  have "wf_side s1 e (own_side sd)"
    using s1(2) wf own_side_opposite by (rule wf_other)
  then obtain s' where s': "fok_execute e Arg rs' s1 = Some s'" "swept cmp e sd s1 s'" "mat_local s' e = mat_local s1 e"
    using Cons.IH [OF s1(3) _ sw rs(3)] by blast
  have "swept cmp e sd s s'"
    using s'(2) s1(4,8) Cons.prems(3) progress_trans [OF s1(2)] sw h(1,2) progressD [OF s1(2)]
    by (simp add: swept_def f)
  then show ?case
    using s' s1(1,5) rs(1) by simp
qed

end
