(* ===== verification/Plain_Orders.thy ===== *)
theory Plain_Orders
  imports Fill_Or_Kill
begin

text \<open>
  The engine on buy and sell orders, with no implier registered and no stop order resting: the
  invariant of its books, and that it survives matching, resting, cancelling and amending. Nothing here
  assumes that the engine runs well: every lemma says that it returns.
\<close>

section \<open>The invariant\<close>

definition other_tick :: "order_side \<Rightarrow> ll \<Rightarrow> ll" where
  "other_tick sd tick = (if sd = BUY then ll_mul tick (- 1) else tick)"

definition match_side :: "nat \<Rightarrow> order_side \<Rightarrow> sys \<Rightarrow> sys option" where
  "match_side e sd s = (if sd = BUY then match_asks e Arg s else match_bids e Arg s)"

definition booked :: "sys \<Rightarrow> nat \<Rightarrow> bool" where
  "booked s e \<longleftrightarrow> (\<forall>j o1. slot s e j = Some o1 \<longrightarrow>
     j \<in> set (book_ids (walked (engs s e) BUY)) \<or> j \<in> set (book_ids (walked (engs s e) SELL)))"

definition books_inv :: "nat \<Rightarrow> sys \<Rightarrow> bool" where
  "books_inv e s \<longleftrightarrow> wf_side s e BUY \<and> wf_side s e SELL \<and> booked s e
     \<and> distinct (map fst (odr_map (engs s e)))
     \<and> bid_impliers (engs s e) = [] \<and> ask_impliers (engs s e) = [] \<and> bid_stop_book (engs s e) = [] \<and> ask_stop_book (engs s e) = []
     \<and> it_e (mat_local s e BUY) = Some e \<and> it_side (mat_local s e BUY) = BUY
     \<and> it_e (mat_local s e SELL) = Some e \<and> it_side (mat_local s e SELL) = SELL"

abbreviation two_sided :: "order_side \<Rightarrow> bool" where
  "two_sided sd \<equiv> sd = BUY \<or> sd = SELL"

lemma own_side_simps [simp]: "own_side BUY = SELL" "own_side SELL = BUY"
  by (simp_all add: own_side_def)

lemma own_own [simp]: "two_sided sd \<Longrightarrow> own_side (own_side sd) = sd"
  by auto

lemma two_sided_own [simp]: "two_sided (own_side sd)"
  by (simp add: own_side_def)

lemma books_invD:
  assumes "books_inv e s" "two_sided sd"
  shows "wf_side s e sd" "wf_side s e (own_side sd)" "mat_impliers s e sd' = []"
    "it_e (mat_local s e sd) = Some e" "it_side (mat_local s e sd) = sd"
    "slot s e j = Some o1 \<Longrightarrow> j \<in> set (book_ids (walked (engs s e) sd)) \<or> j \<in> set (book_ids (walked (engs s e) (own_side sd)))"
    "distinct (map fst (odr_map (engs s e)))"
    "bid_stop_book (engs s e) = []" "ask_stop_book (engs s e) = []"
  using assms by (auto simp: books_inv_def booked_def mat_impliers_def)

lemma books_invI:
  assumes "two_sided sd" "wf_side s e sd" "wf_side s e (own_side sd)" "\<And>sd. mat_impliers s e sd = []"
    "it_e (mat_local s e sd) = Some e" "it_side (mat_local s e sd) = sd"
    "it_e (mat_local s e (own_side sd)) = Some e" "it_side (mat_local s e (own_side sd)) = own_side sd"
    "\<And>j o1. slot s e j = Some o1 \<Longrightarrow> j \<in> set (book_ids (walked (engs s e) sd)) \<or> j \<in> set (book_ids (walked (engs s e) (own_side sd)))"
    "distinct (map fst (odr_map (engs s e)))"
    "bid_stop_book (engs s e) = []" "ask_stop_book (engs s e) = []"
  shows "books_inv e s"
proof -
  have "booked s e"
    unfolding booked_def
  proof (intro allI impI)
    fix j o1 assume "slot s e j = Some o1"
    from assms(9) [OF this] assms(1)
    show "j \<in> set (book_ids (walked (engs s e) BUY)) \<or> j \<in> set (book_ids (walked (engs s e) SELL))"
      by auto
  qed
  then show ?thesis
    using assms(1-3,5-8,10-12) assms(4) [of BUY] assms(4) [of SELL]
    by (auto simp: books_inv_def mat_impliers_def)
qed

lemma books_inv_frame [simp]:
  "books_inv e (record_event e' o1 s) = books_inv e s" "books_inv e (s\<lparr>ticks := n\<rparr>) = books_inv e s"
  "books_inv e (s\<lparr>arg := a\<rparr>) = books_inv e s" "books_inv e (s\<lparr>ids := i\<rparr>) = books_inv e s"
  by (simp_all add: books_inv_def booked_def mat_impliers_def)

lemma books_inv_set_mat_local:
  "books_inv e s \<Longrightarrow> two_sided sd \<Longrightarrow> it_e it = Some e \<Longrightarrow> it_side it = sd \<Longrightarrow> books_inv e (set_mat_local e sd it s)"
  by (auto simp: books_inv_def booked_def set_mat_local_def mat_local_def mat_impliers_def wf_side_def slot_def walked_def)

lemma books_inv_progress:
  assumes inv: "books_inv e s" and sd: "two_sided sd" and p: "progress e sd s s'" and wf: "wf_side s' e sd"
    and top: "it_e (mat_local s' e sd) = Some e" "it_side (mat_local s' e sd) = sd"
  shows "books_inv e s'"
proof (rule books_invI [OF sd wf])
  note inv' = books_invD [OF inv sd]
  have own: "(own_side sd = BUY) \<noteq> (sd = BUY)"
    by (rule own_side_opposite)
  show "wf_side s' e (own_side sd)"
    using p inv'(1,2) own by (rule wf_other)
  show "mat_impliers s' e sd' = []" for sd'
    using progressD(1) [OF p] inv'(3) by simp
  show "it_e (mat_local s' e (own_side sd)) = Some e" "it_side (mat_local s' e (own_side sd)) = own_side sd"
    using progressE(4) [OF p own] books_invD(4,5) [OF inv two_sided_own] by simp_all
  show "j \<in> set (book_ids (walked (engs s' e) sd)) \<or> j \<in> set (book_ids (walked (engs s' e) (own_side sd)))"
    if j: "slot s' e j = Some o1" for j o1
  proof -
    obtain o2 where "slot s e j = Some o2"
      using j progressE(8) [OF p, of j] by (cases "slot s e j") auto
    then show ?thesis
      using inv'(6) [of j o2] j progressE(7) [OF p, of j] progressE(3) [OF p own] by auto
  qed
  show "distinct (map fst (odr_map (engs s' e)))"
    using inv'(7) progressE(9) [OF p] by blast
  show "bid_stop_book (engs s' e) = []" "ask_stop_book (engs s' e) = []"
    using stableD(5,6) [OF progressE(1) [OF p]] inv'(8,9) by simp_all
qed (use top in simp_all)

text \<open>The part of the invariant that looking at the best prices needs.\<close>

definition sides_inv :: "nat \<Rightarrow> sys \<Rightarrow> bool" where
  "sides_inv e s \<longleftrightarrow> wf_side s e BUY \<and> wf_side s e SELL
     \<and> bid_impliers (engs s e) = [] \<and> ask_impliers (engs s e) = [] \<and> bid_stop_book (engs s e) = [] \<and> ask_stop_book (engs s e) = []
     \<and> it_e (mat_local s e BUY) = Some e \<and> it_side (mat_local s e BUY) = BUY
     \<and> it_e (mat_local s e SELL) = Some e \<and> it_side (mat_local s e SELL) = SELL"

lemma books_inv_sides: "books_inv e s \<Longrightarrow> sides_inv e s"
  by (simp add: books_inv_def sides_inv_def)

lemma sides_invD:
  assumes "sides_inv e s" "two_sided sd"
  shows "wf_side s e sd" "mat_impliers s e sd' = []"
    "it_e (mat_local s e sd) = Some e" "it_side (mat_local s e sd) = sd"
    "bid_stop_book (engs s e) = []" "ask_stop_book (engs s e) = []"
  using assms by (auto simp: sides_inv_def mat_impliers_def)

lemma sides_inv_set_mat_local:
  "sides_inv e s \<Longrightarrow> two_sided sd \<Longrightarrow> it_e it = Some e \<Longrightarrow> it_side it = sd \<Longrightarrow> sides_inv e (set_mat_local e sd it s)"
  by (auto simp: sides_inv_def set_mat_local_def mat_local_def wf_side_def slot_def walked_def)

section \<open>Matching\<close>

lemma matcher_reset_sides:
  assumes inv: "sides_inv e s" and sd: "two_sided sd"
  shows "\<exists>it. matcher_reset e sd s = Some (set_mat_local e sd it s) \<and> at_top s e sd it"
proof -
  obtain it where it: "iter_reset s (mat_local s e sd) = Some it" "at_top s e sd it"
    using iter_reset_top sides_invD [OF inv sd] by blast
  then have "sides_inv e (set_mat_local e sd it s)"
    using inv sd by (intro sides_inv_set_mat_local) (simp_all add: at_top_def)
  then have "mat_impliers (set_mat_local e sd it s) e sd = []"
    using sides_invD(2) sd by blast
  then show ?thesis
    using it by (auto simp: matcher_reset_def Let_def)
qed

lemma matcher_reset_plain:
  assumes inv: "books_inv e s" and sd: "two_sided sd"
  shows "\<exists>it. matcher_reset e sd s = Some (set_mat_local e sd it s) \<and> at_top s e sd it
    \<and> books_inv e (set_mat_local e sd it s)"
  using matcher_reset_sides [OF books_inv_sides [OF inv] sd] books_inv_set_mat_local [OF inv sd]
  by (auto simp: at_top_def)

text \<open>The best price of a side is that of its first order.\<close>

definition top_of :: "order list \<Rightarrow> ll" where
  "top_of os = (case os of [] \<Rightarrow> MARKET_PRICE | m # _ \<Rightarrow> price m)"

lemma matcher_top_price_plain:
  assumes wf: "wf_side s e sd" and top: "at_top s e sd (mat_local s e sd)" and imp: "mat_impliers s e sd = []"
  shows "matcher_top_price cmp s e sd = Some (top_of (orders_of s e sd))"
proof (cases "orders_of s e sd")
  case Nil
  then show ?thesis
    using top by (simp add: matcher_top_price_def imp at_top_def iter_top_price_def it_valid_def top_of_def)
next
  case (Cons m ms)
  then have it: "it_e (mat_local s e sd) = Some e" "it_side (mat_local s e sd) = sd"
    "it_pos (mat_local s e sd) = Some (price m, order_id m)"
    using top by (simp_all add: at_top_def)
  show ?thesis
    using it_order_top [OF wf Cons it]
    by (simp add: matcher_top_price_def imp iter_top_price_def it_valid_def it Cons top_of_def)
qed

lemma best_price_sides:
  assumes inv: "sides_inv e s"
  shows "\<exists>it. best_bid e s = Some (top_of (orders_of s e SELL), set_mat_local e SELL it s)
      \<and> it_e it = Some e \<and> it_side it = SELL"
    and "\<exists>it. best_ask e s = Some (top_of (orders_of s e BUY), set_mat_local e BUY it s)
      \<and> it_e it = Some e \<and> it_side it = BUY"
proof -
  have "\<exists>it. matcher_reset e sd s \<bind> (\<lambda>s1. matcher_top_price cmp s1 e sd \<bind> (\<lambda>px. Some (px, s1)))
      = Some (top_of (orders_of s e sd), set_mat_local e sd it s) \<and> it_e it = Some e \<and> it_side it = sd"
    if sd: "two_sided sd" for sd cmp
  proof -
    obtain it where it: "matcher_reset e sd s = Some (set_mat_local e sd it s)" "at_top s e sd it"
      using matcher_reset_sides [OF inv sd] by blast
    have ite: "it_e it = Some e" "it_side it = sd"
      using it(2) by (simp_all add: at_top_def)
    have inv1: "sides_inv e (set_mat_local e sd it s)"
      using inv sd ite by (rule sides_inv_set_mat_local)
    have "matcher_top_price cmp (set_mat_local e sd it s) e sd = Some (top_of (orders_of s e sd))"
      using matcher_top_price_plain [of "set_mat_local e sd it s" e sd cmp] sides_invD(1,2) [OF inv1 sd] it(2)
      by simp
    then show ?thesis
      using it ite by auto
  qed
  then show "\<exists>it. best_bid e s = Some (top_of (orders_of s e SELL), set_mat_local e SELL it s)
      \<and> it_e it = Some e \<and> it_side it = SELL"
    and "\<exists>it. best_ask e s = Some (top_of (orders_of s e BUY), set_mat_local e BUY it s)
      \<and> it_e it = Some e \<and> it_side it = BUY"
    unfolding best_bid_def best_ask_def by blast+
qed

lemma best_price_plain:
  assumes inv: "books_inv e s"
  shows "\<exists>it. best_bid e s = Some (top_of (orders_of s e SELL), set_mat_local e SELL it s)
      \<and> books_inv e (set_mat_local e SELL it s)"
    and "\<exists>it. best_ask e s = Some (top_of (orders_of s e BUY), set_mat_local e BUY it s)
      \<and> books_inv e (set_mat_local e BUY it s)"
  using best_price_sides [OF books_inv_sides [OF inv]] books_inv_set_mat_local [OF inv] by blast+

section \<open>Resting\<close>

text \<open>A queue with one more order, at its place by price and id.\<close>

definition place :: "order \<Rightarrow> ll \<times> u64" where
  "place o1 = (price o1, order_id o1)"

definition queue_in :: "key_comp \<Rightarrow> order \<Rightarrow> order list \<Rightarrow> order list" where
  "queue_in cmp o1 os = filter (\<lambda>x. entry_before cmp (place x) (place o1)) os @ o1
     # filter (\<lambda>x. entry_before cmp (place o1) (place x)) os"

lemma orders_of_book_insert:
  assumes wf: "wf_side s e sd" and new: "order_id o1 \<notin> set (book_ids (walked (engs s e) sd))"
    and w: "walked (engs s' e) sd = book_insert (side_cmp sd) (price o1) (order_id o1) (walked (engs s e) sd)"
    and sl: "\<And>j. slot s' e j = (if j = order_id o1 then Some o1 else slot s e j)"
    and o1: "wf_resting sd (price o1) (order_id o1) o1"
  shows "wf_side s' e sd" "orders_of s' e sd = queue_in (side_cmp sd) o1 (orders_of s e sd)"
proof -
  let ?bk = "walked (engs s e) sd" and ?before = "entry_before (side_cmp sd)"
  have wb: "wf_book (side_cmp sd) ?bk"
    using wf by (simp add: wf_side_def)
  have notin: "(price o1, order_id o1) \<notin> set (entries ?bk)"
    using new by (auto simp: in_book_ids)
  have ent: "entries (walked (engs s' e) sd) = filter (\<lambda>en. ?before en (place o1)) (entries ?bk) @ place o1
      # filter (?before (place o1)) (entries ?bk)"
    unfolding w place_def by (rule side.entries_insert [OF wb notin])
  have old: "slot s' e (snd en) = slot s e (snd en)" if "en \<in> set (entries ?bk)" for en
  proof -
    have "snd en \<in> set (book_ids ?bk)"
      using that by (simp add: book_ids_def)
    then show ?thesis
      using new by (auto simp: sl)
  qed
  show "wf_side s' e sd"
    unfolding wf_side_def
  proof (intro conjI ballI)
    show "wf_book (side_cmp sd) (walked (engs s' e) sd)"
      unfolding w using wb by (rule side.wf_book_insert)
    fix en assume "en \<in> set (entries (walked (engs s' e) sd))"
    then consider "en = place o1" | "en \<in> set (entries ?bk)"
      unfolding ent by auto
    then show "case slot s' e (snd en) of None \<Rightarrow> False | Some x \<Rightarrow> wf_resting sd (fst en) (snd en) x"
    proof cases
      case 1
      then show ?thesis
        using o1 by (simp add: sl place_def)
    next
      case 2
      then show ?thesis
        using wf by (simp add: old wf_side_def)
    qed
  qed
  have "map (\<lambda>en. the (slot s' e (snd en))) (filter P (entries ?bk))
      = filter (\<lambda>x. P (place x)) (orders_of s e sd)" for P
  proof -
    have "map (\<lambda>en. the (slot s' e (snd en))) (filter P (entries ?bk))
        = map (\<lambda>en. the (slot s e (snd en))) (filter P (map place (orders_of s e sd)))"
      using old orders_of_entries [OF wf] by (simp add: place_def cong: map_cong)
    also have "\<dots> = map (\<lambda>x. the (slot s e (order_id x))) (filter (\<lambda>x. P (place x)) (orders_of s e sd))"
      by (simp add: filter_map comp_def place_def)
    also have "\<dots> = filter (\<lambda>x. P (place x)) (orders_of s e sd)"
      using orders_of_slot(1) [OF wf] by (intro map_idI) simp
    finally show ?thesis .
  qed
  then show "orders_of s' e sd = queue_in (side_cmp sd) o1 (orders_of s e sd)"
    by (simp add: orders_of_def book_ids_def comp_def ent queue_in_def sl) (simp add: place_def)
qed

lemma rest_order_plain:
  assumes inv: "books_inv e s" and sd: "two_sided sd" and new: "slot s e (order_id (arg s)) = None"
    and o1: "wf_resting (own_side sd) (price (arg s)) (order_id (arg s)) (arg s)"
  shows "\<exists>s'. rest_order e sd Arg s = Some s' \<and> books_inv e s' \<and> orders_of s' e sd = orders_of s e sd
    \<and> orders_of s' e (own_side sd) = queue_in (side_cmp (own_side sd)) (arg s) (orders_of s e (own_side sd))
    \<and> (\<forall>j. slot s' e j = (if j = order_id (arg s) then Some (arg s) else slot s e j))
    \<and> stable e s s' \<and> arg s' = arg s \<and> ids s' = ids s \<and> log_of s' e = log_of s e"
proof -
  define s' where "s' = upd_eng e (\<lambda>x. set_walked (own_side sd)
      (book_insert (side_cmp (own_side sd)) (price (arg s)) (order_id (arg s)) (walked x (own_side sd)))
      (x\<lparr>odr_map := emplace (order_id (arg s)) (arg s) (odr_map x)\<rparr>)) s"
  note inv' = books_invD [OF inv sd] and own = own_side_opposite [of sd]
  have run: "rest_order e sd Arg s = Some s'"
    using sd by (auto simp: rest_order_def s'_def set_walked_def walked_def side_cmp_def Let_def)
  have sl: "slot s' e j = (if j = order_id (arg s) then Some (arg s) else slot s e j)" for j
    using new by (simp add: slot_def s'_def map_of_emplace)
  have w: "walked (engs s' e) (own_side sd) = book_insert (side_cmp (own_side sd)) (price (arg s))
      (order_id (arg s)) (walked (engs s e) (own_side sd))" "walked (engs s' e) sd = walked (engs s e) sd"
    using own by (simp_all add: s'_def) (simp add: walked_def)
  have notin: "order_id (arg s) \<notin> set (book_ids (walked (engs s e) sd'))" if "wf_side s e sd'" for sd'
    using new orders_of_slot(1) [OF that] by (auto simp: book_ids_orders [OF that])
  have same: "slot s' e i = slot s e i" if "i \<in> set (book_ids (walked (engs s e) sd))" for i
    using that notin [OF inv'(1)] by (auto simp: sl)
  note keep = side_cong [OF w(2) same] and ins = orders_of_book_insert [OF inv'(2) notin [OF inv'(2)] w(1) sl o1]
  have ml: "mat_local s' e = mat_local s e"
    by (simp add: s'_def mat_local_def fun_eq_iff)
  have stab: "stable e s s'"
    by (simp add: s'_def stable_def eng_const_def set_walked_def)
  have "books_inv e s'"
  proof (rule books_invI [OF sd])
    show "wf_side s' e sd" "wf_side s' e (own_side sd)"
      using keep(1) inv'(1) ins(1) by simp_all
    show "mat_impliers s' e sd' = []" for sd'
      using stableD(1) [OF stab] inv'(3) by simp
    show "j \<in> set (book_ids (walked (engs s' e) sd)) \<or> j \<in> set (book_ids (walked (engs s' e) (own_side sd)))"
      if j: "slot s' e j = Some o2" for j o2
    proof (cases "j = order_id (arg s)")
      case True
      then show ?thesis
        by (simp add: book_ids_orders [OF ins(1)] ins(2) queue_in_def)
    next
      case False
      then have "j \<in> set (book_ids (walked (engs s e) sd)) \<or> j \<in> set (book_ids (walked (engs s e) (own_side sd)))"
        using inv'(6) [of j o2] j by (simp add: sl)
      moreover have "set (book_ids (walked (engs s e) (own_side sd))) \<subseteq> set (book_ids (walked (engs s' e) (own_side sd)))"
        using side.book_insert_entries [of "own_side sd"] inv'(2) by (auto simp: book_ids_def w wf_side_def)
      ultimately show ?thesis
        using w(2) by auto
    qed
    show "distinct (map fst (odr_map (engs s' e)))"
      using inv'(7) by (simp add: s'_def)
  qed (use ml stableD(5,6) [OF stab] inv' books_invD [OF inv two_sided_own] in simp_all)
  moreover have "arg s' = arg s" "ids s' = ids s" "log_of s' e = log_of s e"
    by (simp_all add: s'_def log_of_def)
  ultimately show ?thesis
    using run keep(2) inv'(1) ins(2) sl stab by auto
qed

section \<open>The end of a match\<close>

definition resting :: "sys \<Rightarrow> nat \<Rightarrow> nat" where
  "resting s e = length (orders_of s e BUY) + length (orders_of s e SELL)"

lemma resting_sides: "two_sided sd \<Longrightarrow> resting s e = length (orders_of s e sd) + length (orders_of s e (own_side sd))"
  by (auto simp: resting_def)

lemma finish_cancel_eq:
  "finish_cancel e Arg st s = Some (let a = stamp s ((arg s)\<lparr>order_state := st\<rparr>)
     in record_event e a ((ticked s)\<lparr>arg := a\<rparr>))"
  by (simp add: finish_cancel_def callback_eq Let_def)

text \<open>An order that rests: it is in the queue of its side, and it is reported if nothing was filled.\<close>

definition rests :: "nat \<Rightarrow> order_side \<Rightarrow> sys \<Rightarrow> sys \<Rightarrow> bool" where
  "rests e sd s s' \<longleftrightarrow> orders_of s' e sd = orders_of s e sd
    \<and> orders_of s' e (own_side sd) = queue_in (side_cmp (own_side sd)) (arg s) (orders_of s e (own_side sd))
    \<and> (\<forall>j. slot s' e j = (if j = order_id (arg s) then Some (arg s) else slot s e j))
    \<and> stable e s s' \<and> strip (arg s') = strip (arg s) \<and> remain_quantity (arg s') = remain_quantity (arg s)
    \<and> order_state (arg s') = order_state (arg s) \<and> trade_of (arg s') = trade_of (arg s) \<and> ids s' = ids s
    \<and> log_of s' e = (if remain_quantity (arg s) = quantity (arg s) then log_of s e @ [arg s'] else log_of s e)"

lemma finish_rest_plain:
  assumes inv: "books_inv e s" and sd: "two_sided sd" and new: "slot s e (order_id (arg s)) = None"
    and o1: "wf_resting (own_side sd) (price (arg s)) (order_id (arg s)) (arg s)"
  shows "\<exists>s'. finish_rest e sd Arg s = Some s' \<and> books_inv e s' \<and> rests e sd s s'"
proof -
  obtain s1 where s1: "rest_order e sd Arg s = Some s1" "books_inv e s1" "orders_of s1 e sd = orders_of s e sd"
    "orders_of s1 e (own_side sd) = queue_in (side_cmp (own_side sd)) (arg s) (orders_of s e (own_side sd))"
    "\<forall>j. slot s1 e j = (if j = order_id (arg s) then Some (arg s) else slot s e j)"
    "stable e s s1" "arg s1 = arg s" "ids s1 = ids s" "log_of s1 e = log_of s e"
    using rest_order_plain [OF inv sd new o1] by blast
  show ?thesis
  proof (cases "remain_quantity (arg s) = quantity (arg s)")
    case True
    then show ?thesis
      using s1 by (simp add: finish_rest_def callback_eq rests_def trade_of_def)
  next
    case False
    then show ?thesis
      using s1 by (simp add: finish_rest_def rests_def)
  qed
qed

lemma length_queue_in: "length (queue_in (side_cmp sd) o1 os) \<le> Suc (length os)"
proof (induction os)
  case (Cons x os)
  have "entry_before (side_cmp sd) (place x) (place o1) \<Longrightarrow> \<not> entry_before (side_cmp sd) (place o1) (place x)"
    by (rule side.entry_before_asym)
  then show ?case
    using Cons by (auto simp: queue_in_def)
qed (simp add: queue_in_def)

text \<open>
  What a match on a plain engine keeps: the invariant, everything outside the books, and a bound on the
  ids it draws, which are at most two more than the orders it takes off the books.
\<close>

definition ran :: "nat \<Rightarrow> sys \<Rightarrow> sys \<Rightarrow> nat \<Rightarrow> bool" where
  "ran e s s' n \<longleftrightarrow> books_inv e s' \<and> stable e s s' \<and> order_id (arg s') = order_id (arg s)
     \<and> (\<forall>j. slot s' e j \<noteq> None \<longrightarrow> slot s e j \<noteq> None \<or> j = order_id (arg s))
     \<and> (\<exists>k. ids s' = ids s + of_nat k \<and> k + resting s' e \<le> resting s e + n)"

lemma ran_trans: "ran e s s' n \<Longrightarrow> ran e s' s'' n' \<Longrightarrow> ran e s s'' (n + n')"
proof -
  assume a: "ran e s s' n" "ran e s' s'' n'"
  then obtain k k' where "ids s' = ids s + of_nat k" "k + resting s' e \<le> resting s e + n"
    "ids s'' = ids s' + of_nat k'" "k' + resting s'' e \<le> resting s' e + n'"
    by (auto simp: ran_def)
  then have "ids s'' = ids s + of_nat (k + k') \<and> (k + k') + resting s'' e \<le> resting s e + (n + n')"
    by simp
  moreover have "stable e s s''"
    using a stable_trans [of e s s' s''] by (simp add: ran_def)
  moreover have "\<forall>j. slot s'' e j \<noteq> None \<longrightarrow> slot s e j \<noteq> None \<or> j = order_id (arg s)"
    using a unfolding ran_def by metis
  ultimately show ?thesis
    using a unfolding ran_def by metis
qed

lemma resting_frame [simp]:
  "resting (record_event e o1 s) e' = resting s e'" "resting (s\<lparr>ticks := n\<rparr>) e' = resting s e'"
  "resting (s\<lparr>arg := a\<rparr>) e' = resting s e'" "resting (s\<lparr>ids := i\<rparr>) e' = resting s e'"
  "resting (set_mat_local e sd it s) e' = resting s e'"
  by (simp_all add: resting_def)

lemma ran_arg:
  "books_inv e s \<Longrightarrow> order_id a = order_id (arg s) \<Longrightarrow> ran e s ((ticked s)\<lparr>arg := a\<rparr>) 0"
  "books_inv e s \<Longrightarrow> order_id a = order_id (arg s) \<Longrightarrow> ran e s (record_event e b ((ticked s)\<lparr>arg := a\<rparr>)) 0"
  "books_inv e s \<Longrightarrow> order_id a = order_id (arg s) \<Longrightarrow> ran e s (s\<lparr>arg := a\<rparr>) 0"
  by (auto simp: ran_def intro: exI [of _ 0])

lemma rests_ran:
  assumes "rests e sd s s'" "books_inv e s'" "two_sided sd"
  shows "ran e s s' 1"
proof -
  have "resting s' e \<le> resting s e + 1"
    using assms length_queue_in [of "own_side sd" "arg s" "orders_of s e (own_side sd)"]
    by (simp add: resting_sides [OF assms(3)] rests_def)
  moreover have "order_id (arg s') = order_id (arg s)"
    using assms(1) strip_eqD(1) [of "arg s'" "arg s"] by (simp add: rests_def)
  moreover have "slot s e j \<noteq> None \<or> j = order_id (arg s)" if "slot s' e j \<noteq> None" for j
    using assms(1) that by (simp add: rests_def split: if_splits)
  moreover have "stable e s s'" "ids s' = ids s + of_nat 0"
    using assms(1) by (simp_all add: rests_def)
  ultimately show ?thesis
    using assms(2) unfolding ran_def by (metis add_0)
qed

lemma top_of_own: "books_inv e s \<Longrightarrow> two_sided sd \<Longrightarrow> 
   \<exists>it. (if sd = BUY then best_bid e s else best_ask e s)
       = Some (top_of (orders_of s e (own_side sd)), set_mat_local e (own_side sd) it s)
     \<and> books_inv e (set_mat_local e (own_side sd) it s)"
  using best_price_plain by auto

lemma match_finish_plain:
  assumes inv: "books_inv e s" and sd: "two_sided sd" and new: "slot s e (order_id (arg s)) = None"
    and side: "side (arg s) = sd"
  shows "\<exists>s'. match_finish e sd Arg s = Some s' \<and> ran e s s' 1"
proof -
  have stop: "\<exists>s'. finish_cancel e Arg st s0 = Some s' \<and> ran e s0 s' 1" if "books_inv e s0" for st s0
    using that ran_trans [OF ran_arg(2) ran_arg(3)] by (auto simp: finish_cancel_eq Let_def ran_def intro!: exI [of _ 0])
  have rest: "\<exists>s'. finish_rest e sd Arg s0 = Some s' \<and> ran e s0 s' 1"
    if "books_inv e s0" "slot s0 e (order_id (arg s0)) = None" "price (arg s0) \<noteq> MARKET_PRICE"
      "remain_quantity (arg s0) \<noteq> 0" "side (arg s0) = sd" for s0
  proof -
    have "wf_resting (own_side sd) (price (arg s0)) (order_id (arg s0)) (arg s0)"
      using that sd by (simp add: wf_resting_def)
    then show ?thesis
      using finish_rest_plain [OF that(1) sd that(2)] rests_ran [OF _ _ sd] by blast
  qed
  show ?thesis
  proof (cases "remain_quantity (arg s) = 0 \<or> time_condition (arg s) = IOC \<or> time_condition (arg s) = AUCTION
      \<or> price (arg s) \<noteq> MARKET_PRICE")
    case True
    moreover have "ran e s s 1"
      using ran_arg(3) [OF inv, of "arg s"] by (auto simp: ran_def intro!: exI [of _ 0])
    ultimately show ?thesis
      using stop [OF inv] rest [OF inv new _ _ side] by (auto simp: match_finish_def)
  next
    case False
    obtain it where it: "(if sd = BUY then best_bid e s else best_ask e s)
       = Some (top_of (orders_of s e (own_side sd)), set_mat_local e (own_side sd) it s)"
      "books_inv e (set_mat_local e (own_side sd) it s)"
      using top_of_own [OF inv sd] by blast
    define s2 where "s2 = (set_mat_local e (own_side sd) it s)\<lparr>arg := (arg s)\<lparr>price := top_of (orders_of s e (own_side sd))\<rparr>\<rparr>"
    have inv2: "books_inv e s2"
      using it(2) by (simp add: s2_def)
    have run: "match_finish e sd Arg s =
       (if price (arg s2) = MARKET_PRICE then finish_cancel e Arg CANCELED_BY_MARKET_ORDER_NOTHING_MATCH s2
        else finish_rest e sd Arg s2)"
      using False it(1) by (simp add: match_finish_def s2_def)
    have "ran e s s2 0"
      using inv2 by (auto simp: ran_def s2_def intro!: exI [of _ 0])
    moreover have "\<exists>s'. match_finish e sd Arg s = Some s' \<and> ran e s2 s' 1"
      using stop [OF inv2] rest [OF inv2] False new side by (auto simp: run s2_def)
    ultimately show ?thesis
      using ran_trans by fastforce
  qed
qed

section \<open>Matching and triggering on a plain engine\<close>

lemma sweep_count: "sweep cmp lmt n qs = (fs, n', qs') \<Longrightarrow> length fs + length qs' \<le> length qs + 1"
proof (induction cmp lmt n qs arbitrary: fs rule: sweep.induct)
  case (2 cmp lmt n j p r qs)
  then show ?case
    by (auto split: if_splits prod.splits)
qed simp

lemma swept_ran:
  assumes inv: "books_inv e s" and sd: "two_sided sd" and sw: "swept cmp e sd s s'"
    and top: "it_e (mat_local s' e sd) = Some e" "it_side (mat_local s' e sd) = sd"
  shows "ran e s s' 1" "slot s e j = None \<Longrightarrow> slot s' e j = None" "side (arg s') = side (arg s)"
proof -
  obtain fs n qs where f: "sweep cmp (price (arg s)) (remain_quantity (arg s)) (map quote_of (orders_of s e sd)) = (fs, n, qs)"
    "map quote_of (orders_of s' e sd) = qs" "ids s' = ids s + of_nat (length fs)"
    and p: "progress e sd s s'" and wf: "wf_side s' e sd"
    using sw by (auto simp: swept_def split: prod.splits)
  note inv' = books_invD [OF inv sd]
  have "length (orders_of s' e sd) = length qs"
    using f(2) by (metis length_map)
  moreover have "orders_of s' e (own_side sd) = orders_of s e (own_side sd)"
    using p inv'(1,2) own_side_opposite by (rule wf_other)
  ultimately have "length fs + resting s' e \<le> resting s e + 1"
    using sweep_count [OF f(1)] by (simp add: resting_sides [OF sd])
  moreover have "books_inv e s'"
    using inv sd p wf top by (rule books_inv_progress)
  moreover have "slot s e j \<noteq> None" if "slot s' e j \<noteq> None" for j
    using that progressE(8) [OF p, of j] by metis
  ultimately show "ran e s s' 1"
    using f(3) progressE(1) [OF p] progressD(3) [OF p] unfolding ran_def by metis
  show "slot s e j = None \<Longrightarrow> slot s' e j = None"
    by (rule progressE(8) [OF p])
  show "side (arg s') = side (arg s)"
    using progressD [OF p] by simp
qed

lemma match_loop_plain:
  assumes inv: "books_inv e s" and sd: "two_sided sd" and top: "at_top s e sd (mat_local s e sd)"
  shows "\<exists>ret s'. match_loop cmp e sd Arg tick s = Some (ret, s') \<and> ran e s s' 1
    \<and> (\<forall>j. slot s e j = None \<longrightarrow> slot s' e j = None) \<and> side (arg s') = side (arg s)"
proof (cases "time_condition (arg s) = MAKER_ONLY \<or> time_condition (arg s) = MAKER_ONLY_REPRICE")
  case False
  then obtain s' where s': "match_loop cmp e sd Arg tick s = Some (False, s')" "swept cmp e sd s s'"
    "at_top s' e sd (mat_local s' e sd)"
    using match_loop_sweeps [OF books_invD(1,2) [OF inv sd] top] books_invD(3) [OF inv sd] by blast
  then show ?thesis
    using swept_ran [OF inv sd s'(2)] by (auto simp: at_top_def)
next
  case True
  note inv' = books_invD [OF inv sd]
  have r0: "ran e s s 1"
    using ran_arg(3) [OF inv, of "arg s"] by (auto simp: ran_def intro!: exI [of _ 0])
  have ra: "ran e s (s\<lparr>arg := a\<rparr>) 1" "ran e s (record_event e a ((ticked s)\<lparr>arg := a\<rparr>)) 1"
    if "order_id a = order_id (arg s)" for a
    using inv that by (auto simp: ran_def intro!: exI [of _ 0])
  have "match_loop cmp e sd Arg tick s = Some (False, s)
    \<or> (\<exists>px. match_loop cmp e sd Arg tick s = Some (False, s\<lparr>arg := (arg s)\<lparr>price := px\<rparr>\<rparr>))
    \<or> (\<exists>a. match_loop cmp e sd Arg tick s = Some (True, record_event e a ((ticked s)\<lparr>arg := a\<rparr>))
         \<and> order_id a = order_id (arg s) \<and> side a = side (arg s))"
    using True matcher_top_local [OF inv'(1,2) top inv'(3), of cmp]
    by (subst (1 2 3) match_loop.simps) (auto simp: callback_eq split: list.splits)
  then show ?thesis
    using r0 ra by auto
qed

lemma normal_match_plain:
  assumes inv: "books_inv e s" and sd: "two_sided sd" and new: "slot s e (order_id (arg s)) = None"
    and side: "side (arg s) = sd"
  shows "\<exists>s'. normal_match cmp e sd Arg tick s = Some s' \<and> ran e s s' 2"
proof -
  obtain it where it: "matcher_reset e sd s = Some (set_mat_local e sd it s)" "at_top s e sd it"
    "books_inv e (set_mat_local e sd it s)"
    using matcher_reset_plain [OF inv sd] by blast
  let ?s = "set_mat_local e sd it s"
  have r0: "ran e s ?s 0"
    using it(3) by (auto simp: ran_def intro!: exI [of _ 0])
  obtain ret s1 where s1: "match_loop cmp e sd Arg tick ?s = Some (ret, s1)" "ran e ?s s1 1"
    "\<forall>j. slot ?s e j = None \<longrightarrow> slot s1 e j = None" "side (arg s1) = side (arg ?s)"
    using match_loop_plain [OF it(3) sd, of cmp tick] it(2) by fastforce
  have r1: "ran e s s1 1"
    using ran_trans [OF r0 s1(2)] by simp
  show ?thesis
  proof (cases ret)
    case True
    then show ?thesis
      using it(1) s1(1) r1 by (auto simp: normal_match_def ran_def)
  next
    case False
    have "books_inv e s1" "slot s1 e (order_id (arg s1)) = None" "side (arg s1) = sd"
      using r1 s1(3,4) new side by (simp_all add: ran_def)
    then obtain s' where "match_finish e sd Arg s1 = Some s'" "ran e s1 s' 1"
      using match_finish_plain sd by blast
    then show ?thesis
      using it(1) s1(1) False ran_trans [OF r1, of s' 1] by (simp add: normal_match_def numeral_2_eq_2)
  qed
qed

lemma progress_set_mat_local_left [simp]:
  "progress e sd (set_mat_local e sd it s) s' = progress e sd s s'"
  by (auto simp: progress_def stable_def eng_const_def set_mat_local_def slot_def mat_local_def walked_def)

lemma swept_set_mat_local [simp]: "swept cmp e sd (set_mat_local e sd it s) s' = swept cmp e sd s s'"
  by (simp add: swept_def)

lemma fok_match_cases:
  assumes inv: "books_inv e s" and sd: "two_sided sd"
    and sw: "sweep cmp (price (arg s)) (remain_quantity (arg s)) (map quote_of (orders_of s e sd)) = (fs, n, qs)"
  shows "\<exists>it. it_e it = Some e \<and> it_side it = sd \<and>
    (if n = 0 then \<exists>s'. fok_match cmp e sd Arg s = Some s' \<and> swept cmp e sd s s' \<and> mat_local s' e sd = it
     else fok_match cmp e sd Arg s = finish_cancel e Arg CANCELED_BY_FOK (set_mat_local e sd it s))"
proof -
  obtain it where it: "matcher_reset e sd s = Some (set_mat_local e sd it s)" "at_top s e sd it"
    "books_inv e (set_mat_local e sd it s)"
    using matcher_reset_plain [OF inv sd] by blast
  note inv' = books_invD [OF inv sd]
  obtain rs it' where c: "fok_collect cmp e sd (price (arg s)) (remain_quantity (arg s)) [] (set_mat_local e sd it s)
     = Some (n, rs, set_mat_local e sd it' s)" "list_all2 (rec_ok e sd) fs rs" "it_e it' = Some e" "it_side it' = sd"
    using fok_collect_sweeps [of s e sd 0 it cmp "price (arg s)" "remain_quantity (arg s)" fs n qs "[]"]
      inv' it(2) sw by (auto simp: at_index_0)
  have run: "fok_match cmp e sd Arg s = (if n \<noteq> 0 then finish_cancel e Arg CANCELED_BY_FOK (set_mat_local e sd it' s)
      else fok_execute e Arg rs (set_mat_local e sd it' s))"
    using it(1) c(1) by (simp add: fok_match_def)
  obtain s' where "fok_execute e Arg rs (set_mat_local e sd it' s) = Some s'" "swept cmp e sd s s'"
    "mat_local s' e = mat_local (set_mat_local e sd it' s) e"
    using fok_execute_sweeps [of "set_mat_local e sd it' s" e sd cmp fs n qs rs] inv'(1,2) sw c(2) by auto
  then show ?thesis
    using run c(3,4) by auto
qed

lemma fok_match_plain:
  assumes inv: "books_inv e s" and sd: "two_sided sd"
  shows "\<exists>s'. fok_match cmp e sd Arg s = Some s' \<and> ran e s s' 2"
proof -
  obtain fs n qs where sw: "sweep cmp (price (arg s)) (remain_quantity (arg s)) (map quote_of (orders_of s e sd)) = (fs, n, qs)"
    using prod_cases3 by blast
  obtain it where it: "it_e it = Some e" "it_side it = sd"
    and c: "if n = 0 then \<exists>s'. fok_match cmp e sd Arg s = Some s' \<and> swept cmp e sd s s' \<and> mat_local s' e sd = it
     else fok_match cmp e sd Arg s = finish_cancel e Arg CANCELED_BY_FOK (set_mat_local e sd it s)"
    using fok_match_cases [OF inv sd sw] by blast
  show ?thesis
  proof (cases "n = 0")
    case True
    then obtain s' where s': "fok_match cmp e sd Arg s = Some s'" "swept cmp e sd s s'" "mat_local s' e sd = it"
      using c by auto
    then have "ran e s s' 1"
      using swept_ran(1) [OF inv sd s'(2)] it by simp
    then show ?thesis
      using s'(1) by (auto simp: ran_def)
  next
    case False
    have inv1: "books_inv e (set_mat_local e sd it s)"
      using inv sd it by (rule books_inv_set_mat_local)
    show ?thesis
      using False c inv1 by (auto simp: finish_cancel_eq Let_def ran_def intro!: exI [of _ 0])
  qed
qed

lemma match_side_plain:
  assumes "books_inv e s" "two_sided sd" "slot s e (order_id (arg s)) = None" "side (arg s) = sd"
  shows "\<exists>s'. match_side e sd s = Some s' \<and> ran e s s' 2"
  using assms fok_match_plain normal_match_plain
  by (auto simp: match_side_def match_asks_def match_bids_def)

text \<open>With no stop order resting the triggers only look at the best prices.\<close>

lemma trigger_sides:
  assumes inv: "sides_inv e s"
  shows "\<exists>it. trigger_sell_stop e s = Some (set_mat_local e SELL it s) \<and> it_e it = Some e \<and> it_side it = SELL"
    and "\<exists>it. trigger_buy_stop e s = Some (set_mat_local e BUY it s) \<and> it_e it = Some e \<and> it_side it = BUY"
proof -
  have same: "upd_eng e (\<lambda>x. x\<lparr>ask_stop_book := []\<rparr>) s0 = s0" "upd_eng e (\<lambda>x. x\<lparr>bid_stop_book := []\<rparr>) s0 = s0"
    if "sides_inv e s0" for s0
  proof -
    have "(engs s0 e)\<lparr>ask_stop_book := []\<rparr> = engs s0 e" "(engs s0 e)\<lparr>bid_stop_book := []\<rparr> = engs s0 e"
      using sides_invD(5,6) [OF that, of BUY] by (auto intro: engine.equality)
    then show "upd_eng e (\<lambda>x. x\<lparr>ask_stop_book := []\<rparr>) s0 = s0" "upd_eng e (\<lambda>x. x\<lparr>bid_stop_book := []\<rparr>) s0 = s0"
      by simp_all
  qed
  have keep: "sides_inv e (set_mat_local e sd it s)" if "two_sided sd" "it_e it = Some e" "it_side it = sd" for sd it
    using inv that by (rule sides_inv_set_mat_local)
  obtain it where it: "best_bid e s = Some (top_of (orders_of s e SELL), set_mat_local e SELL it s)"
    "it_e it = Some e" "it_side it = SELL"
    using best_price_sides(1) [OF inv] by blast
  then show "\<exists>it. trigger_sell_stop e s = Some (set_mat_local e SELL it s) \<and> it_e it = Some e \<and> it_side it = SELL"
    using same(1) [OF keep [OF _ it(2,3)]] sides_invD(6) [OF keep [OF _ it(2,3)], of BUY]
    by (subst trigger_sell_stop.simps) auto
  obtain it where it: "best_ask e s = Some (top_of (orders_of s e BUY), set_mat_local e BUY it s)"
    "it_e it = Some e" "it_side it = BUY"
    using best_price_sides(2) [OF inv] by blast
  then show "\<exists>it. trigger_buy_stop e s = Some (set_mat_local e BUY it s) \<and> it_e it = Some e \<and> it_side it = BUY"
    using same(2) [OF keep [OF _ it(2,3)]] sides_invD(5) [OF keep [OF _ it(2,3)], of BUY]
    by (subst trigger_buy_stop.simps) auto
qed

lemma trigger_plain:
  assumes inv: "books_inv e s"
  shows "\<exists>it. trigger_sell_stop e s = Some (set_mat_local e SELL it s) \<and> books_inv e (set_mat_local e SELL it s)"
    and "\<exists>it. trigger_buy_stop e s = Some (set_mat_local e BUY it s) \<and> books_inv e (set_mat_local e BUY it s)"
  using trigger_sides [OF books_inv_sides [OF inv]] books_inv_set_mat_local [OF inv] by blast+

lemma trigger_stops_plain:
  assumes inv: "books_inv e s"
  shows "\<exists>it1 it2. (trigger_stops e s = Some s \<or> trigger_stops e s = Some (set_mat_local e BUY it2 (set_mat_local e SELL it1 s))
      \<and> books_inv e (set_mat_local e BUY it2 (set_mat_local e SELL it1 s)))"
proof -
  obtain it1 where it1: "trigger_sell_stop e s = Some (set_mat_local e SELL it1 s)" "books_inv e (set_mat_local e SELL it1 s)"
    using trigger_plain(1) [OF inv] by blast
  obtain it2 where it2: "trigger_buy_stop e (set_mat_local e SELL it1 s) = Some (set_mat_local e BUY it2 (set_mat_local e SELL it1 s))"
     "books_inv e (set_mat_local e BUY it2 (set_mat_local e SELL it1 s))"
    using trigger_plain(2) [OF it1(2)] by blast
  show ?thesis
    using it1 it2 by (auto simp: trigger_stops_def)
qed

lemma ran_locals:
  "books_inv e s' \<Longrightarrow> s' = set_mat_local e BUY it2 (set_mat_local e SELL it1 s) \<Longrightarrow> ran e s s' 0"
  by (auto simp: ran_def intro!: exI [of _ 0])

section \<open>New orders\<close>

definition new_side :: "nat \<Rightarrow> order_side \<Rightarrow> sys \<Rightarrow> sys option" where
  "new_side e sd s = (if sd = BUY then new_buy e s else new_sell e s)"

lemma reject_plain: "books_inv e s \<Longrightarrow> \<exists>s'. reject e st s = Some s' \<and> ran e s s' 0"
  by (auto simp: reject_def upd_arg_def callback_eq ran_def intro!: exI [of _ 0])

lemma new_side_eq:
  "new_side e sd s = (let s1 = init_new_order s
      in if order_kind (arg s1) \<noteq> MARKET \<and> price (arg s1) = MARKET_PRICE
         then reject e REJECT_LIMITE_ORDER_WITH_MARKET_PRICE s1
         else match_side e sd s1 \<bind> trigger_stops e)"
  by (simp add: new_side_def new_buy_def new_sell_def match_side_def Let_def)

lemma match_trigger_plain:
  assumes "books_inv e s" "two_sided sd" "slot s e (order_id (arg s)) = None" "side (arg s) = sd"
  shows "\<exists>s'. match_side e sd s \<bind> trigger_stops e = Some s' \<and> ran e s s' 2"
proof -
  obtain s1 where s1: "match_side e sd s = Some s1" "ran e s s1 2"
    using match_side_plain [OF assms] by blast
  have inv1: "books_inv e s1"
    using s1(2) by (simp add: ran_def)
  obtain it1 it2 where "trigger_stops e s1 = Some s1 \<or>
      trigger_stops e s1 = Some (set_mat_local e BUY it2 (set_mat_local e SELL it1 s1))
      \<and> books_inv e (set_mat_local e BUY it2 (set_mat_local e SELL it1 s1))"
    using trigger_stops_plain [OF inv1] by blast
  then obtain s' where s': "trigger_stops e s1 = Some s'" "ran e s1 s' 0"
    using ran_locals ran_arg(3) [OF inv1, of "arg s1"] by auto
  then show ?thesis
    using s1(1) ran_trans [OF s1(2) s'(2)] by simp
qed

end
