(* ===== verification/Plain_Handling.thy ===== *)
theory Plain_Handling
  imports Plain_Orders
begin

text \<open>
  \<open>handle\<close> on buy and sell orders: cancelling, amending, the ids that keep orders apart, and the
  invariant over any sequence of calls.
\<close>

section \<open>Changing an order in place\<close>

lemma put_slot_inv:
  assumes inv: "books_inv e s" and m: "slot s e oid = Some m"
    and m': "order_id m' = order_id m" "price m' = price m" "side m' = side m" "remain_quantity m' \<noteq> 0"
  shows "books_inv e (put_slot e oid m' s)"
    "two_sided sd \<Longrightarrow> orders_of (put_slot e oid m' s) e sd
       = map (\<lambda>x. if order_id x = oid then m' else x) (orders_of s e sd)"
proof -
  let ?s = "put_slot e oid m' s"
  have side: "wf_side ?s e sd \<and> orders_of ?s e sd = map (\<lambda>x. if order_id x = oid then m' else x) (orders_of s e sd)"
    if sd: "two_sided sd" for sd
  proof
    have wf: "wf_side s e sd"
      using books_invD(1) [OF inv sd] .
    show "wf_side ?s e sd"
      unfolding wf_side_def
    proof (intro conjI ballI)
      show "wf_book (side_cmp sd) (walked (engs ?s e) sd)"
        using wf by (simp add: wf_side_def)
      fix en assume "en \<in> set (entries (walked (engs ?s e) sd))"
      then have "case slot s e (snd en) of None \<Rightarrow> False | Some x \<Rightarrow> wf_resting sd (fst en) (snd en) x"
        using wf by (simp add: wf_side_def)
      then show "case slot ?s e (snd en) of None \<Rightarrow> False | Some x \<Rightarrow> wf_resting sd (fst en) (snd en) x"
        using m m' by (auto simp: wf_resting_def split: option.splits)
    qed
    have "map (\<lambda>oid'. the (slot ?s e oid')) (map order_id (orders_of s e sd))
        = map (\<lambda>x. if order_id x = oid then m' else x) (orders_of s e sd)"
      using orders_of_slot(1) [OF wf] by simp
    then show "orders_of ?s e sd = map (\<lambda>x. if order_id x = oid then m' else x) (orders_of s e sd)"
      unfolding orders_of_def [of ?s] walked_frame book_ids_orders [OF wf] .
  qed
  then show "two_sided sd \<Longrightarrow> orders_of ?s e sd = map (\<lambda>x. if order_id x = oid then m' else x) (orders_of s e sd)"
    by blast
  show "books_inv e ?s"
  proof (rule books_invI [of BUY])
    show "wf_side ?s e BUY" "wf_side ?s e (own_side BUY)"
      using side by simp_all
    show "mat_impliers ?s e sd = []" for sd
      using books_invD(3) [OF inv, of BUY sd] by (cases "sd = BUY") (simp_all add: mat_impliers_def)
    show "j \<in> set (book_ids (walked (engs ?s e) BUY)) \<or> j \<in> set (book_ids (walked (engs ?s e) (own_side BUY)))"
      if "slot ?s e j = Some x" for j x
      using that m books_invD(6) [OF inv, of BUY j] by (simp split: if_splits)
    show "distinct (map fst (odr_map (engs ?s e)))"
      using books_invD(7) [OF inv, of BUY] by (simp add: odr_map_put_slot distinct_update)
  qed (use books_invD [OF inv, of BUY] books_invD [OF inv, of SELL] in simp_all)
qed

lemma slot_two_sided:
  assumes "books_inv e s" "slot s e oid = Some m"
  obtains sd where "two_sided sd" "side m = own_side sd" "m \<in> set (orders_of s e sd)" "order_id m = oid"
proof -
  obtain sd where sd: "two_sided sd" "oid \<in> set (book_ids (walked (engs s e) sd))"
    using books_invD(6) [OF assms(1) _ assms(2), of BUY] by auto
  then have wf: "wf_side s e sd"
    using books_invD(1) [OF assms(1)] by blast
  then obtain x where "x \<in> set (orders_of s e sd)" "order_id x = oid"
    using sd(2) book_ids_orders by auto
  then show ?thesis
    using that [OF sd(1)] orders_of_slot(1,2) [OF wf, of x] assms(2) by (auto simp: wf_resting_def)
qed

lemma slot_remain: "books_inv e s \<Longrightarrow> slot s e oid = Some m \<Longrightarrow> remain_quantity m \<noteq> 0"
proof -
  assume a: "books_inv e s" "slot s e oid = Some m"
  then obtain sd where sd: "two_sided sd" "m \<in> set (orders_of s e sd)"
    by (rule slot_two_sided)
  then show ?thesis
    using orders_of_slot(2) [OF books_invD(1) [OF a(1) sd(1)]] by (simp add: wf_resting_def)
qed

section \<open>Cancelling\<close>

lemma side_removed:
  assumes wf: "wf_side s e sd" and m: "m \<in> set (orders_of s e sd)"
    and bk: "wf_book (side_cmp sd) (walked (engs s' e) sd)"
      "entries (walked (engs s' e) sd) = filter (\<lambda>en. en \<noteq> place m) (entries (walked (engs s e) sd))"
    and sl: "\<And>j. j \<noteq> order_id m \<Longrightarrow> slot s' e j = slot s e j"
  shows "wf_side s' e sd" "orders_of s' e sd = filter (\<lambda>x. order_id x \<noteq> order_id m) (orders_of s e sd)"
proof -
  have uniq: "place x = place m \<longleftrightarrow> order_id x = order_id m" if "x \<in> set (orders_of s e sd)" for x
  proof
    assume "place x = place m"
    then show "order_id x = order_id m"
      by (simp add: place_def)
  next
    assume eq: "order_id x = order_id m"
    have "Some x = Some m"
      unfolding orders_of_slot(1) [OF wf that, symmetric] orders_of_slot(1) [OF wf m, symmetric] eq ..
    then show "place x = place m" by simp
  qed
  have ent: "entries (walked (engs s e) sd) = map place (orders_of s e sd)"
    using orders_of_entries [OF wf] by (simp add: place_def [abs_def])
  have "filter (\<lambda>x. place x \<noteq> place m) (orders_of s e sd) = filter (\<lambda>x. order_id x \<noteq> order_id m) (orders_of s e sd)"
    by (rule filter_cong) (simp_all add: uniq)
  then have left: "entries (walked (engs s' e) sd) = map place (filter (\<lambda>x. order_id x \<noteq> order_id m) (orders_of s e sd))"
    by (simp add: bk(2) ent filter_map comp_def)
  have "slot s' e (order_id x) = Some x" if "x \<in> set (orders_of s e sd)" "order_id x \<noteq> order_id m" for x
    using sl [OF that(2)] orders_of_slot(1) [OF wf that(1)] by simp
  then show "orders_of s' e sd = filter (\<lambda>x. order_id x \<noteq> order_id m) (orders_of s e sd)"
    unfolding orders_of_def [of s'] book_ids_def left by (simp add: comp_def place_def) (rule map_idI, simp)
  show "wf_side s' e sd"
    unfolding wf_side_def
  proof (intro conjI ballI bk(1))
    fix en assume "en \<in> set (entries (walked (engs s' e) sd))"
    then obtain x where x: "x \<in> set (orders_of s e sd)" "order_id x \<noteq> order_id m" "en = place x"
      by (auto simp: left)
    then show "case slot s' e (snd en) of None \<Rightarrow> False | Some y \<Rightarrow> wf_resting sd (fst en) (snd en) y"
      using sl [OF x(2)] orders_of_slot(1,2) [OF wf x(1)] by (simp add: place_def)
  qed
qed

text \<open>Taking one order off its book and out of the map.\<close>

definition taken :: "nat \<Rightarrow> u64 \<Rightarrow> sys \<Rightarrow> sys \<Rightarrow> bool" where
  "taken e oid s s' \<longleftrightarrow>
     (\<forall>sd. two_sided sd \<longrightarrow> orders_of s' e sd = filter (\<lambda>x. order_id x \<noteq> oid) (orders_of s e sd))
     \<and> (\<forall>j. slot s' e j = (if j = oid then None else slot s e j))
     \<and> stable e s s' \<and> arg s' = arg s \<and> ids s' = ids s \<and> log_of s' e = log_of s e"

lemma takenD: "taken e oid s s' \<Longrightarrow> two_sided sd \<Longrightarrow>
    orders_of s' e sd = filter (\<lambda>x. order_id x \<noteq> oid) (orders_of s e sd)"
  by (auto simp: taken_def)

lemma taken_set_mat_local [simp]: "taken e oid s (set_mat_local e sd it s') = taken e oid s s'"
  by (simp add: taken_def)

lemma remove_state:
  assumes inv: "books_inv e s" and sd: "two_sided sd" and m: "m \<in> set (orders_of s e sd)"
    and bk: "wf_book (side_cmp sd) bk" "entries bk = filter (\<lambda>en. en \<noteq> place m) (entries (walked (engs s e) sd))"
  defines "s1 \<equiv> upd_eng e (\<lambda>x. (set_walked sd bk x)\<lparr>odr_map := AList.delete (order_id m) (odr_map x)\<rparr>) s"
  shows "books_inv e s1" "taken e (order_id m) s s1"
proof -
  note inv' = books_invD [OF inv sd] and own = own_side_opposite [of sd]
  have w: "walked (engs s1 e) sd = bk" "walked (engs s1 e) (own_side sd) = walked (engs s e) (own_side sd)"
    using own sd by (auto simp: s1_def walked_def set_walked_def own_side_def split: if_splits)
  have sl: "slot s1 e j = (if j = order_id m then None else slot s e j)" for j
    by (simp add: slot_def s1_def)
  note gone = side_removed [OF inv'(1) m, of s1, unfolded w, OF bk]
  have wf1: "wf_side s1 e sd" "orders_of s1 e sd = filter (\<lambda>x. order_id x \<noteq> order_id m) (orders_of s e sd)"
    using gone sl by simp_all
  have notin: "order_id m \<notin> set (book_ids (walked (engs s e) (own_side sd)))"
    using inv'(1,2) own m by (rule sides_disjoint)
  have keep: "slot s1 e i = slot s e i" if "i \<in> set (book_ids (walked (engs s e) (own_side sd)))" for i
    using that notin by (auto simp: sl)
  have wf2: "wf_side s1 e (own_side sd)" "orders_of s1 e (own_side sd) = orders_of s e (own_side sd)"
    using side_cong [OF w(2) keep] inv'(2) by simp_all
  have notin': "\<forall>x \<in> set (orders_of s e (own_side sd)). order_id x \<noteq> order_id m"
    using notin unfolding book_ids_orders [OF inv'(2)] by (metis imageI list.set_map)
  have stab: "stable e s s1"
    by (simp add: s1_def stable_def eng_const_def set_walked_def)
  have ml: "mat_local s1 e = mat_local s e"
    by (simp add: s1_def mat_local_def fun_eq_iff)
  show "books_inv e s1"
  proof (rule books_invI [OF sd wf1(1) wf2(1)])
    show "mat_impliers s1 e sd' = []" for sd'
      using stableD(1) [OF stab] inv'(3) by simp
    show "j \<in> set (book_ids (walked (engs s1 e) sd)) \<or> j \<in> set (book_ids (walked (engs s1 e) (own_side sd)))"
      if j: "slot s1 e j = Some x" for j x
      using j inv'(6) [of j x] w(2) book_ids_orders [OF wf1(1)] book_ids_orders [OF inv'(1)] wf1(2)
      by (auto simp: sl split: if_splits)
    show "distinct (map fst (odr_map (engs s1 e)))"
      using inv'(7) by (simp add: s1_def distinct_delete)
  qed (use ml stableD(5,6) [OF stab] inv' books_invD [OF inv two_sided_own] in simp_all)
  have "log_of s1 e = log_of s e" "arg s1 = arg s" "ids s1 = ids s"
    by (simp_all add: s1_def log_of_def)
  moreover have "orders_of s1 e (own_side sd) = filter (\<lambda>x. order_id x \<noteq> order_id m) (orders_of s e (own_side sd))"
    using wf2(2) notin' by (simp add: filter_id_conv)
  ultimately show "taken e (order_id m) s s1"
    using sd wf1(2) sl stab by (auto simp: taken_def)
qed

text \<open>\<open>handle_cancel\<close> of an order that is there: reported, off its book, out of the map.\<close>

definition cancel_state :: "order_action_type \<Rightarrow> order \<Rightarrow> order" where
  "cancel_state act m = (if act = CANCEL then m\<lparr>order_state := CANCELED_BY_USER\<rparr>
     else if act = AMEND then m\<lparr>order_state := CANCELED_BY_AMEND\<rparr> else m)"

lemma cancel_state_simps [simp]:
  "order_id (cancel_state act m) = order_id m" "price (cancel_state act m) = price m"
  "side (cancel_state act m) = side m" "remain_quantity (cancel_state act m) = remain_quantity m"
  by (simp_all add: cancel_state_def)

lemma mark_cancelled_plain:
  assumes inv: "books_inv e s" and m: "slot s e oid = Some m" and act: "order_action (arg s) \<in> {CANCEL, AMEND}"
  defines "m' \<equiv> stamp s (cancel_state (order_action (arg s)) m)"
  shows "\<exists>s'. mark_cancelled e oid m s = Some s' \<and> s' = record_event e m' (ticked (put_slot e oid m' s))"
proof -
  have "stamp (put_slot e oid x s) = stamp s" for x
    by simp
  then show ?thesis
    using act m by (auto simp: mark_cancelled_def callback_eq m'_def cancel_state_def)
qed

lemma cancel_from_books_plain:
  assumes inv: "books_inv e s" and sd: "two_sided sd" and m: "m \<in> set (orders_of s e sd)"
  shows "\<exists>s1. cancel_from_books e m s = Some s1 \<and>
    books_inv e (upd_eng e (\<lambda>x. x\<lparr>odr_map := AList.delete (order_id m) (odr_map x)\<rparr>) s1) \<and>
    taken e (order_id m) s (upd_eng e (\<lambda>x. x\<lparr>odr_map := AList.delete (order_id m) (odr_map x)\<rparr>) s1)"
proof -
  note inv' = books_invD [OF inv sd]
  obtain bk where bk: "erase_from_book (price m) (order_id m) (walked (engs s e) sd) = Some bk"
    "wf_book (side_cmp sd) bk" "entries bk = filter (\<lambda>en. en \<noteq> place m) (entries (walked (engs s e) sd))"
    using side.entries_erase [of sd "walked (engs s e) sd" "price m" "order_id m"] inv'(1)
      orders_of_slot(3) [OF inv'(1) m] by (auto simp: wf_side_def place_def)
  define s0 where "s0 = upd_eng e (set_walked sd bk) s"
  define del where "del = (\<lambda>s1. upd_eng e (\<lambda>x. x\<lparr>odr_map := AList.delete (order_id m) (odr_map x)\<rparr>) s1)"
  have "del s0 = upd_eng e (\<lambda>x. (set_walked sd bk x)\<lparr>odr_map := AList.delete (order_id m) (odr_map x)\<rparr>) s"
    by (simp add: del_def s0_def)
  then have gone: "books_inv e (del s0)" "taken e (order_id m) s (del s0)"
    using remove_state [OF inv sd m bk(2,3)] by simp_all
  have sides0: "sides_inv e s0"
  proof -
    have slots: "slot s0 e j = slot (del s0) e j" if "j \<noteq> order_id m" for j
      using that by (simp add: slot_def del_def)
    have w: "walked (engs s0 e) sd' = walked (engs (del s0) e) sd'" for sd'
      by (simp add: del_def walked_def)
    have "wf_side s0 e sd'" if "two_sided sd'" for sd'
    proof -
      have wf: "wf_side (del s0) e sd'"
        using books_invD(1) [OF gone(1) that] .
      have "slot (del s0) e (order_id m) = None"
        by (simp add: slot_def del_def)
      then have "order_id m \<notin> set (book_ids (walked (engs (del s0) e) sd'))"
        using orders_of_slot(1) [OF wf] by (auto simp: book_ids_orders [OF wf])
      then show ?thesis
        using side_cong(1) [OF w, of sd'] slots wf by metis
    qed
    then show ?thesis
      using books_inv_sides [OF gone(1)] by (simp add: sides_inv_def del_def mat_local_def)
  qed
  have side: "side m = own_side sd"
    using orders_of_slot(2) [OF inv'(1) m] by (simp add: wf_resting_def)
  have "\<exists>s1. cancel_from_books e m s = Some s1 \<and>
    (s1 = s0 \<or> (\<exists>it. s1 = set_mat_local e sd it s0 \<and> it_e it = Some e \<and> it_side it = sd))"
    using sd
  proof
    assume BUY: "sd = BUY"
    have "s\<lparr>engs := (engs s)(e := (engs s e)\<lparr>ask_book := bk\<rparr>)\<rparr> = s0"
      by (simp add: s0_def set_walked_def BUY)
    then show ?thesis
      using bk(1) side trigger_sides(2) [OF sides0]
      by (auto simp: BUY cancel_from_books_def cancel_ask_def walked_def)
  next
    assume SELL: "sd = SELL"
    have "s\<lparr>engs := (engs s)(e := (engs s e)\<lparr>bid_book := bk\<rparr>)\<rparr> = s0"
      by (simp add: s0_def set_walked_def SELL)
    then show ?thesis
      using bk(1) side trigger_sides(1) [OF sides0]
      by (auto simp: SELL cancel_from_books_def cancel_bid_def walked_def)
  qed
  then obtain s1 where s1: "cancel_from_books e m s = Some s1"
    "s1 = s0 \<or> (\<exists>it. s1 = set_mat_local e sd it s0 \<and> it_e it = Some e \<and> it_side it = sd)"
    by blast
  have comm: "del (set_mat_local e sd it s0) = set_mat_local e sd it (del s0)" for it
    by (auto simp: del_def set_mat_local_def fun_eq_iff intro!: sys.equality engine.equality)
  have "books_inv e (del s1) \<and> taken e (order_id m) s (del s1)"
    using s1(2)
  proof
    assume "\<exists>it. s1 = set_mat_local e sd it s0 \<and> it_e it = Some e \<and> it_side it = sd"
    then obtain it where "del s1 = set_mat_local e sd it (del s0)" "it_e it = Some e" "it_side it = sd"
      using comm by auto
    then show ?thesis
      using gone books_inv_set_mat_local [OF gone(1) sd, of it] by simp
  qed (use gone in simp)
  then show ?thesis
    using s1(1) by (auto simp: del_def)
qed

lemma handle_cancel_plain:
  assumes inv: "books_inv e s" and m: "slot s e (order_id (arg s)) = Some m"
    and act: "order_action (arg s) \<in> {CANCEL, AMEND}"
  shows "\<exists>s'. handle_cancel e s = Some (True, s') \<and> books_inv e s'
    \<and> (\<forall>sd. two_sided sd \<longrightarrow> orders_of s' e sd = filter (\<lambda>x. order_id x \<noteq> order_id (arg s)) (orders_of s e sd))
    \<and> (\<forall>j. slot s' e j = (if j = order_id (arg s) then None else slot s e j))
    \<and> stable e s s' \<and> arg s' = arg s \<and> ids s' = ids s
    \<and> log_of s' e = log_of s e @ [stamp s (cancel_state (order_action (arg s)) m)]"
proof -
  define oid where "oid = order_id (arg s)"
  define m' where "m' = stamp s (cancel_state (order_action (arg s)) m)"
  define s1 where "s1 = record_event e m' (ticked (put_slot e oid m' s))"
  note m = m [folded oid_def]
  have mark: "mark_cancelled e oid m s = Some s1"
    using mark_cancelled_plain [OF inv m act] by (simp add: m'_def s1_def)
  obtain sd where sd: "two_sided sd" and os: "m \<in> set (orders_of s e sd)" and id: "order_id m = oid"
    using inv m by (rule slot_two_sided)
  have rem: "remain_quantity m \<noteq> 0"
    using inv m by (rule slot_remain)
  have inv1: "books_inv e s1" and os1: "two_sided sd' \<Longrightarrow> orders_of s1 e sd' = map (\<lambda>x. if order_id x = oid then m' else x) (orders_of s e sd')" for sd'
    using put_slot_inv [OF inv m, of m'] rem by (simp_all add: m'_def s1_def)
  have in1: "m' \<in> set (orders_of s1 e sd)" "order_id m' = oid"
    using os id sd by (force simp: os1) (simp add: m'_def id)
  define s2 where "s2 = (\<lambda>s1. upd_eng e (\<lambda>x. x\<lparr>odr_map := AList.delete oid (odr_map x)\<rparr>) s1)"
  obtain s3 where s3: "cancel_from_books e m' s1 = Some s3" "books_inv e (s2 s3)" "taken e oid s1 (s2 s3)"
    using cancel_from_books_plain [OF inv1 sd in1(1)] in1(2) by (auto simp: s2_def)
  have sl1: "slot s1 e j = (if j = oid then Some m' else slot s e j)" for j
    by (simp add: s1_def)
  have "handle_cancel e s = Some (True, s2 s3)"
    using m mark sl1 s3(1) by (simp add: handle_cancel_def oid_def [symmetric] s2_def)
  moreover have "orders_of (s2 s3) e sd' = filter (\<lambda>x. order_id x \<noteq> oid) (orders_of s e sd')" if "two_sided sd'" for sd'
  proof -
    have "filter (\<lambda>x. order_id x \<noteq> oid) (map (\<lambda>x. if order_id x = oid then m' else x) xs)
        = filter (\<lambda>x. order_id x \<noteq> oid) xs" for xs
      using in1(2) by (induction xs) auto
    then show ?thesis
      using takenD [OF s3(3) that] os1 [OF that] by simp
  qed
  moreover have "stable e s (s2 s3)"
  proof -
    have "stable e s s1"
      by (simp add: s1_def)
    then show ?thesis
      using s3(3) stable_trans unfolding taken_def by blast
  qed
  moreover have "slot (s2 s3) e j = (if j = oid then None else slot s e j)" for j
    using s3(3) sl1 by (simp add: taken_def)
  moreover have "arg (s2 s3) = arg s" "ids (s2 s3) = ids s" "log_of (s2 s3) e = log_of s e @ [m']"
    using s3(3) by (simp_all add: taken_def s1_def)
  ultimately show ?thesis
    using s3(2) by (auto simp: oid_def m'_def)
qed

section \<open>Ids\<close>

text \<open>
  New ids are fresh: the node sits in the top seven bits, and below \<open>2 ^ 57\<close> orders and trades the
  counter does not reach it. Every id in the map is below the next one.
\<close>

definition next_id :: "sys \<Rightarrow> u64" where
  "next_id s = or (ids s) (node_id s)"

definition fresh :: "nat \<Rightarrow> sys \<Rightarrow> bool" where
  "fresh e s \<longleftrightarrow> take_bit 57 (node_id s) = 0 \<and> (\<forall>j o1. slot s e j = Some o1 \<longrightarrow> j < next_id s)"

lemma get_id_eq: "get_id s = (next_id s, s\<lparr>ids := ids s + 1\<rparr>)"
  by (simp add: get_id_def next_id_def)

lemma unat_or_node:
  assumes "take_bit 57 node = 0" "unat i < 2 ^ 57"
  shows "unat (or i (node :: u64)) = unat i + unat node" "unat node + 2 ^ 57 \<le> 2 ^ 64"
proof -
  have node: "take_bit 57 (unat node) = 0"
    using assms(1) by (metis unsigned_0 unsigned_take_bit_eq)
  have i: "take_bit 57 (unat i) = unat i"
    using assms(2) by (simp add: take_bit_nat_eq_self)
  have "and (unat i) (unat node) = and (unat i) (take_bit 57 (unat node))"
    by (metis i take_bit_eq_mask and.assoc and.commute)
  then have "and (unat i) (unat node) = 0"
    by (simp add: node)
  then show "unat (or i node) = unat i + unat node"
    by (simp add: unsigned_or_eq disjunctive_add_eq_or)
  have "unat node mod 2 ^ 57 = 0" "unat node < 2 ^ 64"
    using node unsigned_less [of node] by (simp_all add: take_bit_eq_mod)
  moreover from this obtain k where "unat node = 2 ^ 57 * k"
    by (meson mod_0_imp_dvd dvdE)
  ultimately show "unat node + 2 ^ 57 \<le> 2 ^ 64"
    by simp
qed
lemma next_id_mono:
  assumes "take_bit 57 (node_id s) = 0" "node_id s' = node_id s" "unat (ids s) \<le> unat (ids s')" "unat (ids s') < 2 ^ 57"
  shows "next_id s \<le> next_id s'"
  using unat_or_node [of "node_id s"] assms by (simp add: next_id_def word_le_nat_alt)

lemma next_id_Suc:
  assumes "take_bit 57 (node_id s) = 0" "unat (ids s) + 1 < 2 ^ 57"
  shows "next_id s < next_id (s\<lparr>ids := ids s + 1\<rparr>)" "unat (ids s + 1) = unat (ids s) + 1"
proof -
  show "unat (ids s + 1) = unat (ids s) + 1"
    using assms(2) by (simp add: unat_word_ariths)
  then show "next_id s < next_id (s\<lparr>ids := ids s + 1\<rparr>)"
    using unat_or_node(1) [OF assms(1)] assms by (simp add: next_id_def word_less_nat_alt)
qed

text \<open>How far the counter can get: what it has given out, and one for each order that may still trade.\<close>

definition pot :: "sys \<Rightarrow> nat \<Rightarrow> nat" where
  "pot s e = unat (ids s) + resting s e"

text \<open>What an operation keeps: the invariant, fresh ids, everything outside the books; and its cost.\<close>

definition kept :: "nat \<Rightarrow> nat \<Rightarrow> sys \<Rightarrow> sys \<Rightarrow> bool" where
  "kept e n s s' \<longleftrightarrow> books_inv e s' \<and> fresh e s' \<and> stable e s s' \<and> pot s' e \<le> pot s e + n"

lemma kept_trans: "kept e n s s' \<Longrightarrow> kept e k s' s'' \<Longrightarrow> kept e (n + k) s s''"
  using stable_trans [of e s s' s''] by (simp add: kept_def)

lemma kept_mono: "kept e n s s' \<Longrightarrow> n \<le> k \<Longrightarrow> kept e k s s'"
  by (simp add: kept_def)

lemma next_id_frame [simp]:
  "next_id (record_event e o1 s) = next_id s" "next_id (s\<lparr>ticks := n\<rparr>) = next_id s"
  "next_id (s\<lparr>arg := a\<rparr>) = next_id s" "next_id (set_mat_local e sd it s) = next_id s"
  "next_id (put_slot e oid o1 s) = next_id s"
  by (simp_all add: next_id_def set_mat_local_def put_slot_def)

lemma node_id_put_slot [simp]: "node_id (put_slot e oid o1 s) = node_id s"
  by (simp add: put_slot_def)

lemma fresh_frame [simp]:
  "fresh e (record_event e' o1 s) = fresh e s" "fresh e (s\<lparr>ticks := n\<rparr>) = fresh e s"
  "fresh e (s\<lparr>arg := a\<rparr>) = fresh e s"
  by (simp_all add: fresh_def)

lemma pot_frame [simp]:
  "pot (record_event e' o1 s) e = pot s e" "pot (s\<lparr>ticks := n\<rparr>) e = pot s e" "pot (s\<lparr>arg := a\<rparr>) e = pot s e"
  by (simp_all add: pot_def)

lemma kept_frame [simp]:
  "kept e n s (record_event e o1 s') = kept e n s s'" "kept e n s (s'\<lparr>ticks := k\<rparr>) = kept e n s s'"
  "kept e n s (s'\<lparr>arg := a\<rparr>) = kept e n s s'" "kept e n (s\<lparr>arg := a\<rparr>) s' = kept e n s s'"
  by (simp_all add: kept_def) (simp add: stable_def)

lemma kept_refl: "books_inv e s \<Longrightarrow> fresh e s \<Longrightarrow> kept e 0 s s"
  by (simp add: kept_def)

lemma ran_kept:
  assumes r: "ran e s s' n" and f: "fresh e s" and id: "order_id (arg s) < next_id s" and b: "pot s e + n < 2 ^ 57"
  shows "kept e n s s'"
proof -
  obtain k where k: "ids s' = ids s + of_nat k" "k + resting s' e \<le> resting s e + n"
    using r by (auto simp: ran_def)
  have "unat (of_nat k :: u64) = k"
    using k(2) b by (intro unat_of_nat_id) (simp add: pot_def)
  then have u: "unat (ids s') = unat (ids s) + k"
    using k b by (simp add: pot_def unat_word_ariths)
  have n: "node_id s' = node_id s"
    using r stableD(4) [of e s s'] by (simp add: ran_def)
  have le: "next_id s \<le> next_id s'"
    using f n u b k(2) by (intro next_id_mono) (simp_all add: fresh_def pot_def)
  have "j < next_id s'" if j: "slot s' e j = Some o1" for j o1
  proof -
    have "slot s e j \<noteq> None \<or> j = order_id (arg s)"
      using r j by (simp add: ran_def)
    then have "j < next_id s"
      using f id by (auto simp: fresh_def)
    then show ?thesis
      using le by simp
  qed
  then show ?thesis
    using r f n u k(2) by (simp add: kept_def ran_def fresh_def pot_def)
qed

section \<open>New orders\<close>

lemma new_side_kept:
  assumes inv: "books_inv e s" "fresh e s" and sd: "two_sided sd" "side (arg s) = sd" and id: "order_id (arg s) = 0"
    and b: "pot s e + 3 < 2 ^ 57"
  shows "\<exists>s'. new_side e sd s = Some s' \<and> kept e 3 s s'"
proof -
  define s1 where "s1 = init_new_order s"
  define a where "a = (arg s)\<lparr>order_id := next_id s, remain_quantity := quantity (arg s), order_state := OPEN\<rparr>"
  have s1: "s1 = s\<lparr>ids := ids s + 1, arg := a\<rparr>"
    using id by (simp add: s1_def a_def init_new_order_def get_id_eq upd_arg_def)
  have node: "take_bit 57 (node_id s) = 0"
    using inv(2) by (simp add: fresh_def)
  have "unat (ids s) + 1 < 2 ^ 57"
    using b by (simp add: pot_def)
  note nx = next_id_Suc [OF node this]
  have new: "slot s e (next_id s) = None"
    using inv(2) by (cases "slot s e (next_id s)") (auto simp: fresh_def)
  have next1: "next_id s1 = next_id (s\<lparr>ids := ids s + 1\<rparr>)"
    by (simp add: s1 next_id_def)
  have inv1: "books_inv e s1" "stable e s s1" "pot s1 e = pot s e + 1"
    using inv(1) nx(2) by (simp_all add: s1 pot_def)
  have "j < next_id s1" if "slot s1 e j = Some x" for j x
    using that inv(2) nx(1) unfolding next1 by (force simp: s1 fresh_def)
  then have f1: "fresh e s1"
    using node by (simp add: fresh_def s1)
  have id1: "order_id (arg s1) < next_id s1"
    using nx(1) unfolding next1 by (simp add: s1 a_def)
  have k1: "kept e 1 s s1"
    using inv1 f1 by (simp add: kept_def)
  have "\<exists>s'. new_side e sd s = Some s' \<and> ran e s1 s' 2"
  proof (cases "order_kind (arg s1) \<noteq> MARKET \<and> price (arg s1) = MARKET_PRICE")
    case True
    obtain s' where "reject e REJECT_LIMITE_ORDER_WITH_MARKET_PRICE s1 = Some s'" "ran e s1 s' 0"
      using reject_plain [OF inv1(1)] by blast
    then show ?thesis
      using True by (auto simp: new_side_eq s1_def [symmetric] Let_def ran_def)
  next
    case False
    have "slot s1 e (order_id (arg s1)) = None" "side (arg s1) = sd"
      using new sd(2) by (simp_all add: s1 a_def)
    then obtain s' where "match_side e sd s1 \<bind> trigger_stops e = Some s'" "ran e s1 s' 2"
      using match_trigger_plain [OF inv1(1) sd(1)] by blast
    then show ?thesis
      using False by (auto simp: new_side_eq s1_def [symmetric] Let_def)
  qed
  then obtain s' where "new_side e sd s = Some s'" "ran e s1 s' 2"
    by blast
  moreover have "pot s1 e + 2 < 2 ^ 57"
    using b inv1(3) by simp
  ultimately show ?thesis
    using kept_trans [OF k1 ran_kept [OF _ f1 id1]] by fastforce
qed

lemma reject_kept:
  assumes "books_inv e s" "fresh e s"
  shows "\<exists>s'. reject e st s = Some s' \<and> kept e 0 s s'"
  using assms by (simp add: reject_def upd_arg_def callback_eq kept_refl)

lemma handle_new_kept:
  assumes inv: "books_inv e s" "fresh e s" and sd: "two_sided (side (arg s))"
    and act: "order_action (arg s) = NEW" and b: "pot s e + 3 < 2 ^ 57"
  shows "\<exists>s'. handle_new e s = Some s' \<and> kept e 3 s s'"
proof -
  define s1 where "s1 = upd_arg (\<lambda>o1. o1\<lparr>order_id := 0\<rparr>) s"
  have s1: "books_inv e s1" "fresh e s1" "pot s1 e + 3 < 2 ^ 57" "kept e n s1 s' = kept e n s s'"
    "side (arg s1) = side (arg s)" "order_id (arg s1) = 0" for n s'
    using inv b by (simp_all add: s1_def upd_arg_def)
  have run: "handle_new e s = (if quantity (arg s1) = 0 then reject e REJECT_QUANTITY_ZERO s1
      else if display_quantity (arg s1) > quantity (arg s1) then
        reject e REJECT_DISPLAY_QUANTITY_LARGER_THAN_QUANTITY s1
      else new_side e (side (arg s1)) s1)"
    using act sd s1(5) by (auto simp: handle_new_def s1_def [symmetric] new_side_def Let_def)
  have r: "\<exists>s'. reject e st s1 = Some s' \<and> kept e 3 s s'" for st
    using reject_kept [OF s1(1,2)] kept_mono [of e 0 s _ 3] by (auto simp: s1(4))
  have n: "\<exists>s'. new_side e (side (arg s1)) s1 = Some s' \<and> kept e 3 s s'"
    using new_side_kept [OF s1(1,2) _ refl s1(6,3)] sd by (simp add: s1(4,5))
  show ?thesis
    using r n by (simp add: run)
qed

lemma handle_cancel_kept:
  assumes inv: "books_inv e s" "fresh e s" and act: "order_action (arg s) \<in> {CANCEL, AMEND}"
  shows "\<exists>b s'. handle_cancel e s = Some (b, s') \<and> kept e 0 s s' \<and> side (arg s') = side (arg s)
    \<and> pot s' e + (if b then 1 else 0) \<le> pot s e"
proof (cases "slot s e (order_id (arg s))")
  case None
  then show ?thesis
    using inv act by (auto simp: handle_cancel_def upd_arg_def callback_eq kept_refl)
next
  case (Some m)
  obtain s' where s': "handle_cancel e s = Some (True, s')" "books_inv e s'"
    "\<forall>sd. two_sided sd \<longrightarrow> orders_of s' e sd = filter (\<lambda>x. order_id x \<noteq> order_id (arg s)) (orders_of s e sd)"
    "\<forall>j. slot s' e j = (if j = order_id (arg s) then None else slot s e j)"
    "stable e s s'" "arg s' = arg s" "ids s' = ids s"
    using handle_cancel_plain [OF inv(1) Some act] by blast
  obtain sd where sd: "two_sided sd" "m \<in> set (orders_of s e sd)" "order_id m = order_id (arg s)"
    using inv(1) Some by (rule slot_two_sided)
  have "length (orders_of s' e sd) < length (orders_of s e sd)"
    using s'(3) sd(1) length_filter_less [OF sd(2)] sd(3) by auto
  moreover have "length (orders_of s' e (own_side sd)) \<le> length (orders_of s e (own_side sd))"
    using s'(3) two_sided_own length_filter_le by metis
  ultimately have "resting s' e < resting s e"
    by (simp add: resting_sides [OF sd(1)])
  then have p: "pot s' e + 1 \<le> pot s e"
    using s'(7) by (simp add: pot_def)
  have "next_id s' = next_id s"
    using s'(5,7) stableD(4) [of e s s'] by (simp add: next_id_def)
  then have "fresh e s'"
    using inv(2) s'(4,5) stableD(4) [of e s s'] by (auto simp: fresh_def split: if_splits)
  then show ?thesis
    using s' p by (auto simp: kept_def)
qed

text \<open>The three ways an amendment goes: rejected, made in place, or a cancel with a new order.\<close>

definition renewed :: "order \<Rightarrow> sys \<Rightarrow> sys" where
  "renewed m s = upd_arg (\<lambda>o1. o1\<lparr>client_order_id := client_order_id m, order_id := 0, order_action := NEW\<rparr>) s"

lemma handle_amend_cases:
  assumes inv: "books_inv e s" and act: "order_action (arg s) = AMEND"
  obtains (rejected) st where "handle_amend e s = reject e st s"
    | (in_place) m m' where "slot s e (order_id (arg s)) = Some m" "order_id m' = order_id m" "price m' = price m"
        "side m' = side m" "remain_quantity m' \<noteq> 0"
        "handle_amend e s = Some (record_event e m' (ticked (put_slot e (order_id (arg s)) m' s)))"
    | (replaced) m m' c s2 where "slot s e (order_id (arg s)) = Some m" "order_id m' = order_id m" "price m' = price m"
        "side m' = side m" "remain_quantity m' \<noteq> 0" "handle_cancel e (put_slot e (order_id (arg s)) m' s) = Some (c, s2)"
        "handle_amend e s = (if c then handle_new e (renewed m' s2) else Some s2)"
proof (cases "quantity (arg s) = 0 \<or> display_quantity (arg s) > quantity (arg s) \<or> slot s e (order_id (arg s)) = None")
  case True
  then have "\<exists>st. handle_amend e s = reject e st s"
    by (auto simp: handle_amend_def)
  then show ?thesis
    using rejected by blast
next
  case False
  define oid where "oid = order_id (arg s)"
  obtain m where m: "slot s e oid = Some m"
    using False by (auto simp: oid_def)
  define m1 where "m1 = m\<lparr>order_action := order_action (arg s)\<rparr>"
  define s1 where "s1 = put_slot e oid m1 s"
  have a: "arg s1 = arg s"
    by (simp add: s1_def)
  have m1: "order_id m1 = order_id m" "price m1 = price m" "side m1 = side m" "remain_quantity m1 \<noteq> 0"
    using slot_remain [OF inv m] by (simp_all add: m1_def)
  show ?thesis
  proof (cases "can_amend (arg s1) m1")
    case True
    define m2 where "m2 = m1\<lparr>quantity := quantity (arg s1), display_quantity := display_quantity (arg s1),
                        remain_quantity := quantity (arg s1), request_id := request_id (arg s1)\<rparr>"
    have "handle_amend e s = Some (record_event e (stamp s m2) (ticked (put_slot e oid (stamp s m2) s)))"
      using False m True
      by (simp add: handle_amend_def oid_def [symmetric] m1_def [symmetric] s1_def [symmetric] Let_def
          m2_def [symmetric] callback_eq) (simp add: s1_def m2_def)
    then show ?thesis
      using False by (intro in_place [OF m [unfolded oid_def], of "stamp s m2"]) (simp_all add: m2_def m1 a oid_def)
  next
    case no: False
    have "\<exists>c s2. handle_cancel e s1 = Some (c, s2)"
    proof -
      have "books_inv e s1"
        unfolding s1_def using put_slot_inv(1) [OF inv m m1] .
      moreover have "slot s1 e (order_id (arg s1)) = Some m1"
        using m by (simp add: a s1_def oid_def)
      ultimately show ?thesis
        using handle_cancel_plain [of e s1] act a by auto
    qed
    then obtain c s2 where c: "handle_cancel e s1 = Some (c, s2)"
      by blast
    then have "handle_amend e s = (if c then handle_new e (renewed m1 s2) else Some s2)"
      using False m no unfolding renewed_def
      by (simp add: handle_amend_def a oid_def [symmetric] m1_def [symmetric] s1_def [symmetric] Let_def)
    then show ?thesis
      using replaced [OF m [unfolded oid_def] m1] c by (simp add: s1_def oid_def)
  qed
qed

lemma put_slot_kept:
  assumes inv: "books_inv e s" "fresh e s" and m: "slot s e oid = Some m"
    and m': "order_id m' = order_id m" "price m' = price m" "side m' = side m" "remain_quantity m' \<noteq> 0"
  shows "kept e 0 s (put_slot e oid m' s)"
proof -
  have "resting (put_slot e oid m' s) e = resting s e"
    using put_slot_inv(2) [OF inv(1) m m'] by (simp add: resting_def)
  then show ?thesis
    using put_slot_inv(1) [OF inv(1) m m'] inv(2) m by (auto simp: kept_def fresh_def pot_def split: if_splits)
qed

lemma renewed_frame [simp]:
  "books_inv e (renewed m s) = books_inv e s" "fresh e (renewed m s) = fresh e s" "pot (renewed m s) e = pot s e"
  "side (arg (renewed m s)) = side (arg s)" "order_action (arg (renewed m s)) = NEW" "kept e n (renewed m s) s' = kept e n s s'"
  "price (arg (renewed m s)) = price (arg s)"
  by (simp_all add: renewed_def upd_arg_def)

lemma handle_amend_kept:
  assumes inv: "books_inv e s" "fresh e s" and sd: "two_sided (side (arg s))"
    and act: "order_action (arg s) = AMEND" and b: "pot s e + 3 < 2 ^ 57"
  shows "\<exists>s'. handle_amend e s = Some s' \<and> kept e 3 s s'"
  using inv(1) act
proof (cases rule: handle_amend_cases)
  case (rejected st)
  then show ?thesis
    using reject_kept [OF inv] kept_mono [of e 0 s _ 3] by auto
next
  case (in_place m m')
  then show ?thesis
    using kept_mono [OF put_slot_kept [OF inv in_place(1-5)], of 3] by simp
next
  case (replaced m m' c s2)
  let ?s1 = "put_slot e (order_id (arg s)) m' s"
  note k1 = put_slot_kept [OF inv replaced(1-5)]
  have "books_inv e ?s1" "fresh e ?s1" "order_action (arg ?s1) \<in> {CANCEL, AMEND}"
    using k1 act by (simp_all add: kept_def)
  then obtain c' s2' where c: "handle_cancel e ?s1 = Some (c', s2')" "kept e 0 ?s1 s2'" "side (arg s2') = side (arg ?s1)"
    using handle_cancel_kept by blast
  then have k2: "kept e 0 s s2" and side: "side (arg s2) = side (arg s)"
    using replaced(6) kept_trans [OF k1 c(2)] by simp_all
  let ?s3 = "renewed m' s2"
  have "books_inv e ?s3" "fresh e ?s3" "two_sided (side (arg ?s3))" "order_action (arg ?s3) = NEW" "pot ?s3 e + 3 < 2 ^ 57"
    using k2 b sd side by (simp_all add: kept_def)
  then obtain s4 where "handle_new e ?s3 = Some s4" "kept e 3 s2 s4"
    using handle_new_kept by fastforce
  then show ?thesis
    using kept_trans [OF k2, of 3] kept_mono [OF k2, of 3] by (auto simp: replaced(7))
qed

end
