(* ===== verification/Plain_Runs.thy ===== *)
theory Plain_Runs
  imports Plain_Handling
begin

text \<open>
  \<open>handle\<close> as a whole on buy and sell orders: the lock is taken and released, an auction is closed,
  and the invariant holds after any sequence of calls, each of which returns.
\<close>

section \<open>Flags and released reports\<close>

lemma flags_frame [simp]:
  "books_inv e (upd_eng e (\<lambda>x. x\<lparr>mutex := b\<rparr>) s) = books_inv e s"
  "books_inv e (upd_eng e (\<lambda>x. x\<lparr>is_auction := b\<rparr>) s) = books_inv e s"
  "books_inv e (upd_eng e (\<lambda>x. x\<lparr>cb_records := r\<rparr>) s) = books_inv e s"
  "books_inv e (upd_eng e (\<lambda>x. x\<lparr>mutex := b, is_auction := c\<rparr>) s) = books_inv e s"
  "books_inv e (upd_eng e (\<lambda>x. x\<lparr>is_auction := b, cb_records := r\<rparr>) s) = books_inv e s"
  "books_inv e (s\<lparr>out := w\<rparr>) = books_inv e s"
  by (simp_all add: books_inv_def booked_def wf_side_def slot_def walked_def mat_local_def)

lemma fresh_flags [simp]:
  "fresh e (upd_eng e (\<lambda>x. x\<lparr>mutex := b\<rparr>) s) = fresh e s"
  "fresh e (upd_eng e (\<lambda>x. x\<lparr>is_auction := b\<rparr>) s) = fresh e s"
  "fresh e (upd_eng e (\<lambda>x. x\<lparr>cb_records := r\<rparr>) s) = fresh e s"
  "fresh e (upd_eng e (\<lambda>x. x\<lparr>mutex := b, is_auction := c\<rparr>) s) = fresh e s"
  "fresh e (upd_eng e (\<lambda>x. x\<lparr>is_auction := b, cb_records := r\<rparr>) s) = fresh e s"
  "fresh e (s\<lparr>out := w\<rparr>) = fresh e s"
  by (simp_all add: fresh_def slot_def next_id_def)

lemma pot_flags [simp]:
  "pot (upd_eng e (\<lambda>x. x\<lparr>mutex := b\<rparr>) s) e = pot s e"
  "pot (upd_eng e (\<lambda>x. x\<lparr>is_auction := b\<rparr>) s) e = pot s e"
  "pot (upd_eng e (\<lambda>x. x\<lparr>cb_records := r\<rparr>) s) e = pot s e"
  "pot (upd_eng e (\<lambda>x. x\<lparr>mutex := b, is_auction := c\<rparr>) s) e = pot s e"
  "pot (upd_eng e (\<lambda>x. x\<lparr>is_auction := b, cb_records := r\<rparr>) s) e = pot s e"
  "pot (s\<lparr>out := w\<rparr>) e = pot s e"
  by (simp_all add: pot_def resting_def orders_of_def slot_def walked_def)

lemma fold_emit: "fold (emit e) rs s = s\<lparr>out := out s @ map (Pair e) rs\<rparr>"
  by (induction rs arbitrary: s) (simp_all add: emit_def)

section \<open>One call\<close>

definition plain_inv :: "nat \<Rightarrow> sys \<Rightarrow> bool" where
  "plain_inv e s \<longleftrightarrow> books_inv e s \<and> fresh e s
     \<and> \<not> is_auction (engs s e) \<and> \<not> mutex (engs s e) \<and> mutex_set (engs s e) = [e]"

definition plain_order :: "order \<Rightarrow> bool" where
  "plain_order o1 \<longleftrightarrow> (side o1 = BUY \<or> side o1 = SELL) \<and> order_action o1 \<in> {NEW, CANCEL, AMEND, DUMP}"

lemma dispatch_kept:
  assumes inv: "books_inv e s" "fresh e s" and o1: "plain_order (arg s)" and b: "pot s e + 3 < 2 ^ 57"
  shows "\<exists>s'. dispatch e s = Some s' \<and> kept e 3 s s'"
proof -
  have sd: "two_sided (side (arg s))" and "order_action (arg s) \<in> {NEW, CANCEL, AMEND, DUMP}"
    using o1 by (simp_all add: plain_order_def)
  then consider "order_action (arg s) = NEW" | "order_action (arg s) = CANCEL"
    | "order_action (arg s) = AMEND" | "order_action (arg s) = DUMP"
    by auto
  then show ?thesis
  proof cases
    case 1
    then show ?thesis
      using handle_new_kept [OF inv sd 1 b] by (simp add: dispatch_def)
  next
    case 2
    obtain c s' where "handle_cancel e s = Some (c, s')" "kept e 0 s s'"
      using handle_cancel_kept [OF inv] 2 by auto
    then show ?thesis
      using 2 kept_mono [of e 0 s s' 3] by (simp add: dispatch_def)
  next
    case 3
    then show ?thesis
      using handle_amend_kept [OF inv sd 3 b] by (simp add: dispatch_def)
  next
    case 4
    have "kept e 3 s (handle_dump e s)"
      using inv by (simp add: handle_dump_def fold_emit emit_def kept_def stable_def)
    then show ?thesis
      using 4 by (simp add: dispatch_def)
  qed
qed

lemma finish_auction_eq:
  "finish_auction e s = (if is_auction (engs s e)
     then (upd_eng e (\<lambda>x. x\<lparr>is_auction := False, cb_records := []\<rparr>) s)
        \<lparr>out := out s @ map (Pair e) (auction_records (arg s) (cb_records (engs s e)))\<rparr>
     else s)"
  by (auto simp: finish_auction_def fold_emit Let_def intro!: sys.equality)

lemma handle_plain:
  assumes inv: "plain_inv e s" and o1: "plain_order (arg s)" and b: "pot s e + 3 < 2 ^ 57"
  shows "\<exists>s'. handle e s = Some s' \<and> plain_inv e s' \<and> pot s' e \<le> pot s e + 3
    \<and> (\<forall>e'. e' \<noteq> e \<longrightarrow> engs s' e' = engs s e')"
proof -
  define s1 where "s1 = upd_eng e (\<lambda>x. x\<lparr>mutex := True\<rparr>) s"
  define s2 where "s2 = (if time_condition (arg s1) = AUCTION then upd_eng e (\<lambda>x. x\<lparr>is_auction := True\<rparr>) s1 else s1)"
  have lock: "lock e s = Some s1"
    using inv by (simp add: lock_def plain_inv_def s1_def)
  have a1: "arg s1 = arg s"
    by (simp add: s1_def)
  have s2: "books_inv e s2" "fresh e s2" "arg s2 = arg s" "pot s2 e = pot s e"
    using inv by (simp_all add: s2_def s1_def plain_inv_def)
  have others: "engs s2 e' = engs s e'" if "e' \<noteq> e" for e'
    using that by (simp add: s2_def s1_def)
  have ms: "mutex_set (engs s2 e) = [e]"
    using inv by (simp add: s2_def s1_def plain_inv_def)
  obtain s3 where s3: "dispatch e s2 = Some s3" "kept e 3 s2 s3"
    using dispatch_kept [OF s2(1,2)] o1 b s2(3,4) by auto
  have run: "handle e s = Some (unlock e (finish_auction e s3))"
    using lock s3(1) o1 a1 by (cases "time_condition (arg s) = AUCTION") (auto simp: handle_def s2_def plain_order_def Let_def)
  have st: "stable e s2 s3"
    using s3(2) by (simp add: kept_def)
  define s4 where "s4 = finish_auction e s3"
  have s4: "books_inv e s4" "fresh e s4" "pot s4 e \<le> pot s e + 3" "\<not> is_auction (engs s4 e)" "mutex_set (engs s4 e) = [e]"
    using s3(2) s2(4) ms stableD(7) [OF st] by (simp_all add: s4_def finish_auction_eq kept_def)
  have u: "unlock e s4 = upd_eng e (\<lambda>x. x\<lparr>mutex := False\<rparr>) s4"
    using s4(5) by (simp add: unlock_def)
  have "engs s4 e' = engs s e'" if "e' \<noteq> e" for e'
    using that st others by (simp add: s4_def finish_auction_eq stable_def)
  then show ?thesis
    using run s4 by (simp add: s4_def [symmetric] u plain_inv_def)
qed

section \<open>Sequences of calls\<close>

lemma plain_inv_arg [simp]: "plain_inv e (s\<lparr>arg := a\<rparr>) = plain_inv e s"
  by (simp add: plain_inv_def)

lemma submits_plain:
  assumes "plain_inv e s" "\<forall>o1 \<in> set os. plain_order o1" "pot s e + 3 * length os < 2 ^ 57"
  shows "\<exists>s'. submits (map (Pair e) os) s = Some s' \<and> plain_inv e s' \<and> pot s' e \<le> pot s e + 3 * length os"
  using assms
proof (induction os arbitrary: s)
  case (Cons o1 os)
  let ?s = "s\<lparr>arg := o1\<rparr>"
  obtain s1 where s1: "handle e ?s = Some s1" "plain_inv e s1" "pot s1 e \<le> pot ?s e + 3"
    using handle_plain [of e ?s] Cons.prems by auto
  then obtain s' where "submits (map (Pair e) os) s1 = Some s'" "plain_inv e s'" "pot s' e \<le> pot s1 e + 3 * length os"
    using Cons.IH [OF s1(2)] Cons.prems by auto
  then show ?case
    using s1 by (simp add: submit_def)
qed simp

lemma plain_init: "plain_inv e (init_sys clk first_id tick)" "pot (init_sys clk first_id tick) e = unat first_id"
  by (simp_all add: plain_inv_def books_inv_def booked_def fresh_def init_sys_def new_engine_def end_iter_def
      mat_local_def wf_side_def walked_def slot_def pot_def resting_def orders_of_def)

text \<open>
  C3: from an engine as its constructor leaves it, any sequence of buy and sell orders, new, amended,
  cancelled or asking for a dump, with any limits, quantities and time conditions, is handled to its
  end: no call hangs, dereferences an iterator at the end of its book or an order that is gone, or leaves
  the lock taken, and the books are well-formed after it. The bound is that of the id generator, whose
  ids have 57 bits.
\<close>

theorem plain_orders_never_fail:
  assumes "\<forall>o1 \<in> set os. plain_order o1" and "unat first_id + 3 * length os < 2 ^ 57"
  shows "\<exists>s'. submits (map (Pair e) os) (init_sys clk first_id tick) = Some s' \<and> plain_inv e s'"
  using submits_plain [OF plain_init(1) [of e clk first_id tick] assms(1)] assms(2) plain_init(2) [of clk first_id tick e]
  by auto

theorem plain_orders_never_fail_witness:
  "\<exists>s'. submits [(0, new_order\<lparr>quantity := 5\<rparr>), (0, new_order\<lparr>side := SELL, quantity := 4, time_condition := AUCTION\<rparr>)]
          (init_sys (\<lambda>_. (0, 0)) 1 1) = Some s' \<and> plain_inv 0 s'"
  using plain_orders_never_fail [of "[new_order\<lparr>quantity := 5\<rparr>, new_order\<lparr>side := SELL, quantity := 4, time_condition := AUCTION\<rparr>]"
      1 0 "\<lambda>_. (0, 0)" 1]
  by (simp add: plain_order_def) (simp add: new_order_def)

end
