(* ===== verification/Example_Market.thy ===== *)
theory Example_Market
  imports Plain_Runs
begin

text \<open>
  A small market the properties are applied to: one engine with two sell orders, 5 at 100 and 4 at 101,
  that satisfies the invariant, and the orders sent to it.
\<close>

definition ask_5_at_100 :: order where
  "ask_5_at_100 = new_order\<lparr>order_id := 1, side := SELL, price := 100, quantity := 5, remain_quantity := 5\<rparr>"

definition ask_4_at_101 :: order where
  "ask_4_at_101 = new_order\<lparr>order_id := 2, side := SELL, price := 101, quantity := 4, remain_quantity := 4\<rparr>"

definition asks_market :: sys where
  "asks_market = upd_eng 0
     (\<lambda>x. x\<lparr>odr_map := [(1, ask_5_at_100), (2, ask_4_at_101)], ask_book := [(100, [1]), (101, [2])]\<rparr>)
     (init_sys (\<lambda>_. (0, 0)) 3 1)"

definition buy_7_at_101 :: order where
  "buy_7_at_101 = new_order\<lparr>side := BUY, price := 101, quantity := 7, display_quantity := 7\<rparr>"

lemmas example_defs = asks_market_def ask_5_at_100_def ask_4_at_101_def buy_7_at_101_def new_order_def

lemma market_slot [simp]:
  "slot asks_market 0 j = (if j = 1 then Some ask_5_at_100 else if j = 2 then Some ask_4_at_101 else None)"
  by (auto simp: asks_market_def slot_def)

lemma market_engine [simp]:
  "walked (engs asks_market 0) BUY = [(100, [1]), (101, [2])]" "walked (engs asks_market 0) SELL = []"
  by (simp_all add: asks_market_def walked_def init_sys_def new_engine_def)

lemma market_orders [simp]:
  "orders_of asks_market 0 BUY = [ask_5_at_100, ask_4_at_101]" "orders_of asks_market 0 SELL = []"
  "log_of asks_market 0 = []" "next_id asks_market = 3" "pot asks_market 0 = 5"
  by (simp_all add: orders_of_def book_ids_def log_of_def next_id_def pot_def resting_def)
     (simp_all add: asks_market_def init_sys_def new_engine_def)

lemma market_inv [simp]: "plain_inv 0 asks_market"
proof -
  have "wf_side asks_market 0 BUY" "wf_side asks_market 0 SELL"
    by (simp_all add: wf_side_def wf_book_def side_cmp_def greater_def less_def wf_resting_def)
       (simp_all add: ask_5_at_100_def ask_4_at_101_def new_order_def own_side_def MARKET_PRICE_def LL_MAX_def)
  moreover have "booked asks_market 0"
    by (auto simp: booked_def book_ids_def)
  moreover have "fresh 0 asks_market"
    by (auto simp: fresh_def) (simp add: asks_market_def init_sys_def)
  ultimately show ?thesis
    by (simp add: plain_inv_def books_inv_def)
       (simp add: asks_market_def init_sys_def new_engine_def mat_local_def end_iter_def)
qed

lemma buy_7_simps [simp]:
  "side buy_7_at_101 = BUY" "price buy_7_at_101 = 101" "quantity buy_7_at_101 = 7" "order_action buy_7_at_101 = NEW"
  "display_quantity buy_7_at_101 = 7" "time_condition buy_7_at_101 = GTC" "order_kind buy_7_at_101 = LIMIT"
  by (simp_all add: buy_7_at_101_def new_order_def)

lemma market_quotes [simp]:
  "quote_of ask_5_at_100 = (1, 100, 5)" "quote_of ask_4_at_101 = (2, 101, 4)"
  by (simp_all add: quote_of_def ask_5_at_100_def ask_4_at_101_def new_order_def)

lemma market_sweep [simp]:
  "sweep (side_cmp BUY) 101 7 [(1, 100, 5), (2, 101, 4)] = ([(1, 100, 5), (2, 101, 2)], 0, [(2, 101, 2)])"
  by (simp add: side_cmp_def less_def MARKET_PRICE_def LL_MAX_def)

end
