(* ===== verification/Order_Kinds.thy ===== *)
theory Order_Kinds
  imports Example_Market
begin

text \<open>
  What a call of \<open>handle\<close> with a new buy or sell order does, for each time condition: the fills of the
  reference \<open>sweep\<close>, the reports in their order, and what is left on the books. The statements are about
  whole calls (\<open>submit\<close>), on any engine that satisfies \<open>plain_inv\<close>.
\<close>

section \<open>From a call to the match\<close>

definition valid_new :: "order \<Rightarrow> bool" where
  "valid_new o1 \<longleftrightarrow> order_action o1 = NEW \<and> quantity o1 \<noteq> 0 \<and> display_quantity o1 \<le> quantity o1
     \<and> (order_kind o1 = MARKET \<or> price o1 \<noteq> MARKET_PRICE) \<and> two_sided (side o1)"

text \<open>The state in which the matcher is called: the lock taken, an id drawn, the order open.\<close>

definition opened :: "sys \<Rightarrow> order \<Rightarrow> order" where
  "opened s o1 = o1\<lparr>order_id := next_id s, remain_quantity := quantity o1, order_state := OPEN\<rparr>"

definition match_state :: "nat \<Rightarrow> order \<Rightarrow> sys \<Rightarrow> sys" where
  "match_state e o1 s = (upd_eng e (\<lambda>x. x\<lparr>mutex := True\<rparr>) s)\<lparr>ids := ids s + 1, arg := opened s o1\<rparr>"

lemma opened_simps [simp]:
  "order_id (opened s o1) = next_id s" "price (opened s o1) = price o1" "side (opened s o1) = side o1"
  "quantity (opened s o1) = quantity o1" "remain_quantity (opened s o1) = quantity o1"
  "time_condition (opened s o1) = time_condition o1" "order_kind (opened s o1) = order_kind o1"
  by (simp_all add: opened_def)

lemma arg_match_state [simp]: "arg (match_state e o1 s) = opened s o1"
  by (simp add: match_state_def)

lemma mutex_frame [simp]:
  "orders_of (upd_eng e (\<lambda>x. x\<lparr>mutex := b\<rparr>) s) e sd = orders_of s e sd"
  "slot (upd_eng e (\<lambda>x. x\<lparr>mutex := b\<rparr>) s) e j = slot s e j"
  "log_of (upd_eng e (\<lambda>x. x\<lparr>mutex := b\<rparr>) s) e = log_of s e"
  by (simp_all add: orders_of_def slot_def walked_def log_of_def)

lemma match_state_facts:
  assumes "plain_inv e s"
  shows "books_inv e (match_state e o1 s)" "slot (match_state e o1 s) e (next_id s) = None"
    "orders_of (match_state e o1 s) e sd = orders_of s e sd" "slot (match_state e o1 s) e j = slot s e j"
    "log_of (match_state e o1 s) e = log_of s e" "arg (match_state e o1 s) = opened s o1"
    "ids (match_state e o1 s) = ids s + 1" "is_auction (engs (match_state e o1 s) e) = is_auction (engs s e)"
proof -
  have "slot s e (next_id s) = None"
    using assms by (cases "slot s e (next_id s)") (auto simp: plain_inv_def fresh_def)
  then show "slot (match_state e o1 s) e (next_id s) = None"
    by (simp add: match_state_def)
qed (use assms in \<open>simp_all add: match_state_def plain_inv_def\<close>)

definition same_books :: "nat \<Rightarrow> sys \<Rightarrow> sys \<Rightarrow> bool" where
  "same_books e s s' \<longleftrightarrow> (\<forall>sd. orders_of s' e sd = orders_of s e sd) \<and> (\<forall>j. slot s' e j = slot s e j)
     \<and> log_of s' e = log_of s e \<and> arg s' = arg s"

lemma submit_outcome:
  assumes inv: "plain_inv e s" and o1: "valid_new o1" "time_condition o1 \<noteq> AUCTION"
    and m: "match_side e (side o1) (match_state e o1 s) = Some s2" "books_inv e s2" "stable e (match_state e o1 s) s2"
  shows "\<exists>s'. submit (e, o1) s = Some s' \<and> same_books e s2 s'"
proof -
  define s0 where "s0 = upd_eng e (\<lambda>x. x\<lparr>mutex := True\<rparr>) (s\<lparr>arg := o1\<rparr>)"
  have lock: "lock e (s\<lparr>arg := o1\<rparr>) = Some s0"
    using inv by (simp add: lock_def plain_inv_def s0_def)
  have init: "init_new_order (upd_arg (\<lambda>o1. o1\<lparr>order_id := 0\<rparr>) s0) = match_state e o1 s"
    by (auto simp: init_new_order_def upd_arg_def s0_def match_state_def opened_def get_id_eq next_id_def
        intro!: sys.equality)
  have arg0: "arg s0 = o1"
    by (simp add: s0_def)
  obtain it1 it2 where "trigger_stops e s2 = Some s2 \<or>
      trigger_stops e s2 = Some (set_mat_local e BUY it2 (set_mat_local e SELL it1 s2))"
    using trigger_stops_plain [OF m(2)] by blast
  then obtain s3 where s3: "trigger_stops e s2 = Some s3" "same_books e s2 s3" "stable e s2 s3"
    by (auto simp: same_books_def)
  have new: "handle_new e s0 = Some s3"
    using o1(1) m(1) s3(1) arg0 init
    by (auto simp: handle_new_def new_buy_def new_sell_def valid_new_def match_side_def upd_arg_def Let_def)
  have st: "stable e (match_state e o1 s) s3"
    using m(3) s3(3) by (rule stable_trans)
  have flags: "\<not> is_auction (engs s3 e)" "mutex_set (engs s3 e) = [e]"
    using stableD(2,7) [OF st] inv by (simp_all add: match_state_def plain_inv_def)
  have "submit (e, o1) s = Some (upd_eng e (\<lambda>x. x\<lparr>mutex := False\<rparr>) s3)"
    using lock o1 new arg0 flags
    by (auto simp: submit_def handle_def dispatch_def valid_new_def finish_auction_def unlock_def)
  then show ?thesis
    using s3(2) by (simp add: same_books_def)
qed

text \<open>\<open>normal_match\<close>, up to its end, is \<open>sweep\<close>.\<close>

lemma normal_match_swept:
  assumes inv: "books_inv e s" and sd: "two_sided sd"
    and tc: "time_condition (arg s) \<noteq> MAKER_ONLY" "time_condition (arg s) \<noteq> MAKER_ONLY_REPRICE"
  shows "\<exists>s1. normal_match cmp e sd Arg tick s = match_finish e sd Arg s1 \<and> swept cmp e sd s s1
    \<and> ran e s s1 1 \<and> (\<forall>j. slot s e j = None \<longrightarrow> slot s1 e j = None)"
proof -
  obtain it where it: "matcher_reset e sd s = Some (set_mat_local e sd it s)" "at_top s e sd it"
    "books_inv e (set_mat_local e sd it s)"
    using matcher_reset_plain [OF inv sd] by blast
  let ?s = "set_mat_local e sd it s"
  obtain s1 where s1: "match_loop cmp e sd Arg tick ?s = Some (False, s1)" "swept cmp e sd ?s s1"
    "at_top s1 e sd (mat_local s1 e sd)"
    using match_loop_sweeps [of ?s e sd cmp tick] books_invD(1-3) [OF it(3) sd] it(2) tc by auto
  have sw: "swept cmp e sd s s1"
    using s1(2) by simp
  have "it_e (mat_local s1 e sd) = Some e" "it_side (mat_local s1 e sd) = sd"
    using s1(3) by (simp_all add: at_top_def)
  note r = swept_ran [OF inv sd sw this]
  have "normal_match cmp e sd Arg tick s = match_finish e sd Arg s1"
    using it(1) s1(1) by (simp add: normal_match_def)
  then show ?thesis
    using sw r by blast
qed

lemma match_side_normal:
  "two_sided sd \<Longrightarrow> time_condition (arg s) \<noteq> FOK \<Longrightarrow>
     match_side e sd s = normal_match (side_cmp sd) e sd Arg (other_tick sd (mini_tick (engs s e))) s"
  by (auto simp: match_side_def match_asks_def match_bids_def side_cmp_def other_tick_def)

lemma match_side_fok:
  "two_sided sd \<Longrightarrow> time_condition (arg s) = FOK \<Longrightarrow> match_side e sd s = fok_match (side_cmp sd) e sd Arg s"
  by (auto simp: match_side_def match_asks_def match_bids_def side_cmp_def)

lemma quotes_nonzero:
  "books_inv e s \<Longrightarrow> two_sided sd \<Longrightarrow> \<forall>(i, px, q) \<in> set (map quote_of (orders_of s e sd)). q \<noteq> 0"
  using orders_of_slot(2) [OF books_invD(1)] by (fastforce simp: quote_of_def wf_resting_def)

text \<open>The state after the loop, for the time conditions that trade.\<close>

lemma taker_swept:
  assumes inv: "plain_inv e s" and o1: "valid_new o1"
    "time_condition o1 \<notin> {FOK, MAKER_ONLY, MAKER_ONLY_REPRICE}"
    and sw: "sweep (side_cmp (side o1)) (price o1) (quantity o1) (map quote_of (orders_of s e (side o1))) = (fs, n, qs)"
  obtains s1 where "match_side e (side o1) (match_state e o1 s) = match_finish e (side o1) Arg s1"
    and "map quote_of (orders_of s1 e (side o1)) = qs" and "remain_quantity (arg s1) = n"
    and "orders_of s1 e (own_side (side o1)) = orders_of s e (own_side (side o1))"
    and "map trade_of (log_of s1 e) = map trade_of (log_of s e) @ reports (next_id s) fs"
    and "price (arg s1) = price o1" "order_id (arg s1) = next_id s" "time_condition (arg s1) = time_condition o1"
      "quantity (arg s1) = quantity o1" "side (arg s1) = side o1"
    and "fs = [] \<Longrightarrow> arg s1 = opened s o1"
    and "books_inv e s1" "stable e (match_state e o1 s) s1" "slot s1 e (next_id s) = None"
proof -
  let ?sd = "side o1" and ?s0 = "match_state e o1 s"
  note f = match_state_facts [OF inv, of o1]
  have sd: "two_sided ?sd"
    using o1(1) by (simp add: valid_new_def)
  obtain s1 where s1: "normal_match (side_cmp ?sd) e ?sd Arg (other_tick ?sd (mini_tick (engs ?s0 e))) ?s0 = match_finish e ?sd Arg s1"
    "swept (side_cmp ?sd) e ?sd ?s0 s1" "ran e ?s0 s1 1" "\<forall>j. slot ?s0 e j = None \<longrightarrow> slot s1 e j = None"
    using normal_match_swept [OF f(1) sd, of "side_cmp ?sd"] o1(2) by auto
  have p: "progress e ?sd ?s0 s1"
    using s1(2) by (simp add: swept_def)
  show ?thesis
  proof (rule that)
    show "match_side e ?sd ?s0 = match_finish e ?sd Arg s1"
      using match_side_normal [OF sd, of ?s0] o1(2) s1(1) by simp
    show "map quote_of (orders_of s1 e ?sd) = qs" "remain_quantity (arg s1) = n"
      "map trade_of (log_of s1 e) = map trade_of (log_of s e) @ reports (next_id s) fs"
      "fs = [] \<Longrightarrow> arg s1 = opened s o1"
      using s1(2) sw by (simp_all add: swept_def f)
    show "orders_of s1 e (own_side ?sd) = orders_of s e (own_side ?sd)"
      using wf_other(2) [OF p _ _ own_side_opposite] books_invD(1,2) [OF f(1) sd] by (simp add: f)
    show "books_inv e s1" "stable e ?s0 s1"
      using s1(3) by (simp_all add: ran_def)
    show "slot s1 e (next_id s) = None"
      using s1(4) f(2) by simp
  qed (use progressD [OF p] in simp_all)
qed

section \<open>Properties\<close>

text \<open>
  C1: a new buy or sell order that is good till cancelled fills greedily against the other
  side within its limit, price by price and at one price by age, with the makers' and the taker's
  reports in that order; its remainder rests on its own side at the place of its price and id, behind
  every order at a better or equal price; and if nothing was filled it is reported once as open.
\<close>

theorem limit_order_fills_and_rests:
  assumes inv: "plain_inv e s" and o1: "valid_new o1" "time_condition o1 = GTC" "price o1 \<noteq> MARKET_PRICE"
    and sw: "sweep (side_cmp (side o1)) (price o1) (quantity o1) (map quote_of (orders_of s e (side o1))) = (fs, n, qs)"
  shows "\<exists>s' rest. submit (e, o1) s = Some s' \<and> map quote_of (orders_of s' e (side o1)) = qs
    \<and> quote_of rest = (next_id s, price o1, n)
    \<and> orders_of s' e (own_side (side o1)) = (if n = 0 then orders_of s e (own_side (side o1))
         else queue_in (side_cmp (own_side (side o1))) rest (orders_of s e (own_side (side o1))))
    \<and> map trade_of (log_of s' e) = map trade_of (log_of s e) @ reports (next_id s) fs
         @ (if n = quantity o1 then [trade_of rest] else [])
    \<and> (n = quantity o1 \<longrightarrow> order_id (last (log_of s' e)) = next_id s \<and> order_state (last (log_of s' e)) = OPEN)"
proof -
  let ?sd = "side o1" and ?s0 = "match_state e o1 s"
  have sd: "two_sided ?sd" and q: "quantity o1 \<noteq> 0"
    using o1(1) by (simp_all add: valid_new_def)
  have tc: "time_condition o1 \<notin> {FOK, MAKER_ONLY, MAKER_ONLY_REPRICE}"
    using o1(2) by simp
  obtain s1 where run: "match_side e ?sd ?s0 = match_finish e ?sd Arg s1"
    and out: "map quote_of (orders_of s1 e ?sd) = qs" "remain_quantity (arg s1) = n"
      "map trade_of (log_of s1 e) = map trade_of (log_of s e) @ reports (next_id s) fs"
    and own: "orders_of s1 e (own_side ?sd) = orders_of s e (own_side ?sd)"
    and a1: "price (arg s1) = price o1" "order_id (arg s1) = next_id s" "time_condition (arg s1) = GTC"
      "quantity (arg s1) = quantity o1" "side (arg s1) = ?sd"
    and none: "fs = [] \<Longrightarrow> arg s1 = opened s o1"
    and inv1: "books_inv e s1" "stable e ?s0 s1" and new: "slot s1 e (next_id s) = None"
    using taker_swept [OF inv o1(1) tc sw] unfolding o1(2) by metis
  show ?thesis
  proof (cases "n = 0")
    case True
    then have "match_side e ?sd ?s0 = Some s1"
      using out(2) by (simp add: run match_finish_def)
    then obtain s' where s': "submit (e, o1) s = Some s'" "same_books e s1 s'"
      using submit_outcome [OF inv o1(1)] o1(2) inv1 by auto
    have "quote_of ((arg s1)\<lparr>remain_quantity := n\<rparr>) = (next_id s, price o1, n)"
      using a1 by (simp add: quote_of_def)
    then show ?thesis
      using s' out own True q by (intro exI [of _ s'] exI [of _ "(arg s1)\<lparr>remain_quantity := n\<rparr>"]) (simp add: same_books_def)
  next
    case False
    have "wf_resting (own_side ?sd) (price (arg s1)) (order_id (arg s1)) (arg s1)"
      using False a1 out(2) o1(3) sd by (simp add: wf_resting_def)
    moreover have "slot s1 e (order_id (arg s1)) = None"
      using new a1(2) by simp
    ultimately obtain s2 where s2: "finish_rest e ?sd Arg s1 = Some s2" "books_inv e s2" "rests e ?sd s1 s2"
      using finish_rest_plain [OF inv1(1) sd] by blast
    have "match_side e ?sd ?s0 = Some s2"
      using s2(1) False out(2) a1 o1(3) by (simp add: run match_finish_def)
    moreover have "stable e ?s0 s2"
      using inv1(2) s2(3) stable_trans [of e ?s0 s1 s2] by (simp add: rests_def)
    ultimately obtain s' where s': "submit (e, o1) s = Some s'" "same_books e s2 s'"
      using submit_outcome [OF inv o1(1)] o1(2) s2(2) by auto
    have id2: "order_id (arg s2) = next_id s"
      using s2(3) strip_eqD(1) [of "arg s2" "arg s1"] a1(2) by (simp add: rests_def)
    have q1: "quote_of (arg s1) = (next_id s, price o1, n)"
      using a1 out(2) by (simp add: quote_of_def)
    have nz: "\<forall>(i, px, q) \<in> set (map quote_of (orders_of s e ?sd)). q \<noteq> 0"
      using quotes_nonzero [of e s ?sd] inv sd by (simp add: plain_inv_def)
    have open1: "order_state (arg s1) = OPEN" if "n = quantity o1"
    proof -
      have "fs = []"
        using sweep_nothing [of _ _ n _ fs qs] sw False nz that by blast
      then show ?thesis
        using none by (simp add: opened_def)
    qed
    have log2: "log_of s2 e = (if n = quantity o1 then log_of s1 e @ [arg s2] else log_of s1 e)"
      using s2(3) out(2) a1(4) by (simp add: rests_def)
    show ?thesis
      using s' s2(3) out own False q1 log2 a1(4) id2 open1
      by (intro exI [of _ s'] exI [of _ "arg s1"]) (simp add: same_books_def rests_def)
  qed
qed

theorem limit_order_witness:
  "\<exists>s'. submit (0, buy_7_at_101) asks_market = Some s' \<and> map quote_of (orders_of s' 0 BUY) = [(2, 101, 2)]
     \<and> map trade_of (log_of s' 0) = [(1, MAKER, 100, 5), (3, TAKER, 100, 5), (2, MAKER, 101, 2), (3, TAKER, 101, 2)]"
  using limit_order_fills_and_rests [of 0 asks_market buy_7_at_101 "[(1, 100, 5), (2, 101, 2)]" 0 "[(2, 101, 2)]"]
  by (auto simp: valid_new_def MARKET_PRICE_def LL_MAX_def side_cmp_def less_def)

text \<open>
  C5: an immediate-or-cancel order makes the same fills and never rests: the orders of its own
  side stay as they are, no order with its id is left, and a remainder is reported as cancelled,
  wholly or in part.
\<close>

theorem ioc_never_rests:
  assumes inv: "plain_inv e s" and o1: "valid_new o1" "time_condition o1 = IOC"
    and sw: "sweep (side_cmp (side o1)) (price o1) (quantity o1) (map quote_of (orders_of s e (side o1))) = (fs, n, qs)"
  shows "\<exists>s'. submit (e, o1) s = Some s' \<and> map quote_of (orders_of s' e (side o1)) = qs
    \<and> orders_of s' e (own_side (side o1)) = orders_of s e (own_side (side o1)) \<and> slot s' e (next_id s) = None
    \<and> (if n = 0 then map trade_of (log_of s' e) = map trade_of (log_of s e) @ reports (next_id s) fs
       else \<exists>rep. map trade_of (log_of s' e) = map trade_of (log_of s e) @ reports (next_id s) fs @ [trade_of rep]
          \<and> order_id rep = next_id s \<and> remain_quantity rep = n
          \<and> order_state rep = (if n = quantity o1 then CANCELED_ALL_BY_IOC else CANCELED_PARTIAL_BY_IOC))"
proof -
  let ?sd = "side o1" and ?s0 = "match_state e o1 s"
  have tc: "time_condition o1 \<notin> {FOK, MAKER_ONLY, MAKER_ONLY_REPRICE}"
    using o1(2) by simp
  obtain s1 where run: "match_side e ?sd ?s0 = match_finish e ?sd Arg s1"
    and out: "map quote_of (orders_of s1 e ?sd) = qs" "remain_quantity (arg s1) = n"
      "map trade_of (log_of s1 e) = map trade_of (log_of s e) @ reports (next_id s) fs"
    and own: "orders_of s1 e (own_side ?sd) = orders_of s e (own_side ?sd)"
    and a1: "order_id (arg s1) = next_id s" "time_condition (arg s1) = IOC" "quantity (arg s1) = quantity o1"
    and inv1: "books_inv e s1" "stable e ?s0 s1" and new: "slot s1 e (next_id s) = None"
    using taker_swept [OF inv o1(1) tc sw] unfolding o1(2) by metis
  define a where "a = stamp s1 ((arg s1)\<lparr>order_state :=
    (if quantity o1 = n then CANCELED_ALL_BY_IOC else CANCELED_PARTIAL_BY_IOC)\<rparr>)"
  define s2 where "s2 = (if n = 0 then s1 else record_event e a ((ticked s1)\<lparr>arg := a\<rparr>))"
  have "match_side e ?sd ?s0 = Some s2"
    using out(2) a1 by (simp add: run match_finish_def finish_cancel_eq s2_def a_def Let_def)
  moreover have "books_inv e s2" "stable e ?s0 s2"
    using inv1 by (simp_all add: s2_def)
  ultimately obtain s' where s': "submit (e, o1) s = Some s'" "same_books e s2 s'"
    using submit_outcome [OF inv o1(1)] o1(2) by auto
  have "trade_of a = trade_of a" "order_id a = next_id s" "remain_quantity a = n"
    "order_state a = (if n = quantity o1 then CANCELED_ALL_BY_IOC else CANCELED_PARTIAL_BY_IOC)"
    using a1 out(2) by (auto simp: a_def)
  then show ?thesis
    using s' out own new by (auto simp: same_books_def s2_def)
qed

theorem ioc_witness:
  "\<exists>s'. submit (0, buy_7_at_101\<lparr>time_condition := IOC, price := 100\<rparr>) asks_market = Some s'
     \<and> map quote_of (orders_of s' 0 BUY) = [(2, 101, 4)] \<and> orders_of s' 0 SELL = []"
  using ioc_never_rests [of 0 asks_market "buy_7_at_101\<lparr>time_condition := IOC, price := 100\<rparr>" "[(1, 100, 5)]" 2 "[(2, 101, 4)]"]
  by (auto simp: valid_new_def MARKET_PRICE_def LL_MAX_def side_cmp_def less_def)

text \<open>
  C4: a fill-or-kill order is filled completely, by exactly the fills a limit order would get, or it
  does nothing: both sides keep their orders, and the only report is its cancellation.
\<close>

theorem fok_all_or_nothing:
  assumes inv: "plain_inv e s" and o1: "valid_new o1" "time_condition o1 = FOK"
    and sw: "sweep (side_cmp (side o1)) (price o1) (quantity o1) (map quote_of (orders_of s e (side o1))) = (fs, n, qs)"
  shows "\<exists>s'. submit (e, o1) s = Some s' \<and> orders_of s' e (own_side (side o1)) = orders_of s e (own_side (side o1))
    \<and> (if n = 0 then map quote_of (orders_of s' e (side o1)) = qs
          \<and> map trade_of (log_of s' e) = map trade_of (log_of s e) @ reports (next_id s) fs
       else orders_of s' e (side o1) = orders_of s e (side o1)
          \<and> (\<exists>rep. log_of s' e = log_of s e @ [rep] \<and> order_id rep = next_id s
                \<and> order_state rep = CANCELED_BY_FOK \<and> remain_quantity rep = quantity o1))"
proof -
  let ?sd = "side o1" and ?s0 = "match_state e o1 s"
  note f = match_state_facts [OF inv, of o1]
  have sd: "two_sided ?sd"
    using o1(1) by (simp add: valid_new_def)
  have run: "match_side e ?sd ?s0 = fok_match (side_cmp ?sd) e ?sd Arg ?s0"
    using match_side_fok [OF sd, of ?s0] o1(2) by simp
  have sw0: "sweep (side_cmp ?sd) (price (arg ?s0)) (remain_quantity (arg ?s0)) (map quote_of (orders_of ?s0 e ?sd)) = (fs, n, qs)"
    using sw by (simp add: f)
  obtain it where it: "it_e it = Some e" "it_side it = ?sd"
    and c: "if n = 0 then \<exists>s'. fok_match (side_cmp ?sd) e ?sd Arg ?s0 = Some s' \<and> swept (side_cmp ?sd) e ?sd ?s0 s' \<and> mat_local s' e ?sd = it
     else fok_match (side_cmp ?sd) e ?sd Arg ?s0 = finish_cancel e Arg CANCELED_BY_FOK (set_mat_local e ?sd it ?s0)"
    using fok_match_cases [OF f(1) sd sw0] by blast
  show ?thesis
  proof (cases "n = 0")
    case True
    then obtain s1 where s1: "match_side e ?sd ?s0 = Some s1" "swept (side_cmp ?sd) e ?sd ?s0 s1" "mat_local s1 e ?sd = it"
      using c run by auto
    have r: "ran e ?s0 s1 1"
      using swept_ran(1) [OF f(1) sd s1(2)] s1(3) it by simp
    have p: "progress e ?sd ?s0 s1"
      using s1(2) by (simp add: swept_def)
    obtain s' where s': "submit (e, o1) s = Some s'" "same_books e s1 s'"
      using submit_outcome [OF inv o1(1) _ s1(1)] o1(2) r by (auto simp: ran_def)
    have "orders_of s1 e (own_side ?sd) = orders_of s e (own_side ?sd)"
      using wf_other(2) [OF p _ _ own_side_opposite] books_invD(1,2) [OF f(1) sd] by (simp add: f)
    moreover have "map quote_of (orders_of s1 e ?sd) = qs"
      "map trade_of (log_of s1 e) = map trade_of (log_of s e) @ reports (next_id s) fs"
      using s1(2) sw by (simp_all add: swept_def f)
    ultimately show ?thesis
      using s' True by (auto simp: same_books_def)
  next
    case False
    define s1 where "s1 = set_mat_local e ?sd it ?s0"
    define a where "a = stamp s1 ((arg s1)\<lparr>order_state := CANCELED_BY_FOK\<rparr>)"
    have inv1: "books_inv e s1"
      unfolding s1_def using f(1) sd it by (rule books_inv_set_mat_local)
    have m: "match_side e ?sd ?s0 = Some (record_event e a ((ticked s1)\<lparr>arg := a\<rparr>))"
      using c False run by (simp add: finish_cancel_eq s1_def a_def Let_def)
    obtain s' where s': "submit (e, o1) s = Some s'" "same_books e (record_event e a ((ticked s1)\<lparr>arg := a\<rparr>)) s'"
      using submit_outcome [OF inv o1(1) _ m] o1(2) inv1 by (auto simp: s1_def)
    have "order_id a = next_id s" "order_state a = CANCELED_BY_FOK" "remain_quantity a = quantity o1"
      by (simp_all add: a_def s1_def)
    moreover have "orders_of s1 e sd' = orders_of s e sd'" "log_of s1 e = log_of s e" for sd'
      by (simp_all add: s1_def f)
    ultimately show ?thesis
      using s' False by (auto simp: same_books_def)
  qed
qed

theorem fok_witness:
  "\<exists>s'. submit (0, buy_7_at_101\<lparr>time_condition := FOK, price := 100\<rparr>) asks_market = Some s'
     \<and> orders_of s' 0 BUY = [ask_5_at_100, ask_4_at_101]"
  using fok_all_or_nothing [of 0 asks_market "buy_7_at_101\<lparr>time_condition := FOK, price := 100\<rparr>" "[(1, 100, 5)]" 2 "[(2, 101, 4)]"]
  by (auto simp: valid_new_def MARKET_PRICE_def LL_MAX_def side_cmp_def less_def)

text \<open>
  C6: a maker-only order never trades. When its limit reaches the first order of the other
  side it is cancelled and reported so, and both sides keep their orders; otherwise it rests as it came.
\<close>

definition crosses :: "order \<Rightarrow> order list \<Rightarrow> bool" where
  "crosses o1 os = (case os of [] \<Rightarrow> False | m # _ \<Rightarrow> price o1 = MARKET_PRICE \<or> \<not> side_cmp (side o1) (price o1) (price m))"

theorem maker_only_never_takes:
  assumes inv: "plain_inv e s" and o1: "valid_new o1" "time_condition o1 = MAKER_ONLY" "price o1 \<noteq> MARKET_PRICE"
  shows "\<exists>s' rep. submit (e, o1) s = Some s' \<and> orders_of s' e (side o1) = orders_of s e (side o1)
    \<and> log_of s' e = log_of s e @ [rep] \<and> order_id rep = next_id s
    \<and> (if crosses o1 (orders_of s e (side o1))
       then order_state rep = CANCELED_BY_MAKER_ONLY
         \<and> orders_of s' e (own_side (side o1)) = orders_of s e (own_side (side o1))
       else order_state rep = OPEN
         \<and> orders_of s' e (own_side (side o1)) = queue_in (side_cmp (own_side (side o1))) (opened s o1)
              (orders_of s e (own_side (side o1))))"
proof -
  let ?sd = "side o1" and ?s0 = "match_state e o1 s"
  note f = match_state_facts [OF inv, of o1]
  have sd: "two_sided ?sd" and q: "quantity o1 \<noteq> 0"
    using o1(1) by (simp_all add: valid_new_def)
  obtain it where it: "matcher_reset e ?sd ?s0 = Some (set_mat_local e ?sd it ?s0)" "at_top ?s0 e ?sd it"
    "books_inv e (set_mat_local e ?sd it ?s0)"
    using matcher_reset_plain [OF f(1) sd] by blast
  define s1 where "s1 = set_mat_local e ?sd it ?s0"
  note inv' = books_invD [OF it(3) [folded s1_def] sd]
  have os: "orders_of s1 e sd' = orders_of s e sd'" "log_of s1 e = log_of s e" "arg s1 = opened s o1" "stable e ?s0 s1" for sd'
    by (simp_all add: s1_def f)
  have top: "at_top s1 e ?sd (mat_local s1 e ?sd)"
    using it(2) by (simp add: s1_def)
  note mt = matcher_top_local [OF inv'(1,2) top inv'(3)]
  have rest: "price m \<noteq> MARKET_PRICE" if "m \<in> set (orders_of s e ?sd)" for m
    using orders_of_slot(2) [OF inv'(1), of m] that by (simp add: os wf_resting_def)
  have run: "match_side e ?sd ?s0 = (match_loop (side_cmp ?sd) e ?sd Arg (other_tick ?sd (mini_tick (engs ?s0 e))) s1
      \<bind> (\<lambda>(ret, s2). if ret then Some s2 else match_finish e ?sd Arg s2))"
    using match_side_normal [OF sd, of ?s0] o1(2) it(1) by (simp add: normal_match_def s1_def)
  show ?thesis
  proof (cases "crosses o1 (orders_of s e ?sd)")
    case True
    then obtain m ms where m: "orders_of s e ?sd = m # ms" "\<not> side_cmp ?sd (price o1) (price m)"
      using o1(3) by (auto simp: crosses_def split: list.splits)
    define a where "a = stamp s1 ((opened s o1)\<lparr>order_state := CANCELED_BY_MAKER_ONLY\<rparr>)"
    have loop: "match_loop (side_cmp ?sd) e ?sd Arg tick s1 = Some (True, record_event e a ((ticked s1)\<lparr>arg := a\<rparr>))" for tick
      using mt [of "side_cmp ?sd"] m q rest [of m] o1(2,3)
      by (subst match_loop.simps) (simp add: os callback_eq a_def)
    then obtain s' where s': "submit (e, o1) s = Some s'" "same_books e (record_event e a ((ticked s1)\<lparr>arg := a\<rparr>)) s'"
      using submit_outcome [OF inv o1(1), of "record_event e a ((ticked s1)\<lparr>arg := a\<rparr>)"] o1(2) it(3) os(4) run
      by (auto simp: s1_def)
    have "order_id a = next_id s" "order_state a = CANCELED_BY_MAKER_ONLY"
      by (simp_all add: a_def)
    then show ?thesis
      using s' True os by (auto simp: same_books_def)
  next
    case False
    then have loop: "match_loop (side_cmp ?sd) e ?sd Arg tick s1 = Some (False, s1)" for tick
      using mt [of "side_cmp ?sd"] q rest o1(2,3)
      by (subst match_loop.simps) (auto simp: os crosses_def split: list.splits)
    have "wf_resting (own_side ?sd) (price (arg s1)) (order_id (arg s1)) (arg s1)"
      using q o1(3) sd by (simp add: wf_resting_def os)
    moreover have "slot s1 e (order_id (arg s1)) = None"
      using f(2) by (simp add: os s1_def)
    ultimately obtain s2 where s2: "finish_rest e ?sd Arg s1 = Some s2" "books_inv e s2" "rests e ?sd s1 s2"
      using finish_rest_plain [OF it(3) [folded s1_def] sd] by blast
    have m: "match_side e ?sd ?s0 = Some s2"
      using run loop s2(1) o1(2,3) q by (simp add: match_finish_def os)
    have "stable e ?s0 s2"
      using os(4) s2(3) stable_trans [of e ?s0 s1 s2] by (simp add: rests_def)
    then obtain s' where s': "submit (e, o1) s = Some s'" "same_books e s2 s'"
      using submit_outcome [OF inv o1(1) _ m s2(2)] o1(2) by auto
    have "order_id (arg s2) = next_id s" "order_state (arg s2) = OPEN"
      using s2(3) strip_eqD(1) [of "arg s2" "arg s1"] by (simp_all add: rests_def os) (simp add: opened_def)
    then show ?thesis
      using s' s2(3) False os by (auto simp: same_books_def rests_def)
  qed
qed

theorem maker_only_witness:
  "\<exists>s' rep. submit (0, buy_7_at_101\<lparr>time_condition := MAKER_ONLY\<rparr>) asks_market = Some s'
     \<and> log_of s' 0 = [rep] \<and> order_state rep = CANCELED_BY_MAKER_ONLY"
  using maker_only_never_takes [of 0 asks_market "buy_7_at_101\<lparr>time_condition := MAKER_ONLY\<rparr>"]
  by (auto simp: valid_new_def MARKET_PRICE_def LL_MAX_def side_cmp_def less_def crosses_def ask_5_at_100_def new_order_def)

end
