(* ===== verification/Cancel_Amend.thy ===== *)
theory Cancel_Amend
  imports Example_Market
begin

text \<open>
  Calls of \<open>handle\<close> that cancel, amend or are turned down, on an engine that satisfies \<open>plain_inv\<close>:
  what they report and what they leave on the books.
\<close>

definition locked :: "nat \<Rightarrow> order \<Rightarrow> sys \<Rightarrow> sys" where
  "locked e o1 s = (upd_eng e (\<lambda>x. x\<lparr>mutex := True\<rparr>) s)\<lparr>arg := o1\<rparr>"

lemma locked_facts:
  assumes "plain_inv e s"
  shows "books_inv e (locked e o1 s)" "fresh e (locked e o1 s)" "orders_of (locked e o1 s) e sd = orders_of s e sd"
    "slot (locked e o1 s) e j = slot s e j" "log_of (locked e o1 s) e = log_of s e" "arg (locked e o1 s) = o1"
    "ids (locked e o1 s) = ids s"
  using assms by (simp_all add: locked_def plain_inv_def orders_of_def slot_def walked_def log_of_def)

lemma submit_dispatch:
  assumes inv: "plain_inv e s" and tc: "time_condition o1 \<noteq> AUCTION"
    and d: "dispatch e (locked e o1 s) = Some s3" "stable e (locked e o1 s) s3"
  shows "submit (e, o1) s = Some (upd_eng e (\<lambda>x. x\<lparr>mutex := False\<rparr>) s3)"
proof -
  have lock: "lock e (s\<lparr>arg := o1\<rparr>) = Some (locked e o1 s)"
    using inv by (auto simp: lock_def plain_inv_def locked_def intro!: sys.equality)
  have "\<not> is_auction (engs s3 e)" "mutex_set (engs s3 e) = [e]"
    using stableD(2,7) [OF d(2)] inv by (simp_all add: locked_def plain_inv_def)
  then show ?thesis
    using lock d(1) tc inv by (simp add: submit_def handle_def finish_auction_def unlock_def locked_def)
qed

lemma unlocked_books [simp]:
  "orders_of (upd_eng e (\<lambda>x. x\<lparr>mutex := b\<rparr>) s) e sd = orders_of s e sd"
  "slot (upd_eng e (\<lambda>x. x\<lparr>mutex := b\<rparr>) s) e j = slot s e j"
  "log_of (upd_eng e (\<lambda>x. x\<lparr>mutex := b\<rparr>) s) e = log_of s e"
  by (simp_all add: orders_of_def slot_def walked_def log_of_def)

section \<open>Properties\<close>

text \<open>
  C7: cancelling an order that rests reports it once, as cancelled by its user, takes exactly it
  off its book and out of the map, and leaves every other order where it is; an id that is not there is
  reported and changes nothing.
\<close>

theorem cancel_removes_exactly:
  assumes inv: "plain_inv e s" and o1: "order_action o1 = CANCEL" "time_condition o1 \<noteq> AUCTION"
  shows "\<exists>s' rep. submit (e, o1) s = Some s' \<and> log_of s' e = log_of s e @ [rep] \<and> order_id rep = order_id o1
    \<and> (case slot s e (order_id o1) of
         None \<Rightarrow> order_state rep = REJECT_CANCEL_ORDER_ID_NOT_FOUND
           \<and> orders_of s' e BUY = orders_of s e BUY \<and> orders_of s' e SELL = orders_of s e SELL
           \<and> (\<forall>j. slot s' e j = slot s e j)
       | Some m \<Rightarrow> order_state rep = CANCELED_BY_USER \<and> remain_quantity rep = remain_quantity m
           \<and> orders_of s' e BUY = filter (\<lambda>x. order_id x \<noteq> order_id o1) (orders_of s e BUY)
           \<and> orders_of s' e SELL = filter (\<lambda>x. order_id x \<noteq> order_id o1) (orders_of s e SELL)
           \<and> (\<forall>j. slot s' e j = (if j = order_id o1 then None else slot s e j)))"
proof -
  let ?s0 = "locked e o1 s"
  note f = locked_facts [OF inv, of o1]
  show ?thesis
  proof (cases "slot s e (order_id o1)")
    case None
    define a where "a = stamp ?s0 (o1\<lparr>remain_quantity := 0, order_state := REJECT_CANCEL_ORDER_ID_NOT_FOUND\<rparr>)"
    define s3 where "s3 = record_event e a ((ticked ?s0)\<lparr>arg := a\<rparr>)"
    have d: "dispatch e ?s0 = Some s3" "stable e ?s0 s3"
      using None o1(1) by (simp_all add: dispatch_def handle_cancel_def upd_arg_def callback_eq f s3_def a_def)
    have "order_id a = order_id o1" "order_state a = REJECT_CANCEL_ORDER_ID_NOT_FOUND"
      by (simp_all add: a_def)
    then show ?thesis
      using submit_dispatch [OF inv o1(2) d] None by (simp add: s3_def f)
  next
    case (Some m)
    then have m: "slot ?s0 e (order_id (arg ?s0)) = Some m" "order_action (arg ?s0) \<in> {CANCEL, AMEND}"
      using o1(1) by (simp_all add: f)
    define rep where "rep = stamp ?s0 (cancel_state (order_action (arg ?s0)) m)"
    obtain s3 where s3: "handle_cancel e ?s0 = Some (True, s3)"
      "\<forall>sd. two_sided sd \<longrightarrow> orders_of s3 e sd = filter (\<lambda>x. order_id x \<noteq> order_id (arg ?s0)) (orders_of ?s0 e sd)"
      "\<forall>j. slot s3 e j = (if j = order_id (arg ?s0) then None else slot ?s0 e j)"
      "stable e ?s0 s3" "log_of s3 e = log_of ?s0 e @ [rep]"
      using handle_cancel_plain [OF f(1) m] unfolding rep_def by blast
    have d: "dispatch e ?s0 = Some s3"
      using s3(1) o1(1) by (simp add: dispatch_def f)
    obtain sd where "order_id m = order_id o1"
      using slot_two_sided [OF f(1) m(1)] by (auto simp: f)
    then have "order_id rep = order_id o1" "order_state rep = CANCELED_BY_USER" "remain_quantity rep = remain_quantity m"
      using o1(1) by (simp_all add: rep_def f cancel_state_def)
    then show ?thesis
      using submit_dispatch [OF inv o1(2) d s3(4)] s3(2,3,5) Some by (simp add: f)
  qed
qed

theorem cancel_witness:
  "\<exists>s'. submit (0, new_order\<lparr>order_action := CANCEL, order_id := 1\<rparr>) asks_market = Some s'
     \<and> orders_of s' 0 BUY = [ask_4_at_101]"
  using cancel_removes_exactly [of 0 asks_market "new_order\<lparr>order_action := CANCEL, order_id := 1\<rparr>"]
  by (simp add: new_order_def) (auto simp: ask_5_at_100_def ask_4_at_101_def new_order_def)

text \<open>
  C8: an amendment that only lowers the quantity keeps the order's place: no other order is
  touched, the queues have the same prices and ids in the same order, and the amended order has the new
  quantity to trade and is reported once.
\<close>

theorem amend_keeps_priority:
  assumes inv: "plain_inv e s" and o1: "order_action o1 = AMEND" "time_condition o1 \<noteq> AUCTION"
      "quantity o1 \<noteq> 0" "display_quantity o1 \<le> quantity o1"
    and m: "slot s e (order_id o1) = Some m" and can: "can_amend o1 (m\<lparr>order_action := AMEND\<rparr>)"
  shows "\<exists>s' rep. submit (e, o1) s = Some s' \<and> log_of s' e = log_of s e @ [rep]
    \<and> order_id rep = order_id o1 \<and> quantity rep = quantity o1 \<and> remain_quantity rep = quantity o1
    \<and> remain_quantity rep \<le> remain_quantity m \<and> price rep = price m
    \<and> (\<forall>sd. two_sided sd \<longrightarrow>
         orders_of s' e sd = map (\<lambda>x. if order_id x = order_id o1 then rep else x) (orders_of s e sd))
    \<and> slot s' e (order_id o1) = Some rep"
proof -
  let ?s0 = "locked e o1 s"
  note f = locked_facts [OF inv, of o1]
  have m0: "slot ?s0 e (order_id o1) = Some m"
    using m by (simp add: f)
  define rep where "rep = stamp ?s0 (m\<lparr>order_action := AMEND, quantity := quantity o1,
    display_quantity := display_quantity o1, remain_quantity := quantity o1, request_id := request_id o1\<rparr>)"
  define s3 where "s3 = record_event e rep (ticked (put_slot e (order_id o1) rep ?s0))"
  have id: "order_id m = order_id o1"
    using slot_two_sided [OF f(1) m0] by metis
  have rep: "order_id rep = order_id m" "price rep = price m" "side rep = side m" "remain_quantity rep \<noteq> 0"
    "quantity rep = quantity o1" "remain_quantity rep = quantity o1"
    using o1(3) by (simp_all add: rep_def)
  have "handle_amend e ?s0 = Some s3"
    using o1(1,3) leD [OF o1(4)] m0 can by (simp add: handle_amend_def f Let_def callback_eq s3_def) (simp add: rep_def)
  then have d: "dispatch e ?s0 = Some s3"
    using o1(1) by (simp add: dispatch_def f)
  have st: "stable e ?s0 s3"
    by (simp add: s3_def)
  have le: "quantity o1 \<le> remain_quantity m"
    using can_amend_quantity [OF can] by simp
  have "orders_of s3 e sd = map (\<lambda>x. if order_id x = order_id o1 then rep else x) (orders_of s e sd)" if "two_sided sd" for sd
    using put_slot_inv(2) [OF f(1) m0 rep(1-4) that] by (simp add: s3_def f)
  then show ?thesis
    using submit_dispatch [OF inv o1(2) d st] rep le id
    by (intro exI [of _ "upd_eng e (\<lambda>x. x\<lparr>mutex := False\<rparr>) s3"] exI [of _ rep]) (simp add: s3_def f)
qed

definition amend_1_to_3 :: order where
  "amend_1_to_3 = new_order\<lparr>order_action := AMEND, order_id := 1, side := SELL, price := 100, quantity := 3\<rparr>"

lemma amend_1_simps [simp]:
  "order_action amend_1_to_3 = AMEND" "order_id amend_1_to_3 = 1" "quantity amend_1_to_3 = 3"
  "time_condition amend_1_to_3 = GTC" "display_quantity amend_1_to_3 = 0"
  "can_amend amend_1_to_3 (ask_5_at_100\<lparr>order_action := AMEND\<rparr>)"
  "order_id ask_5_at_100 = 1" "order_id ask_4_at_101 = 2" "price ask_5_at_100 = 100"
  by (simp_all add: amend_1_to_3_def ask_5_at_100_def ask_4_at_101_def new_order_def can_amend_def get_flag_value_def)

theorem amend_witness:
  "\<exists>s'. submit (0, amend_1_to_3) asks_market = Some s' \<and> map quote_of (orders_of s' 0 BUY) = [(1, 100, 3), (2, 101, 4)]"
  using amend_keeps_priority [of 0 asks_market amend_1_to_3 ask_5_at_100]
  by (auto simp: quote_of_def) (auto simp: ask_4_at_101_def new_order_def)

text \<open>
  C9: a new order that is empty, shows more than it has, or is a limit order without a limit is
  turned down: one report with the reason and nothing left to trade, and the books stay as they are.
\<close>

definition new_order_error :: "order \<Rightarrow> order_status_type option" where
  "new_order_error o1 =
     (if quantity o1 = 0 then Some REJECT_QUANTITY_ZERO
      else if display_quantity o1 > quantity o1 then Some REJECT_DISPLAY_QUANTITY_LARGER_THAN_QUANTITY
      else if order_kind o1 \<noteq> MARKET \<and> price o1 = MARKET_PRICE then Some REJECT_LIMITE_ORDER_WITH_MARKET_PRICE
      else None)"

theorem bad_order_rejected:
  assumes inv: "plain_inv e s" and o1: "order_action o1 = NEW" "two_sided (side o1)" "time_condition o1 \<noteq> AUCTION"
    and err: "new_order_error o1 = Some st"
  shows "\<exists>s' rep. submit (e, o1) s = Some s' \<and> log_of s' e = log_of s e @ [rep]
    \<and> order_state rep = st \<and> remain_quantity rep = 0
    \<and> orders_of s' e BUY = orders_of s e BUY \<and> orders_of s' e SELL = orders_of s e SELL
    \<and> (\<forall>j. slot s' e j = slot s e j)"
proof -
  let ?s0 = "locked e o1 s"
  note f = locked_facts [OF inv, of o1]
  have rej: "\<exists>a. reject e st s1 = Some (record_event e a ((ticked s1)\<lparr>arg := a\<rparr>)) \<and> order_state a = st \<and> remain_quantity a = 0" for s1
    by (auto simp: reject_def upd_arg_def callback_eq)
  define s1 where "s1 = upd_arg (\<lambda>o1. o1\<lparr>order_id := 0\<rparr>) ?s0"
  have arg1: "arg s1 = o1\<lparr>order_id := 0\<rparr>"
    by (simp add: s1_def upd_arg_def f)
  have init1: "order_kind (arg (init_new_order s1)) = order_kind o1" "price (arg (init_new_order s1)) = price o1"
    by (simp_all add: init_new_order_def get_id_eq upd_arg_def arg1 Let_def)
  have new1: "dispatch e ?s0 = handle_new e ?s0" "order_action (arg ?s0) = NEW"
    using o1(1) by (simp_all add: dispatch_def f)
  have "\<exists>s2. dispatch e ?s0 = reject e st s2 \<and> (s2 = s1 \<or> s2 = init_new_order s1)"
    using err o1(2)
    by (auto simp: new1 handle_new_def s1_def [symmetric] arg1 init1 new_order_error_def new_buy_def new_sell_def
        Let_def not_less split: if_splits)
  then obtain s2 where s2: "dispatch e ?s0 = reject e st s2" "s2 = s1 \<or> s2 = init_new_order s1"
    by blast
  have same: "orders_of s2 e sd = orders_of s e sd" "slot s2 e j = slot s e j" "log_of s2 e = log_of s e" "stable e ?s0 s2" for sd j
    using s2(2) by (auto simp: s1_def init_new_order_def upd_arg_def get_id_eq f)
  obtain a where a: "reject e st s2 = Some (record_event e a ((ticked s2)\<lparr>arg := a\<rparr>))" "order_state a = st" "remain_quantity a = 0"
    using rej by blast
  have st: "stable e ?s0 (record_event e a ((ticked s2)\<lparr>arg := a\<rparr>))"
    using same(4) by simp
  show ?thesis
    using submit_dispatch [OF inv o1(3) _ st] s2(1) a same(1-3) by simp
qed

theorem reject_witness:
  "\<exists>s' rep. submit (0, new_order) asks_market = Some s' \<and> log_of s' 0 = [rep] \<and> order_state rep = REJECT_QUANTITY_ZERO"
  using bad_order_rejected [of 0 asks_market new_order REJECT_QUANTITY_ZERO]
  by (auto simp: new_order_def new_order_error_def)

end
