(* ===== verification/Implied_Orders.thy ===== *)
theory Implied_Orders
  imports Matching
begin

text \<open>
  The classes of implied orders (\<open>matching/inc/matching/implied_*.hpp\<close> over \<open>implier_base.hpp\<close>): each fixes
  the books its two legs walk and the price function it inherits. \<open>implier\<close> is a virtual base, so the
  pips are those the most derived class passes; a class has a constructor without pips, for which they
  are 0 (and the factor 1).

  The properties: what an implied price is, in terms of the legs, and that the two implied prices a
  synthetic instrument gets from the same legs do not cross when the legs' own books do not.
\<close>

section \<open>Classes\<close>

text \<open>\<open>matching::implier_base\<close> hands everything on.\<close>

definition matching_implier_base ::
    "sys \<Rightarrow> u64 \<Rightarrow> nat \<Rightarrow> nat \<Rightarrow> order_side \<Rightarrow> order_side \<Rightarrow> implier \<Rightarrow> implier_obj option" where
  "matching_implier_base s priority leg1_e leg2_e leg1_side leg2_side kind =
     new_implier_base s priority leg1_e leg2_e leg1_side leg2_side kind"

text \<open>Constructors with a commission, and without.\<close>

type_synonym spread_ctor = "sys \<Rightarrow> u64 \<Rightarrow> nat \<Rightarrow> nat \<Rightarrow> ll \<Rightarrow> implier_obj option"

type_synonym free_ctor = "sys \<Rightarrow> u64 \<Rightarrow> nat \<Rightarrow> nat \<Rightarrow> implier_obj option"

definition implied_spread_in_ask :: spread_ctor where
  "implied_spread_in_ask s priority leg1_e leg2_e pips =
     matching_implier_base s priority leg1_e leg2_e BUY SELL (Minus_Ask pips)"

definition implied_spread_in_ask_free :: free_ctor where
  "implied_spread_in_ask_free s priority leg1_e leg2_e =
     matching_implier_base s priority leg1_e leg2_e BUY SELL (Minus_Ask 0)"

definition implied_spread_in_bid :: spread_ctor where
  "implied_spread_in_bid s priority leg1_e leg2_e pips =
     matching_implier_base s priority leg1_e leg2_e SELL BUY (Minus_Bid pips)"

definition implied_spread_in_bid_free :: free_ctor where
  "implied_spread_in_bid_free s priority leg1_e leg2_e =
     matching_implier_base s priority leg1_e leg2_e SELL BUY (Minus_Bid 0)"

definition implied_spread_a_out_ask :: spread_ctor where
  "implied_spread_a_out_ask s priority leg1_e leg2_e pips =
     matching_implier_base s priority leg1_e leg2_e BUY BUY (Add_Ask pips)"

definition implied_spread_a_out_ask_free :: free_ctor where
  "implied_spread_a_out_ask_free s priority leg1_e leg2_e =
     matching_implier_base s priority leg1_e leg2_e BUY BUY (Add_Ask 0)"

definition implied_spread_a_out_bid :: spread_ctor where
  "implied_spread_a_out_bid s priority leg1_e leg2_e pips =
     matching_implier_base s priority leg1_e leg2_e SELL SELL (Add_Bid pips)"

definition implied_spread_a_out_bid_free :: free_ctor where
  "implied_spread_a_out_bid_free s priority leg1_e leg2_e =
     matching_implier_base s priority leg1_e leg2_e SELL SELL (Add_Bid 0)"

definition implied_spread_b_out_ask :: spread_ctor where
  "implied_spread_b_out_ask s priority leg1_e leg2_e pips =
     matching_implier_base s priority leg1_e leg2_e BUY SELL (Minus_Ask pips)"

definition implied_spread_b_out_ask_free :: free_ctor where
  "implied_spread_b_out_ask_free s priority leg1_e leg2_e =
     matching_implier_base s priority leg1_e leg2_e BUY SELL (Minus_Ask 0)"

definition implied_spread_b_out_bid :: spread_ctor where
  "implied_spread_b_out_bid s priority leg1_e leg2_e pips =
     matching_implier_base s priority leg1_e leg2_e SELL BUY (Minus_Bid pips)"

definition implied_spread_b_out_bid_free :: free_ctor where
  "implied_spread_b_out_bid_free s priority leg1_e leg2_e =
     matching_implier_base s priority leg1_e leg2_e SELL BUY (Minus_Bid 0)"

definition implied_repo_out_ask :: "sys \<Rightarrow> u64 \<Rightarrow> nat \<Rightarrow> nat \<Rightarrow> ll \<Rightarrow> u64 \<Rightarrow> implier_obj option" where
  "implied_repo_out_ask s priority leg1_e leg2_e pips factor =
     matching_implier_base s priority leg1_e leg2_e BUY BUY (Repo_Out_Ask pips factor)"

definition implied_repo_out_ask_free :: free_ctor where
  "implied_repo_out_ask_free s priority leg1_e leg2_e =
     matching_implier_base s priority leg1_e leg2_e BUY BUY (Repo_Out_Ask 0 1)"

definition implied_repo_out_bid :: "sys \<Rightarrow> u64 \<Rightarrow> nat \<Rightarrow> nat \<Rightarrow> ll \<Rightarrow> u64 \<Rightarrow> implier_obj option" where
  "implied_repo_out_bid s priority leg1_e leg2_e pips factor =
     matching_implier_base s priority leg1_e leg2_e SELL SELL (Repo_Out_Bid pips factor)"

definition implied_repo_out_bid_free :: free_ctor where
  "implied_repo_out_bid_free s priority leg1_e leg2_e =
     matching_implier_base s priority leg1_e leg2_e SELL SELL (Repo_Out_Bid 0 1)"

lemmas implied_ctor_defs = implied_spread_in_ask_def implied_spread_in_bid_def implied_spread_a_out_ask_def
  implied_spread_a_out_bid_def implied_spread_b_out_ask_def implied_spread_b_out_bid_def
  implied_repo_out_ask_def implied_repo_out_bid_def matching_implier_base_def

section \<open>From a constructor to a price\<close>

text \<open>The price an implier of a kind has on two books, by the first orders of each.\<close>

definition price_from :: "implier \<Rightarrow> ll \<Rightarrow> order list \<Rightarrow> order list \<Rightarrow> ll option" where
  "price_from kind tick os1 os2 =
     (case (os1, os2) of (m1 # _, m2 # _) \<Rightarrow> matchd_price kind (price m1) (price m2) tick | _ \<Rightarrow> Some MARKET_PRICE)"

lemma at_top_order:
  assumes "wf_side s e sd" "at_top s e sd it"
  shows "it_valid it \<longleftrightarrow> orders_of s e sd \<noteq> []"
    "orders_of s e sd = m # ms \<Longrightarrow> it_order s it = Some m"
proof -
  show "it_valid it \<longleftrightarrow> orders_of s e sd \<noteq> []"
    using assms(2) by (auto simp: at_top_def it_valid_def split: list.splits)
  assume m: "orders_of s e sd = m # ms"
  obtain ids ls where b: "walked (engs s e) sd = (price m, order_id m # ids) # ls" "slot s e (order_id m) = Some m"
    using top_level [OF assms(1) m] by metis
  have pos: "it_e it = Some e" "it_side it = sd" "it_pos it = Some (price m, order_id m)"
    using assms(2) m by (simp_all add: at_top_def)
  show "it_order s it = Some m"
    using b pos by (auto simp: it_order_def it_deref_def it_book_def)
qed

lemma implied_price_new:
  assumes wf: "wf_side s e1 sd1" "wf_side s e2 sd2"
    and imp: "new_implier_base s prio e1 e2 sd1 sd2 kind = Some (imps s a)"
  shows "implied_price s e a = price_from kind (mini_tick (engs s e)) (orders_of s e1 sd1) (orders_of s e2 sd2)"
proof -
  let ?it = "\<lambda>e sd. \<lparr>it_e = Some e, it_side = sd, it_pos = None, it_remain = 0\<rparr>"
  obtain l1 l2 where l: "new_iter s e1 sd1 = Some l1" "at_top s e1 sd1 l1" "new_iter s e2 sd2 = Some l2" "at_top s e2 sd2 l2"
    using iter_reset_top [OF wf(1), of "?it e1 sd1"] iter_reset_top [OF wf(2), of "?it e2 sd2"] by (auto simp: new_iter_def)
  then have "imps s a = \<lparr>imp_priority = prio, imp_kind = kind, imp_leg1 = l1, imp_leg2 = l2\<rparr>"
    using imp by (simp add: new_implier_base_def)
  then have i: "imp_leg1 (imps s a) = l1" "imp_leg2 (imps s a) = l2" "imp_kind (imps s a) = kind"
    by simp_all
  show ?thesis
  proof (cases "orders_of s e1 sd1 = [] \<or> orders_of s e2 sd2 = []")
    case True
    then show ?thesis
      using at_top_order(1) [OF wf(1) l(2)] at_top_order(1) [OF wf(2) l(4)] i
      by (auto simp: implied_price_def price_from_def Let_def split: list.splits)
  next
    case False
    then obtain m1 r1 m2 r2 where m: "orders_of s e1 sd1 = m1 # r1" "orders_of s e2 sd2 = m2 # r2"
      by (meson neq_Nil_conv)
    then show ?thesis
      using at_top_order(1) [OF wf(1) l(2)] at_top_order(1) [OF wf(2) l(4)]
        at_top_order(2) [OF wf(1) l(2) m(1)] at_top_order(2) [OF wf(2) l(4) m(2)] i
      by (simp add: implied_price_def price_from_def Let_def)
  qed
qed

section \<open>Properties\<close>

text \<open>
  C12: the price that an implier of a sum or a difference of two legs (\<open>Add_Ask\<close>, \<open>Add_Bid\<close>, \<open>Minus_Ask\<close>,
  \<open>Minus_Bid\<close>) gives, on legs of at most 49 bits with a commission of at most 100%, is a multiple of the tick; an ask
  is the first one that pays for the sum or difference of the legs and both commissions, a bid the last one that
  the legs, less the commissions, pay for. The repo impliers are not meant: a repo ask may lie below its fair
  price (\<open>repo_ask_below_fair_price\<close>).
\<close>

theorem implied_prices_cover_commissions:
  assumes "quote_range pips l1 l2 t"
  shows "(\<exists>p. matchd_price (Add_Ask pips) l1 l2 t = Some p \<and> t dvd p
      \<and> l1 + l2 + commission l1 pips + commission l2 pips \<le> p \<and> p < l1 + l2 + commission l1 pips + commission l2 pips + t)
    \<and> (\<exists>p. matchd_price (Add_Bid pips) l1 l2 t = Some p \<and> t dvd p
      \<and> p \<le> l1 + l2 - commission l1 pips - commission l2 pips \<and> l1 + l2 - commission l1 pips - commission l2 pips < p + t)
    \<and> (\<exists>p. matchd_price (Minus_Ask pips) l1 l2 t = Some p \<and> t dvd p
      \<and> l1 - l2 + commission l1 pips + commission l2 pips \<le> p \<and> p < l1 - l2 + commission l1 pips + commission l2 pips + t)
    \<and> (\<exists>p. matchd_price (Minus_Bid pips) l1 l2 t = Some p \<and> t dvd p
      \<and> p \<le> l1 - l2 - commission l1 pips - commission l2 pips \<and> l1 - l2 - commission l1 pips - commission l2 pips < p + t)"
  using add_q.ask.ask_covers [OF assms] add_q.bid.bid_covered [OF assms]
    minus_q.ask.ask_covers [OF assms] minus_q.bid.bid_covered [OF assms] by simp_all

theorem implied_prices_cover_commissions_witness:
  "(\<exists>p. matchd_price (Add_Ask 10) 1003 2000 5 = Some p \<and> 5 dvd p \<and> 3006 \<le> p \<and> p < 3011)
   \<and> (\<exists>p. matchd_price (Minus_Bid 10) 1003 2000 5 = Some p \<and> 5 dvd p \<and> p \<le> - 1000 \<and> - 1000 < p + 5)"
proof -
  have r: "quote_range 10 1003 2000 5" and c: "commission 1003 10 = 1" "commission 2000 10 = 2"
    by (simp_all add: quote_range_def commission_def)
  show ?thesis
    using implied_prices_cover_commissions [OF r] by (auto simp: c)
qed

text \<open>
  C11: the ask and the bid implied from the same two legs, in any of the three kinds of spread,
  do not cross as long as neither leg's own book is crossed.
\<close>

definition spread_ctors :: "(spread_ctor \<times> spread_ctor) set" where
  "spread_ctors = {(implied_spread_in_ask, implied_spread_in_bid), (implied_spread_a_out_ask, implied_spread_a_out_bid),
     (implied_spread_b_out_ask, implied_spread_b_out_bid)}"

theorem implied_quotes_do_not_cross:
  assumes ctor: "(ask_ctor, bid_ctor) \<in> spread_ctors"
    and imp: "ask_ctor s p1 e1 e2 pips = Some (imps s a)" "bid_ctor s p2 e1 e2 pips = Some (imps s b)"
    and wf: "wf_side s e1 BUY" "wf_side s e1 SELL" "wf_side s e2 BUY" "wf_side s e2 SELL"
    and top: "orders_of s e1 BUY = a1 # as1" "orders_of s e1 SELL = b1 # bs1"
      "orders_of s e2 BUY = a2 # as2" "orders_of s e2 SELL = b2 # bs2"
    and uncrossed: "price b1 \<le> price a1" "price b2 \<le> price a2"
    and range: "\<forall>l1 \<in> {price a1, price b1}. \<forall>l2 \<in> {price a2, price b2}. quote_range pips l1 l2 (mini_tick (engs s e))"
  shows "\<exists>pa pb. implied_price s e a = Some pa \<and> implied_price s e b = Some pb \<and> pb \<le> pa"
proof -
  let ?t = "mini_tick (engs s e)"
  note r = range [rule_format]
  note prices = implied_price_new [OF wf(1,3)] implied_price_new [OF wf(1,4)] implied_price_new [OF wf(2,4)] implied_price_new [OF wf(2,3)]
  consider "(ask_ctor, bid_ctor) = (implied_spread_a_out_ask, implied_spread_a_out_bid)"
    | "(ask_ctor, bid_ctor) \<in> {(implied_spread_in_ask, implied_spread_in_bid), (implied_spread_b_out_ask, implied_spread_b_out_bid)}"
    using ctor by (auto simp: spread_ctors_def)
  then show ?thesis
  proof cases
    case 1
    then have "implied_price s e a = add_ask_matchd_price pips (price a1) (price a2) ?t"
      "implied_price s e b = add_bid_matchd_price pips (price b1) (price b2) ?t"
      using imp prices(1,3) top by (simp_all add: implied_ctor_defs price_from_def)
    then show ?thesis
      using add_q.not_crossed [OF r r, of "price a1" "price a2" "price b1" "price b2"] uncrossed by simp
  next
    case 2
    then have "implied_price s e a = minus_ask_matchd_price pips (price a1) (price b2) ?t"
      "implied_price s e b = minus_bid_matchd_price pips (price b1) (price a2) ?t"
      using imp prices(2,4) top by (auto simp: implied_ctor_defs price_from_def)
    then show ?thesis
      using minus_q.not_crossed [OF r r, of "price a1" "price b2" "price b1" "price a2"] uncrossed by simp
  qed
qed

text \<open>Two legs, each with a bid at 99 and an ask at 100, and the pair of implied orders on them.\<close>

definition leg_order :: "u64 \<Rightarrow> order_side \<Rightarrow> ll \<Rightarrow> order" where
  "leg_order oid sd px = new_order\<lparr>order_id := oid, side := sd, price := px, quantity := 5, remain_quantity := 5\<rparr>"

definition leg_engine :: "nat \<Rightarrow> engine" where
  "leg_engine e = (new_engine e 1)\<lparr>odr_map := [(1, leg_order 1 SELL 100), (2, leg_order 2 BUY 99)],
     ask_book := [(100, [1])], bid_book := [(99, [2])]\<rparr>"

definition leg_iter :: "nat \<Rightarrow> order_side \<Rightarrow> iter" where
  "leg_iter e sd = \<lparr>it_e = Some e, it_side = sd, it_pos = Some (if sd = BUY then (100, 1) else (99, 2)), it_remain = 5\<rparr>"

definition pair_market :: sys where
  "pair_market = (init_sys (\<lambda>_. (0, 0)) 3 1)
     \<lparr>engs := (\<lambda>e. if e \<in> {1, 2} then leg_engine e else new_engine e 1),
      imps := (\<lambda>a. if a = 0 then \<lparr>imp_priority = 1, imp_kind = Add_Ask 10, imp_leg1 = leg_iter 1 BUY, imp_leg2 = leg_iter 2 BUY\<rparr>
                 else \<lparr>imp_priority = 1, imp_kind = Add_Bid 10, imp_leg1 = leg_iter 1 SELL, imp_leg2 = leg_iter 2 SELL\<rparr>)\<rparr>"

lemmas pair_defs = pair_market_def leg_engine_def leg_order_def leg_iter_def new_engine_def new_order_def

lemma pair_slot: "e \<in> {1, 2} \<Longrightarrow> slot pair_market e j
    = (if j = 1 then Some (leg_order 1 SELL 100) else if j = 2 then Some (leg_order 2 BUY 99) else None)"
  by (auto simp: slot_def pair_market_def leg_engine_def)

lemma pair_walked: "e \<in> {1, 2} \<Longrightarrow> walked (engs pair_market e) sd = (if sd = BUY then [(100, [1])] else [(99, [2])])"
  by (auto simp: walked_def pair_market_def leg_engine_def)

lemma pair_legs:
  assumes "e \<in> {1, 2}"
  shows "wf_side pair_market e BUY" "wf_side pair_market e SELL"
    "orders_of pair_market e BUY = [leg_order 1 SELL 100]" "orders_of pair_market e SELL = [leg_order 2 BUY 99]"
  by (simp_all add: wf_side_def wf_book_def pair_walked [OF assms] pair_slot [OF assms] orders_of_def book_ids_def)
     (simp_all add: wf_resting_def leg_order_def new_order_def own_side_def MARKET_PRICE_def LL_MAX_def)

lemma pair_iter: "e \<in> {1, 2} \<Longrightarrow> sd = BUY \<or> sd = SELL \<Longrightarrow> new_iter pair_market e sd = Some (leg_iter e sd)"
  by (auto simp: new_iter_def iter_reset_def it_book_def it_load_def pair_slot pair_walked)
     (simp_all add: leg_iter_def leg_order_def)

theorem implied_quotes_do_not_cross_witness:
  "\<exists>pa pb. implied_price pair_market 0 0 = Some pa \<and> implied_price pair_market 0 1 = Some pb \<and> pb \<le> pa"
proof -
  have imp: "implied_spread_a_out_ask pair_market 1 1 2 10 = Some (imps pair_market 0)"
    "implied_spread_a_out_bid pair_market 1 1 2 10 = Some (imps pair_market 1)"
    by (simp_all add: implied_spread_a_out_ask_def implied_spread_a_out_bid_def matching_implier_base_def new_implier_base_def pair_iter)
       (simp_all add: pair_market_def)
  have "price (leg_order 1 SELL 100) = 100" "price (leg_order 2 BUY 99) = 99" "mini_tick (engs pair_market 0) = 1"
    by (simp_all add: pair_defs)
  then show ?thesis
    using implied_quotes_do_not_cross [of implied_spread_a_out_ask implied_spread_a_out_bid pair_market 1 1 2 10 0 1 1
        "leg_order 1 SELL 100" "[]" "leg_order 2 BUY 99" "[]" "leg_order 1 SELL 100" "[]" "leg_order 2 BUY 99" "[]" 0] imp
    by (simp add: spread_ctors_def quote_range_def pair_legs)
qed

section \<open>Two behaviours of the code\<close>

text \<open>
  The repo ask converts the \<open>double\<close> to an integer before it rounds up, and rounding an integer up to 1
  does nothing: with a factor of 2, a leg at 3 and a rate of 1 the fair price is 4.5 and the ask 4.
\<close>

lemma repo_ask_below_fair_price:
  "repo_out_ask_matchd_price 0 2 3 1 1 = Some 4" "repo_rate_price 2 3 1 = Some (9 / 2)"
  by code_simp+

text \<open>An implier whose legs' books are empty when it is set does not have its legs' engines locked later.\<close>

lemma empty_legs_not_locked:
  assumes "map_of (mat_impliers s e sd) (imp_priority (imps s a)) = None"
    and "\<not> it_valid (imp_leg1 (imps s a))" "\<not> it_valid (imp_leg2 (imps s a))"
  shows "mutex_set (engs (set_implier e sd a s) e) = mutex_set (engs s e)"
  using assms by (simp add: set_implier_def unset_implier_def leg_mutex_def Let_def set_mat_impliers_def)

end
