(* ===== verification/Md_Levels.thy ===== *)
theory Md_Levels
  imports Book
begin

text \<open>
  The price levels of a market-data book (\<open>md/inc/md/book_item.hpp\<close> and the four quantity functions of
  \<open>md/src/basic_book.cpp\<close>). A side is a \<open>std::map\<close> from prices to \<open>book_item\<close>s, kept as the list of its
  entries in iteration order. \<open>qty\<close> reads a side as a function from prices to quantities; the lemmas say
  what each operation does to it.
\<close>

section \<open>book_item\<close>

datatype book_side = side_none | side_bid | side_ask

record book_item =
  item_price :: ll
  item_quantity :: u64
  item_side :: book_side
  item_market :: u64

definition new_item :: book_item where
  "new_item = \<lparr>item_price = 0, item_quantity = 0, item_side = side_none, item_market = 0\<rparr>"

definition item_eq :: "book_item \<Rightarrow> book_item \<Rightarrow> bool" where
  "item_eq x y \<longleftrightarrow> item_price x = item_price y \<and> item_quantity x = item_quantity y
     \<and> item_side x = item_side y \<and> item_market x = item_market y"

definition item_neq :: "book_item \<Rightarrow> book_item \<Rightarrow> bool" where
  "item_neq x y \<longleftrightarrow> \<not> item_eq x y"

section \<open>A side of a book\<close>

type_synonym levels = "(ll \<times> book_item) list"

text \<open>\<open>m[px] = item\<close>.\<close>

fun put_level :: "key_comp \<Rightarrow> ll \<Rightarrow> book_item \<Rightarrow> levels \<Rightarrow> levels" where
  "put_level cmp px it [] = [(px, it)]"
| "put_level cmp px it ((q, jt) # m) =
     (if cmp px q then (px, it) # (q, jt) # m
      else if cmp q px then (q, jt) # put_level cmp px it m
      else (q, it) # m)"

text \<open>\<open>auto& item = m[px]\<close> with the three writes to it, and its copy.\<close>

definition add_level :: "key_comp \<Rightarrow> book_side \<Rightarrow> ll \<Rightarrow> u64 \<Rightarrow> levels \<Rightarrow> book_item \<times> levels" where
  "add_level cmp sd px n m =
     (let it = (case map_of m px of None \<Rightarrow> new_item | Some jt \<Rightarrow> jt);
          it' = it\<lparr>item_price := px, item_side := sd, item_quantity := item_quantity it + n\<rparr>
      in (it', put_level cmp px it' m))"

text \<open>\<open>m.find(px)\<close> and the writes to what it leads to, which is undefined at the end of the map.\<close>

definition reduce_level :: "book_side \<Rightarrow> ll \<Rightarrow> u64 \<Rightarrow> levels \<Rightarrow> (book_item \<times> levels) option" where
  "reduce_level sd px n m = do {
     it \<leftarrow> map_of m px;
     let it' = it\<lparr>item_price := px, item_side := sd, item_quantity := item_quantity it - n\<rparr>;
     Some (it', if item_quantity it' = 0 then AList.delete px m else AList.update px it' m) }"

section \<open>Facts\<close>

definition qty :: "levels \<Rightarrow> ll \<Rightarrow> nat" where
  "qty m px = (case map_of m px of None \<Rightarrow> 0 | Some it \<Rightarrow> unat (item_quantity it))"

definition wf_item :: "book_side \<Rightarrow> ll \<Rightarrow> book_item \<Rightarrow> bool" where
  "wf_item sd px it \<longleftrightarrow> item_price it = px \<and> item_side it = sd \<and> item_quantity it \<noteq> 0 \<and> item_market it = 0"

definition wf_levels :: "key_comp \<Rightarrow> book_side \<Rightarrow> levels \<Rightarrow> bool" where
  "wf_levels cmp sd m \<longleftrightarrow> sorted_wrt cmp (map fst m) \<and> (\<forall>(px, it) \<in> set m. wf_item sd px it)"

text \<open>The item of a level with a given quantity.\<close>

definition level_item :: "book_side \<Rightarrow> ll \<Rightarrow> nat \<Rightarrow> book_item" where
  "level_item sd px n = \<lparr>item_price = px, item_quantity = of_nat n, item_side = sd, item_market = 0\<rparr>"

definition levels_total :: "levels \<Rightarrow> nat" where
  "levels_total m = sum_list (map (\<lambda>(px, it). unat (item_quantity it)) m)"

lemma wf_levels_Nil [simp]: "wf_levels cmp sd []"
  by (simp add: wf_levels_def)

lemma qty_Nil [simp]: "qty [] px = 0"
  by (simp add: qty_def)

lemma wf_levels_Cons:
  "wf_levels cmp sd ((px, it) # m) \<longleftrightarrow> wf_item sd px it \<and> (\<forall>q \<in> fst ` set m. cmp px q) \<and> wf_levels cmp sd m"
  by (auto simp: wf_levels_def)

lemma wf_levels_item: "wf_levels cmp sd m \<Longrightarrow> map_of m px = Some it \<Longrightarrow> wf_item sd px it"
  using map_of_SomeD [of m px it] by (auto simp: wf_levels_def)

lemma wf_item_eq: "wf_item sd px it \<Longrightarrow> it = level_item sd px (unat (item_quantity it))"
  by (auto simp: wf_item_def level_item_def intro!: book_item.equality)

lemma qty_zero_iff: "wf_levels cmp sd m \<Longrightarrow> qty m px = 0 \<longleftrightarrow> map_of m px = None"
  using wf_levels_item [of cmp sd m px] by (auto simp: qty_def wf_item_def unat_eq_0 split: option.splits)

lemma levels_total_Nil [simp]: "levels_total [] = 0"
  by (simp add: levels_total_def)

lemma levels_total_Cons [simp]: "levels_total ((px, it) # m) = unat (item_quantity it) + levels_total m"
  by (simp add: levels_total_def)

lemma qty_le_total: "qty m px \<le> levels_total m"
  by (induction m) (auto simp: qty_def split: option.splits)

lemma qty_less [simp]: "qty m px < 2 ^ 64"
  using unsigned_less [where 'a = nat and 'b = 64] by (auto simp: qty_def split: option.splits)

lemma qty_update_delete [simp]:
  "qty (AList.update px it m) = (qty m)(px := unat (item_quantity it))"
  "qty (AList.delete px m) = (qty m)(px := 0)"
  by (auto simp: qty_def fun_eq_iff)

lemma sorted_wrt_delete: "sorted_wrt R (map fst m) \<Longrightarrow> sorted_wrt R (map fst (AList.delete k m))"
  by (induction m) (auto simp: AList.delete_eq)

lemma in_delete: "(px, it) \<in> set (AList.delete q m) \<longleftrightarrow> px \<noteq> q \<and> (px, it) \<in> set m"
  by (auto simp: AList.delete_eq)

lemma map_fst_update: "k \<in> fst ` set m \<Longrightarrow> map fst (AList.update k v m) = map fst m"
  by (induction m) auto

lemma in_update: "(px, it) \<in> set (AList.update q jt m) \<Longrightarrow> px = q \<and> it = jt \<or> (px, it) \<in> set m"
  by (induction m) (auto split: if_splits)

lemma reduce_level_spec:
  assumes wf: "wf_levels cmp sd m" and n: "n \<noteq> 0" "unat n \<le> qty m px"
  shows "\<exists>m'. reduce_level sd px n m = Some (level_item sd px (qty m px - unat n), m') \<and> wf_levels cmp sd m'
    \<and> qty m' = (qty m)(px := qty m px - unat n)"
proof -
  obtain it where it: "map_of m px = Some it"
    using n by (auto simp: qty_def unat_eq_0 split: option.splits)
  define jt where "jt = it\<lparr>item_price := px, item_side := sd, item_quantity := item_quantity it - n\<rparr>"
  define m' where "m' = (if item_quantity jt = 0 then AList.delete px m else AList.update px jt m)"
  have w: "wf_item sd px it"
    using wf it by (rule wf_levels_item)
  have q: "qty m px = unat (item_quantity it)" "unat (item_quantity jt) = qty m px - unat n"
    using it n(2) by (simp_all add: qty_def jt_def word_le_nat_alt)
  have "jt = level_item sd px (unat (item_quantity jt))"
    using w by (auto simp: jt_def wf_item_def level_item_def intro!: book_item.equality)
  then have jt: "jt = level_item sd px (qty m px - unat n)"
    by (simp add: q(2))
  have "reduce_level sd px n m = Some (jt, m')"
    using it by (simp add: reduce_level_def jt_def m'_def Let_def)
  moreover have "wf_levels cmp sd m'"
  proof (cases "item_quantity jt = 0")
    case True
    then show ?thesis
      using wf by (auto simp: m'_def wf_levels_def sorted_wrt_delete in_delete)
  next
    case False
    have "wf_item sd px jt"
      using False w by (simp add: jt_def wf_item_def)
    moreover have "px \<in> fst ` set m"
      using map_of_SomeD [OF it] by force
    ultimately show ?thesis
      using False wf by (auto simp: m'_def wf_levels_def map_fst_update dest!: in_update)
  qed
  moreover have "qty m' = (qty m)(px := qty m px - unat n)"
    using q(2) by (auto simp: m'_def)
  ultimately show ?thesis
    using jt by auto
qed

section \<open>Sides over a comparison\<close>

context price_order
begin

lemma sorted_put_level:
  "sorted_wrt cmp (map fst m) \<Longrightarrow>
     sorted_wrt cmp (map fst (put_level cmp px it m)) \<and> fst ` set (put_level cmp px it m) = insert px (fst ` set m)"
proof (induction m)
  case (Cons x m)
  obtain q jt where x: "x = (q, jt)" by fastforce
  have q: "\<forall>p \<in> fst ` set m. cmp q p"
    using Cons.prems x by auto
  note ih = Cons.IH
  consider "cmp px q" | "\<not> cmp px q" "cmp q px" | "\<not> cmp px q" "\<not> cmp q px" "px = q"
    using cmp_total by blast
  then show ?case
  proof cases
    case 1
    then have "\<forall>p \<in> fst ` set m. cmp px p"
      using q cmp_trans by blast
    then show ?thesis
      using 1 Cons.prems x by simp
  next
    case 2
    have "\<forall>p \<in> fst ` set (put_level cmp px it m). cmp q p"
      using ih Cons.prems 2(2) q x by simp
    then show ?thesis
      using 2 ih Cons.prems x by auto
  qed (use Cons.prems x in auto)
qed simp

lemma map_of_put_level:
  "sorted_wrt cmp (map fst m) \<Longrightarrow> map_of (put_level cmp px it m) q = (if q = px then Some it else map_of m q)"
proof (induction m)
  case (Cons x m)
  then show ?case
    using cmp_irrefl cmp_trans cmp_total [of px "fst x"] by (cases x) (auto simp: map_of_eq_None_iff)
qed simp

lemma distinct_levels: "sorted_wrt cmp (map fst (m :: levels)) \<Longrightarrow> distinct (map fst m)"
  using cmp_irrefl by (induction m) force+

lemma put_level_wf:
  assumes "wf_levels cmp sd m" "wf_item sd px it"
  shows "wf_levels cmp sd (put_level cmp px it m)" "qty (put_level cmp px it m) = (qty m)(px := unat (item_quantity it))"
proof -
  have s: "sorted_wrt cmp (map fst m)"
    using assms(1) by (simp add: wf_levels_def)
  have "wf_item sd q jt" if "(q, jt) \<in> set (put_level cmp px it m)" for q jt
  proof -
    have "map_of (put_level cmp px it m) q = Some jt"
      using that distinct_levels sorted_put_level [OF s] by (simp add: map_of_is_SomeI)
    then show ?thesis
      using assms wf_levels_item [OF assms(1), of q jt] by (auto simp: map_of_put_level [OF s] split: if_splits)
  qed
  then show "wf_levels cmp sd (put_level cmp px it m)"
    using sorted_put_level [OF s] by (auto simp: wf_levels_def)
  show "qty (put_level cmp px it m) = (qty m)(px := unat (item_quantity it))"
    using map_of_put_level [OF s] by (auto simp: qty_def fun_eq_iff)
qed

lemma add_level_spec:
  assumes wf: "wf_levels cmp sd m" and n: "n \<noteq> 0" "qty m px + unat n < 2 ^ 64"
  shows "\<exists>m'. add_level cmp sd px n m = (level_item sd px (qty m px + unat n), m') \<and> wf_levels cmp sd m'
    \<and> qty m' = (qty m)(px := qty m px + unat n)"
proof -
  define it where "it = (case map_of m px of None \<Rightarrow> new_item | Some jt \<Rightarrow> jt)"
  define jt where "jt = it\<lparr>item_price := px, item_side := sd, item_quantity := item_quantity it + n\<rparr>"
  have it: "unat (item_quantity it) = qty m px" "item_market it = 0"
    using wf_levels_item [OF wf, of px] by (auto simp: it_def qty_def new_item_def wf_item_def split: option.splits)
  have q: "unat (item_quantity jt) = qty m px + unat n"
    using it n by (simp add: jt_def unat_word_ariths)
  have "jt = level_item sd px (unat (item_quantity jt))"
    using it by (auto simp: jt_def level_item_def intro!: book_item.equality)
  moreover have "wf_item sd px jt"
    using it q n by (auto simp: jt_def wf_item_def u64_eq_0_iff)
  moreover have "add_level cmp sd px n m = (jt, put_level cmp px jt m)"
    by (simp add: add_level_def it_def jt_def Let_def)
  ultimately show ?thesis
    using put_level_wf [OF wf, of px jt] q by auto
qed

end

end
