(* ===== verification/Md_Basic.thy ===== *)
theory Md_Basic
  imports Md_Levels
begin

text \<open>
  \<open>md/src/basic_book.cpp\<close>: the market-data book of one instrument, kept from the reports of its engine.
  It files each open order by its id and keeps, for each price of each side, the quantity left to trade.
  The specification is \<open>order_qty\<close>, the sum over the filed orders; the main lemma says that \<open>handle_odr\<close>
  keeps the levels equal to it and returns the level it changed.
\<close>

section \<open>The book\<close>

record basic_book =
  orders :: "(u64 \<times> order) list"
  bid :: levels
  ask :: levels

definition new_basic_book :: basic_book where
  "new_basic_book = \<lparr>orders = [], bid = [], ask = []\<rparr>"

definition add_bid_quantity :: "ll \<Rightarrow> u64 \<Rightarrow> basic_book \<Rightarrow> book_item \<times> basic_book" where
  "add_bid_quantity px n b = (let (it, m) = add_level greater side_bid px n (bid b) in (it, b\<lparr>bid := m\<rparr>))"

definition reduce_bid_quantity :: "ll \<Rightarrow> u64 \<Rightarrow> basic_book \<Rightarrow> (book_item \<times> basic_book) option" where
  "reduce_bid_quantity px n b = do { (it, m) \<leftarrow> reduce_level side_bid px n (bid b); Some (it, b\<lparr>bid := m\<rparr>) }"

definition add_ask_quantity :: "ll \<Rightarrow> u64 \<Rightarrow> basic_book \<Rightarrow> book_item \<times> basic_book" where
  "add_ask_quantity px n b = (let (it, m) = add_level less side_ask px n (ask b) in (it, b\<lparr>ask := m\<rparr>))"

definition reduce_ask_quantity :: "ll \<Rightarrow> u64 \<Rightarrow> basic_book \<Rightarrow> (book_item \<times> basic_book) option" where
  "reduce_ask_quantity px n b = do { (it, m) \<leftarrow> reduce_level side_ask px n (ask b); Some (it, b\<lparr>ask := m\<rparr>) }"

definition best_bid_price :: "basic_book \<Rightarrow> ll" where
  "best_bid_price b = (case bid b of [] \<Rightarrow> LL_MIN | (px, _) # _ \<Rightarrow> px)"

definition best_ask_price :: "basic_book \<Rightarrow> ll" where
  "best_ask_price b = (case ask b of [] \<Rightarrow> LL_MAX | (px, _) # _ \<Rightarrow> px)"

section \<open>handle_odr\<close>

definition calc_remain_quantity :: "order \<Rightarrow> u64" where
  "calc_remain_quantity odr =
     (if order_state odr \<noteq> OPEN \<and> order_state odr \<noteq> PARTIAL_FILL then 0 else remain_quantity odr)"

definition on_bid_side :: "order \<Rightarrow> bool" where
  "on_bid_side odr \<longleftrightarrow> side odr = BUY \<or> side odr = BUY_STOP
     \<or> side odr = BUY_SELL_STOP \<and> price odr \<ge> buy_stop_trigger_price odr"

definition on_ask_side :: "order \<Rightarrow> bool" where
  "on_ask_side odr \<longleftrightarrow> side odr = SELL \<or> side odr = SELL_STOP
     \<or> side odr = BUY_SELL_STOP \<and> price odr \<le> sell_stop_trigger_price odr"

text \<open>\<open>n\<close> is \<open>calc_remain_quantity\<close>; \<open>it\<close> of the source is the slot of the order's id.\<close>

definition track_bid :: "order \<Rightarrow> u64 \<Rightarrow> basic_book \<Rightarrow> (book_item \<times> basic_book) option" where
  "track_bid odr n b =
     (let oid = order_id odr in case map_of (orders b) oid of
        None \<Rightarrow> Some (if n \<noteq> 0 then add_bid_quantity (price odr) n (b\<lparr>orders := AList.update oid odr (orders b)\<rparr>)
                      else (new_item, b))
      | Some o0 \<Rightarrow> do {
          let o1 = (if remain_quantity o0 \<noteq> n then o0\<lparr>remain_quantity := n\<rparr> else o0);
          let b1 = b\<lparr>orders := AList.update oid o1 (orders b)\<rparr>;
          (it, b2) \<leftarrow> (if remain_quantity o0 < n then Some (add_bid_quantity (price odr) (n - remain_quantity o0) b1)
                       else if remain_quantity o0 > n then reduce_bid_quantity (price odr) (remain_quantity o0 - n) b1
                       else Some (new_item, b1));
          Some (it, if remain_quantity o1 = 0 then b2\<lparr>orders := AList.delete oid (orders b2)\<rparr> else b2) })"

definition track_ask :: "order \<Rightarrow> u64 \<Rightarrow> basic_book \<Rightarrow> (book_item \<times> basic_book) option" where
  "track_ask odr n b =
     (let oid = order_id odr in case map_of (orders b) oid of
        None \<Rightarrow> Some (if n \<noteq> 0 then add_ask_quantity (price odr) n (b\<lparr>orders := AList.update oid odr (orders b)\<rparr>)
                      else (new_item, b))
      | Some o0 \<Rightarrow> do {
          let o1 = (if remain_quantity o0 \<noteq> n then o0\<lparr>remain_quantity := n\<rparr> else o0);
          let b1 = b\<lparr>orders := AList.update oid o1 (orders b)\<rparr>;
          (it, b2) \<leftarrow> (if remain_quantity o0 < n then Some (add_ask_quantity (price odr) (n - remain_quantity o0) b1)
                       else if remain_quantity o0 > n then reduce_ask_quantity (price odr) (remain_quantity o0 - n) b1
                       else Some (new_item, b1));
          Some (it, if remain_quantity o1 = 0 then b2\<lparr>orders := AList.delete oid (orders b2)\<rparr> else b2) })"

definition handle_odr :: "order \<Rightarrow> basic_book \<Rightarrow> (book_item \<times> basic_book) option" where
  "handle_odr odr b =
     (if price odr = STOP_PRICE then Some (new_item, b)
      else let n = calc_remain_quantity odr
           in if on_bid_side odr then track_bid odr n b
              else if on_ask_side odr then track_ask odr n b
              else Some (new_item, b))"

section \<open>Both sides as one\<close>

definition level_cmp :: "book_side \<Rightarrow> key_comp" where
  "level_cmp sd = (if sd = side_bid then greater else less)"

interpretation levels: price_order "level_cmp sd"
  by (cases "sd = side_bid") (simp_all add: level_cmp_def greater.price_order_axioms less.price_order_axioms)

definition side_levels :: "book_side \<Rightarrow> basic_book \<Rightarrow> levels" where
  "side_levels sd b = (if sd = side_bid then bid b else ask b)"

definition set_levels :: "book_side \<Rightarrow> levels \<Rightarrow> basic_book \<Rightarrow> basic_book" where
  "set_levels sd m b = (if sd = side_bid then b\<lparr>bid := m\<rparr> else b\<lparr>ask := m\<rparr>)"

abbreviation book_sides :: "book_side \<Rightarrow> bool" where
  "book_sides sd \<equiv> sd = side_bid \<or> sd = side_ask"

definition add_quantity :: "book_side \<Rightarrow> ll \<Rightarrow> u64 \<Rightarrow> basic_book \<Rightarrow> book_item \<times> basic_book" where
  "add_quantity sd px n b = (let (it, m) = add_level (level_cmp sd) sd px n (side_levels sd b) in (it, set_levels sd m b))"

definition reduce_quantity :: "book_side \<Rightarrow> ll \<Rightarrow> u64 \<Rightarrow> basic_book \<Rightarrow> (book_item \<times> basic_book) option" where
  "reduce_quantity sd px n b = do { (it, m) \<leftarrow> reduce_level sd px n (side_levels sd b); Some (it, set_levels sd m b) }"

lemma quantity_sides:
  "add_bid_quantity = add_quantity side_bid" "reduce_bid_quantity = reduce_quantity side_bid"
  "add_ask_quantity = add_quantity side_ask" "reduce_ask_quantity = reduce_quantity side_ask"
  by (simp_all add: fun_eq_iff add_bid_quantity_def reduce_bid_quantity_def add_ask_quantity_def reduce_ask_quantity_def
      add_quantity_def reduce_quantity_def side_levels_def set_levels_def level_cmp_def)

lemma set_levels_simps [simp]:
  "side_levels sd (set_levels sd m b) = m" "orders (set_levels sd m b) = orders b"
  "(sd' = side_bid) \<noteq> (sd = side_bid) \<Longrightarrow> side_levels sd' (set_levels sd m b) = side_levels sd' b"
  "side_levels sd (b\<lparr>orders := os\<rparr>) = side_levels sd b"
  by (auto simp: side_levels_def set_levels_def)

definition track :: "book_side \<Rightarrow> order \<Rightarrow> u64 \<Rightarrow> basic_book \<Rightarrow> (book_item \<times> basic_book) option" where
  "track sd odr n b =
     (let oid = order_id odr in case map_of (orders b) oid of
        None \<Rightarrow> Some (if n \<noteq> 0 then add_quantity sd (price odr) n (b\<lparr>orders := AList.update oid odr (orders b)\<rparr>)
                      else (new_item, b))
      | Some o0 \<Rightarrow> do {
          let o1 = (if remain_quantity o0 \<noteq> n then o0\<lparr>remain_quantity := n\<rparr> else o0);
          let b1 = b\<lparr>orders := AList.update oid o1 (orders b)\<rparr>;
          (it, b2) \<leftarrow> (if remain_quantity o0 < n then Some (add_quantity sd (price odr) (n - remain_quantity o0) b1)
                       else if remain_quantity o0 > n then reduce_quantity sd (price odr) (remain_quantity o0 - n) b1
                       else Some (new_item, b1));
          Some (it, if remain_quantity o1 = 0 then b2\<lparr>orders := AList.delete oid (orders b2)\<rparr> else b2) })"

lemma track_sides: "track_bid = track side_bid" "track_ask = track side_ask"
  unfolding track_bid_def [abs_def] track_ask_def [abs_def] track_def [abs_def] quantity_sides by (rule refl)+

section \<open>Specification\<close>

text \<open>The side an order counts on, and what the filed orders add up to at a price of a side.\<close>

definition md_side :: "order \<Rightarrow> book_side" where
  "md_side odr = (if price odr = STOP_PRICE then side_none else if on_bid_side odr then side_bid
     else if on_ask_side odr then side_ask else side_none)"

definition share :: "book_side \<Rightarrow> ll \<Rightarrow> order \<Rightarrow> nat" where
  "share sd px odr = (if md_side odr = sd \<and> price odr = px then unat (remain_quantity odr) else 0)"

definition order_qty :: "book_side \<Rightarrow> (u64 \<times> order) list \<Rightarrow> ll \<Rightarrow> nat" where
  "order_qty sd os px = sum_list (map (share sd px \<circ> snd) os)"

text \<open>The orders filed after a report: the reported one with what is left of it, if anything is.\<close>

definition filed :: "order \<Rightarrow> (u64 \<times> order) list \<Rightarrow> (u64 \<times> order) list" where
  "filed odr os =
     (let n = calc_remain_quantity odr; oid = order_id odr
      in if md_side odr = side_none then os
         else if n = 0 then AList.delete oid os
         else AList.update oid (case map_of os oid of None \<Rightarrow> odr | Some o0 \<Rightarrow> o0\<lparr>remain_quantity := n\<rparr>) os)"

text \<open>
  The levels are the sums over the filed orders, plus \<open>X\<close>: what else the owner of the book has put on
  them (the implied quantities, in the book of \<open>md_book\<close>).
\<close>

definition basic_inv :: "(book_side \<Rightarrow> ll \<Rightarrow> nat) \<Rightarrow> basic_book \<Rightarrow> bool" where
  "basic_inv X b \<longleftrightarrow> distinct (map fst (orders b))
     \<and> (\<forall>(i, o1) \<in> set (orders b). remain_quantity o1 \<noteq> 0)
     \<and> (\<forall>sd. book_sides sd \<longrightarrow> wf_levels (level_cmp sd) sd (side_levels sd b)
           \<and> (\<forall>px. qty (side_levels sd b) px = order_qty sd (orders b) px + X sd px))"

text \<open>A report agrees with what is filed: an order keeps its price and its side.\<close>

definition agrees :: "(u64 \<times> order) list \<Rightarrow> order \<Rightarrow> bool" where
  "agrees os odr \<longleftrightarrow> (\<forall>o1. map_of os (order_id odr) = Some o1 \<longrightarrow> md_side o1 = md_side odr \<and> price o1 = price odr)"

definition filed_quantity :: "basic_book \<Rightarrow> u64 \<Rightarrow> u64" where
  "filed_quantity b oid = (case map_of (orders b) oid of None \<Rightarrow> 0 | Some o1 \<Rightarrow> remain_quantity o1)"

lemma share_remain [simp]:
  "share sd px (o1\<lparr>remain_quantity := n\<rparr>) = (if md_side o1 = sd \<and> price o1 = px then unat n else 0)"
  by (simp add: share_def md_side_def on_bid_side_def on_ask_side_def)

lemma order_qty_Cons [simp]: "order_qty sd ((i, o1) # os) px = share sd px o1 + order_qty sd os px"
  by (simp add: order_qty_def)

lemma order_qty_Nil [simp]: "order_qty sd [] px = 0"
  by (simp add: order_qty_def)

lemma order_qty_split:
  "distinct (map fst os) \<Longrightarrow> order_qty sd os px
     = order_qty sd (AList.delete oid os) px + (case map_of os oid of None \<Rightarrow> 0 | Some o1 \<Rightarrow> share sd px o1)"
proof (induction os)
  case (Cons x os)
  obtain i o1 where x: "x = (i, o1)" by fastforce
  show ?case
  proof (cases "i = oid")
    case True
    then have "oid \<notin> fst ` set os"
      using Cons.prems x by simp
    then show ?thesis
      using True x by (simp add: delete_idem)
  next
    case False
    then show ?thesis
      using Cons x by simp
  qed
qed simp

lemma delete_update_same: "AList.delete oid (AList.update oid o1 os) = AList.delete oid os"
  by (induction os) auto

lemma order_qty_update:
  assumes "distinct (map fst os)"
  shows "order_qty sd (AList.update oid o1 os) px = order_qty sd (AList.delete oid os) px + share sd px o1"
  using order_qty_split [of "AList.update oid o1 os" sd px oid] assms
  by (simp add: distinct_update delete_update_same)

section \<open>What handle_odr does\<close>

lemma add_quantity_spec:
  assumes "wf_levels (level_cmp sd) sd (side_levels sd b)" "n \<noteq> 0" "qty (side_levels sd b) px + unat n < 2 ^ 64"
  obtains m where "add_quantity sd px n b = (level_item sd px (qty (side_levels sd b) px + unat n), set_levels sd m b)"
    "wf_levels (level_cmp sd) sd m" "qty m = (qty (side_levels sd b))(px := qty (side_levels sd b) px + unat n)"
  using levels.add_level_spec [OF assms] by (auto simp: add_quantity_def)

lemma reduce_quantity_spec:
  assumes "wf_levels (level_cmp sd) sd (side_levels sd b)" "n \<noteq> 0" "unat n \<le> qty (side_levels sd b) px"
  obtains m where "reduce_quantity sd px n b = Some (level_item sd px (qty (side_levels sd b) px - unat n), set_levels sd m b)"
    "wf_levels (level_cmp sd) sd m" "qty m = (qty (side_levels sd b))(px := qty (side_levels sd b) px - unat n)"
  using reduce_level_spec [OF assms] by (auto simp: reduce_quantity_def)

lemma filed_qty:
  assumes "distinct (map fst (orders b))" "agrees (orders b) odr" "md_side odr \<noteq> side_none"
  shows "order_qty sd (filed odr (orders b)) px
       + (if sd = md_side odr \<and> px = price odr then unat (filed_quantity b (order_id odr)) else 0)
     = order_qty sd (orders b) px
       + (if sd = md_side odr \<and> px = price odr then unat (calc_remain_quantity odr) else 0)"
proof (cases "map_of (orders b) (order_id odr)")
  case None
  then have "AList.delete (order_id odr) (orders b) = orders b"
    by (simp add: map_of_eq_None_iff)
  then show ?thesis
    using None assms(1,3)
    by (auto simp: filed_def filed_quantity_def order_qty_update share_def Let_def calc_remain_quantity_def)
next
  case (Some o1)
  then have "md_side o1 = md_side odr" "price o1 = price odr"
    using assms(2) by (simp_all add: agrees_def)
  then show ?thesis
    using order_qty_split [OF assms(1), of sd px "order_id odr"] Some assms(1,3)
    by (auto simp: filed_def filed_quantity_def order_qty_update Let_def) (auto simp: share_def)
qed

lemma track_spec:
  assumes wf: "wf_levels (level_cmp sd) sd (side_levels sd b)" and sd: "md_side odr = sd" "sd \<noteq> side_none"
    and n: "n = calc_remain_quantity odr"
    and held: "unat (filed_quantity b (order_id odr)) \<le> qty (side_levels sd b) (price odr)"
    and fits: "qty (side_levels sd b) (price odr) + unat n < 2 ^ 64 + unat (filed_quantity b (order_id odr))"
  shows "\<exists>b'. track sd odr n b = Some
      (if n = filed_quantity b (order_id odr) then new_item
       else level_item sd (price odr) (qty (side_levels sd b) (price odr) - unat (filed_quantity b (order_id odr)) + unat n), b')
    \<and> orders b' = filed odr (orders b) \<and> wf_levels (level_cmp sd) sd (side_levels sd b')
    \<and> qty (side_levels sd b') = (qty (side_levels sd b))(price odr :=
         qty (side_levels sd b) (price odr) - unat (filed_quantity b (order_id odr)) + unat n)
    \<and> (\<forall>sd'. (sd' = side_bid) \<noteq> (sd = side_bid) \<longrightarrow> side_levels sd' b' = side_levels sd' b)"
proof (cases "map_of (orders b) (order_id odr)")
  case None
  then have r: "filed_quantity b (order_id odr) = 0"
    by (simp add: filed_quantity_def)
  show ?thesis
  proof (cases "n = 0")
    case True
    have "AList.delete (order_id odr) (orders b) = orders b"
      using None by (simp add: map_of_eq_None_iff)
    then show ?thesis
      using True None wf sd n r by (simp add: track_def filed_def Let_def)
  next
    case False
    define b0 where "b0 = b\<lparr>orders := AList.update (order_id odr) odr (orders b)\<rparr>"
    have "wf_levels (level_cmp sd) sd (side_levels sd b0)" "qty (side_levels sd b0) (price odr) + unat n < 2 ^ 64"
      using wf fits r by (simp_all add: b0_def)
    from add_quantity_spec [OF this(1) False this(2)] obtain m where m:
      "add_quantity sd (price odr) n b0 = (level_item sd (price odr) (qty (side_levels sd b0) (price odr) + unat n), set_levels sd m b0)"
      "wf_levels (level_cmp sd) sd m" "qty m = (qty (side_levels sd b0))(price odr := qty (side_levels sd b0) (price odr) + unat n)"
      by metis
    then show ?thesis
      using None False sd n r by (auto simp: track_def filed_def Let_def b0_def [symmetric]) (simp_all add: b0_def)
  qed
next
  case (Some o0)
  then have r: "filed_quantity b (order_id odr) = remain_quantity o0"
    by (simp add: filed_quantity_def)
  define o1 where "o1 = (if remain_quantity o0 \<noteq> n then o0\<lparr>remain_quantity := n\<rparr> else o0)"
  define b1 where "b1 = b\<lparr>orders := AList.update (order_id odr) o1 (orders b)\<rparr>"
  have o1: "o1 = o0\<lparr>remain_quantity := n\<rparr>"
    by (simp add: o1_def)
  have b1: "side_levels sd' b1 = side_levels sd' b" for sd'
    by (simp add: b1_def)
  define Q where "Q = qty (side_levels sd b) (price odr) - unat (remain_quantity o0) + unat n"
  have "\<exists>m. (if remain_quantity o0 < n then Some (add_quantity sd (price odr) (n - remain_quantity o0) b1)
       else if remain_quantity o0 > n then reduce_quantity sd (price odr) (remain_quantity o0 - n) b1
       else Some (new_item, b1)) = Some (if n = remain_quantity o0 then new_item else level_item sd (price odr) Q, set_levels sd m b1)
     \<and> wf_levels (level_cmp sd) sd m \<and> qty m = (qty (side_levels sd b))(price odr := Q)"
  proof (cases n "remain_quantity o0" rule: linorder_cases)
    case less
    then have d: "remain_quantity o0 - n \<noteq> 0" "unat (remain_quantity o0 - n) = unat (remain_quantity o0) - unat n"
        "unat n < unat (remain_quantity o0)"
      by (auto simp: word_less_nat_alt word_le_nat_alt unat_sub)
    have "unat (remain_quantity o0 - n) \<le> qty (side_levels sd b1) (price odr)"
      using held r d by (simp add: b1)
    from reduce_quantity_spec [of sd b1, OF _ d(1) this] obtain m where
      "reduce_quantity sd (price odr) (remain_quantity o0 - n) b1
         = Some (level_item sd (price odr) (qty (side_levels sd b) (price odr) - unat (remain_quantity o0 - n)), set_levels sd m b1)"
      "wf_levels (level_cmp sd) sd m"
      "qty m = (qty (side_levels sd b))(price odr := qty (side_levels sd b) (price odr) - unat (remain_quantity o0 - n))"
      using wf by (metis b1)
    moreover have "qty (side_levels sd b) (price odr) - unat (remain_quantity o0 - n) = Q"
      using held r d by (simp add: Q_def)
    ultimately show ?thesis
      using less by auto
  next
    case equal
    have "set_levels sd (side_levels sd b1) b1 = b1"
      by (auto simp: set_levels_def side_levels_def intro: basic_book.equality)
    moreover have "Q = qty (side_levels sd b) (price odr)"
      using held r equal by (simp add: Q_def)
    ultimately show ?thesis
      using equal wf by (intro exI [of _ "side_levels sd b"]) (auto simp: b1)
  next
    case greater
    then have d: "n - remain_quantity o0 \<noteq> 0" "unat (n - remain_quantity o0) = unat n - unat (remain_quantity o0)"
        "unat (remain_quantity o0) < unat n"
      by (auto simp: word_less_nat_alt word_le_nat_alt unat_sub)
    have "qty (side_levels sd b1) (price odr) + unat (n - remain_quantity o0) < 2 ^ 64"
      using fits r d by (simp add: b1)
    from add_quantity_spec [of sd b1, OF _ d(1) this] obtain m where
      "add_quantity sd (price odr) (n - remain_quantity o0) b1
         = (level_item sd (price odr) (qty (side_levels sd b) (price odr) + unat (n - remain_quantity o0)), set_levels sd m b1)"
      "wf_levels (level_cmp sd) sd m"
      "qty m = (qty (side_levels sd b))(price odr := qty (side_levels sd b) (price odr) + unat (n - remain_quantity o0))"
      using wf by (metis b1)
    moreover have "qty (side_levels sd b) (price odr) + unat (n - remain_quantity o0) = Q"
      using held r d by (simp add: Q_def)
    ultimately show ?thesis
      using greater by auto
  qed
  then obtain m where m: "(if remain_quantity o0 < n then Some (add_quantity sd (price odr) (n - remain_quantity o0) b1)
       else if remain_quantity o0 > n then reduce_quantity sd (price odr) (remain_quantity o0 - n) b1
       else Some (new_item, b1)) = Some (if n = remain_quantity o0 then new_item else level_item sd (price odr) Q, set_levels sd m b1)"
     "wf_levels (level_cmp sd) sd m" "qty m = (qty (side_levels sd b))(price odr := Q)"
    by blast
  define b2 where "b2 = (if n = 0 then (set_levels sd m b1)\<lparr>orders := AList.delete (order_id odr) (orders b)\<rparr> else set_levels sd m b1)"
  have "track sd odr n b = Some (if n = remain_quantity o0 then new_item else level_item sd (price odr) Q, b2)"
    unfolding track_def Let_def Some option.case o1_def [symmetric] b1_def [symmetric] m(1)
    by (simp add: o1 b2_def b1_def delete_update_same)
  moreover have "orders b2 = filed odr (orders b)"
    using Some sd n by (simp add: b2_def filed_def b1_def o1 Let_def)
  moreover have "side_levels sd b2 = m" "\<forall>sd'. (sd' = side_bid) \<noteq> (sd = side_bid) \<longrightarrow> side_levels sd' b2 = side_levels sd' b"
    by (simp_all add: b2_def b1)
  ultimately show ?thesis
    using m(2,3) by (simp add: r Q_def)
qed

text \<open>The report's level in terms of the filed orders, and what \<open>handle_odr\<close> returns.\<close>

definition level_after :: "(book_side \<Rightarrow> ll \<Rightarrow> nat) \<Rightarrow> basic_book \<Rightarrow> order \<Rightarrow> nat" where
  "level_after X b odr = order_qty (md_side odr) (filed odr (orders b)) (price odr) + X (md_side odr) (price odr)"

definition reported :: "(book_side \<Rightarrow> ll \<Rightarrow> nat) \<Rightarrow> basic_book \<Rightarrow> order \<Rightarrow> book_item" where
  "reported X b odr =
     (if md_side odr = side_none \<or> calc_remain_quantity odr = filed_quantity b (order_id odr) then new_item
      else level_item (md_side odr) (price odr) (level_after X b odr))"

lemma handle_odr_track:
  "md_side odr \<noteq> side_none \<Longrightarrow> handle_odr odr b = track (md_side odr) odr (calc_remain_quantity odr) b"
  "md_side odr = side_none \<Longrightarrow> handle_odr odr b = Some (new_item, b)"
  by (auto simp: handle_odr_def md_side_def track_sides Let_def split: if_splits)

lemma md_side_cases: "md_side odr = side_none \<or> book_sides (md_side odr)"
  by (cases "md_side odr") auto

lemma filed_distinct: "distinct (map fst os) \<Longrightarrow> distinct (map fst (filed odr os))"
  by (simp add: filed_def Let_def distinct_update distinct_delete)

lemma filed_nonzero:
  "\<forall>(i, o1) \<in> set os. remain_quantity o1 \<noteq> 0 \<Longrightarrow> \<forall>(i, o1) \<in> set (filed odr os). remain_quantity o1 \<noteq> 0"
proof -
  assume *: "\<forall>(i, o1) \<in> set os. remain_quantity o1 \<noteq> 0"
  have upd: "(i, o1) \<in> set (AList.update k v os) \<Longrightarrow> (i, o1) = (k, v) \<or> (i, o1) \<in> set os" for i o1 k v
    by (induction os) (auto split: if_splits)
  have "calc_remain_quantity odr \<noteq> 0 \<Longrightarrow> remain_quantity odr \<noteq> 0"
    by (simp add: calc_remain_quantity_def split: if_splits)
  then show ?thesis
    using * by (auto simp: filed_def Let_def AList.delete_eq dest!: upd split: option.splits)
qed

lemma handle_odr_spec:
  assumes inv: "basic_inv X b" and ag: "agrees (orders b) odr" and fits: "level_after X b odr < 2 ^ 64"
  shows "\<exists>b'. handle_odr odr b = Some (reported X b odr, b') \<and> basic_inv X b' \<and> orders b' = filed odr (orders b)"
proof (cases "md_side odr = side_none")
  case True
  then show ?thesis
    using inv by (simp add: handle_odr_track reported_def filed_def)
next
  case False
  let ?sd = "md_side odr" and ?px = "price odr" and ?n = "calc_remain_quantity odr" and ?r = "filed_quantity b (order_id odr)"
  have sd: "book_sides ?sd"
    using md_side_cases False by blast
  have d: "distinct (map fst (orders b))" and wf: "wf_levels (level_cmp ?sd) ?sd (side_levels ?sd b)"
    and q: "qty (side_levels ?sd b) ?px = order_qty ?sd (orders b) ?px + X ?sd ?px"
    using inv sd by (auto simp: basic_inv_def)
  note fq = filed_qty [OF d ag False]
  have held: "unat ?r \<le> order_qty ?sd (orders b) ?px"
    using order_qty_split [OF d, of ?sd ?px "order_id odr"] ag
    by (auto simp: filed_quantity_def agrees_def share_def split: option.splits)
  have after: "qty (side_levels ?sd b) ?px - unat ?r + unat ?n = level_after X b odr"
    using fq [of ?sd ?px] q held by (simp add: level_after_def)
  have "qty (side_levels ?sd b) ?px + unat ?n < 2 ^ 64 + unat ?r" "unat ?r \<le> qty (side_levels ?sd b) ?px"
    using after fits held q by linarith+
  then obtain b' where b': "track ?sd odr ?n b = Some (if ?n = ?r then new_item else level_item ?sd ?px (level_after X b odr), b')"
    "orders b' = filed odr (orders b)" "wf_levels (level_cmp ?sd) ?sd (side_levels ?sd b')"
    "qty (side_levels ?sd b') = (qty (side_levels ?sd b))(?px := level_after X b odr)"
    "\<forall>sd'. (sd' = side_bid) \<noteq> (?sd = side_bid) \<longrightarrow> side_levels sd' b' = side_levels sd' b"
    using track_spec [OF wf refl False refl, unfolded after] by blast
  have "wf_levels (level_cmp sd') sd' (side_levels sd' b')
      \<and> (\<forall>px. qty (side_levels sd' b') px = order_qty sd' (orders b') px + X sd' px)" if "book_sides sd'" for sd'
  proof (cases "sd' = ?sd")
    case True
    have "qty (side_levels ?sd b') px = order_qty ?sd (orders b') px + X ?sd px" for px
      using fq [of ?sd px] inv sd by (auto simp: b'(2,4) level_after_def basic_inv_def)
    then show ?thesis
      using True b'(3) by simp
  next
    case False
    then have "side_levels sd' b' = side_levels sd' b"
      using b'(5) that sd by auto
    then show ?thesis
      using fq [of sd'] inv that False by (auto simp: b'(2) basic_inv_def)
  qed
  moreover have "distinct (map fst (orders b'))" "\<forall>(i, o1) \<in> set (orders b'). remain_quantity o1 \<noteq> 0"
    unfolding b'(2) using filed_distinct [OF d] filed_nonzero inv [unfolded basic_inv_def, THEN conjunct2, THEN conjunct1] by simp_all
  ultimately have "basic_inv X b'"
    by (simp add: basic_inv_def)
  then show ?thesis
    using b'(1,2) False by (auto simp: handle_odr_track reported_def)
qed

section \<open>Sequences of reports\<close>

fun handle_odrs :: "order list \<Rightarrow> basic_book \<Rightarrow> (book_item list \<times> basic_book) option" where
  "handle_odrs [] b = Some ([], b)"
| "handle_odrs (odr # odrs) b = do {
     (it, b1) \<leftarrow> handle_odr odr b;
     (its, b2) \<leftarrow> handle_odrs odrs b1;
     Some (it # its, b2) }"

text \<open>
  What an engine's reports satisfy: an order keeps its price and side, and the orders at one price do not
  add up to more than 64 bits hold.
\<close>

fun consistent :: "order list \<Rightarrow> (u64 \<times> order) list \<Rightarrow> bool" where
  "consistent [] os \<longleftrightarrow> True"
| "consistent (odr # odrs) os \<longleftrightarrow> agrees os odr \<and> order_qty (md_side odr) (filed odr os) (price odr) < 2 ^ 64
     \<and> consistent odrs (filed odr os)"

lemma basic_inv_new: "basic_inv (\<lambda>_ _. 0) new_basic_book"
  by (simp add: basic_inv_def new_basic_book_def side_levels_def)

lemma orders_new [simp]: "orders new_basic_book = []"
  by (simp add: new_basic_book_def)

lemma handle_odrs_inv:
  "basic_inv (\<lambda>_ _. 0) b \<Longrightarrow> consistent odrs (orders b) \<Longrightarrow>
     \<exists>its b'. handle_odrs odrs b = Some (its, b') \<and> basic_inv (\<lambda>_ _. 0) b' \<and> orders b' = fold filed odrs (orders b)"
proof (induction odrs arbitrary: b)
  case (Cons odr odrs)
  obtain b1 where b1: "handle_odr odr b = Some (reported (\<lambda>_ _. 0) b odr, b1)" "basic_inv (\<lambda>_ _. 0) b1" "orders b1 = filed odr (orders b)"
    using handle_odr_spec [OF Cons.prems(1)] Cons.prems(2) by (auto simp: level_after_def)
  obtain its b' where "handle_odrs odrs b1 = Some (its, b')" "basic_inv (\<lambda>_ _. 0) b'" "orders b' = fold filed odrs (orders b1)"
    using Cons.IH [OF b1(2)] Cons.prems(2) b1(3) by auto
  then show ?case
    using b1 by simp
qed simp

text \<open>
  C15: fed with any reports in which orders keep their price and side, the market-data book never
  looks up a level that is not there, and each level of each side is the sum of what is left of the
  open orders at its price; a price without such orders has no level.
\<close>

theorem levels_are_order_sums:
  assumes "consistent odrs []"
  shows "\<exists>its b. handle_odrs odrs new_basic_book = Some (its, b) \<and> orders b = fold filed odrs []
    \<and> (\<forall>sd px. book_sides sd \<longrightarrow> qty (side_levels sd b) px = order_qty sd (fold filed odrs []) px
         \<and> (map_of (side_levels sd b) px = None \<longleftrightarrow> order_qty sd (fold filed odrs []) px = 0))"
proof -
  obtain its b where b: "handle_odrs odrs new_basic_book = Some (its, b)" "basic_inv (\<lambda>_ _. 0) b" "orders b = fold filed odrs []"
    using handle_odrs_inv [OF basic_inv_new, of odrs] assms orders_new by auto
  have "map_of (side_levels sd b) px = None \<longleftrightarrow> qty (side_levels sd b) px = 0" if "book_sides sd" for sd px
    using qty_zero_iff [of "level_cmp sd" sd "side_levels sd b" px] b(2) that by (auto simp: basic_inv_def)
  then show ?thesis
    using b by (auto simp: basic_inv_def)
qed

definition md_reports :: "order list" where
  "md_reports = [new_order\<lparr>order_id := 1, price := 100, remain_quantity := 5\<rparr>,
     new_order\<lparr>order_id := 2, price := 100, remain_quantity := 3\<rparr>,
     new_order\<lparr>order_id := 1, price := 100, remain_quantity := 2, order_state := PARTIAL_FILL\<rparr>]"

theorem levels_are_order_sums_witness:
  "\<exists>its b. handle_odrs md_reports new_basic_book = Some (its, b) \<and> qty (bid b) 100 = 5 \<and> map_of (ask b) 100 = None"
proof -
  have c: "consistent md_reports []" "order_qty side_bid (fold filed md_reports []) 100 = 5"
      "order_qty side_ask (fold filed md_reports []) 100 = 0"
    by (simp_all add: md_reports_def new_order_def agrees_def filed_def md_side_def on_bid_side_def on_ask_side_def STOP_PRICE_def
        LL_MIN_def calc_remain_quantity_def share_def Let_def)
  show ?thesis
    using levels_are_order_sums [OF c(1)] c(2,3) by (auto simp: side_levels_def)
qed

end
