(* ===== verification/Md_Implied.thy ===== *)
theory Md_Implied
  imports Md_Basic Implier
begin

text \<open>
  \<open>md/src/md_implied_book.cpp\<close>: the levels an instrument's market-data book gets from two other
  instruments. Two leg books are walked from their tops, each pair of levels gives an implied level
  (price from the implier, quantity the smaller of the two, used up on both legs), and the levels
  implied before are replaced in the outright book by the new ones.

  The outright book and the callback, references in the source, are an argument and a result here:
  a handler returns the items it gives to the callback, the implied book and the outright book.
\<close>

section \<open>handle_implied\<close>

text \<open>
  The price is moved behind the best price of the other side. \<open>mini_tick\<close> is an \<open>unsigned long long\<close>
  here: the sum is taken modulo \<open>2 ^ 64\<close> and read as \<open>long long\<close>, which is \<open>ll_sub\<close> and \<open>ll_add\<close>.
\<close>

definition behind_outright :: "book_side \<Rightarrow> ll \<Rightarrow> basic_book \<Rightarrow> ll \<Rightarrow> ll" where
  "behind_outright sd mini_tick out px =
     (if sd = side_bid
      then (case ask out of [] \<Rightarrow> px | (q, _) # _ \<Rightarrow> if px \<ge> q then ll_sub q mini_tick else px)
      else (case bid out of [] \<Rightarrow> px | (q, _) # _ \<Rightarrow> if px \<le> q then ll_add q mini_tick else px))"

function imply_levels ::
    "book_side \<Rightarrow> implier \<Rightarrow> ll \<Rightarrow> basic_book \<Rightarrow> levels \<Rightarrow> levels \<Rightarrow> levels \<Rightarrow> levels option" where
  "imply_levels sd ip mini_tick out [] l2 acc = Some acc"
| "imply_levels sd ip mini_tick out (x # l1) [] acc = Some acc"
| "imply_levels sd ip mini_tick out ((p1, i1) # l1) ((p2, i2) # l2) acc = do {
     let n = (if item_quantity i1 < item_quantity i2 then item_quantity i1 else item_quantity i2);
     px0 \<leftarrow> matchd_price ip (item_price i1) (item_price i2) mini_tick;
     let px = behind_outright sd mini_tick out px0;
     let acc' = put_level (level_cmp sd) px
                  (new_item\<lparr>item_side := sd, item_price := px, item_quantity := n\<rparr>) acc;
     imply_levels sd ip mini_tick out
       (if item_quantity i1 - n = 0 then l1 else (p1, i1\<lparr>item_quantity := item_quantity i1 - n\<rparr>) # l1)
       (if item_quantity i2 - n = 0 then l2 else (p2, i2\<lparr>item_quantity := item_quantity i2 - n\<rparr>) # l2)
       acc' }"
  by pat_completeness auto

termination
  by (relation "measure (\<lambda>(sd, ip, t, out, l1, l2, acc). length l1 + length l2)") auto

definition add_side :: "book_side \<Rightarrow> ll \<Rightarrow> u64 \<Rightarrow> basic_book \<Rightarrow> book_item \<times> basic_book" where
  "add_side sd px n out = (if sd = side_bid then add_bid_quantity px n out else add_ask_quantity px n out)"

definition reduce_side :: "book_side \<Rightarrow> ll \<Rightarrow> u64 \<Rightarrow> basic_book \<Rightarrow> (book_item \<times> basic_book) option" where
  "reduce_side sd px n out = (if sd = side_bid then reduce_bid_quantity px n out else reduce_ask_quantity px n out)"

definition push_node :: "book_item \<Rightarrow> book_item list \<Rightarrow> book_item list" where
  "push_node node rt = (if item_side node \<noteq> side_none then rt @ [node] else rt)"

text \<open>The loop over the levels implied before; \<open>new\<close> loses those that are found in it.\<close>

fun settle_levels ::
    "book_side \<Rightarrow> levels \<Rightarrow> levels \<Rightarrow> basic_book \<Rightarrow> book_item list \<Rightarrow> (basic_book \<times> levels \<times> book_item list) option" where
  "settle_levels sd [] new out rt = Some (out, new, rt)"
| "settle_levels sd ((px, item) # old) new out rt =
     (case map_of new px of
        None \<Rightarrow> do {
          (node, out1) \<leftarrow> reduce_side sd (item_price item) (item_quantity item) out;
          settle_levels sd old new out1 (push_node node rt) }
      | Some it \<Rightarrow>
          if item_quantity it > item_quantity item then
            (let (node, out1) = add_side sd (item_price item) (item_quantity it - item_quantity item) out
             in settle_levels sd old (AList.delete px new) out1 (push_node node rt))
          else if item_quantity it < item_quantity item then do {
            (node, out1) \<leftarrow> reduce_side sd (item_price item) (item_quantity item - item_quantity it) out;
            settle_levels sd old (AList.delete px new) out1 (push_node node rt) }
          else settle_levels sd old (AList.delete px new) out rt)"

text \<open>The loop over what is left of the new levels.\<close>

fun add_levels :: "book_side \<Rightarrow> levels \<Rightarrow> basic_book \<Rightarrow> book_item list \<Rightarrow> basic_book \<times> book_item list" where
  "add_levels sd [] out rt = (out, rt)"
| "add_levels sd ((px, item) # new) out rt =
     (let (node, out1) = add_side sd (item_price item) (item_quantity item) out
      in add_levels sd new out1 (push_node node rt))"

text \<open>\<open>std::sort\<close>: the prices of \<open>rt\<close> are distinct (below), so that the order is the only one.\<close>

definition sort_items :: "book_side \<Rightarrow> book_item list \<Rightarrow> book_item list" where
  "sort_items sd rt = (if sd = side_bid then sort_key (\<lambda>x. - item_price x) rt else sort_key item_price rt)"

definition handle_implied ::
    "book_side \<Rightarrow> implier \<Rightarrow> ll \<Rightarrow> levels \<Rightarrow> levels \<Rightarrow> levels \<Rightarrow> basic_book \<Rightarrow> (book_item list \<times> levels \<times> basic_book) option" where
  "handle_implied sd ip mini_tick leg1 leg2 implied out = do {
     new \<leftarrow> imply_levels sd ip mini_tick out leg1 leg2 [];
     (out1, left, rt) \<leftarrow> settle_levels sd implied new out [];
     let (out2, rt2) = add_levels sd left out1 rt;
     Some (sort_items sd rt2, new, out2) }"

section \<open>md_implied_book\<close>

datatype implier_type = A_Bid_B_Bid | A_Bid_B_Ask | A_Ask_B_Bid | A_Ask_B_Ask | A_None_B_None

record md_implied_book =
  ib_tick :: ll
  implied_bid :: levels
  implied_ask :: levels
  leg_a :: basic_book
  leg_b :: basic_book
  bid_implie_type :: implier_type
  ask_implie_type :: implier_type
  bid_implier :: "implier option"
  ask_implier :: "implier option"

definition new_implied_book ::
    "ll \<Rightarrow> implier_type \<Rightarrow> implier_type \<Rightarrow> implier option \<Rightarrow> implier option \<Rightarrow> md_implied_book" where
  "new_implied_book mtick bty aty bi ai = \<lparr>ib_tick = mtick, implied_bid = [], implied_ask = [],
     leg_a = new_basic_book, leg_b = new_basic_book, bid_implie_type = bty, ask_implie_type = aty,
     bid_implier = bi, ask_implier = ai\<rparr>"

type_synonym md_step = "md_implied_book \<Rightarrow> basic_book \<Rightarrow> (book_item list \<times> md_implied_book \<times> basic_book) option"

text \<open>The block the handlers repeat: the legs are copied, and a null implier does nothing.\<close>

definition imply_bid :: "levels \<Rightarrow> levels \<Rightarrow> md_step" where
  "imply_bid leg1 leg2 ib out =
     (case bid_implier ib of
        None \<Rightarrow> Some ([], ib, out)
      | Some ip \<Rightarrow> do {
          (rt, m, out1) \<leftarrow> handle_implied side_bid ip (ib_tick ib) leg1 leg2 (implied_bid ib) out;
          Some (rt, ib\<lparr>implied_bid := m\<rparr>, out1) })"

definition imply_ask :: "levels \<Rightarrow> levels \<Rightarrow> md_step" where
  "imply_ask leg1 leg2 ib out =
     (case ask_implier ib of
        None \<Rightarrow> Some ([], ib, out)
      | Some ip \<Rightarrow> do {
          (rt, m, out1) \<leftarrow> handle_implied side_ask ip (ib_tick ib) leg1 leg2 (implied_ask ib) out;
          Some (rt, ib\<lparr>implied_ask := m\<rparr>, out1) })"

text \<open>One step after another, and the step that does nothing.\<close>

definition md_nop :: md_step where
  "md_nop ib out = Some ([], ib, out)"

definition md_then :: "md_step \<Rightarrow> md_step \<Rightarrow> md_step" where
  "md_then f g ib out = do { (r1, ib1, out1) \<leftarrow> f ib out; (r2, ib2, out2) \<leftarrow> g ib1 out1; Some (r1 @ r2, ib2, out2) }"

definition a_bids_changed :: md_step where
  "a_bids_changed = md_then
     (\<lambda>ib. if bid_implie_type ib = A_Bid_B_Bid then imply_bid (bid (leg_a ib)) (bid (leg_b ib)) ib
           else if bid_implie_type ib = A_Bid_B_Ask then imply_bid (bid (leg_a ib)) (ask (leg_b ib)) ib
           else md_nop ib)
     (\<lambda>ib. if ask_implie_type ib = A_Bid_B_Bid then imply_ask (bid (leg_a ib)) (bid (leg_b ib)) ib
           else if ask_implie_type ib = A_Bid_B_Ask then imply_ask (bid (leg_a ib)) (ask (leg_b ib)) ib
           else md_nop ib)"

definition a_asks_changed :: md_step where
  "a_asks_changed = md_then
     (\<lambda>ib. if bid_implie_type ib = A_Ask_B_Bid then imply_bid (ask (leg_a ib)) (bid (leg_b ib)) ib
           else if bid_implie_type ib = A_Ask_B_Ask then imply_bid (ask (leg_a ib)) (ask (leg_b ib)) ib
           else md_nop ib)
     (\<lambda>ib. if ask_implie_type ib = A_Ask_B_Bid then imply_ask (ask (leg_a ib)) (bid (leg_b ib)) ib
           else if ask_implie_type ib = A_Ask_B_Ask then imply_ask (ask (leg_a ib)) (ask (leg_b ib)) ib
           else md_nop ib)"

definition handle_a :: "order \<Rightarrow> md_step" where
  "handle_a odr ib out = do {
     (item, a) \<leftarrow> handle_odr odr (leg_a ib);
     let ib1 = ib\<lparr>leg_a := a\<rparr>;
     (if item_side item = side_bid then a_bids_changed ib1 out
      else if item_side item = side_ask then a_asks_changed ib1 out
      else md_nop ib1 out) }"

definition b_bids_changed :: md_step where
  "b_bids_changed = md_then
     (\<lambda>ib. if bid_implie_type ib = A_Bid_B_Bid then imply_bid (bid (leg_a ib)) (bid (leg_b ib)) ib
           else if bid_implie_type ib = A_Ask_B_Bid then imply_bid (ask (leg_a ib)) (bid (leg_b ib)) ib
           else md_nop ib)
     (\<lambda>ib. if ask_implie_type ib = A_Bid_B_Bid then imply_ask (bid (leg_a ib)) (bid (leg_b ib)) ib
           else if ask_implie_type ib = A_Ask_B_Bid then imply_ask (ask (leg_a ib)) (bid (leg_b ib)) ib
           else md_nop ib)"

definition b_asks_changed :: md_step where
  "b_asks_changed = md_then
     (\<lambda>ib. if bid_implie_type ib = A_Bid_B_Ask then imply_bid (bid (leg_a ib)) (ask (leg_b ib)) ib
           else if bid_implie_type ib = A_Ask_B_Ask then imply_bid (ask (leg_a ib)) (ask (leg_b ib)) ib
           else md_nop ib)
     (\<lambda>ib. if ask_implie_type ib = A_Bid_B_Ask then imply_ask (bid (leg_a ib)) (ask (leg_b ib)) ib
           else if ask_implie_type ib = A_Ask_B_Ask then imply_ask (ask (leg_a ib)) (ask (leg_b ib)) ib
           else md_nop ib)"

definition handle_b :: "order \<Rightarrow> md_step" where
  "handle_b odr ib out = do {
     (item, b) \<leftarrow> handle_odr odr (leg_b ib);
     let ib1 = ib\<lparr>leg_b := b\<rparr>;
     (if item_side item = side_bid then b_bids_changed ib1 out
      else if item_side item = side_ask then b_asks_changed ib1 out
      else md_nop ib1 out) }"

definition handle_implied_bid :: md_step where
  "handle_implied_bid ib =
     (if bid_implie_type ib = A_Bid_B_Bid then imply_bid (bid (leg_a ib)) (bid (leg_b ib)) ib
      else if bid_implie_type ib = A_Ask_B_Bid then imply_bid (ask (leg_a ib)) (bid (leg_b ib)) ib
      else if bid_implie_type ib = A_Bid_B_Ask then imply_bid (bid (leg_a ib)) (ask (leg_b ib)) ib
      else if bid_implie_type ib = A_Ask_B_Ask then imply_bid (ask (leg_a ib)) (ask (leg_b ib)) ib
      else md_nop ib)"

text \<open>As it is written: the last two branches repeat the first two.\<close>

definition handle_implied_ask :: md_step where
  "handle_implied_ask ib =
     (if ask_implie_type ib = A_Bid_B_Ask then imply_ask (bid (leg_a ib)) (ask (leg_b ib)) ib
      else if ask_implie_type ib = A_Ask_B_Ask then imply_ask (ask (leg_a ib)) (ask (leg_b ib)) ib
      else if ask_implie_type ib = A_Bid_B_Ask then imply_ask (bid (leg_a ib)) (ask (leg_b ib)) ib
      else if ask_implie_type ib = A_Ask_B_Ask then imply_ask (ask (leg_a ib)) (ask (leg_b ib)) ib
      else md_nop ib)"

end
