(* ===== verification/Md_Replace.thy ===== *)
theory Md_Replace
  imports Md_Implied
begin

text \<open>
  What \<open>handle_implied\<close> does, in terms of quantities per price: the old implied levels leave the outright
  book, the new ones come in, the callback gets each level that changed once, best price first.
\<close>

section \<open>The implied levels\<close>

text \<open>An implier that has a price for all legs: for the sums and differences, any positive tick.\<close>

definition total_implier :: "implier \<Rightarrow> ll \<Rightarrow> bool" where
  "total_implier ip mini_tick \<longleftrightarrow> (\<forall>p1 p2. matchd_price ip p1 p2 mini_tick \<noteq> None)"

lemma round_total [simp]: "0 < t \<Longrightarrow> \<exists>y. round_up x t = Some y" "0 < t \<Longrightarrow> \<exists>y. round_down x t = Some y"
  by (simp_all add: round_up_def round_down_def divisible_def Let_def)

lemma total_add_minus:
  "0 < t \<Longrightarrow> ip \<in> {Add_Ask p, Add_Bid p, Minus_Ask p, Minus_Bid p} \<Longrightarrow> total_implier ip t"
  by (auto simp: total_implier_def add_ask_matchd_price_def add_bid_matchd_price_def minus_ask_matchd_price_def
      minus_bid_matchd_price_def)

lemma levels_total_put:
  "levels_total (put_level cmp px it m) \<le> unat (item_quantity it) + levels_total m"
  by (induction m) (auto simp: add.left_commute)

lemma unat_min: "unat (if a < b then a else b) = min (unat a) (unat b)" for a b :: u64
  by (auto simp: word_less_nat_alt)

definition positive :: "levels \<Rightarrow> bool" where
  "positive m \<longleftrightarrow> (\<forall>(px, it) \<in> set m. item_quantity it \<noteq> 0)"

lemma wf_positive: "wf_levels cmp sd m \<Longrightarrow> positive m"
  by (auto simp: wf_levels_def positive_def wf_item_def)

text \<open>What is left of a leg after \<open>n\<close> of its first level is used.\<close>

definition used_up :: "u64 \<Rightarrow> ll \<times> book_item \<Rightarrow> levels \<Rightarrow> levels" where
  "used_up n x l = (if item_quantity (snd x) - n = 0 then l else (fst x, (snd x)\<lparr>item_quantity := item_quantity (snd x) - n\<rparr>) # l)"

lemma used_up:
  assumes "positive ((p, i) # l)" "n \<le> item_quantity i"
  shows "positive (used_up n (p, i) l)" "levels_total (used_up n (p, i) l) = levels_total ((p, i) # l) - unat n"
proof -
  have "unat n \<le> unat (item_quantity i)" "unat (item_quantity i - n) = unat (item_quantity i) - unat n"
    using assms(2) by (simp_all add: word_le_nat_alt)
  moreover from this have "item_quantity i - n = 0 \<Longrightarrow> unat (item_quantity i) - unat n = 0"
    by simp
  ultimately show "levels_total (used_up n (p, i) l) = levels_total ((p, i) # l) - unat n"
    by (auto simp: used_up_def)
  show "positive (used_up n (p, i) l)"
    using assms(1) by (auto simp: used_up_def positive_def)
qed

lemma imply_levels_step:
  "imply_levels sd ip t out ((p1, i1) # l1) ((p2, i2) # l2) acc = do {
     let n = (if item_quantity i1 < item_quantity i2 then item_quantity i1 else item_quantity i2);
     px0 \<leftarrow> matchd_price ip (item_price i1) (item_price i2) t;
     let px = behind_outright sd t out px0;
     imply_levels sd ip t out (used_up n (p1, i1) l1) (used_up n (p2, i2) l2)
       (put_level (level_cmp sd) px (level_item sd px (unat n)) acc) }"
proof -
  have "new_item\<lparr>item_side := sd, item_price := px, item_quantity := n\<rparr> = level_item sd px (unat n)" for px n
    by (simp add: new_item_def level_item_def)
  then show ?thesis
    by (simp add: used_up_def Let_def)
qed

lemma imply_levels_spec:
  assumes "book_sides sd" "total_implier ip t" "positive l1" "positive l2" "wf_levels (level_cmp sd) sd acc"
  shows "\<exists>new. imply_levels sd ip t out l1 l2 acc = Some new \<and> wf_levels (level_cmp sd) sd new
    \<and> levels_total new \<le> levels_total acc + min (levels_total l1) (levels_total l2)
    \<and> (\<forall>px \<in> fst ` set new. px \<in> fst ` set acc \<or> (\<exists>px0. px = behind_outright sd t out px0))"
  using assms(3-)
proof (induction "length l1 + length l2" arbitrary: l1 l2 acc rule: less_induct)
  case less
  consider "l1 = []" | "l1 \<noteq> []" "l2 = []" | p1 i1 m1 p2 i2 m2 where "l1 = (p1, i1) # m1" "l2 = (p2, i2) # m2"
    by (metis neq_Nil_conv surj_pair)
  then show ?case
  proof cases
    case 2
    then show ?thesis
      using less.prems by (cases l1) auto
  next
    case 3
    define n where "n = (if item_quantity i1 < item_quantity i2 then item_quantity i1 else item_quantity i2)"
    obtain px0 where px0: "matchd_price ip (item_price i1) (item_price i2) t = Some px0"
      using assms(2) unfolding total_implier_def by blast
    define px where "px = behind_outright sd t out px0"
    define acc' where "acc' = put_level (level_cmp sd) px (level_item sd px (unat n)) acc"
    let ?m1 = "used_up n (p1, i1) m1" and ?m2 = "used_up n (p2, i2) m2"
    have run: "imply_levels sd ip t out l1 l2 acc = imply_levels sd ip t out ?m1 ?m2 acc'"
      unfolding 3 imply_levels_step by (simp add: n_def px0 px_def acc'_def Let_def)
    have le: "n \<le> item_quantity i1" "n \<le> item_quantity i2" "n \<noteq> 0"
      using less.prems(1,2) 3 by (auto simp: n_def positive_def)
    have dec: "length ?m1 + length ?m2 < length l1 + length l2"
      by (auto simp: 3 used_up_def n_def)
    have pos: "positive ?m1" "positive ?m2"
      using used_up(1) le less.prems(1,2) unfolding 3 by blast+
    have tot: "levels_total ?m1 = levels_total l1 - unat n" "levels_total ?m2 = levels_total l2 - unat n"
      using used_up(2) le less.prems(1,2) unfolding 3 by blast+
    have "unat n \<le> levels_total l1" "unat n \<le> levels_total l2"
      using le by (simp_all add: 3 word_le_nat_alt)
    moreover have item: "wf_item sd px (level_item sd px (unat n))"
      using le(3) by (simp add: wf_item_def level_item_def)
    moreover have acc': "wf_levels (level_cmp sd) sd acc'" "levels_total acc' \<le> unat n + levels_total acc"
      unfolding acc'_def
      using levels.put_level_wf(1) [OF less.prems(3) item] levels_total_put [of "level_cmp sd" px "level_item sd px (unat n)" acc]
      by (simp_all add: level_item_def)
    moreover have "fst ` set acc' = insert px (fst ` set acc)"
      using levels.sorted_put_level less.prems(3) by (simp add: acc'_def wf_levels_def)
    moreover obtain new where "imply_levels sd ip t out ?m1 ?m2 acc' = Some new" "wf_levels (level_cmp sd) sd new"
      "levels_total new \<le> levels_total acc' + min (levels_total ?m1) (levels_total ?m2)"
      "\<forall>px \<in> fst ` set new. px \<in> fst ` set acc' \<or> (\<exists>px0. px = behind_outright sd t out px0)"
      using less.hyps [OF dec pos acc'(1)] by blast
    ultimately show ?thesis
      unfolding run by (intro exI [of _ new]) (auto simp: tot px_def)
  qed (use less.prems in simp)
qed

section \<open>Putting them into the outright book\<close>

lemma side_quantities: "book_sides sd \<Longrightarrow> add_side sd = add_quantity sd \<and> reduce_side sd = reduce_quantity sd"
  by (auto simp: add_side_def reduce_side_def quantity_sides fun_eq_iff)

lemma push_level_item [simp]: "book_sides sd \<Longrightarrow> push_node (level_item sd px n) rt = rt @ [level_item sd px n]"
  by (auto simp: push_node_def level_item_def)

definition same_outside :: "book_side \<Rightarrow> basic_book \<Rightarrow> basic_book \<Rightarrow> bool" where
  "same_outside sd b b' \<longleftrightarrow> orders b' = orders b
     \<and> (\<forall>sd'. (sd' = side_bid) \<noteq> (sd = side_bid) \<longrightarrow> side_levels sd' b' = side_levels sd' b)"

lemma same_outside_refl [simp]: "same_outside sd b b"
  by (simp add: same_outside_def)

lemma same_outside_trans [trans]: "same_outside sd b b' \<Longrightarrow> same_outside sd b' b'' \<Longrightarrow> same_outside sd b b''"
  by (simp add: same_outside_def)

lemma same_outside_set [simp]: "same_outside sd b (set_levels sd m b)"
  by (simp add: same_outside_def)

lemma qty_Cons: "qty ((q, it) # m) px = (if px = q then unat (item_quantity it) else qty m px)"
  by (simp add: qty_def)

lemma wf_delete: "wf_levels cmp sd m \<Longrightarrow> wf_levels cmp sd (AList.delete px m)"
  by (auto simp: wf_levels_def sorted_wrt_delete in_delete)

lemma wf_first_key:
  "wf_levels (level_cmp sd) sd ((px, it) # m) \<Longrightarrow> px \<notin> fst ` set m \<and> qty m px = 0"
  using levels.cmp_irrefl by (fastforce simp: wf_levels_Cons qty_def split: option.splits dest: map_of_SomeD)

text \<open>One step of the loop: the level at \<open>px\<close> gets \<open>d\<close> less and \<open>n\<close> more.\<close>

lemma settle_step:
  assumes sd: "book_sides sd" and wf: "wf_levels (level_cmp sd) sd (side_levels sd out)" "wf_levels (level_cmp sd) sd new"
      "wf_levels (level_cmp sd) sd ((px, item) # old)"
    and le: "unat (item_quantity item) \<le> qty (side_levels sd out) px"
    and fits: "qty (side_levels sd out) px - unat (item_quantity item) + qty new px < 2 ^ 64"
  shows "\<exists>out1. settle_levels sd ((px, item) # old) new out rt = settle_levels sd old (AList.delete px new) out1
        (rt @ (if qty new px = unat (item_quantity item) then []
               else [level_item sd px (qty (side_levels sd out) px - unat (item_quantity item) + qty new px)]))
    \<and> wf_levels (level_cmp sd) sd (side_levels sd out1) \<and> same_outside sd out out1
    \<and> qty (side_levels sd out1) = (qty (side_levels sd out))(px :=
         qty (side_levels sd out) px - unat (item_quantity item) + qty new px)"
proof -
  let ?Q = "qty (side_levels sd out)"
  have it0: "item_price item = px" "item_quantity item \<noteq> 0"
    using wf(3) by (simp_all add: wf_levels_Cons wf_item_def)
  note ops = side_quantities [OF sd, THEN conjunct1] side_quantities [OF sd, THEN conjunct2]
  show ?thesis
  proof (cases "map_of new px")
    case None
    then have n: "qty new px = 0" "AList.delete px new = new"
      by (simp add: qty_def) (simp add: None [unfolded map_of_eq_None_iff])
    obtain m where m: "reduce_quantity sd px (item_quantity item) out
        = Some (level_item sd px (?Q px - unat (item_quantity item)), set_levels sd m out)"
      "wf_levels (level_cmp sd) sd m" "qty m = ?Q(px := ?Q px - unat (item_quantity item))"
      using reduce_quantity_spec [OF wf(1) it0(2) le] by metis
    show ?thesis
      using None n m it0 sd by (intro exI [of _ "set_levels sd m out"]) (auto simp: ops unat_eq_0)
  next
    case (Some it)
    then have n: "qty new px = unat (item_quantity it)"
      by (simp add: qty_def)
    show ?thesis
    proof (cases "item_quantity it" "item_quantity item" rule: linorder_cases)
      case greater
      then have d: "item_quantity it - item_quantity item \<noteq> 0"
        "unat (item_quantity it - item_quantity item) = unat (item_quantity it) - unat (item_quantity item)"
        "unat (item_quantity item) < unat (item_quantity it)"
        by (auto simp: word_less_nat_alt word_le_nat_alt unat_sub)
      have "?Q px + unat (item_quantity it - item_quantity item) < 2 ^ 64"
        using fits n d le by linarith
      then obtain m where m: "add_quantity sd px (item_quantity it - item_quantity item) out
          = (level_item sd px (?Q px + unat (item_quantity it - item_quantity item)), set_levels sd m out)"
        "wf_levels (level_cmp sd) sd m" "qty m = ?Q(px := ?Q px + unat (item_quantity it - item_quantity item))"
        using add_quantity_spec [OF wf(1) d(1)] by metis
      have eq: "?Q px + unat (item_quantity it - item_quantity item) = ?Q px - unat (item_quantity item) + qty new px"
        using n d le by linarith
      show ?thesis
        using Some n m [unfolded eq] it0 sd greater d(3) by (intro exI [of _ "set_levels sd m out"]) (simp add: ops)
    next
      case equal
      then show ?thesis
        using Some n le wf(1) by (intro exI [of _ out]) simp
    next
      case less
      then have d: "item_quantity item - item_quantity it \<noteq> 0"
        "unat (item_quantity item - item_quantity it) = unat (item_quantity item) - unat (item_quantity it)"
        "unat (item_quantity it) < unat (item_quantity item)"
        by (auto simp: word_less_nat_alt word_le_nat_alt unat_sub)
      have "unat (item_quantity item - item_quantity it) \<le> ?Q px"
        using d le by linarith
      then obtain m where m: "reduce_quantity sd px (item_quantity item - item_quantity it) out
          = Some (level_item sd px (?Q px - unat (item_quantity item - item_quantity it)), set_levels sd m out)"
        "wf_levels (level_cmp sd) sd m" "qty m = ?Q(px := ?Q px - unat (item_quantity item - item_quantity it))"
        using reduce_quantity_spec [OF wf(1) d(1)] by metis
      have eq: "?Q px - unat (item_quantity item - item_quantity it) = ?Q px - unat (item_quantity item) + qty new px"
        using n d le by linarith
      show ?thesis
        using Some n m [unfolded eq] it0 sd less d(3) by (intro exI [of _ "set_levels sd m out"]) (auto simp: ops)
    qed
  qed
qed

text \<open>The quantity at a price when the old levels are replaced, and the levels reported.\<close>

definition replaced :: "levels \<Rightarrow> levels \<Rightarrow> (ll \<Rightarrow> nat) \<Rightarrow> ll \<Rightarrow> nat" where
  "replaced old new Q px = Q px - qty old px + qty new px"

lemma settle_spec:
  assumes sd: "book_sides sd" and "wf_levels (level_cmp sd) sd (side_levels sd out)" "wf_levels (level_cmp sd) sd new"
      "wf_levels (level_cmp sd) sd old"
    and "\<forall>px. qty old px \<le> qty (side_levels sd out) px" "\<forall>px. replaced old new (qty (side_levels sd out)) px < 2 ^ 64"
  shows "\<exists>out1. settle_levels sd old new out rt = Some (out1, filter (\<lambda>x. fst x \<notin> fst ` set old) new,
        rt @ map (\<lambda>px. level_item sd px (replaced old new (qty (side_levels sd out)) px))
               (filter (\<lambda>px. qty new px \<noteq> qty old px) (map fst old)))
    \<and> wf_levels (level_cmp sd) sd (side_levels sd out1) \<and> same_outside sd out out1
    \<and> qty (side_levels sd out1) = (\<lambda>px. if px \<in> fst ` set old then replaced old new (qty (side_levels sd out)) px
         else qty (side_levels sd out) px)"
  using assms(2-)
proof (induction old arbitrary: new out rt)
  case (Cons x old)
  obtain px item where x: "x = (px, item)" by fastforce
  note prems = Cons.prems [unfolded x]
  have key: "px \<notin> fst ` set old" "qty old px = 0"
    using wf_first_key prems(3) by blast+
  let ?Q = "qty (side_levels sd out)"
  have le: "unat (item_quantity item) \<le> ?Q px" "?Q px - unat (item_quantity item) + qty new px < 2 ^ 64"
    using prems(4,5) [rule_format, of px] by (simp_all add: qty_Cons replaced_def)
  let ?new = "AList.delete px new"
  define rt1 where "rt1 = rt @ (if qty new px = unat (item_quantity item) then []
      else [level_item sd px (?Q px - unat (item_quantity item) + qty new px)])"
  obtain out1 where out1: "settle_levels sd ((px, item) # old) new out rt = settle_levels sd old ?new out1 rt1"
      "wf_levels (level_cmp sd) sd (side_levels sd out1)" "same_outside sd out out1"
      "qty (side_levels sd out1) = ?Q(px := ?Q px - unat (item_quantity item) + qty new px)"
    using settle_step [OF sd prems(1-3) le, of rt] unfolding rt1_def by blast
  have rest: "qty old q \<le> qty (side_levels sd out1) q"
      "replaced old ?new (qty (side_levels sd out1)) q = (if q = px then ?Q px - unat (item_quantity item) + qty new px
         else replaced ((px, item) # old) new ?Q q)" for q
    using prems(4) [rule_format, of q] key by (auto simp: out1(4) qty_Cons replaced_def)
  have head: "replaced ((px, item) # old) new ?Q px = ?Q px - unat (item_quantity item) + qty new px"
    by (simp add: replaced_def qty_Cons)
  have same: "replaced old ?new (qty (side_levels sd out1)) = replaced ((px, item) # old) new ?Q"
    by (rule ext) (simp add: rest(2) head)
  have rest2: "\<forall>q. qty old q \<le> qty (side_levels sd out1) q" "\<forall>q. replaced old ?new (qty (side_levels sd out1)) q < 2 ^ 64"
    using rest prems(5) le(2) by auto
  have wfo: "wf_levels (level_cmp sd) sd old"
    using prems(3) by (simp add: wf_levels_Cons)
  obtain out2 where out2: "settle_levels sd old ?new out1 rt1 = Some (out2, filter (\<lambda>x. fst x \<notin> fst ` set old) ?new,
        rt1 @ map (\<lambda>q. level_item sd q (replaced old ?new (qty (side_levels sd out1)) q))
               (filter (\<lambda>q. qty ?new q \<noteq> qty old q) (map fst old)))"
      "wf_levels (level_cmp sd) sd (side_levels sd out2)" "same_outside sd out1 out2"
      "qty (side_levels sd out2) = (\<lambda>q. if q \<in> fst ` set old then replaced old ?new (qty (side_levels sd out1)) q
         else qty (side_levels sd out1) q)"
    using Cons.IH [OF out1(2) wf_delete [OF prems(2)] wfo rest2, of rt1] by blast
  have q: "q \<noteq> px" if "q \<in> fst ` set old" for q
    using that key by blast
  have left: "filter (\<lambda>x. fst x \<notin> fst ` set old) ?new = filter (\<lambda>x. fst x \<notin> fst ` set ((px, item) # old)) new"
    by (auto simp: AList.delete_eq intro!: filter_cong)
  have changed: "filter (\<lambda>q. qty ?new q \<noteq> qty old q) (map fst old)
      = filter (\<lambda>q. qty new q \<noteq> qty ((px, item) # old) q) (map fst old)"
  proof (rule filter_cong [OF refl])
    fix r assume "r \<in> set (map fst old)"
    then have "r \<noteq> px"
      using q by simp
    then show "qty ?new r \<noteq> qty old r \<longleftrightarrow> qty new r \<noteq> qty ((px, item) # old) r"
      by (simp add: qty_Cons)
  qed
  have qs: "qty (side_levels sd out2) = (\<lambda>q. if q \<in> fst ` set ((px, item) # old) then replaced ((px, item) # old) new ?Q q else ?Q q)"
    unfolding out2(4) same using key by (auto simp: out1(4) head fun_eq_iff)
  have rt: "rt1 @ map (\<lambda>q. level_item sd q (replaced ((px, item) # old) new ?Q q))
        (filter (\<lambda>q. qty new q \<noteq> qty ((px, item) # old) q) (map fst old))
      = rt @ map (\<lambda>q. level_item sd q (replaced ((px, item) # old) new ?Q q))
        (filter (\<lambda>q. qty new q \<noteq> qty ((px, item) # old) q) (map fst ((px, item) # old)))"
    by (simp add: rt1_def head) (simp add: qty_Cons)
  show ?case
    unfolding x out1(1) out2(1) [unfolded changed same left rt]
    using out2(2) qs same_outside_trans [OF out1(3) out2(3)] by blast
qed simp

lemma add_levels_spec:
  assumes sd: "book_sides sd" and "wf_levels (level_cmp sd) sd (side_levels sd out)" "wf_levels (level_cmp sd) sd new"
    and "\<forall>px. qty (side_levels sd out) px + qty new px < 2 ^ 64"
  shows "\<exists>out1. add_levels sd new out rt = (out1,
        rt @ map (\<lambda>px. level_item sd px (qty (side_levels sd out) px + qty new px)) (map fst new))
    \<and> wf_levels (level_cmp sd) sd (side_levels sd out1) \<and> same_outside sd out out1
    \<and> qty (side_levels sd out1) = (\<lambda>px. qty (side_levels sd out) px + qty new px)"
  using assms(2-)
proof (induction new arbitrary: out rt)
  case (Cons x new)
  obtain px item where x: "x = (px, item)" by fastforce
  note prems = Cons.prems [unfolded x]
  let ?Q = "qty (side_levels sd out)"
  have it0: "item_price item = px" "item_quantity item \<noteq> 0"
    using prems(2) by (simp_all add: wf_levels_Cons wf_item_def)
  have key: "px \<notin> fst ` set new" "qty new px = 0"
    using wf_first_key prems(2) by blast+
  have fits: "?Q px + unat (item_quantity item) < 2 ^ 64"
    using prems(3) [rule_format, of px] by (simp add: qty_Cons)
  obtain m where m: "add_quantity sd px (item_quantity item) out = (level_item sd px (?Q px + unat (item_quantity item)), set_levels sd m out)"
    "wf_levels (level_cmp sd) sd m" "qty m = ?Q(px := ?Q px + unat (item_quantity item))"
    using add_quantity_spec [OF prems(1) it0(2) fits] by metis
  define out1 where "out1 = set_levels sd m out"
  define rt1 where "rt1 = rt @ [level_item sd px (?Q px + unat (item_quantity item))]"
  have run: "add_levels sd ((px, item) # new) out rt = add_levels sd new out1 rt1"
    using m(1) it0 sd by (simp add: side_quantities [OF sd] out1_def rt1_def)
  have "\<forall>q. qty (side_levels sd out1) q + qty new q < 2 ^ 64"
  proof
    fix q show "qty (side_levels sd out1) q + qty new q < 2 ^ 64"
      using prems(3) [rule_format, of q] fits key by (auto simp: out1_def m(3) qty_Cons split: if_splits)
  qed
  then obtain out2 where out2: "add_levels sd new out1 rt1 = (out2,
        rt1 @ map (\<lambda>q. level_item sd q (qty (side_levels sd out1) q + qty new q)) (map fst new))"
      "wf_levels (level_cmp sd) sd (side_levels sd out2)" "same_outside sd out1 out2"
      "qty (side_levels sd out2) = (\<lambda>q. qty (side_levels sd out1) q + qty new q)"
    using Cons.IH [of out1 rt1] m(2) prems(2) by (auto simp: out1_def wf_levels_Cons)
  have q: "q \<noteq> px" if "q \<in> fst ` set new" for q
    using that key by blast
  have "map (\<lambda>q. level_item sd q (qty (side_levels sd out1) q + qty new q)) (map fst new)
      = map (\<lambda>q. level_item sd q (?Q q + qty ((px, item) # new) q)) (map fst new)"
    using q by (auto simp: out1_def m(3) qty_Cons)
  moreover have "qty (side_levels sd out2) = (\<lambda>q. ?Q q + qty ((px, item) # new) q)"
    using key by (auto simp: out2(4) out1_def m(3) qty_Cons fun_eq_iff)
  moreover have "same_outside sd out out2"
    using out2(3) by (simp add: out1_def same_outside_def)
  ultimately show ?case
    unfolding x run using out2(1,2) by (simp add: rt1_def qty_Cons)
qed simp

lemma sort_items:
  assumes "distinct (map item_price rt)"
  shows "sorted_wrt (\<lambda>x y. level_cmp sd (item_price x) (item_price y)) (sort_items sd rt)" "set (sort_items sd rt) = set rt"
proof -
  have *: "sorted_wrt (<) (map f (sort_key f rt))" if "distinct (map f rt)" for f :: "book_item \<Rightarrow> int"
  proof -
    have "mset (map f (sort_key f rt)) = mset (map f rt)"
      by simp
    then have "distinct (map f (sort_key f rt))"
      using that mset_eq_imp_distinct_iff by blast
    then show ?thesis
      by (simp add: strict_sorted_iff)
  qed
  have "distinct (map (\<lambda>x. - item_price x) rt)"
    using assms by (auto simp: distinct_map inj_on_def)
  then show "sorted_wrt (\<lambda>x y. level_cmp sd (item_price x) (item_price y)) (sort_items sd rt)"
    using * [of item_price] * [of "\<lambda>x. - item_price x"] assms
    by (auto simp: sort_items_def level_cmp_def greater_def less_def sorted_wrt_map)
  show "set (sort_items sd rt) = set rt"
    by (simp add: sort_items_def)
qed

lemma qty_filter: "wf_levels (level_cmp sd) sd m \<Longrightarrow> qty (filter (\<lambda>x. P (fst x)) m) px = (if P px then qty m px else 0)"
proof (induction m)
  case (Cons x m)
  then show ?case
    using wf_first_key [of sd "fst x" "snd x" m] by (cases x) (auto simp: qty_Cons wf_levels_Cons)
qed simp

lemma wf_filter: "wf_levels cmp sd m \<Longrightarrow> wf_levels cmp sd (filter P m)"
  by (induction m) (auto simp: wf_levels_Cons)

lemma key_iff_qty: "wf_levels cmp sd m \<Longrightarrow> px \<in> fst ` set m \<longleftrightarrow> qty m px \<noteq> 0"
  by (simp add: qty_zero_iff map_of_eq_None_iff)

lemma handle_implied_spec:
  assumes sd: "book_sides sd" and ip: "total_implier ip t" "positive l1" "positive l2"
    and wf: "wf_levels (level_cmp sd) sd (side_levels sd out)" "wf_levels (level_cmp sd) sd old"
    and le: "\<forall>px. qty old px \<le> qty (side_levels sd out) px"
    and fits: "\<forall>px. qty (side_levels sd out) px - qty old px + min (levels_total l1) (levels_total l2) < 2 ^ 64"
  shows "\<exists>rt new out'. handle_implied sd ip t l1 l2 old out = Some (rt, new, out')
    \<and> wf_levels (level_cmp sd) sd new \<and> levels_total new \<le> min (levels_total l1) (levels_total l2)
    \<and> (\<forall>px \<in> fst ` set new. \<exists>px0. px = behind_outright sd t out px0)
    \<and> wf_levels (level_cmp sd) sd (side_levels sd out') \<and> same_outside sd out out'
    \<and> qty (side_levels sd out') = replaced old new (qty (side_levels sd out))
    \<and> sorted_wrt (\<lambda>x y. level_cmp sd (item_price x) (item_price y)) rt
    \<and> set rt = {level_item sd px (qty (side_levels sd out') px) | px. qty new px \<noteq> qty old px}"
proof -
  let ?Q = "qty (side_levels sd out)"
  obtain new where new: "imply_levels sd ip t out l1 l2 [] = Some new" "wf_levels (level_cmp sd) sd new"
    "levels_total new \<le> min (levels_total l1) (levels_total l2)" "\<forall>px \<in> fst ` set new. \<exists>px0. px = behind_outright sd t out px0"
    using imply_levels_spec [OF sd ip, of "[]" out] by auto
  let ?F = "replaced old new ?Q"
  have fit: "?F px < 2 ^ 64" for px
    unfolding replaced_def using fits [rule_format, of px] new(3) qty_le_total [of new px] by linarith
  obtain out1 where out1: "settle_levels sd old new out [] = Some (out1, filter (\<lambda>x. fst x \<notin> fst ` set old) new,
        [] @ map (\<lambda>px. level_item sd px (?F px)) (filter (\<lambda>px. qty new px \<noteq> qty old px) (map fst old)))"
      "wf_levels (level_cmp sd) sd (side_levels sd out1)" "same_outside sd out out1"
      "qty (side_levels sd out1) = (\<lambda>px. if px \<in> fst ` set old then ?F px else ?Q px)"
    using settle_spec [OF sd wf(1) new(2) wf(2) le, of "[]"] fit by blast
  define left where "left = filter (\<lambda>x. fst x \<notin> fst ` set old) new"
  define rt1 where "rt1 = map (\<lambda>px. level_item sd px (?F px)) (filter (\<lambda>px. qty new px \<noteq> qty old px) (map fst old))"
  have wl: "wf_levels (level_cmp sd) sd left"
    using wf_filter [OF new(2)] by (simp add: left_def)
  have ql: "qty left px = (if px \<notin> fst ` set old then qty new px else 0)" for px
    unfolding left_def by (rule qty_filter [OF new(2)])
  have sum: "qty (side_levels sd out1) px + qty left px = ?F px" for px
    using key_iff_qty [OF wf(2), of px] by (auto simp: out1(4) ql replaced_def)
  obtain out2 where out2: "add_levels sd left out1 rt1 = (out2, rt1 @ map (\<lambda>px. level_item sd px (?F px)) (map fst left))"
      "wf_levels (level_cmp sd) sd (side_levels sd out2)" "same_outside sd out1 out2" "qty (side_levels sd out2) = ?F"
    using add_levels_spec [OF sd out1(2) wl, of rt1, unfolded sum] fit by auto
  define ks where "ks = filter (\<lambda>px. qty new px \<noteq> qty old px) (map fst old) @ map fst left"
  have rt: "rt1 @ map (\<lambda>px. level_item sd px (?F px)) (map fst left) = map (\<lambda>px. level_item sd px (?F px)) ks"
    by (simp add: rt1_def ks_def)
  have price: "map item_price (map (\<lambda>px. level_item sd px (?F px)) ks) = ks"
    by (simp add: level_item_def comp_def)
  have "distinct (map fst old)" "distinct (map fst left)"
    using levels.distinct_levels wf(2) wl unfolding wf_levels_def by blast+
  then have "distinct ks"
    by (auto simp: ks_def left_def)
  then have d: "distinct (map item_price (map (\<lambda>px. level_item sd px (?F px)) ks))"
    by (simp only: price)
  have ks: "set ks = {px. qty new px \<noteq> qty old px}"
    using key_iff_qty [OF wf(2)] key_iff_qty [OF new(2)] by (force simp: ks_def left_def)
  have run: "handle_implied sd ip t l1 l2 old out = Some (sort_items sd (map (\<lambda>px. level_item sd px (?F px)) ks), new, out2)"
    using new(1) out1(1) out2(1) [unfolded rt] by (simp add: handle_implied_def left_def [symmetric] rt1_def [symmetric])
  have "set (sort_items sd (map (\<lambda>px. level_item sd px (?F px)) ks)) = {level_item sd px (qty (side_levels sd out2) px) | px. qty new px \<noteq> qty old px}"
    unfolding sort_items(2) [OF d] out2(4) using ks by auto
  then show ?thesis
    using run new(2-4) out2(2,4) sort_items(1) [OF d, of sd] same_outside_trans [OF out1(3) out2(3)] by blast
qed

end
