(* ===== verification/Md_Book.thy ===== *)
theory Md_Book
  imports Md_Replace
begin

text \<open>
  \<open>md/src/md_book.cpp\<close>: the market-data book of an instrument with its implied books. \<open>md_inv\<close> says what
  the outright levels are: the open orders of the instrument plus the levels implied by each pair of
  legs. Every report keeps it, and none leads to a level that is not there.
\<close>

section \<open>md_book\<close>

record md_book =
  mb_tick :: ll
  outright :: basic_book
  implied_books :: "md_implied_book list"

definition new_md_book :: "ll \<Rightarrow> md_book" where
  "new_md_book mtick = \<lparr>mb_tick = mtick, outright = new_basic_book, implied_books = []\<rparr>"

definition add_implited_book ::
    "implier_type \<Rightarrow> implier_type \<Rightarrow> implier option \<Rightarrow> implier option \<Rightarrow> md_book \<Rightarrow> md_book" where
  "add_implited_book bty aty bi ai md =
     md\<lparr>implied_books := implied_books md @ [new_implied_book (mb_tick md) bty aty bi ai]\<rparr>"

definition current_idx :: "md_book \<Rightarrow> nat" where
  "current_idx md = length (implied_books md)"

text \<open>The items \<open>recovery\<close> gives to the callback it gets.\<close>

definition md_recovery :: "md_book \<Rightarrow> book_item list" where
  "md_recovery md = map snd (bid (outright md)) @ map snd (ask (outright md))"

fun each_implied ::
    "md_step \<Rightarrow> md_implied_book list \<Rightarrow> basic_book \<Rightarrow> (book_item list \<times> md_implied_book list \<times> basic_book) option" where
  "each_implied f [] out = Some ([], [], out)"
| "each_implied f (ib # ibs) out = do {
     (r, ib1, out1) \<leftarrow> f ib out;
     (rs, ibs1, out2) \<leftarrow> each_implied f ibs out1;
     Some (r @ rs, ib1 # ibs1, out2) }"

definition handle_outright :: "order \<Rightarrow> md_book \<Rightarrow> (book_item list \<times> md_book) option" where
  "handle_outright odr md =
     (let old_best_price = (if side odr = BUY then best_bid_price (outright md)
                            else if side odr = SELL then best_ask_price (outright md) else 0)
      in do {
        (item, out) \<leftarrow> handle_odr odr (outright md);
        let md1 = md\<lparr>outright := out\<rparr>;
        (if item_side item \<noteq> side_none then do {
           (rs, ibs, out2) \<leftarrow>
             (if side odr = BUY then
                (if best_bid_price out < old_best_price then each_implied handle_implied_ask (implied_books md1) out
                 else Some ([], implied_books md1, out))
              else if side odr = SELL then
                (if best_ask_price out > old_best_price then each_implied handle_implied_bid (implied_books md1) out
                 else Some ([], implied_books md1, out))
              else Some ([], implied_books md1, out));
           Some (item # rs, md1\<lparr>implied_books := ibs, outright := out2\<rparr>) }
         else Some ([], md1)) })"

text \<open>\<open>implied_books[idx]\<close> does not check its index.\<close>

definition md_handle_a :: "order \<Rightarrow> nat \<Rightarrow> md_book \<Rightarrow> (book_item list \<times> md_book) option" where
  "md_handle_a odr idx md =
     (if idx < length (implied_books md) then do {
        (rt, ib, out) \<leftarrow> handle_a odr (implied_books md ! idx) (outright md);
        Some (rt, md\<lparr>implied_books := (implied_books md)[idx := ib], outright := out\<rparr>) }
      else None)"

definition md_handle_b :: "order \<Rightarrow> nat \<Rightarrow> md_book \<Rightarrow> (book_item list \<times> md_book) option" where
  "md_handle_b odr idx md =
     (if idx < length (implied_books md) then do {
        (rt, ib, out) \<leftarrow> handle_b odr (implied_books md ! idx) (outright md);
        Some (rt, md\<lparr>implied_books := (implied_books md)[idx := ib], outright := out\<rparr>) }
      else None)"

section \<open>The handlers by what they refresh\<close>

definition implied_levels :: "book_side \<Rightarrow> md_implied_book \<Rightarrow> levels" where
  "implied_levels sd ib = (if sd = side_bid then implied_bid ib else implied_ask ib)"

text \<open>The side of each leg an implied side is made of.\<close>

fun leg_a_side :: "implier_type \<Rightarrow> book_side" where
  "leg_a_side A_Bid_B_Bid = side_bid"
| "leg_a_side A_Bid_B_Ask = side_bid"
| "leg_a_side A_Ask_B_Bid = side_ask"
| "leg_a_side A_Ask_B_Ask = side_ask"
| "leg_a_side A_None_B_None = side_none"

fun leg_b_side :: "implier_type \<Rightarrow> book_side" where
  "leg_b_side A_Bid_B_Bid = side_bid"
| "leg_b_side A_Bid_B_Ask = side_ask"
| "leg_b_side A_Ask_B_Bid = side_bid"
| "leg_b_side A_Ask_B_Ask = side_ask"
| "leg_b_side A_None_B_None = side_none"

definition implie_type :: "book_side \<Rightarrow> md_implied_book \<Rightarrow> implier_type" where
  "implie_type sd ib = (if sd = side_bid then bid_implie_type ib else ask_implie_type ib)"

definition imply :: "book_side \<Rightarrow> levels \<Rightarrow> levels \<Rightarrow> md_step" where
  "imply sd = (if sd = side_bid then imply_bid else imply_ask)"

definition refresh :: "book_side \<Rightarrow> md_step" where
  "refresh sd ib =
     (if implie_type sd ib = A_None_B_None then md_nop ib
      else imply sd (side_levels (leg_a_side (implie_type sd ib)) (leg_a ib))
             (side_levels (leg_b_side (implie_type sd ib)) (leg_b ib)) ib)"

definition refresh_if :: "(md_implied_book \<Rightarrow> bool) \<Rightarrow> book_side \<Rightarrow> md_step" where
  "refresh_if P sd ib = (if P ib then refresh sd ib else md_nop ib)"

lemma changed_refresh:
  "a_bids_changed = md_then (refresh_if (\<lambda>ib. leg_a_side (bid_implie_type ib) = side_bid) side_bid)
     (refresh_if (\<lambda>ib. leg_a_side (ask_implie_type ib) = side_bid) side_ask)"
  "a_asks_changed = md_then (refresh_if (\<lambda>ib. leg_a_side (bid_implie_type ib) = side_ask) side_bid)
     (refresh_if (\<lambda>ib. leg_a_side (ask_implie_type ib) = side_ask) side_ask)"
  "b_bids_changed = md_then (refresh_if (\<lambda>ib. leg_b_side (bid_implie_type ib) = side_bid) side_bid)
     (refresh_if (\<lambda>ib. leg_b_side (ask_implie_type ib) = side_bid) side_ask)"
  "b_asks_changed = md_then (refresh_if (\<lambda>ib. leg_b_side (bid_implie_type ib) = side_ask) side_bid)
     (refresh_if (\<lambda>ib. leg_b_side (ask_implie_type ib) = side_ask) side_ask)"
  unfolding a_bids_changed_def a_asks_changed_def b_bids_changed_def b_asks_changed_def
  by (intro arg_cong2 [where f = md_then] ext;
      auto simp: refresh_if_def refresh_def implie_type_def imply_def side_levels_def
        split: implier_type.splits elim: leg_a_side.elims leg_b_side.elims)+

lemma implied_refresh:
  "handle_implied_bid ib = refresh side_bid ib"
  "handle_implied_ask ib = refresh_if (\<lambda>ib. leg_b_side (ask_implie_type ib) = side_ask) side_ask ib"
  by (cases "bid_implie_type ib", simp_all add: handle_implied_bid_def refresh_def implie_type_def imply_def side_levels_def)
     (cases "ask_implie_type ib", simp_all add: handle_implied_ask_def refresh_if_def refresh_def implie_type_def
        imply_def side_levels_def)

section \<open>Invariant\<close>

definition implier_of :: "book_side \<Rightarrow> md_implied_book \<Rightarrow> implier option" where
  "implier_of sd ib = (if sd = side_bid then bid_implier ib else ask_implier ib)"

definition small :: "nat \<Rightarrow> basic_book \<Rightarrow> bool" where
  "small cap b \<longleftrightarrow> (\<forall>sd. book_sides sd \<longrightarrow> levels_total (side_levels sd b) \<le> cap)"

text \<open>An implied book: its legs are sound and no side of them or of it adds up to more than \<open>cap\<close>.\<close>

definition ib_inv :: "nat \<Rightarrow> md_implied_book \<Rightarrow> bool" where
  "ib_inv cap ib \<longleftrightarrow> basic_inv (\<lambda>_ _. 0) (leg_a ib) \<and> basic_inv (\<lambda>_ _. 0) (leg_b ib)
     \<and> small cap (leg_a ib) \<and> small cap (leg_b ib)
     \<and> (\<forall>sd. book_sides sd \<longrightarrow> wf_levels (level_cmp sd) sd (implied_levels sd ib) \<and> levels_total (implied_levels sd ib) \<le> cap
          \<and> (\<forall>ip. implier_of sd ib = Some ip \<longrightarrow> total_implier ip (ib_tick ib)))"

definition implied_sum :: "md_implied_book list \<Rightarrow> book_side \<Rightarrow> ll \<Rightarrow> nat" where
  "implied_sum ibs sd px = sum_list (map (\<lambda>ib. qty (implied_levels sd ib) px) ibs)"

text \<open>What a step on one implied book keeps; \<open>Y\<close> is what the other implied books have in the outright book.\<close>

definition ib_kept :: "nat \<Rightarrow> (book_side \<Rightarrow> ll \<Rightarrow> nat) \<Rightarrow> md_implied_book \<Rightarrow> basic_book \<Rightarrow>
    (book_item list \<times> md_implied_book \<times> basic_book) option \<Rightarrow> bool" where
  "ib_kept cap Y ib out r \<longleftrightarrow> (\<exists>rt ib' out'. r = Some (rt, ib', out') \<and> ib_inv cap ib'
     \<and> basic_inv (\<lambda>sd px. Y sd px + qty (implied_levels sd ib') px) out' \<and> orders out' = orders out
     \<and> leg_a ib' = leg_a ib \<and> leg_b ib' = leg_b ib)"

definition ib_pre :: "nat \<Rightarrow> (book_side \<Rightarrow> ll \<Rightarrow> nat) \<Rightarrow> md_implied_book \<Rightarrow> basic_book \<Rightarrow> bool" where
  "ib_pre cap Y ib out \<longleftrightarrow> ib_inv cap ib \<and> basic_inv (\<lambda>sd px. Y sd px + qty (implied_levels sd ib) px) out
     \<and> (\<forall>sd px. book_sides sd \<longrightarrow> order_qty sd (orders out) px + Y sd px + cap < 2 ^ 64)"

lemma ib_kept_nop: "ib_pre cap Y ib out \<Longrightarrow> ib_kept cap Y ib out (md_nop ib out)"
  by (simp add: ib_pre_def ib_kept_def md_nop_def)

lemma ib_kept_then:
  assumes "ib_pre cap Y ib out" "ib_kept cap Y ib out (f ib out)"
    and "\<And>ib' out'. ib_pre cap Y ib' out' \<Longrightarrow> ib_kept cap Y ib' out' (g ib' out')"
  shows "ib_kept cap Y ib out (md_then f g ib out)"
proof -
  obtain rt ib' out' where 1: "f ib out = Some (rt, ib', out')" "ib_inv cap ib'"
    "basic_inv (\<lambda>sd px. Y sd px + qty (implied_levels sd ib') px) out'" "orders out' = orders out"
    "leg_a ib' = leg_a ib" "leg_b ib' = leg_b ib"
    using assms(2) by (auto simp: ib_kept_def)
  then have "ib_pre cap Y ib' out'"
    using assms(1) by (simp add: ib_pre_def)
  then have "ib_kept cap Y ib' out' (g ib' out')"
    by (rule assms(3))
  then show ?thesis
    using 1 by (auto simp: ib_kept_def md_then_def)
qed

definition set_implied :: "book_side \<Rightarrow> levels \<Rightarrow> md_implied_book \<Rightarrow> md_implied_book" where
  "set_implied sd m ib = (if sd = side_bid then ib\<lparr>implied_bid := m\<rparr> else ib\<lparr>implied_ask := m\<rparr>)"

lemma set_implied_simps [simp]:
  "implied_levels sd (set_implied sd m ib) = m"
  "(sd' = side_bid) \<noteq> (sd = side_bid) \<Longrightarrow> implied_levels sd' (set_implied sd m ib) = implied_levels sd' ib"
  "leg_a (set_implied sd m ib) = leg_a ib" "leg_b (set_implied sd m ib) = leg_b ib"
  "ib_tick (set_implied sd m ib) = ib_tick ib" "implier_of sd' (set_implied sd m ib) = implier_of sd' ib"
  by (auto simp: set_implied_def implied_levels_def implier_of_def)

lemma imply_eq:
  "book_sides sd \<Longrightarrow> imply sd leg1 leg2 ib out =
     (case implier_of sd ib of
        None \<Rightarrow> Some ([], ib, out)
      | Some ip \<Rightarrow> do {
          (rt, m, out1) \<leftarrow> handle_implied sd ip (ib_tick ib) leg1 leg2 (implied_levels sd ib) out;
          Some (rt, set_implied sd m ib, out1) })"
  by (auto simp: imply_def imply_bid_def imply_ask_def implier_of_def implied_levels_def set_implied_def split: option.splits)

lemma ib_kept_imply:
  assumes sd: "book_sides sd" and pre: "ib_pre cap Y ib out"
    and leg: "positive l1" "positive l2" "levels_total l1 \<le> cap"
  shows "ib_kept cap Y ib out (imply sd l1 l2 ib out)"
proof (cases "implier_of sd ib")
  case None
  then show ?thesis
    using ib_kept_nop [OF pre] by (simp add: imply_eq [OF sd] md_nop_def)
next
  case (Some ip)
  let ?old = "implied_levels sd ib" and ?Q = "qty (side_levels sd out)"
  have ip: "total_implier ip (ib_tick ib)" and wo: "wf_levels (level_cmp sd) sd ?old"
    using pre Some sd by (auto simp: ib_pre_def ib_inv_def)
  have inv: "basic_inv (\<lambda>sd px. Y sd px + qty (implied_levels sd ib) px) out"
    using pre by (simp add: ib_pre_def)
  then have wf: "wf_levels (level_cmp sd) sd (side_levels sd out)"
    and Q: "?Q px = order_qty sd (orders out) px + (Y sd px + qty ?old px)" for px
    using sd by (auto simp: basic_inv_def)
  have le: "\<forall>px. qty ?old px \<le> ?Q px"
    by (simp add: Q)
  have fits: "\<forall>px. ?Q px - qty ?old px + min (levels_total l1) (levels_total l2) < 2 ^ 64"
  proof
    fix px
    have "order_qty sd (orders out) px + Y sd px + cap < 2 ^ 64"
      using pre sd by (auto simp: ib_pre_def)
    then show "?Q px - qty ?old px + min (levels_total l1) (levels_total l2) < 2 ^ 64"
      using leg(3) unfolding Q by linarith
  qed
  obtain rt new out' where h: "handle_implied sd ip (ib_tick ib) l1 l2 ?old out = Some (rt, new, out')"
    "wf_levels (level_cmp sd) sd new" "levels_total new \<le> min (levels_total l1) (levels_total l2)"
    "wf_levels (level_cmp sd) sd (side_levels sd out')" "same_outside sd out out'" "qty (side_levels sd out') = replaced ?old new ?Q"
    using handle_implied_spec [OF sd ip leg(1,2) wf wo le fits] by blast
  define ib' where "ib' = set_implied sd new ib"
  have run: "imply sd l1 l2 ib out = Some (rt, ib', out')"
    using Some h(1) by (simp add: imply_eq [OF sd] ib'_def)
  have other: "implied_levels sd' ib' = implied_levels sd' ib" "side_levels sd' out' = side_levels sd' out"
    if "book_sides sd'" "sd' \<noteq> sd" for sd'
    using that sd h(5) by (auto simp: ib'_def same_outside_def)
  have "ib_inv cap ib'"
    unfolding ib_inv_def
  proof (intro conjI allI impI)
    fix sd' assume sd': "book_sides sd'"
    show "wf_levels (level_cmp sd') sd' (implied_levels sd' ib')"
      using pre sd' other(1) h(2) by (cases "sd' = sd") (auto simp: ib_pre_def ib_inv_def ib'_def)
    show "levels_total (implied_levels sd' ib') \<le> cap"
      using pre sd' other(1) h(3) leg(3) by (cases "sd' = sd") (auto simp: ib_pre_def ib_inv_def ib'_def)
  qed (use pre in \<open>auto simp: ib'_def ib_pre_def ib_inv_def\<close>)
  moreover have "basic_inv (\<lambda>sd px. Y sd px + qty (implied_levels sd ib') px) out'"
    unfolding basic_inv_def
  proof (intro conjI allI impI)
    show "distinct (map fst (orders out'))" "\<forall>(i, o1) \<in> set (orders out'). remain_quantity o1 \<noteq> 0"
      using inv h(5) by (simp_all add: basic_inv_def same_outside_def)
    fix sd' px assume sd': "book_sides sd'"
    show "wf_levels (level_cmp sd') sd' (side_levels sd' out')"
      using inv h(4) other(2) sd' by (cases "sd' = sd") (auto simp: basic_inv_def)
    show "qty (side_levels sd' out') px = order_qty sd' (orders out') px + (Y sd' px + qty (implied_levels sd' ib') px)"
    proof (cases "sd' = sd")
      case True
      then show ?thesis
        using h(5) by (simp add: h(6) replaced_def Q ib'_def same_outside_def)
    next
      case False
      then show ?thesis
        using other [OF sd' False] inv sd' h(5) by (auto simp: basic_inv_def same_outside_def)
    qed
  qed
  moreover have "orders out' = orders out" "leg_a ib' = leg_a ib" "leg_b ib' = leg_b ib"
    using h(5) by (simp_all add: same_outside_def ib'_def)
  ultimately show ?thesis
    using run by (simp add: ib_kept_def)
qed

lemma ib_kept_refresh:
  assumes "book_sides sd" "ib_pre cap Y ib out"
  shows "ib_kept cap Y ib out (refresh sd ib out)"
proof (cases "implie_type sd ib = A_None_B_None")
  case True
  then show ?thesis
    using ib_kept_nop [OF assms(2)] by (simp add: refresh_def)
next
  case False
  have legs: "positive (side_levels sd' b)" "levels_total (side_levels sd' b) \<le> cap" if "b \<in> {leg_a ib, leg_b ib}" "book_sides sd'" for sd' b
    using assms(2) that wf_positive [of "level_cmp sd'" sd' "side_levels sd' b"]
    by (auto simp: ib_pre_def ib_inv_def basic_inv_def small_def)
  have "book_sides (leg_a_side (implie_type sd ib))" "book_sides (leg_b_side (implie_type sd ib))"
    using False by (cases "implie_type sd ib"; simp)+
  then show ?thesis
    unfolding refresh_def using False ib_kept_imply [OF assms(1,2)] legs by simp
qed

lemma ib_kept_refresh_if: "book_sides sd \<Longrightarrow> ib_pre cap Y ib out \<Longrightarrow> ib_kept cap Y ib out (refresh_if P sd ib out)"
  by (simp add: refresh_if_def ib_kept_refresh ib_kept_nop)

lemma ib_kept_changed:
  assumes "ib_pre cap Y ib out"
  shows "ib_kept cap Y ib out (a_bids_changed ib out)" "ib_kept cap Y ib out (a_asks_changed ib out)"
    "ib_kept cap Y ib out (b_bids_changed ib out)" "ib_kept cap Y ib out (b_asks_changed ib out)"
  unfolding changed_refresh by (intro ib_kept_then assms ib_kept_refresh_if; simp)+

section \<open>Reports of the legs\<close>

definition order_total :: "book_side \<Rightarrow> (u64 \<times> order) list \<Rightarrow> nat" where
  "order_total sd os = sum_list (map (\<lambda>(i, o1). if md_side o1 = sd then unat (remain_quantity o1) else 0) os)"

lemma order_qty_le_total: "order_qty sd os px \<le> order_total sd os"
  by (induction os) (auto simp: order_total_def share_def)

lemma order_total_sum:
  "finite A \<Longrightarrow> (price \<circ> snd) ` set os \<subseteq> A \<Longrightarrow> order_total sd os = (\<Sum>px\<in>A. order_qty sd os px)"
proof (induction os)
  case (Cons x os)
  obtain i o1 where x: "x = (i, o1)" by fastforce
  have "(\<Sum>px\<in>A. share sd px o1) = (if md_side o1 = sd then unat (remain_quantity o1) else 0)"
    using Cons.prems x by (simp add: share_def if_bool_eq_conj sum.If_cases Int_absorb2)
  then show ?case
    using Cons x by (simp add: order_total_def sum.distrib)
qed (simp add: order_total_def)

lemma levels_total_sum: "wf_levels (level_cmp sd) sd m \<Longrightarrow> finite A \<Longrightarrow> fst ` set m \<subseteq> A \<Longrightarrow> levels_total m = (\<Sum>px\<in>A. qty m px)"
proof (induction m)
  case (Cons x m)
  obtain px it where x: "x = (px, it)" by fastforce
  have key: "qty m px = 0"
    using wf_first_key Cons.prems(1) x by blast
  have "(\<Sum>q\<in>A. qty (x # m) q) = (\<Sum>q\<in>A. (if q = px then unat (item_quantity it) else 0) + qty m q)"
    by (intro sum.cong refl) (auto simp: x qty_Cons key)
  also have "\<dots> = unat (item_quantity it) + levels_total m"
    using Cons x by (simp add: sum.distrib wf_levels_Cons)
  finally show ?case
    by (simp add: x)
qed simp

lemma basic_total:
  assumes "basic_inv (\<lambda>_ _. 0) b" "book_sides sd"
  shows "levels_total (side_levels sd b) = order_total sd (orders b)"
proof -
  let ?A = "fst ` set (side_levels sd b) \<union> (price \<circ> snd) ` set (orders b)"
  have "levels_total (side_levels sd b) = (\<Sum>px\<in>?A. qty (side_levels sd b) px)"
    using assms by (intro levels_total_sum [of sd]) (auto simp: basic_inv_def)
  also have "\<dots> = (\<Sum>px\<in>?A. order_qty sd (orders b) px)"
    using assms by (intro sum.cong refl) (auto simp: basic_inv_def)
  also have "\<dots> = order_total sd (orders b)"
    by (intro order_total_sum [symmetric]) auto
  finally show ?thesis .
qed

end
