(* ===== verification/Md_Runs.thy ===== *)
theory Md_Runs
  imports Md_Book
begin

text \<open>
  The market-data book as a machine fed with the reports of three engines: that of its instrument and
  those of the legs of its implied books. The invariant of its reachable states, and that no report
  fails, by induction over the steps.
\<close>

section \<open>Invariant\<close>

definition md_inv :: "nat \<Rightarrow> md_book \<Rightarrow> bool" where
  "md_inv cap md \<longleftrightarrow> (\<forall>ib \<in> set (implied_books md). ib_inv cap ib)
     \<and> basic_inv (implied_sum (implied_books md)) (outright md)
     \<and> (\<forall>sd. book_sides sd \<longrightarrow> order_total sd (orders (outright md)) \<le> cap)
     \<and> Suc (length (implied_books md)) * cap < 2 ^ 64"

lemma implied_sum_Nil [simp]: "implied_sum [] sd px = 0"
  by (simp add: implied_sum_def)

lemma implied_sum_Cons [simp]: "implied_sum (ib # ibs) sd px = qty (implied_levels sd ib) px + implied_sum ibs sd px"
  by (simp add: implied_sum_def)

lemma ib_inv_qty: "ib_inv cap ib \<Longrightarrow> book_sides sd \<Longrightarrow> qty (implied_levels sd ib) px \<le> cap"
  using qty_le_total [of "implied_levels sd ib" px] by (auto simp: ib_inv_def)

lemma sum_list_le_cap: "\<forall>x \<in> set xs. x \<le> (c::nat) \<Longrightarrow> sum_list xs \<le> length xs * c"
  by (induction xs) auto

lemma implied_sum_le:
  "\<forall>ib \<in> set ibs. ib_inv cap ib \<Longrightarrow> book_sides sd \<Longrightarrow> implied_sum ibs sd px \<le> length ibs * cap"
  using sum_list_le_cap [of "map (\<lambda>ib. qty (implied_levels sd ib) px) ibs" cap] ib_inv_qty
  by (auto simp: implied_sum_def)

lemma each_implied_kept:
  assumes f: "\<And>Y ib out. ib_pre cap Y ib out \<Longrightarrow> ib_kept cap Y ib out (f ib out)"
  shows "\<forall>ib \<in> set ibs. ib_inv cap ib \<Longrightarrow> basic_inv (\<lambda>sd px. Z sd px + implied_sum ibs sd px) out \<Longrightarrow>
    (\<And>sd px. book_sides sd \<Longrightarrow> order_qty sd (orders out) px + Z sd px + length ibs * cap < 2 ^ 64) \<Longrightarrow>
    \<exists>rs ibs' out'. each_implied f ibs out = Some (rs, ibs', out') \<and> length ibs' = length ibs
      \<and> (\<forall>ib \<in> set ibs'. ib_inv cap ib) \<and> basic_inv (\<lambda>sd px. Z sd px + implied_sum ibs' sd px) out' \<and> orders out' = orders out"
proof (induction ibs arbitrary: Z out)
  case (Cons ib ibs)
  define Y where "Y = (\<lambda>sd px. Z sd px + implied_sum ibs sd px)"
  have "ib_pre cap Y ib out"
    unfolding ib_pre_def
  proof (intro conjI allI impI)
    show "ib_inv cap ib"
      using Cons.prems(1) by simp
    show "basic_inv (\<lambda>sd px. Y sd px + qty (implied_levels sd ib) px) out"
      using Cons.prems(2) by (simp add: Y_def add.assoc add.left_commute add.commute)
    fix sd px assume sd: "book_sides sd"
    have "implied_sum ibs sd px \<le> length ibs * cap"
      using implied_sum_le sd Cons.prems(1) by simp
    then show "order_qty sd (orders out) px + Y sd px + cap < 2 ^ 64"
      using Cons.prems(3) [OF sd, of px] by (simp add: Y_def)
  qed
  then obtain r ib' out1 where 1: "f ib out = Some (r, ib', out1)" "ib_inv cap ib'" "orders out1 = orders out"
    "basic_inv (\<lambda>sd px. Y sd px + qty (implied_levels sd ib') px) out1"
    using f unfolding ib_kept_def by blast
  define Z' where "Z' = (\<lambda>sd px. Z sd px + qty (implied_levels sd ib') px)"
  have inv: "basic_inv (\<lambda>sd px. Z' sd px + implied_sum ibs sd px) out1"
    using 1(4) by (simp add: Y_def Z'_def add.assoc add.left_commute add.commute)
  have bound: "order_qty sd (orders out1) px + Z' sd px + length ibs * cap < 2 ^ 64" if "book_sides sd" for sd px
    using Cons.prems(3) [OF that, of px] ib_inv_qty [OF 1(2) that, of px] by (simp add: 1(3) Z'_def)
  obtain rs ibs' out' where "each_implied f ibs out1 = Some (rs, ibs', out')" "length ibs' = length ibs"
    "\<forall>ib \<in> set ibs'. ib_inv cap ib" "basic_inv (\<lambda>sd px. Z' sd px + implied_sum ibs' sd px) out'" "orders out' = orders out1"
    using Cons.IH [OF _ inv bound] Cons.prems(1) by auto
  then show ?case
    using 1 by (simp add: Z'_def add.assoc)
qed simp

section \<open>Reports\<close>

lemma handle_odr_kept:
  assumes "basic_inv X b" "agrees (orders b) odr" "md_side odr \<noteq> side_none \<Longrightarrow> level_after X b odr < 2 ^ 64"
  shows "\<exists>it b'. handle_odr odr b = Some (it, b') \<and> basic_inv X b' \<and> orders b' = filed odr (orders b)"
proof (cases "md_side odr = side_none")
  case True
  then show ?thesis
    using assms(1) by (simp add: handle_odr_track filed_def)
next
  case False
  then show ?thesis
    using handle_odr_spec [OF assms(1,2)] assms(3) by blast
qed

datatype md_event = On_Outright order | On_A order nat | On_B order nat

fun md_event_step :: "md_event \<Rightarrow> md_book \<Rightarrow> (book_item list \<times> md_book) option" where
  "md_event_step (On_Outright odr) md = handle_outright odr md"
| "md_event_step (On_A odr i) md = md_handle_a odr i md"
| "md_event_step (On_B odr i) md = md_handle_b odr i md"

text \<open>A report fits a book: the order keeps its price and side, and what is left on a side is at most \<open>cap\<close>.\<close>

definition fits :: "nat \<Rightarrow> basic_book \<Rightarrow> order \<Rightarrow> bool" where
  "fits cap b odr \<longleftrightarrow> agrees (orders b) odr \<and> (\<forall>sd. book_sides sd \<longrightarrow> order_total sd (filed odr (orders b)) \<le> cap)"

fun admissible :: "nat \<Rightarrow> md_book \<Rightarrow> md_event \<Rightarrow> bool" where
  "admissible cap md (On_Outright odr) \<longleftrightarrow> fits cap (outright md) odr"
| "admissible cap md (On_A odr i) \<longleftrightarrow> i < length (implied_books md) \<and> fits cap (leg_a (implied_books md ! i)) odr"
| "admissible cap md (On_B odr i) \<longleftrightarrow> i < length (implied_books md) \<and> fits cap (leg_b (implied_books md ! i)) odr"

lemma outright_kept:
  assumes inv: "md_inv cap md" and ok: "fits cap (outright md) odr"
  shows "\<exists>rt md'. handle_outright odr md = Some (rt, md') \<and> md_inv cap md' \<and> length (implied_books md') = length (implied_books md)"
proof -
  let ?ibs = "implied_books md"
  have ibs: "\<forall>ib \<in> set ?ibs. ib_inv cap ib" and room: "Suc (length ?ibs) * cap < 2 ^ 64"
    and b: "basic_inv (implied_sum ?ibs) (outright md)"
    using inv by (simp_all add: md_inv_def)
  have "level_after (implied_sum ?ibs) (outright md) odr < 2 ^ 64" if "md_side odr \<noteq> side_none"
  proof -
    have sd: "book_sides (md_side odr)"
      using that md_side_cases by blast
    then have "order_qty (md_side odr) (filed odr (orders (outright md))) (price odr) \<le> cap"
      using ok unfolding fits_def by (intro le_trans [OF order_qty_le_total]) blast
    then show ?thesis
      using implied_sum_le [OF ibs sd, of "price odr"] room by (simp add: level_after_def)
  qed
  then obtain it out1 where out1: "handle_odr odr (outright md) = Some (it, out1)"
    "basic_inv (implied_sum ?ibs) out1" "orders out1 = filed odr (orders (outright md))"
    using handle_odr_kept [OF b] ok [unfolded fits_def, THEN conjunct1] by metis
  let ?md1 = "md\<lparr>outright := out1\<rparr>"
  have total: "order_total sd (orders out1) \<le> cap" if "book_sides sd" for sd
    using ok that unfolding out1(3) fits_def by blast
  have inv1: "md_inv cap ?md1"
    using ibs out1(2) total room by (simp add: md_inv_def)
  define good where "good = (\<lambda>r :: (book_item list \<times> md_implied_book list \<times> basic_book) option. \<exists>rs ibs' out'.
      r = Some (rs, ibs', out') \<and> length ibs' = length ?ibs \<and> md_inv cap (?md1\<lparr>implied_books := ibs', outright := out'\<rparr>))"
  have refreshed: "good (each_implied f ?ibs out1)"
    if f: "\<And>Y ib out. ib_pre cap Y ib out \<Longrightarrow> ib_kept cap Y ib out (f ib out)" for f
  proof -
    have bound: "order_qty sd (orders out1) px + 0 + length ?ibs * cap < 2 ^ 64" if "book_sides sd" for sd px
      using total [OF that] order_qty_le_total [of sd "orders out1" px] room by simp
    have "basic_inv (\<lambda>sd px. 0 + implied_sum ?ibs sd px) out1"
      using out1(2) by simp
    from each_implied_kept [OF f ibs this bound] obtain rs ibs' out' where
      "each_implied f ?ibs out1 = Some (rs, ibs', out')" "length ibs' = length ?ibs"
      "\<forall>ib \<in> set ibs'. ib_inv cap ib" "basic_inv (implied_sum ibs') out'" "orders out' = orders out1"
      by auto
    then show ?thesis
      using total room by (simp add: md_inv_def good_def)
  qed
  have r: "good (each_implied handle_implied_ask ?ibs out1)" "good (each_implied handle_implied_bid ?ibs out1)"
    by (intro refreshed; simp add: implied_refresh ib_kept_refresh ib_kept_refresh_if)+
  have nop: "good (Some ([], ?ibs, out1))"
    using inv1 by (simp add: good_def)
  define inner where "inner = (if side odr = BUY then
        (if best_bid_price out1 < best_bid_price (outright md) then each_implied handle_implied_ask ?ibs out1 else Some ([], ?ibs, out1))
      else if side odr = SELL then
        (if best_ask_price out1 > best_ask_price (outright md) then each_implied handle_implied_bid ?ibs out1 else Some ([], ?ibs, out1))
      else Some ([], ?ibs, out1))"
  have "good inner"
    using r nop by (simp add: inner_def)
  then obtain rs ibs' out' where i: "inner = Some (rs, ibs', out')" "length ibs' = length ?ibs"
    "md_inv cap (?md1\<lparr>implied_books := ibs', outright := out'\<rparr>)"
    unfolding good_def by blast
  have run: "handle_outright odr md = (if item_side it \<noteq> side_none
      then do { (rs, ibs, out2) \<leftarrow> inner; Some (it # rs, ?md1\<lparr>implied_books := ibs, outright := out2\<rparr>) }
      else Some ([], ?md1))"
    using out1(1) by (simp add: handle_outright_def inner_def Let_def)
  show ?thesis
  proof (cases "item_side it = side_none")
    case True
    then show ?thesis
      using inv1 by (simp add: run)
  next
    case False
    then show ?thesis
      using i by (simp add: run)
  qed
qed

text \<open>A step on one implied book of the list.\<close>

lemma implied_sum_nth:
  assumes "i < length ibs"
  shows "implied_sum ibs sd px = implied_sum (take i ibs @ drop (Suc i) ibs) sd px + qty (implied_levels sd (ibs ! i)) px"
    "implied_sum (ibs[i := ib]) sd px = implied_sum (take i ibs @ drop (Suc i) ibs) sd px + qty (implied_levels sd ib) px"
  using arg_cong [OF id_take_nth_drop [OF assms], of "\<lambda>ibs. implied_sum ibs sd px"] assms
  by (simp_all add: implied_sum_def upd_conv_take_nth_drop)

lemma implied_kept:
  assumes inv: "md_inv cap md" and i: "i < length (implied_books md)"
    and ib: "ib_inv cap ib" "\<And>sd. implied_levels sd ib = implied_levels sd (implied_books md ! i)"
    and f: "\<And>Y ib out. ib_pre cap Y ib out \<Longrightarrow> ib_kept cap Y ib out (f ib out)"
  shows "\<exists>rt ib' out'. f ib (outright md) = Some (rt, ib', out')
    \<and> md_inv cap (md\<lparr>implied_books := (implied_books md)[i := ib'], outright := out'\<rparr>)"
proof -
  let ?ibs = "implied_books md" and ?rest = "take i (implied_books md) @ drop (Suc i) (implied_books md)"
  have ibs: "\<forall>ib \<in> set ?ibs. ib_inv cap ib" and room: "Suc (length ?ibs) * cap < 2 ^ 64"
    and b: "basic_inv (implied_sum ?ibs) (outright md)"
    and total: "\<And>sd. book_sides sd \<Longrightarrow> order_total sd (orders (outright md)) \<le> cap"
    using inv unfolding md_inv_def by blast+
  have rest: "\<forall>ib \<in> set ?rest. ib_inv cap ib"
    using ibs set_take_subset [of i ?ibs] set_drop_subset [of "Suc i" ?ibs] by auto
  have len: "Suc (length ?rest) = length ?ibs"
    using i by simp
  have pre: "ib_pre cap (implied_sum ?rest) ib (outright md)"
    unfolding ib_pre_def
  proof (intro conjI allI impI ib(1))
    have "implied_sum ?ibs = (\<lambda>sd px. implied_sum ?rest sd px + qty (implied_levels sd ib) px)"
      using implied_sum_nth(1) [OF i] by (simp add: fun_eq_iff ib(2))
    then show "basic_inv (\<lambda>sd px. implied_sum ?rest sd px + qty (implied_levels sd ib) px) (outright md)"
      using b by simp
    fix sd px assume sd: "book_sides sd"
    have "order_qty sd (orders (outright md)) px \<le> cap"
      using order_qty_le_total total [OF sd] le_trans by blast
    moreover have "implied_sum ?rest sd px + cap \<le> length ?ibs * cap"
      using implied_sum_le [OF rest sd, of px] unfolding len [symmetric] by simp
    ultimately show "order_qty sd (orders (outright md)) px + implied_sum ?rest sd px + cap < 2 ^ 64"
      using room by simp
  qed
  obtain rt ib' out' where r: "f ib (outright md) = Some (rt, ib', out')" "ib_inv cap ib'"
    "basic_inv (\<lambda>sd px. implied_sum ?rest sd px + qty (implied_levels sd ib') px) out'" "orders out' = orders (outright md)"
    using f [OF pre] unfolding ib_kept_def by blast
  have "implied_sum (?ibs[i := ib']) = (\<lambda>sd px. implied_sum ?rest sd px + qty (implied_levels sd ib') px)"
    using implied_sum_nth(2) [OF i] by (simp add: fun_eq_iff)
  moreover have "\<forall>x \<in> set (?ibs[i := ib']). ib_inv cap x"
    using ibs r(2) set_update_subset_insert [of ?ibs i ib'] by blast
  ultimately have "md_inv cap (md\<lparr>implied_books := ?ibs[i := ib'], outright := out'\<rparr>)"
    using r(3,4) room total by (simp add: md_inv_def)
  then show ?thesis
    using r(1) by blast
qed

text \<open>The report of a leg: the leg's own book first, then the implied levels that use the changed side.\<close>

lemma leg_kept:
  assumes "basic_inv (\<lambda>_ _. 0) b" "fits cap b odr" "cap < 2 ^ 64"
  shows "\<exists>it b'. handle_odr odr b = Some (it, b') \<and> basic_inv (\<lambda>_ _. 0) b' \<and> small cap b'"
proof -
  have "level_after (\<lambda>_ _. 0) b odr < 2 ^ 64" if "md_side odr \<noteq> side_none"
  proof -
    have sd: "book_sides (md_side odr)"
      using that md_side_cases by blast
    then have "order_qty (md_side odr) (filed odr (orders b)) (price odr) \<le> cap"
      using assms(2) unfolding fits_def by (intro le_trans [OF order_qty_le_total]) blast
    then show ?thesis
      using assms(3) by (simp add: level_after_def)
  qed
  then obtain it b' where b': "handle_odr odr b = Some (it, b')" "basic_inv (\<lambda>_ _. 0) b'" "orders b' = filed odr (orders b)"
    using handle_odr_kept [OF assms(1)] assms(2) [unfolded fits_def, THEN conjunct1] by metis
  have "small cap b'"
    using basic_total [OF b'(2)] assms(2) unfolding small_def fits_def b'(3) by metis
  then show ?thesis
    using b' by blast
qed

lemma ib_inv_legs:
  "ib_inv cap ib \<Longrightarrow> basic_inv (\<lambda>_ _. 0) b \<Longrightarrow> small cap b \<Longrightarrow> ib_inv cap (ib\<lparr>leg_a := b\<rparr>) \<and> ib_inv cap (ib\<lparr>leg_b := b\<rparr>)"
  by (simp add: ib_inv_def implied_levels_def implier_of_def)

lemma implied_levels_leg [simp]:
  "implied_levels sd (ib\<lparr>leg_a := b\<rparr>) = implied_levels sd ib" "implied_levels sd (ib\<lparr>leg_b := b\<rparr>) = implied_levels sd ib"
  by (simp_all add: implied_levels_def)

lemma leg_event_kept:
  assumes inv: "md_inv cap md" and i: "i < length (implied_books md)"
  shows "fits cap (leg_a (implied_books md ! i)) odr \<Longrightarrow> \<exists>rt md'. md_handle_a odr i md = Some (rt, md') \<and> md_inv cap md'"
    and "fits cap (leg_b (implied_books md ! i)) odr \<Longrightarrow> \<exists>rt md'. md_handle_b odr i md = Some (rt, md') \<and> md_inv cap md'"
proof -
  let ?ib = "implied_books md ! i"
  have ib: "ib_inv cap ?ib"
    using inv i by (simp add: md_inv_def)
  have cap: "cap < 2 ^ 64"
    using inv by (simp add: md_inv_def)
  note keep = ib_kept_changed ib_kept_nop
  {
    assume "fits cap (leg_a ?ib) odr"
    then obtain it b' where b': "handle_odr odr (leg_a ?ib) = Some (it, b')" "basic_inv (\<lambda>_ _. 0) b'" "small cap b'"
      using leg_kept [of "leg_a ?ib" cap odr] ib cap by (auto simp: ib_inv_def)
    define f :: md_step where "f = (if item_side it = side_bid then a_bids_changed
        else if item_side it = side_ask then a_asks_changed else md_nop)"
    have f: "ib_pre cap Y ib out \<Longrightarrow> ib_kept cap Y ib out (f ib out)" for Y ib out
      using keep by (simp add: f_def)
    obtain rt ib' out' where "f (?ib\<lparr>leg_a := b'\<rparr>) (outright md) = Some (rt, ib', out')"
      "md_inv cap (md\<lparr>implied_books := (implied_books md)[i := ib'], outright := out'\<rparr>)"
      using implied_kept [OF inv i _ _ f, of "?ib\<lparr>leg_a := b'\<rparr>"] ib_inv_legs [OF ib b'(2,3)] by auto
    moreover have "handle_a odr ?ib (outright md) = f (?ib\<lparr>leg_a := b'\<rparr>) (outright md)"
      using b'(1) by (simp add: handle_a_def f_def)
    ultimately show "\<exists>rt md'. md_handle_a odr i md = Some (rt, md') \<and> md_inv cap md'"
      using i by (simp add: md_handle_a_def)
  next
    assume "fits cap (leg_b ?ib) odr"
    then obtain it b' where b': "handle_odr odr (leg_b ?ib) = Some (it, b')" "basic_inv (\<lambda>_ _. 0) b'" "small cap b'"
      using leg_kept [of "leg_b ?ib" cap odr] ib cap by (auto simp: ib_inv_def)
    define f :: md_step where "f = (if item_side it = side_bid then b_bids_changed
        else if item_side it = side_ask then b_asks_changed else md_nop)"
    have f: "ib_pre cap Y ib out \<Longrightarrow> ib_kept cap Y ib out (f ib out)" for Y ib out
      using keep by (simp add: f_def)
    obtain rt ib' out' where "f (?ib\<lparr>leg_b := b'\<rparr>) (outright md) = Some (rt, ib', out')"
      "md_inv cap (md\<lparr>implied_books := (implied_books md)[i := ib'], outright := out'\<rparr>)"
      using implied_kept [OF inv i _ _ f, of "?ib\<lparr>leg_b := b'\<rparr>"] ib_inv_legs [OF ib b'(2,3)] by auto
    moreover have "handle_b odr ?ib (outright md) = f (?ib\<lparr>leg_b := b'\<rparr>) (outright md)"
      using b'(1) by (simp add: handle_b_def f_def)
    ultimately show "\<exists>rt md'. md_handle_b odr i md = Some (rt, md') \<and> md_inv cap md'"
      using i by (simp add: md_handle_b_def)
  }
qed

lemma event_kept:
  assumes "md_inv cap md" "admissible cap md ev"
  shows "\<exists>rt md'. md_event_step ev md = Some (rt, md') \<and> md_inv cap md'"
proof (cases ev)
  case (On_Outright odr)
  then show ?thesis
    using outright_kept [OF assms(1)] assms(2) by (simp only: admissible.simps md_event_step.simps) blast
qed (use assms leg_event_kept [OF assms(1)] in auto)

section \<open>Reachable books\<close>

text \<open>A book with its implied books in place, before the first report.\<close>

fun with_implied :: "(implier_type \<times> implier_type \<times> implier option \<times> implier option) list \<Rightarrow> md_book \<Rightarrow> md_book" where
  "with_implied [] md = md"
| "with_implied ((bty, aty, bi, ai) # cs) md = with_implied cs (add_implited_book bty aty bi ai md)"

inductive md_reachable :: "nat \<Rightarrow> md_book \<Rightarrow> md_book \<Rightarrow> bool" for cap md0 where
  start: "md_reachable cap md0 md0"
| report: "md_reachable cap md0 md \<Longrightarrow> admissible cap md ev \<Longrightarrow> md_event_step ev md = Some (rt, md') \<Longrightarrow> md_reachable cap md0 md'"

lemma reachable_inv: "md_reachable cap md0 md \<Longrightarrow> md_inv cap md0 \<Longrightarrow> md_inv cap md"
proof (induction rule: md_reachable.induct)
  case (report md ev rt md')
  then show ?case
    using event_kept [of cap md ev] by auto
qed

definition sound_impliers :: "ll \<Rightarrow> (implier_type \<times> implier_type \<times> implier option \<times> implier option) list \<Rightarrow> bool" where
  "sound_impliers mtick cs \<longleftrightarrow> (\<forall>(bty, aty, bi, ai) \<in> set cs. \<forall>ip. bi = Some ip \<or> ai = Some ip \<longrightarrow> total_implier ip mtick)"

lemma new_ib_inv:
  "\<forall>ip. bi = Some ip \<or> ai = Some ip \<longrightarrow> total_implier ip mtick \<Longrightarrow> ib_inv cap (new_implied_book mtick bty aty bi ai)"
  using basic_inv_new
  by (auto simp: ib_inv_def new_implied_book_def implied_levels_def implier_of_def small_def side_levels_def new_basic_book_def)

lemma with_implied_facts:
  "outright (with_implied cs md) = outright md" "mb_tick (with_implied cs md) = mb_tick md"
  "implied_books (with_implied cs md) = implied_books md @ map (\<lambda>(bty, aty, bi, ai). new_implied_book (mb_tick md) bty aty bi ai) cs"
  by (induction cs md rule: with_implied.induct) (simp_all add: add_implited_book_def)

lemma with_implied_inv:
  assumes "sound_impliers mtick cs" "Suc (length cs) * cap < 2 ^ 64"
  shows "md_inv cap (with_implied cs (new_md_book mtick))"
proof -
  have *: "qty (implied_levels sd (new_implied_book t bty aty bi ai)) px = 0" for sd t bty aty bi ai px
    by (simp add: new_implied_book_def implied_levels_def)
  have "implied_sum (implied_books (with_implied cs (new_md_book mtick))) = (\<lambda>_ _. 0)"
    by (auto simp: with_implied_facts new_md_book_def implied_sum_def fun_eq_iff comp_def case_prod_beta *)
  moreover have "\<forall>ib \<in> set (implied_books (with_implied cs (new_md_book mtick))). ib_inv cap ib"
    using assms(1) new_ib_inv by (fastforce simp: with_implied_facts new_md_book_def sound_impliers_def)
  ultimately show ?thesis
    using assms(2) basic_inv_new
    by (simp add: md_inv_def with_implied_facts new_md_book_def order_total_def)
qed

end
