(* ===== verification/Md_Properties.thy ===== *)
theory Md_Properties
  imports Md_Runs
begin

text \<open>What the market-data book promises, and three of its behaviours that its types do not suggest.\<close>

section \<open>Levels\<close>


definition md_example :: md_book where
  "md_example = with_implied [(A_Bid_B_Bid, A_None_B_None, Some (Add_Bid 0), None)] (new_md_book 1)"

definition bid_5_at_100 :: order where
  "bid_5_at_100 = new_order\<lparr>order_id := 1, price := 100, remain_quantity := 5\<rparr>"

definition bid_3_at_50 :: order where
  "bid_3_at_50 = new_order\<lparr>order_id := 2, price := 50, remain_quantity := 3\<rparr>"

definition md_example_1 :: md_book where
  "md_example_1 = md_example\<lparr>implied_books := [(implied_books md_example ! 0)
     \<lparr>leg_a := \<lparr>orders = [(1, bid_5_at_100)], bid = [(100, level_item side_bid 100 5)], ask = []\<rparr>\<rparr>]\<rparr>"

definition md_example_2 :: md_book where
  "md_example_2 = md_example_1\<lparr>outright := \<lparr>orders = [], bid = [(150, level_item side_bid 150 3)], ask = []\<rparr>,
     implied_books := [(implied_books md_example_1 ! 0)
     \<lparr>implied_bid := [(150, level_item side_bid 150 3)],
      leg_b := \<lparr>orders = [(2, bid_3_at_50)], bid = [(50, level_item side_bid 50 3)], ask = []\<rparr>\<rparr>]\<rparr>"

lemmas md_example_defs = md_example_def md_example_1_def md_example_2_def bid_5_at_100_def bid_3_at_50_def new_order_def
  new_md_book_def add_implited_book_def new_implied_book_def new_basic_book_def level_item_def




section \<open>Implied levels\<close>

text \<open>
  C17: when the implied levels of a side are computed anew, the new bids are below the best ask that the outright book
  has at that moment, the new asks above its best bid, whatever the implier's prices; and together they offer no
  more than either leg does. They need not stay so: an outright order that comes later does not have them
  computed again (\<open>implied_bid_left_above_ask\<close>).
\<close>

theorem new_implied_levels_do_not_cross:
  assumes "book_sides sd" "total_implier ip t" "positive l1" "positive l2" "0 < t"
    and "imply_levels sd ip t out l1 l2 [] = Some new"
    and "\<forall>q \<in> fst ` (set (bid out) \<union> set (ask out)). is_ll (q - t) \<and> is_ll (q + t)"
  shows "levels_total new \<le> min (levels_total l1) (levels_total l2)
    \<and> (\<forall>px \<in> fst ` set new. if sd = side_bid then ask out = [] \<or> px < best_ask_price out
                              else bid out = [] \<or> px > best_bid_price out)"
proof -
  have "levels_total new \<le> min (levels_total l1) (levels_total l2)"
    and px: "\<forall>px \<in> fst ` set new. \<exists>px0. px = behind_outright sd t out px0"
    using imply_levels_spec [OF assms(1-4) wf_levels_Nil, of out] assms(6) by simp_all
  moreover have "if sd = side_bid then ask out = [] \<or> behind_outright sd t out px0 < best_ask_price out
      else bid out = [] \<or> behind_outright sd t out px0 > best_bid_price out" for px0
    using assms(5,7) by (auto simp: behind_outright_def best_ask_price_def best_bid_price_def ll_sub_exact ll_add_exact
        split: list.splits)
  ultimately show ?thesis
    by metis
qed

text \<open>An outright book with one ask at 150 and legs whose prices add up to 160 and 158.\<close>

definition crossed_legs :: "basic_book \<times> levels \<times> levels" where
  "crossed_legs = (\<lparr>orders = [], bid = [], ask = [(150, level_item side_ask 150 1)]\<rparr>,
     [(100, level_item side_bid 100 5), (99, level_item side_bid 99 5)],
     [(60, level_item side_bid 60 5), (59, level_item side_bid 59 5)])"

theorem new_implied_levels_do_not_cross_witness:
  "\<exists>new. imply_levels side_bid (Add_Bid 0) 1 (fst crossed_legs) (fst (snd crossed_legs)) (snd (snd crossed_legs)) [] = Some new
    \<and> levels_total new \<le> 10 \<and> (\<forall>px \<in> fst ` set new. px < 150)"
proof -
  have p: "total_implier (Add_Bid 0) 1" "positive (fst (snd crossed_legs))" "positive (snd (snd crossed_legs))"
    using total_add_minus [of 1 "Add_Bid 0"] by (simp_all add: crossed_legs_def positive_def level_item_def)
  obtain new where new: "imply_levels side_bid (Add_Bid 0) 1 (fst crossed_legs) (fst (snd crossed_legs)) (snd (snd crossed_legs)) [] = Some new"
    using imply_levels_spec [OF _ p wf_levels_Nil, of side_bid "fst crossed_legs"] by auto
  show ?thesis
    using new_implied_levels_do_not_cross [OF _ p _ new] new
    by (simp add: crossed_legs_def level_item_def best_ask_price_def is_ll_def LL_MIN_def LL_MAX_def)
qed

text \<open>
  C18: when the implied levels of a side are computed anew, the outright level at each price
  changes by the new implied quantity less the old, its orders and its other side stay, and the
  callback gets exactly the levels that changed, with their quantity, once each and best price first.
\<close>

theorem implied_update_reports_changes:
  assumes "book_sides sd" "total_implier ip t" "positive l1" "positive l2"
    and "wf_levels (level_cmp sd) sd (side_levels sd out)" "wf_levels (level_cmp sd) sd old"
    and "\<forall>px. qty old px \<le> qty (side_levels sd out) px"
    and "\<forall>px. qty (side_levels sd out) px - qty old px + min (levels_total l1) (levels_total l2) < 2 ^ 64"
  shows "\<exists>rt new out'. handle_implied sd ip t l1 l2 old out = Some (rt, new, out')
    \<and> imply_levels sd ip t out l1 l2 [] = Some new \<and> same_outside sd out out'
    \<and> (\<forall>px. qty (side_levels sd out') px = qty (side_levels sd out) px - qty old px + qty new px)
    \<and> sorted_wrt (\<lambda>x y. level_cmp sd (item_price x) (item_price y)) rt
    \<and> set rt = {level_item sd px (qty (side_levels sd out') px) | px. qty new px \<noteq> qty old px}"
proof -
  obtain rt new out' where h: "handle_implied sd ip t l1 l2 old out = Some (rt, new, out')" "same_outside sd out out'"
    "qty (side_levels sd out') = replaced old new (qty (side_levels sd out))"
    "sorted_wrt (\<lambda>x y. level_cmp sd (item_price x) (item_price y)) rt"
    "set rt = {level_item sd px (qty (side_levels sd out') px) | px. qty new px \<noteq> qty old px}"
    using handle_implied_spec [OF assms] by blast
  moreover have "imply_levels sd ip t out l1 l2 [] = Some new"
    using h(1) by (auto simp: handle_implied_def elim!: bind_SomeE split: prod.splits)
  ultimately show ?thesis
    by (simp add: replaced_def)
qed

theorem implied_update_reports_changes_witness:
  "\<exists>rt new out'. handle_implied side_bid (Add_Bid 0) 1 (fst (snd crossed_legs)) (snd (snd crossed_legs)) [] (fst crossed_legs)
      = Some (rt, new, out') \<and> ask out' = ask (fst crossed_legs)"
proof -
  have p: "total_implier (Add_Bid 0) 1" "positive (fst (snd crossed_legs))" "positive (snd (snd crossed_legs))"
    using total_add_minus [of 1 "Add_Bid 0"] by (simp_all add: crossed_legs_def positive_def level_item_def)
  have "\<exists>rt new out'. handle_implied side_bid (Add_Bid 0) 1 (fst (snd crossed_legs)) (snd (snd crossed_legs)) [] (fst crossed_legs)
      = Some (rt, new, out') \<and> same_outside side_bid (fst crossed_legs) out'"
    using implied_update_reports_changes [OF _ p, of side_bid "fst crossed_legs" "[]"]
    by (simp add: side_levels_def crossed_legs_def level_item_def) blast
  then show ?thesis
    by (auto simp: same_outside_def side_levels_def)
qed

section \<open>Three behaviours of the code\<close>

text \<open>
  An outright ask that improves the best ask does not have the implied bids computed again: with an implied bid
  at 150, an admissible sell order at 140 gives an outright book whose best bid is 150 and whose best ask is 140.
\<close>

definition ask_1_at_140 :: order where
  "ask_1_at_140 = new_order\<lparr>order_id := 3, side := SELL, price := 140, remain_quantity := 1\<rparr>"

lemma ask_1_admissible: "admissible 100 md_example_2 (On_Outright ask_1_at_140)"
  by (auto simp: ask_1_at_140_def md_example_defs fits_def agrees_def order_total_def filed_def md_side_def on_bid_side_def on_ask_side_def
      STOP_PRICE_def LL_MIN_def calc_remain_quantity_def Let_def)

lemma implied_bid_left_above_ask:
  "map_option (\<lambda>(rt, md). (rt, bid (outright md), ask (outright md))) (md_event_step (On_Outright ask_1_at_140) md_example_2)
     = Some ([level_item side_ask 140 1], [(150, level_item side_bid 150 3)], [(140, level_item side_ask 140 1)])"
  by code_simp

text \<open>
  When both pairs of levels are moved to the same price, behind the ask at 150, the second replaces the
  first in the map: 5 are offered where the legs have 10.
\<close>

lemma implied_level_replaced_not_added:
  "imply_levels side_bid (Add_Bid 0) 1 (fst crossed_legs) (fst (snd crossed_legs)) (snd (snd crossed_legs)) []
     = Some [(149, level_item side_bid 149 5)]"
  by code_simp

text \<open>
  A fall of the best bid brings back implied asks only when they use the asks of the second leg: the
  branches for the two other kinds are missing.
\<close>

lemma implied_asks_not_refreshed:
  "ask_implie_type ib \<in> {A_Bid_B_Bid, A_Ask_B_Bid} \<Longrightarrow> handle_implied_ask ib out = Some ([], ib, out)"
  by (auto simp: handle_implied_ask_def md_nop_def)

end
