(* ===== verification/Ring_Math.thy ===== *)
theory Ring_Math
  imports Prelude
begin

text \<open>
  The compile-time arithmetic of the ring buffers (\<open>rapid_ring/meta/math/meta_math.hpp\<close>): the size of a
  buffer is the least power of two that is at least \<open>SIZE\<close>, and a sequence number is brought into
  the buffer by masking. A template whose instantiation does not end is \<open>None\<close>.
\<close>

primrec uint64_t_pow :: "u64 \<Rightarrow> nat \<Rightarrow> u64" where
  "uint64_t_pow x 0 = 1"
| "uint64_t_pow x (Suc n) = uint64_t_pow x n * x"

definition pow_mod_2_base :: "nat \<Rightarrow> u64" where
  "pow_mod_2_base n = uint64_t_pow 2 n - 1"

partial_function (option) pow_2_size_helper :: "u64 \<Rightarrow> nat \<Rightarrow> bool \<Rightarrow> nat option" where
  [code]: "pow_2_size_helper sz n is_large =
     (if is_large then Some n else pow_2_size_helper sz (n + 1) (uint64_t_pow 2 (n + 1) \<ge> sz))"

definition pow_2_size :: "u64 \<Rightarrow> nat option" where
  "pow_2_size sz = pow_2_size_helper sz 0 (uint64_t_pow 2 0 \<ge> sz)"

definition size_to_pow_2 :: "u64 \<Rightarrow> u64 option" where
  "size_to_pow_2 sz = map_option (uint64_t_pow 2) (pow_2_size sz)"

definition size_to_pow_2_mode_base :: "u64 \<Rightarrow> u64 option" where
  "size_to_pow_2_mode_base sz = map_option (\<lambda>bs. bs - 1) (size_to_pow_2 sz)"

text \<open>\<open>mode_operator::mode\<close>, given the size of the buffer.\<close>

definition ring_mode :: "u64 \<Rightarrow> u64 \<Rightarrow> u64" where
  "ring_mode bs x = and x (bs - 1)"

section \<open>Facts\<close>

lemma pow_eq: "uint64_t_pow x n = x ^ n"
  by (induction n) (simp_all add: mult.commute)

lemma unat_pow2: "n < 64 \<Longrightarrow> unat ((2::u64) ^ n) = 2 ^ n"
proof -
  assume "n < 64"
  then have "(2::nat) ^ n < 2 ^ 64"
    by (rule power_strict_increasing) simp
  then show ?thesis
    using unat_of_nat_id [of "2 ^ n", where 'a = 64] by simp
qed

lemma size_le: "m < 63 \<Longrightarrow> (2 :: nat) ^ m \<le> 2 ^ 62"
  by (intro power_increasing) simp_all

lemma pow_2_size_helper_least:
  assumes "unat sz \<le> 2 ^ k" "k < 64" "n \<le> k" "\<forall>j < n. 2 ^ j < unat sz"
  shows "\<exists>m. pow_2_size_helper sz n (uint64_t_pow 2 n \<ge> sz) = Some m \<and> m \<le> k \<and> unat sz \<le> 2 ^ m
    \<and> (\<forall>j < m. 2 ^ j < unat sz)"
  using assms(3,4)
proof (induction "k - n" arbitrary: n)
  case 0
  then have "sz \<le> uint64_t_pow 2 n"
    using assms(1,2) by (simp add: pow_eq word_le_nat_alt unat_pow2)
  then show ?case
    using 0 assms(1,2) by (subst pow_2_size_helper.simps) simp
next
  case (Suc d)
  then have n: "n < k"
    by simp
  show ?case
  proof (cases "sz \<le> uint64_t_pow 2 n")
    case True
    then have "unat sz \<le> 2 ^ n"
      using n assms(2) by (simp add: pow_eq word_le_nat_alt unat_pow2)
    then show ?thesis
      using True Suc.prems by (subst pow_2_size_helper.simps) simp
  next
    case False
    then have "2 ^ n < unat sz"
      using n assms(2) by (simp add: pow_eq word_le_nat_alt unat_pow2)
    then have "\<forall>j < Suc n. 2 ^ j < unat sz"
      using Suc.prems(2) by (auto simp: less_Suc_eq)
    moreover have "d = k - Suc n"
      using Suc.hyps(2) by simp
    ultimately obtain m where "pow_2_size_helper sz (n + 1) (uint64_t_pow 2 (n + 1) \<ge> sz) = Some m"
      "m \<le> k" "unat sz \<le> 2 ^ m" "\<forall>j < m. 2 ^ j < unat sz"
      using Suc.hyps(1) [of "Suc n"] n by auto
    then show ?thesis
      using False by (subst pow_2_size_helper.simps) simp
  qed
qed

lemma size_to_pow_2_least:
  assumes "unat sz \<le> 2 ^ 63"
  obtains m where "m < 64" "size_to_pow_2 sz = Some (2 ^ m)" "unat sz \<le> 2 ^ m" "\<forall>j < m. 2 ^ j < unat sz"
proof -
  obtain m where "pow_2_size sz = Some m" "m \<le> 63" "unat sz \<le> 2 ^ m" "\<forall>j < m. 2 ^ j < unat sz"
    using pow_2_size_helper_least [of sz 63 0] assms by (auto simp: pow_2_size_def)
  then show ?thesis
    by (intro that [of m]) (simp_all add: size_to_pow_2_def pow_eq)
qed

lemma ring_mode_mod:
  assumes "m < 64"
  shows "unat (ring_mode (2 ^ m) x) = unat x mod 2 ^ m"
proof -
  have "(2 ^ m :: u64) - 1 = mask m"
    by (simp add: mask_eq_exp_minus_1)
  then have "ring_mode (2 ^ m) x = take_bit m x"
    by (simp add: ring_mode_def take_bit_eq_mask)
  then have "unat (ring_mode (2 ^ m) x) = take_bit m (unat x)"
    by (simp only: unsigned_take_bit_eq)
  then show ?thesis
    by (simp only: take_bit_eq_mod)
qed

end
