(* ===== verification/Ring_Barrier.thy ===== *)
theory Ring_Barrier
  imports Ring_Math
begin

text \<open>
  The two barriers of the ring buffers (\<open>rapid_ring/barrier.hpp\<close>). A barrier counts the entries one side
  of a buffer has claimed (\<open>reserve\<close>) and finished (\<open>set\<close>); the other side waits on it. Sequence
  numbers start at the size of the buffer, so that 0 can stand for "not yet" in \<open>try_wait\<close>.

  An operation is modelled as it runs without another thread in between: a \<open>wait\<close> for what is not
  there yet never returns (\<open>None\<close>).   \<open>mt_weak\<close> says which of the next weak compare-and-exchange operations fail for no reason.
\<close>

section \<open>Interface\<close>

record 'b barrier_ops =
  op_reset :: "'b \<Rightarrow> 'b"
  op_reserve :: "u64 \<Rightarrow> 'b \<Rightarrow> u64 \<times> 'b"
  op_try_reserve :: "'b \<Rightarrow> u64"
  op_set_reserve :: "u64 \<Rightarrow> u64 \<Rightarrow> 'b \<Rightarrow> bool \<times> 'b"
  op_wait :: "u64 \<Rightarrow> 'b \<Rightarrow> (u64 \<times> 'b) option"
  op_try_wait :: "u64 \<Rightarrow> 'b \<Rightarrow> (u64 \<times> 'b) option"
  op_set :: "u64 \<Rightarrow> u64 \<Rightarrow> 'b \<Rightarrow> 'b option"
  op_ready :: "'b \<Rightarrow> u64"

section \<open>ring_buffer_barrier_st\<close>

record barrier_st =
  st_reserve :: u64
  st_cache :: u64
  st_ready :: u64

definition st_reset :: "u64 \<Rightarrow> barrier_st \<Rightarrow> barrier_st" where
  "st_reset bs b = b\<lparr>st_reserve := bs, st_cache := bs, st_ready := bs\<rparr>"

definition new_st :: "u64 \<Rightarrow> barrier_st" where
  "new_st bs = st_reset bs \<lparr>st_reserve = 0, st_cache = 0, st_ready = 0\<rparr>"

definition st_do_reserve :: "u64 \<Rightarrow> barrier_st \<Rightarrow> u64 \<times> barrier_st" where
  "st_do_reserve n b = (st_reserve b, b\<lparr>st_reserve := st_reserve b + n\<rparr>)"

definition st_set_reserve :: "u64 \<Rightarrow> u64 \<Rightarrow> barrier_st \<Rightarrow> bool \<times> barrier_st" where
  "st_set_reserve base end' b = (True, b\<lparr>st_reserve := end'\<rparr>)"

text \<open>The loop loads \<open>ready_\<close> until it is at least \<open>min\<close>; in a run of one thread it does not change.\<close>

definition st_wait :: "u64 \<Rightarrow> barrier_st \<Rightarrow> (u64 \<times> barrier_st) option" where
  "st_wait mn b =
     (if st_cache b < mn then
        (if st_ready b < mn then None else Some (st_ready b, b\<lparr>st_cache := st_ready b\<rparr>))
      else Some (st_cache b, b))"

definition st_try_wait :: "u64 \<Rightarrow> barrier_st \<Rightarrow> (u64 \<times> barrier_st) option" where
  "st_try_wait mn b =
     (let b1 = (if st_cache b < mn then b\<lparr>st_cache := st_ready b\<rparr> else b)
      in Some (if st_cache b1 < mn then 0 else st_cache b1, b1))"

definition st_set :: "u64 \<Rightarrow> u64 \<Rightarrow> barrier_st \<Rightarrow> barrier_st option" where
  "st_set pos end' b = Some (b\<lparr>st_ready := end'\<rparr>)"

definition st_ops :: "u64 \<Rightarrow> barrier_st barrier_ops" where
  "st_ops bs = \<lparr>op_reset = st_reset bs, op_reserve = st_do_reserve, op_try_reserve = st_reserve,
     op_set_reserve = st_set_reserve, op_wait = st_wait, op_try_wait = st_try_wait, op_set = st_set, op_ready = st_ready\<rparr>"

section \<open>ring_buffer_barrier_mt\<close>

record barrier_mt =
  mt_cache :: u64
  mt_reserve :: u64
  mt_ready :: u64
  mt_slots :: "u64 list"
  mt_weak :: "bool list"

definition mt_reset :: "u64 \<Rightarrow> barrier_mt \<Rightarrow> barrier_mt" where
  "mt_reset bs b = b\<lparr>mt_cache := bs, mt_reserve := bs, mt_ready := bs, mt_slots := replicate (unat bs) 0\<rparr>"

definition new_mt :: "u64 \<Rightarrow> bool list \<Rightarrow> barrier_mt" where
  "new_mt bs weak = mt_reset bs \<lparr>mt_cache = 0, mt_reserve = 0, mt_ready = 0, mt_slots = [], mt_weak = weak\<rparr>"

definition mt_do_reserve :: "u64 \<Rightarrow> barrier_mt \<Rightarrow> u64 \<times> barrier_mt" where
  "mt_do_reserve n b = (mt_reserve b, b\<lparr>mt_reserve := mt_reserve b + n\<rparr>)"

text \<open>Whether the next weak exchange fails although the value is as expected.\<close>

definition spurious :: "barrier_mt \<Rightarrow> bool" where
  "spurious b = (case mt_weak b of [] \<Rightarrow> False | f # _ \<Rightarrow> f)"

definition mt_set_reserve :: "u64 \<Rightarrow> u64 \<Rightarrow> barrier_mt \<Rightarrow> bool \<times> barrier_mt" where
  "mt_set_reserve base end' b =
     (if mt_reserve b = base \<and> \<not> spurious b then (True, b\<lparr>mt_reserve := end', mt_weak := tl (mt_weak b)\<rparr>)
      else (False, b\<lparr>mt_weak := tl (mt_weak b)\<rparr>))"

text \<open>\<open>ready_.compare_exchange_weak(ready_cache_, pre_ready)\<close> and the writes to \<open>ready_cache_\<close> after it.\<close>

definition cas_ready :: "u64 \<Rightarrow> barrier_mt \<Rightarrow> bool \<times> barrier_mt" where
  "cas_ready pre_ready b =
     (if mt_ready b = mt_cache b \<and> \<not> spurious b
      then (True, b\<lparr>mt_ready := pre_ready, mt_weak := tl (mt_weak b), mt_cache := pre_ready\<rparr>)
      else (False, b\<lparr>mt_weak := tl (mt_weak b), mt_cache := mt_ready b\<rparr>))"

definition slot_at :: "u64 \<Rightarrow> u64 \<Rightarrow> barrier_mt \<Rightarrow> u64 option" where
  "slot_at bs p b = (let i = unat (ring_mode bs p) in if i < length (mt_slots b) then Some (mt_slots b ! i) else None)"

partial_function (option) mt_wait_loop :: "u64 \<Rightarrow> u64 \<Rightarrow> u64 \<Rightarrow> barrier_mt \<Rightarrow> barrier_mt option" where
  [code]: "mt_wait_loop bs mn pre_ready b =
     (if mt_cache b < mn then do {
        next_ready \<leftarrow> slot_at bs pre_ready b;
        if next_ready \<le> pre_ready then
          (let (ok, b1) = cas_ready pre_ready b
           in mt_wait_loop bs mn (if ok then pre_ready else mt_cache b1) b1)
        else mt_wait_loop bs mn next_ready b }
      else Some b)"

definition mt_wait :: "u64 \<Rightarrow> u64 \<Rightarrow> barrier_mt \<Rightarrow> (u64 \<times> barrier_mt) option" where
  "mt_wait bs mn b =
     (if mt_cache b > mn then Some (mt_cache b, b)
      else do {
        b2 \<leftarrow> mt_wait_loop bs mn (mt_ready b) (b\<lparr>mt_cache := mt_ready b\<rparr>);
        Some (mt_cache b2, b2) })"

text \<open>The result of the loop is whether it ended by itself, not by \<open>return 0\<close>.\<close>

partial_function (option) mt_try_wait_loop :: "u64 \<Rightarrow> u64 \<Rightarrow> u64 \<Rightarrow> barrier_mt \<Rightarrow> (bool \<times> barrier_mt) option" where
  [code]: "mt_try_wait_loop bs mn pre_ready b =
     (if mt_cache b < mn then do {
        next_ready \<leftarrow> slot_at bs pre_ready b;
        if next_ready \<le> pre_ready then
          (let (ok, b1) = cas_ready pre_ready b
           in if ok \<and> mt_cache b1 < mn then Some (False, b1)
              else mt_try_wait_loop bs mn (if ok then pre_ready else mt_cache b1) b1)
        else mt_try_wait_loop bs mn next_ready b }
      else Some (True, b))"

definition mt_try_wait :: "u64 \<Rightarrow> u64 \<Rightarrow> barrier_mt \<Rightarrow> (u64 \<times> barrier_mt) option" where
  "mt_try_wait bs mn b =
     (if mt_cache b > mn then Some (mt_cache b, b)
      else do {
        (ok, b2) \<leftarrow> mt_try_wait_loop bs mn (mt_ready b) (b\<lparr>mt_cache := mt_ready b\<rparr>);
        Some (if ok then mt_cache b2 else 0, b2) })"

definition mt_set :: "u64 \<Rightarrow> u64 \<Rightarrow> barrier_mt \<Rightarrow> barrier_mt option" where
  "mt_set pos end' b =
     (if unat pos < length (mt_slots b) then Some (b\<lparr>mt_slots := (mt_slots b)[unat pos := end']\<rparr>) else None)"

definition mt_ops :: "u64 \<Rightarrow> barrier_mt barrier_ops" where
  "mt_ops bs = \<lparr>op_reset = mt_reset bs, op_reserve = mt_do_reserve, op_try_reserve = mt_reserve,
     op_set_reserve = mt_set_reserve, op_wait = mt_wait bs, op_try_wait = mt_try_wait bs, op_set = mt_set, op_ready = mt_ready\<rparr>"

section \<open>The contract\<close>

text \<open>
  \<open>rep b res lo pub\<close>: \<open>b\<close> stands for \<open>res\<close> entries claimed and \<open>pub\<close> finished, of which the waiting side has
  seen at least \<open>lo\<close>. Finishing needs room: a block may not reach more than one buffer size beyond
  \<open>lo\<close>. A barrier is \<open>strong\<close> when \<open>set_reserve\<close> does not fail for no reason and \<open>ready\<close> is exact.
\<close>

locale barrier =
  fixes ops :: "'b barrier_ops" and m :: nat and rep :: "'b \<Rightarrow> nat \<Rightarrow> nat \<Rightarrow> nat \<Rightarrow> bool" and strong :: bool
  assumes rep_order: "rep b res lo pub \<Longrightarrow> m < 63 \<and> 2 ^ m \<le> lo \<and> lo \<le> pub \<and> pub \<le> lo + 2 ^ m \<and> pub < 2 ^ 64 \<and> res < 2 ^ 64"
    and reset: "m < 63 \<Longrightarrow> rep (op_reset ops b) (2 ^ m) (2 ^ m) (2 ^ m)"
    and ready: "rep b res lo pub \<Longrightarrow> op_ready ops b = of_nat lo"
    and strong_ready: "strong \<Longrightarrow> rep b res lo pub \<Longrightarrow> lo = pub"
    and reserve: "rep b res lo pub \<Longrightarrow> res + unat n < 2 ^ 64 \<Longrightarrow>
      \<exists>b'. op_reserve ops n b = (of_nat res, b') \<and> rep b' (res + unat n) lo pub"
    and try_reserve: "rep b res lo pub \<Longrightarrow> op_try_reserve ops b = of_nat res"
    and set_reserve: "rep b res lo pub \<Longrightarrow> \<exists>ok b'. op_set_reserve ops (of_nat res) e b = (ok, b')
      \<and> rep b' (if ok then unat e else res) lo pub \<and> (strong \<longrightarrow> ok)"
    and wait: "rep b res lo pub \<Longrightarrow> unat w \<le> pub \<Longrightarrow>
      \<exists>v b' lo'. op_wait ops w b = Some (v, b') \<and> rep b' res lo' pub \<and> lo \<le> lo' \<and> unat w \<le> lo'"
    and wait_spins: "rep b res lo pub \<Longrightarrow> pub < unat w \<Longrightarrow> op_wait ops w b = None"
    and try_wait: "rep b res lo pub \<Longrightarrow>
      \<exists>v b' lo'. op_try_wait ops w b = Some (v, b') \<and> rep b' res lo' pub \<and> lo \<le> lo'
        \<and> (v = 0 \<longleftrightarrow> pub < unat w) \<and> (v \<noteq> 0 \<longrightarrow> unat w \<le> lo')"
    and set_done: "rep b res lo pub \<Longrightarrow> pub < unat e \<Longrightarrow> unat e \<le> lo + 2 ^ m \<Longrightarrow>
      \<exists>b' lo'. op_set ops (ring_mode (2 ^ m) (of_nat pub)) e b = Some b' \<and> rep b' res lo' (unat e) \<and> lo \<le> lo'"

section \<open>The single-threaded barrier\<close>

definition st_rep :: "nat \<Rightarrow> barrier_st \<Rightarrow> nat \<Rightarrow> nat \<Rightarrow> nat \<Rightarrow> bool" where
  "st_rep m b res lo pub \<longleftrightarrow> m < 63 \<and> unat (st_reserve b) = res \<and> lo = pub \<and> unat (st_ready b) = pub
     \<and> st_cache b \<le> st_ready b \<and> 2 ^ m \<le> st_cache b"

lemma unat_pow_le: "m < 63 \<Longrightarrow> (2 ^ m :: u64) \<le> w \<longleftrightarrow> 2 ^ m \<le> unat w"
  by (simp add: word_le_nat_alt unat_pow2)

lemma pow_pos: "m < 63 \<Longrightarrow> (2 ^ m :: u64) \<le> w \<Longrightarrow> w \<noteq> 0"
  by (auto simp: unat_pow_le)

interpretation st: barrier "st_ops (2 ^ m)" m "st_rep m" True for m
proof
  fix b res lo pub assume rep: "st_rep m b res lo pub"
  then show "m < 63 \<and> 2 ^ m \<le> lo \<and> lo \<le> pub \<and> pub \<le> lo + 2 ^ m \<and> pub < 2 ^ 64 \<and> res < 2 ^ 64"
    using unsigned_less [of "st_ready b", where 'a = nat] unsigned_less [of "st_reserve b", where 'a = nat]
      unat_pow_le [of m "st_ready b"]
    by (auto simp: st_rep_def)
next
  fix b assume "m < 63"
  then show "st_rep m (op_reset (st_ops (2 ^ m)) b) (2 ^ m) (2 ^ m) (2 ^ m)"
    by (simp add: st_ops_def st_rep_def st_reset_def unat_pow2)
next
  fix b res lo pub and n :: u64 assume "st_rep m b res lo pub" "res + unat n < 2 ^ 64"
  then show "\<exists>b'. op_reserve (st_ops (2 ^ m)) n b = (of_nat res, b') \<and> st_rep m b' (res + unat n) lo pub"
    by (auto simp: st_ops_def st_rep_def st_do_reserve_def unat_word_ariths)
next
  fix b res lo pub and e :: u64 assume "st_rep m b res lo pub" "pub < unat e" "unat e \<le> lo + 2 ^ m"
  then show "\<exists>b' lo'. op_set (st_ops (2 ^ m)) (ring_mode (2 ^ m) (of_nat pub)) e b = Some b' \<and> st_rep m b' res lo' (unat e) \<and> lo \<le> lo'"
    by (auto simp: st_ops_def st_rep_def st_set_def word_le_nat_alt)
next
  fix b res lo pub and w :: u64 assume rep: "st_rep m b res lo pub"
  then have "st_cache b \<noteq> 0" "st_ready b \<noteq> 0" "2 ^ m \<le> st_ready b"
    using pow_pos [of m "st_cache b"] pow_pos [of m "st_ready b"] by (auto simp: st_rep_def)
  then show "\<exists>v b' lo'. op_try_wait (st_ops (2 ^ m)) w b = Some (v, b') \<and> st_rep m b' res lo' pub \<and> lo \<le> lo'
      \<and> (v = 0 \<longleftrightarrow> pub < unat w) \<and> (v \<noteq> 0 \<longrightarrow> unat w \<le> lo')"
    using rep by (auto simp: st_ops_def st_rep_def st_try_wait_def Let_def word_less_nat_alt word_le_nat_alt)
next
  fix b res lo pub assume "st_rep m b res lo pub"
  then show "op_ready (st_ops (2 ^ m)) b = of_nat lo"
    by (auto simp: st_ops_def st_rep_def)
qed (auto simp: st_ops_def st_rep_def st_set_reserve_def st_wait_def word_less_nat_alt word_le_nat_alt)

end
