(* ===== verification/Ring_Mt.thy ===== *)
theory Ring_Mt
  imports Ring_Barrier
begin

text \<open>
  The barrier for several threads on one side keeps the contract. A block that starts at \<open>p\<close> is finished by
  writing its end into slot \<open>p mod 2 ^ m\<close>, so that the finished blocks are a chain through the slots;
  a waiting thread follows it to its end and moves \<open>ready_\<close> there.
\<close>

section \<open>Chains\<close>

fun links :: "(nat \<Rightarrow> nat) \<Rightarrow> nat \<Rightarrow> nat list \<Rightarrow> bool" where
  "links f p [] \<longleftrightarrow> f p \<le> p"
| "links f p (q # qs) \<longleftrightarrow> p < q \<and> f p = q \<and> links f q qs"

definition next_of :: "nat \<Rightarrow> barrier_mt \<Rightarrow> nat \<Rightarrow> nat" where
  "next_of m b p = unat (mt_slots b ! (p mod 2 ^ m))"

definition mt_rep :: "nat \<Rightarrow> barrier_mt \<Rightarrow> nat \<Rightarrow> nat \<Rightarrow> nat \<Rightarrow> bool" where
  "mt_rep m b res lo pub \<longleftrightarrow> m < 63 \<and> length (mt_slots b) = 2 ^ m \<and> unat (mt_reserve b) = res \<and> unat (mt_ready b) = lo
     \<and> mt_cache b \<le> mt_ready b \<and> 2 ^ m \<le> mt_cache b \<and> (\<forall>v \<in> set (mt_slots b). unat v \<le> pub)
     \<and> pub \<le> lo + 2 ^ m \<and> pub < 2 ^ 64 \<and> (\<exists>qs. links (next_of m b) lo qs \<and> last (lo # qs) = pub)"

lemma links_le: "links f p qs \<Longrightarrow> p \<le> last (p # qs)"
  by (induction qs arbitrary: p) (auto intro: order_trans less_imp_le)

lemma mod_neq: "p < q \<Longrightarrow> q < p + (k::nat) \<Longrightarrow> p mod k \<noteq> q mod k"
proof
  assume *: "p < q" "q < p + k" "p mod k = q mod k"
  then have "k dvd q - p"
    by (metis less_imp_le mod_eq_dvd_iff_nat)
  then show False
    using * by (metis add.commute dvd_imp_le less_diff_conv2 less_imp_le not_less zero_less_diff)
qed

lemma links_snoc:
  assumes "links f p qs" "last (p # qs) < e" "e \<le> p + k" "\<And>r. r mod k \<noteq> last (p # qs) mod k \<Longrightarrow> f' r = f r"
    "f' (last (p # qs)) = e" "f' e \<le> e"
  shows "links f' p (qs @ [e])"
  using assms
proof (induction qs arbitrary: p)
  case (Cons q qs)
  have le: "q \<le> last (q # qs)"
    using Cons.prems(1) links_le [of f q qs] by simp
  have "p mod k \<noteq> last (q # qs) mod k"
    using Cons.prems(1-3) le by (intro mod_neq) auto
  then have "f' p = q"
    using Cons.prems(1,4) by simp
  moreover have "links f' q (qs @ [e])"
    using Cons.prems by (intro Cons.IH) auto
  ultimately show ?case
    using Cons.prems(1) by simp
qed simp

section \<open>Waiting\<close>

definition on_chain :: "nat \<Rightarrow> barrier_mt \<Rightarrow> nat \<Rightarrow> nat \<Rightarrow> nat \<Rightarrow> u64 \<Rightarrow> nat list \<Rightarrow> bool" where
  "on_chain m b res lo pub pre rest \<longleftrightarrow> mt_rep m b res lo pub \<and> mt_cache b = mt_ready b
     \<and> links (next_of m b) (unat pre) rest \<and> last (unat pre # rest) = pub \<and> lo \<le> unat pre"

lemma slot_at_next:
  assumes "m < 63" "mt_rep m b res lo pub"
  obtains v where "slot_at (2 ^ m) p b = Some v" "unat v = next_of m b (unat p)"
  using assms by (simp add: slot_at_def ring_mode_mod mt_rep_def next_of_def Let_def)

lemma rep_moved:
  assumes "on_chain m b res lo pub pre []"
  shows "mt_rep m (b\<lparr>mt_ready := pre, mt_weak := w, mt_cache := pre\<rparr>) res pub pub"
    "mt_rep m (b\<lparr>mt_weak := w, mt_cache := mt_ready b\<rparr>) res lo pub"
proof -
  have n: "next_of m (b\<lparr>mt_ready := x, mt_weak := w, mt_cache := y\<rparr>) = next_of m b" "next_of m (b\<lparr>mt_weak := w, mt_cache := y\<rparr>) = next_of m b" for x y
    by (simp_all add: next_of_def fun_eq_iff)
  have *: "unat pre = pub" "lo \<le> pub" "links (next_of m b) pub []"
    using assms by (auto simp: on_chain_def)
  have "2 ^ m \<le> mt_ready b" "unat (mt_ready b) = lo"
    using assms by (auto simp: on_chain_def mt_rep_def)
  then have "2 ^ m \<le> pre"
    using *(1,2) by (metis order_trans word_le_nat_alt)
  then show "mt_rep m (b\<lparr>mt_ready := pre, mt_weak := w, mt_cache := pre\<rparr>) res pub pub"
    using assms * by (auto simp: on_chain_def mt_rep_def n intro!: exI [of _ "[]"])
  show "mt_rep m (b\<lparr>mt_weak := w, mt_cache := mt_ready b\<rparr>) res lo pub"
    using assms by (auto simp: on_chain_def mt_rep_def n)
qed

lemma chain_start:
  assumes "mt_rep m b res lo pub"
  obtains rest where "on_chain m (b\<lparr>mt_cache := mt_ready b\<rparr>) res lo pub (mt_ready b) rest"
proof -
  obtain qs where "links (next_of m b) lo qs" "last (lo # qs) = pub"
    using assms by (auto simp: mt_rep_def)
  moreover have "next_of m (b\<lparr>mt_cache := x\<rparr>) = next_of m b" for x
    by (simp add: next_of_def fun_eq_iff)
  ultimately show ?thesis
    using assms that [of qs] by (auto simp: on_chain_def mt_rep_def)
qed

text \<open>The four ways a round of the loop can go.\<close>

lemma round_cases:
  assumes m: "m < 63" and c: "on_chain m b res lo pub pre rest" "mt_cache b < mn"
  obtains (next_block) q qs v where "rest = q # qs" "slot_at (2 ^ m) pre b = Some v" "\<not> v \<le> pre" "on_chain m b res lo pub v qs"
  | (moved) v b1 where "rest = []" "slot_at (2 ^ m) pre b = Some v" "v \<le> pre" "cas_ready pre b = (True, b1)"
      "mt_rep m b1 res pub pub" "mt_cache b1 = pre" "mt_ready b1 = pre" "unat pre = pub"
  | (failed) v b1 where "rest = []" "slot_at (2 ^ m) pre b = Some v" "v \<le> pre" "cas_ready pre b = (False, b1)"
      "mt_rep m b1 res lo pub" "mt_cache b1 = mt_ready b1" "length (mt_weak b1) < length (mt_weak b)"
proof -
  have rep: "mt_rep m b res lo pub" and cache: "mt_cache b = mt_ready b"
    using c(1) by (simp_all add: on_chain_def)
  obtain v where v: "slot_at (2 ^ m) pre b = Some v" "unat v = next_of m b (unat pre)"
    using slot_at_next [OF m rep] by blast
  show thesis
  proof (cases rest)
    case (Cons q qs)
    then have "unat pre < q" "next_of m b (unat pre) = q" "links (next_of m b) q qs" "last (q # qs) = pub" "lo \<le> unat pre"
      using c(1) by (auto simp: on_chain_def)
    then show thesis
      using Cons v rep cache by (intro next_block [of q qs v]) (auto simp: word_le_nat_alt on_chain_def)
  next
    case Nil
    then have "next_of m b (unat pre) \<le> unat pre" "unat pre = pub"
      using c(1) by (auto simp: on_chain_def)
    then have le: "v \<le> pre"
      using v(2) by (simp add: word_le_nat_alt)
    note rm = rep_moved [OF c(1) [unfolded Nil]]
    show thesis
    proof (cases "spurious b")
      case True
      then have "mt_weak b \<noteq> []"
        by (auto simp: spurious_def)
      then show thesis
        using Nil v(1) le True rm(2) by (intro failed [of v "b\<lparr>mt_weak := tl (mt_weak b), mt_cache := mt_ready b\<rparr>"]) (auto simp: cas_ready_def)
    next
      case False
      then show thesis
        using Nil v(1) le rm(1) cache \<open>unat pre = pub\<close> by (intro moved) (auto simp: cas_ready_def)
    qed
  qed
qed

lemma already_there:
  "on_chain m b res lo pub pre rest \<Longrightarrow> \<not> mt_cache b < mn \<Longrightarrow> mt_rep m b res lo pub \<and> lo \<le> lo \<and> unat mn \<le> lo \<and> lo \<le> pub"
  using links_le [of "next_of m b" "unat pre" rest] by (auto simp: on_chain_def mt_rep_def word_le_nat_alt not_less)

lemma mt_wait_loop_returns:
  assumes m: "m < 63"
  shows "on_chain m b res lo pub pre rest \<Longrightarrow> unat mn \<le> pub \<Longrightarrow>
    \<exists>b' lo'. mt_wait_loop (2 ^ m) mn pre b = Some b' \<and> mt_rep m b' res lo' pub \<and> lo \<le> lo' \<and> unat mn \<le> lo'"
proof (induction "length (mt_weak b)" arbitrary: b pre rest rule: less_induct)
  case outer: less
  from outer.prems show ?case
  proof (induction rest arbitrary: pre)
    case Nil
    show ?case
    proof (cases "mt_cache b < mn")
      case False
      then show ?thesis
        using already_there [OF Nil.prems(1)] by (subst mt_wait_loop.simps) auto
    next
      case True
      from m Nil.prems(1) True show ?thesis
      proof (cases rule: round_cases)
        case (moved v b1)
        then have "mt_wait_loop (2 ^ m) mn pre b = Some b1"
          using True Nil.prems(2) by (subst mt_wait_loop.simps, subst mt_wait_loop.simps) (simp add: word_less_nat_alt)
        then show ?thesis
          using moved Nil.prems by (auto simp: on_chain_def)
      next
        case (failed v b1)
        obtain rest where r: "on_chain m b1 res lo pub (mt_ready b1) rest"
        proof -
          have "b1\<lparr>mt_cache := mt_ready b1\<rparr> = b1"
            using failed(6) by simp
          then show thesis
            using chain_start [OF failed(5)] that by metis
        qed
        have "mt_wait_loop (2 ^ m) mn pre b = mt_wait_loop (2 ^ m) mn (mt_ready b1) b1"
          using True failed by (subst mt_wait_loop.simps) simp
        then show ?thesis
          using outer.hyps [OF failed(7) r Nil.prems(2)] by simp
      qed simp
    qed
  next
    case (Cons q qs)
    show ?case
    proof (cases "mt_cache b < mn")
      case False
      then show ?thesis
        using already_there [OF Cons.prems(1)] by (subst mt_wait_loop.simps) auto
    next
      case True
      from m Cons.prems(1) True show ?thesis
      proof (cases rule: round_cases)
        case (next_block q' qs' v)
        have "mt_wait_loop (2 ^ m) mn pre b = mt_wait_loop (2 ^ m) mn v b"
          using True next_block by (subst mt_wait_loop.simps) simp
        then show ?thesis
          using Cons.IH [of v] next_block Cons.prems(2) by simp
      qed simp_all
    qed
  qed
qed

text \<open>It returns only when what it waits for is there.\<close>

lemma restart:
  assumes "mt_rep m b1 res lo pub" "mt_cache b1 = mt_ready b1"
  obtains rest where "on_chain m b1 res lo pub (mt_ready b1) rest"
proof -
  have "b1\<lparr>mt_cache := mt_ready b1\<rparr> = b1"
    using assms(2) by simp
  then show thesis
    using chain_start [OF assms(1)] that by metis
qed

lemma mt_wait_loop_only_step:
  assumes m: "m < 63" and c: "on_chain m b res lo pub pre rest"
    and IH: "\<And>pre b lo rest. loop pre b = Some b' \<Longrightarrow> on_chain m b res lo pub pre rest \<Longrightarrow> unat mn \<le> pub"
    and run: "(if mt_cache b < mn then do {
        next_ready \<leftarrow> slot_at (2 ^ m) pre b;
        if next_ready \<le> pre then (let (ok, b1) = cas_ready pre b in loop (if ok then pre else mt_cache b1) b1)
        else loop next_ready b }
      else Some b) = Some b'"
  shows "unat mn \<le> pub"
proof (cases "mt_cache b < mn")
  case False
  then show ?thesis
    using already_there [OF c False] by simp
next
  case True
  from m c True show ?thesis
  proof (cases rule: round_cases)
    case (next_block q qs v)
    then show ?thesis
      using IH [of v b lo qs] run True by simp
  next
    case (moved v b1)
    obtain rest where r: "on_chain m b1 res pub pub (mt_ready b1) rest"
      using restart [OF moved(5)] moved(6,7) by metis
    then show ?thesis
      using IH [of pre b1 pub rest] moved run True by simp
  next
    case (failed v b1)
    obtain rest where r: "on_chain m b1 res lo pub (mt_ready b1) rest"
      using restart [OF failed(5,6)] by blast
    then show ?thesis
      using IH [of "mt_ready b1" b1 lo rest] failed run True by simp
  qed
qed

lemma mt_wait_loop_only:
  assumes m: "m < 63" and run: "mt_wait_loop (2 ^ m) mn pre b = Some b'" and c: "on_chain m b res lo pub pre rest"
  shows "unat mn \<le> pub"
proof -
  let ?P = "\<lambda>(bs :: u64) (mn :: u64) (pre :: u64) b (b' :: barrier_mt). \<forall>lo rest. bs = 2 ^ m \<longrightarrow> on_chain m b res lo pub pre rest \<longrightarrow> unat mn \<le> pub"
  have "?P (2 ^ m) mn pre b b'"
  proof (rule mt_wait_loop.raw_induct [where P = ?P, OF _ run])
    fix loop bs mn pre b b'
    assume IH: "\<And>bs mn pre b b'. loop bs mn pre b = Some b' \<Longrightarrow> ?P bs mn pre b b'"
      and body: "(if mt_cache b < mn then do {
          next_ready \<leftarrow> slot_at bs pre b;
          if next_ready \<le> pre then (let (ok, b1) = cas_ready pre b in loop bs mn (if ok then pre else mt_cache b1) b1)
          else loop bs mn next_ready b }
        else Some b) = Some b'"
    show "?P bs mn pre b b'"
    proof (intro allI impI)
      fix lo rest assume bs: "bs = 2 ^ m" and c: "on_chain m b res lo pub pre rest"
      have "unat mn \<le> pub" if "loop (2 ^ m) mn pre b = Some b'" "on_chain m b res lo pub pre rest" for pre b lo rest
        using IH [of "2 ^ m" mn pre b b'] that by blast
      then show "unat mn \<le> pub"
        by (rule mt_wait_loop_only_step [OF m c _ body [unfolded bs]])
    qed
  qed
  then show ?thesis
    using run c by blast
qed

text \<open>\<open>try_wait\<close> always returns.\<close>

definition tried :: "nat \<Rightarrow> nat \<Rightarrow> nat \<Rightarrow> nat \<Rightarrow> u64 \<Rightarrow> (bool \<times> barrier_mt) option \<Rightarrow> bool" where
  "tried m res lo pub mn r \<longleftrightarrow> (\<exists>ok b' lo'. r = Some (ok, b') \<and> mt_rep m b' res lo' pub \<and> lo \<le> lo'
     \<and> (ok \<longleftrightarrow> unat mn \<le> pub) \<and> (ok \<longrightarrow> unat mn \<le> lo'))"

lemma tried_now:
  assumes "on_chain m b res lo pub pre rest" "\<not> mt_cache b < mn"
  shows "tried m res lo pub mn (mt_try_wait_loop (2 ^ m) mn pre b)"
proof -
  have "mt_try_wait_loop (2 ^ m) mn pre b = Some (True, b)"
    using assms(2) by (subst mt_try_wait_loop.simps) simp
  moreover have "unat mn \<le> pub"
    using already_there [OF assms] by simp
  ultimately show ?thesis
    using already_there [OF assms] unfolding tried_def by blast
qed

lemma mt_try_wait_loop_returns:
  assumes m: "m < 63"
  shows "on_chain m b res lo pub pre rest \<Longrightarrow> tried m res lo pub mn (mt_try_wait_loop (2 ^ m) mn pre b)"
proof (induction "length (mt_weak b)" arbitrary: b pre rest rule: less_induct)
  case outer: less
  from outer.prems show ?case
  proof (induction rest arbitrary: pre)
    case Nil
    show ?case
    proof (cases "mt_cache b < mn")
      case False
      then show ?thesis
        using tried_now [OF Nil] by simp
    next
      case True
      from m Nil True show ?thesis
      proof (cases rule: round_cases)
        case (moved v b1)
        then have "mt_try_wait_loop (2 ^ m) mn pre b = Some (\<not> pre < mn, b1)"
          using True by (subst mt_try_wait_loop.simps, subst mt_try_wait_loop.simps) simp
        then show ?thesis
          using moved already_there [OF Nil] Nil by (auto simp: tried_def on_chain_def word_less_nat_alt)
      next
        case (failed v b1)
        obtain rest where r: "on_chain m b1 res lo pub (mt_ready b1) rest"
          using restart [OF failed(5,6)] by blast
        have "mt_try_wait_loop (2 ^ m) mn pre b = mt_try_wait_loop (2 ^ m) mn (mt_ready b1) b1"
          using True failed by (subst mt_try_wait_loop.simps) simp
        then show ?thesis
          using outer.hyps [OF failed(7) r] by simp
      qed simp
    qed
  next
    case (Cons q qs)
    show ?case
    proof (cases "mt_cache b < mn")
      case False
      then show ?thesis
        using tried_now [OF Cons.prems] by simp
    next
      case True
      from m Cons.prems True show ?thesis
      proof (cases rule: round_cases)
        case (next_block q' qs' v)
        have "mt_try_wait_loop (2 ^ m) mn pre b = mt_try_wait_loop (2 ^ m) mn v b"
          using True next_block by (subst mt_try_wait_loop.simps) simp
        then show ?thesis
          using Cons.IH [of v] next_block by simp
      qed simp_all
    qed
  qed
qed

section \<open>The contract\<close>

lemma mt_set_done:
  assumes m: "m < 63" and rep: "mt_rep m b res lo pub" and e: "pub < unat e" "unat e \<le> lo + 2 ^ m"
  shows "\<exists>b'. mt_set (ring_mode (2 ^ m) (of_nat pub)) e b = Some b' \<and> mt_rep m b' res lo (unat e)"
proof -
  have len: "length (mt_slots b) = 2 ^ m" and old: "\<forall>v \<in> set (mt_slots b). unat v \<le> pub"
    using rep by (simp_all add: mt_rep_def)
  have "pub < 2 ^ 64"
    using rep by (simp add: mt_rep_def)
  then have pos: "unat (ring_mode (2 ^ m) (of_nat pub)) = pub mod 2 ^ m"
    using m by (simp add: ring_mode_mod unat_of_nat_id)
  define b' where "b' = b\<lparr>mt_slots := (mt_slots b)[pub mod 2 ^ m := e]\<rparr>"
  have run: "mt_set (ring_mode (2 ^ m) (of_nat pub)) e b = Some b'"
    by (simp add: mt_set_def pos len b'_def)
  obtain qs where qs: "links (next_of m b) lo qs" "last (lo # qs) = pub"
    using rep by (auto simp: mt_rep_def)
  have nxt: "next_of m b' r = (if r mod 2 ^ m = pub mod 2 ^ m then unat e else next_of m b r)" for r
    by (simp add: next_of_def b'_def len)
  have "next_of m b r \<le> pub" for r
    using old len by (simp add: next_of_def)
  then have "next_of m b' (unat e) \<le> unat e"
    using e(1) by (auto simp: nxt intro: order_trans less_imp_le)
  then have "links (next_of m b') lo (qs @ [unat e])"
    using qs e by (intro links_snoc [where f = "next_of m b" and k = "2 ^ m"]) (auto simp: nxt)
  moreover have "\<forall>v \<in> set (mt_slots b'). unat v \<le> unat e"
    using old e(1) set_update_subset_insert [of "mt_slots b" "pub mod 2 ^ m" e] by (force simp: b'_def)
  ultimately have "mt_rep m b' res lo (unat e)"
    using rep e unsigned_less [of e, where 'a = nat] unfolding mt_rep_def
    by (auto simp: b'_def intro!: exI [of _ "qs @ [unat e]"])
  then show ?thesis
    using run by blast
qed

lemma next_of_frame [simp]:
  "next_of m (b\<lparr>mt_reserve := r\<rparr>) = next_of m b" "next_of m (b\<lparr>mt_weak := w\<rparr>) = next_of m b"
  "next_of m (b\<lparr>mt_reserve := r, mt_weak := w\<rparr>) = next_of m b"
  by (simp_all add: next_of_def fun_eq_iff)

lemma mt_rep_frame:
  "mt_rep m (b\<lparr>mt_reserve := r\<rparr>) res lo pub \<longleftrightarrow> unat r = res \<and> mt_rep m b (unat (mt_reserve b)) lo pub"
  "mt_rep m (b\<lparr>mt_weak := w\<rparr>) res lo pub \<longleftrightarrow> mt_rep m b res lo pub"
  "mt_rep m (b\<lparr>mt_reserve := r, mt_weak := w\<rparr>) res lo pub \<longleftrightarrow> unat r = res \<and> mt_rep m b (unat (mt_reserve b)) lo pub"
  by (auto simp: mt_rep_def)

lemma mt_wait_contract:
  assumes m: "m < 63" and rep: "mt_rep m b res lo pub"
  shows "unat w \<le> pub \<Longrightarrow> \<exists>v b' lo'. mt_wait (2 ^ m) w b = Some (v, b') \<and> mt_rep m b' res lo' pub \<and> lo \<le> lo' \<and> unat w \<le> lo'"
    and "pub < unat w \<Longrightarrow> mt_wait (2 ^ m) w b = None"
    and "\<exists>v b' lo'. mt_try_wait (2 ^ m) w b = Some (v, b') \<and> mt_rep m b' res lo' pub \<and> lo \<le> lo'
        \<and> (v = 0 \<longleftrightarrow> pub < unat w) \<and> (v \<noteq> 0 \<longrightarrow> unat w \<le> lo')"
proof -
  obtain rest where c: "on_chain m (b\<lparr>mt_cache := mt_ready b\<rparr>) res lo pub (mt_ready b) rest"
    using chain_start [OF rep] .
  have lo: "unat (mt_ready b) = lo" "mt_cache b \<le> mt_ready b" "lo \<le> pub" "mt_cache b \<noteq> 0"
    using rep c links_le [of "next_of m (b\<lparr>mt_cache := mt_ready b\<rparr>)" lo rest] pow_pos [OF m, of "mt_cache b"]
    by (auto simp: mt_rep_def on_chain_def)
  have early: "unat w \<le> lo" if "mt_cache b > w"
    using that lo(1,2) by (auto simp: word_less_nat_alt word_le_nat_alt)
  show "\<exists>v b' lo'. mt_wait (2 ^ m) w b = Some (v, b') \<and> mt_rep m b' res lo' pub \<and> lo \<le> lo' \<and> unat w \<le> lo'" if "unat w \<le> pub"
    using mt_wait_loop_returns [OF m c that] early rep by (auto simp: mt_wait_def)
  show "mt_wait (2 ^ m) w b = None" if "pub < unat w"
  proof (cases "mt_wait_loop (2 ^ m) w (mt_ready b) (b\<lparr>mt_cache := mt_ready b\<rparr>)")
    case None
    then show ?thesis
      using early that lo(3) by (auto simp: mt_wait_def)
  next
    case (Some b')
    then show ?thesis
      using mt_wait_loop_only [OF m Some c] that by simp
  qed
  obtain ok b' lo' where t: "mt_try_wait_loop (2 ^ m) w (mt_ready b) (b\<lparr>mt_cache := mt_ready b\<rparr>) = Some (ok, b')"
    "mt_rep m b' res lo' pub" "lo \<le> lo'" "ok \<longleftrightarrow> unat w \<le> pub" "ok \<longrightarrow> unat w \<le> lo'"
    using mt_try_wait_loop_returns [OF m c, of w] by (auto simp: tried_def)
  moreover have "mt_cache b' \<noteq> 0"
    using t(2) pow_pos [OF m, of "mt_cache b'"] by (auto simp: mt_rep_def)
  ultimately show "\<exists>v b' lo'. mt_try_wait (2 ^ m) w b = Some (v, b') \<and> mt_rep m b' res lo' pub \<and> lo \<le> lo'
        \<and> (v = 0 \<longleftrightarrow> pub < unat w) \<and> (v \<noteq> 0 \<longrightarrow> unat w \<le> lo')"
    using early rep lo(3,4) by (auto simp: mt_try_wait_def)
qed

lemma mt_rep_small: "mt_rep m b res lo pub \<Longrightarrow> m < 63"
  by (simp add: mt_rep_def)

interpretation mt: barrier "mt_ops (2 ^ m)" m "mt_rep m" False for m
proof
  fix b res lo pub assume rep: "mt_rep m b res lo pub"
  then obtain qs where "links (next_of m b) lo qs" "last (lo # qs) = pub"
    by (auto simp: mt_rep_def)
  then have "lo \<le> pub"
    using links_le by blast
  moreover have "2 ^ m \<le> mt_ready b"
    using rep by (auto simp: mt_rep_def)
  then have "2 ^ m \<le> lo"
    using rep by (auto simp: mt_rep_def unat_pow_le)
  ultimately show "m < 63 \<and> 2 ^ m \<le> lo \<and> lo \<le> pub \<and> pub \<le> lo + 2 ^ m \<and> pub < 2 ^ 64 \<and> res < 2 ^ 64"
    using rep unsigned_less [of "mt_reserve b", where 'a = nat] by (auto simp: mt_rep_def)
next
  fix b assume m: "m < 63"
  then show "mt_rep m (op_reset (mt_ops (2 ^ m)) b) (2 ^ m) (2 ^ m) (2 ^ m)"
    using power_strict_increasing [of m 64 "2::nat"]
    by (auto simp: mt_ops_def mt_reset_def mt_rep_def unat_pow2 next_of_def intro!: exI [of _ "[]"])
next
  fix b res lo pub and n :: u64 assume "mt_rep m b res lo pub" "res + unat n < 2 ^ 64"
  then show "\<exists>b'. op_reserve (mt_ops (2 ^ m)) n b = (of_nat res, b') \<and> mt_rep m b' (res + unat n) lo pub"
    by (auto simp: mt_ops_def mt_do_reserve_def mt_rep_frame unat_word_ariths) (auto simp: mt_rep_def)
next
  fix b res lo pub assume "mt_rep m b res lo pub"
  then show "op_try_reserve (mt_ops (2 ^ m)) b = of_nat res"
    by (auto simp: mt_ops_def mt_rep_def)
next
  fix b res lo pub and e :: u64 assume rep: "mt_rep m b res lo pub"
  then have r: "unat (mt_reserve b) = res"
    by (simp add: mt_rep_def)
  then have w: "mt_reserve b = of_nat res"
    by auto
  show "\<exists>ok b'. op_set_reserve (mt_ops (2 ^ m)) (of_nat res) e b = (ok, b') \<and> mt_rep m b' (if ok then unat e else res) lo pub \<and> (False \<longrightarrow> ok)"
    using rep by (cases "spurious b") (auto simp: mt_ops_def mt_set_reserve_def w [symmetric] mt_rep_frame r)
next
  fix b res lo pub and e :: u64 assume "mt_rep m b res lo pub" "pub < unat e" "unat e \<le> lo + 2 ^ m"
  then show "\<exists>b' lo'. op_set (mt_ops (2 ^ m)) (ring_mode (2 ^ m) (of_nat pub)) e b = Some b' \<and> mt_rep m b' res lo' (unat e) \<and> lo \<le> lo'"
    using mt_set_done [OF mt_rep_small] by (fastforce simp: mt_ops_def)
next
  fix b res lo pub assume "mt_rep m b res lo pub"
  then show "op_ready (mt_ops (2 ^ m)) b = of_nat lo"
    by (auto simp: mt_ops_def mt_rep_def)
qed (use mt_wait_contract [OF mt_rep_small] in \<open>auto simp: mt_ops_def\<close>)

end
