(* ===== verification/Ring_Queue.thy ===== *)
theory Ring_Queue
  imports Ring_Mt
begin

text \<open>
  The ring buffer queue (\<open>rapid_ring/ring_buffer.hpp\<close>, \<open>rapid_ring/ring_buffer_queue.hpp\<close>): a buffer of a power of two
  entries between a write barrier and a read barrier. The operations are given the buffer's size and
  the operations of the two barriers, as the templates are; \<open>None\<close> is a call that never returns, or an
  access outside the buffer.
\<close>

section \<open>The buffer and its types\<close>

record ('a, 'w, 'r) ring =
  ring_buffer :: "'a list"
  write_barrier :: 'w
  read_barrier :: 'r

text \<open>
  \<open>moved\<close> is what the move assignment leaves in its source, if \<open>has_move_assignment<T>\<close> finds one, else \<open>None\<close>.
  \<open>meta/sfinae/has_signature.hpp\<close> looks for a member \<open>T& operator=(T&&) const\<close>, which no ordinary type has: numbers,
  pointers and classes with the usual \<open>operator=\<close> are copied, so that \<open>moved\<close> is \<open>None\<close> for them.
\<close>

record ('a, 'w, 'r) queue_type =
  buffer_size :: u64
  write_ops :: "'w barrier_ops"
  read_ops :: "'r barrier_ops"
  moved :: "('a \<Rightarrow> 'a) option"

definition ring_buffer_base :: "('a, 'w, 'r) queue_type \<Rightarrow> 'a \<Rightarrow> 'w \<Rightarrow> 'r \<Rightarrow> ('a, 'w, 'r) ring" where
  "ring_buffer_base t node wb rb = \<lparr>ring_buffer = replicate (unat (buffer_size t)) node, write_barrier = wb, read_barrier = rb\<rparr>"

definition spsc_ring_buffer_queue :: "('a \<Rightarrow> 'a) option \<Rightarrow> u64 \<Rightarrow> ('a, barrier_st, barrier_st) queue_type option" where
  "spsc_ring_buffer_queue mv sz = map_option (\<lambda>bs.
     \<lparr>buffer_size = bs, write_ops = st_ops bs, read_ops = st_ops bs, moved = mv\<rparr>) (size_to_pow_2 sz)"

definition mpsc_ring_buffer_queue :: "('a \<Rightarrow> 'a) option \<Rightarrow> u64 \<Rightarrow> ('a, barrier_mt, barrier_st) queue_type option" where
  "mpsc_ring_buffer_queue mv sz = map_option (\<lambda>bs.
     \<lparr>buffer_size = bs, write_ops = mt_ops bs, read_ops = st_ops bs, moved = mv\<rparr>) (size_to_pow_2 sz)"

definition spmc_ring_buffer_queue :: "('a \<Rightarrow> 'a) option \<Rightarrow> u64 \<Rightarrow> ('a, barrier_st, barrier_mt) queue_type option" where
  "spmc_ring_buffer_queue mv sz = map_option (\<lambda>bs.
     \<lparr>buffer_size = bs, write_ops = st_ops bs, read_ops = mt_ops bs, moved = mv\<rparr>) (size_to_pow_2 sz)"

definition mpmc_ring_buffer_queue :: "('a \<Rightarrow> 'a) option \<Rightarrow> u64 \<Rightarrow> ('a, barrier_mt, barrier_mt) queue_type option" where
  "mpmc_ring_buffer_queue mv sz = map_option (\<lambda>bs.
     \<lparr>buffer_size = bs, write_ops = mt_ops bs, read_ops = mt_ops bs, moved = mv\<rparr>) (size_to_pow_2 sz)"

section \<open>Access to the buffer\<close>

definition memcpy :: "'a list \<Rightarrow> nat \<Rightarrow> 'a list \<Rightarrow> nat \<Rightarrow> nat \<Rightarrow> 'a list option" where
  "memcpy dst i src j n =
     (if i + n \<le> length dst \<and> j + n \<le> length src then Some (take i dst @ take n (drop j src) @ drop (i + n) dst) else None)"

definition block_write :: "u64 \<Rightarrow> u64 \<Rightarrow> 'a list \<Rightarrow> u64 \<Rightarrow> 'a list \<Rightarrow> 'a list option" where
  "block_write bs pos ptr sz buf =
     (let rest = bs - pos
      in if rest \<ge> sz then memcpy buf (unat pos) ptr 0 (unat sz)
         else do {
           buf1 \<leftarrow> memcpy buf (unat pos) ptr 0 (unat rest);
           memcpy buf1 0 ptr (unat rest) (unat (sz - rest)) })"

definition block_read :: "u64 \<Rightarrow> u64 \<Rightarrow> 'a list \<Rightarrow> u64 \<Rightarrow> 'a list \<Rightarrow> 'a list option" where
  "block_read bs pos ptr sz buf =
     (let rest = bs - pos
      in if rest \<ge> sz then memcpy ptr 0 buf (unat pos) (unat sz)
         else do {
           ptr1 \<leftarrow> memcpy ptr 0 buf (unat pos) (unat rest);
           memcpy ptr1 (unat rest) buf 0 (unat (sz - rest)) })"

definition put_node :: "u64 \<Rightarrow> 'a \<Rightarrow> 'a list \<Rightarrow> 'a list option" where
  "put_node pos v buf = (if unat pos < length buf then Some (buf[unat pos := v]) else None)"

text \<open>
  \<open>smart_copy<T>::copy(value, ring_buffer[pos])\<close>: what is copied or moved, and the buffer after it, which only a move
  assignment that is found changes.
\<close>

definition smart_copy :: "('a \<Rightarrow> 'a) option \<Rightarrow> u64 \<Rightarrow> 'a list \<Rightarrow> ('a \<times> 'a list) option" where
  "smart_copy mv pos buf =
     (if unat pos < length buf
      then let y = buf ! unat pos
           in Some (y, case mv of None \<Rightarrow> buf | Some f \<Rightarrow> buf[unat pos := f y])
      else None)"

section \<open>Writing\<close>

definition block_enqueue :: "('a, 'w, 'r) queue_type \<Rightarrow> 'a list \<Rightarrow> u64 \<Rightarrow> ('a, 'w, 'r) ring \<Rightarrow> ('a, 'w, 'r) ring option" where
  "block_enqueue t ptr sz q =
     (let (base, wb) = op_reserve (write_ops t) sz (write_barrier q); end' = base + sz
      in do {
        (_, rb) \<leftarrow> op_wait (read_ops t) (end' - buffer_size t) (read_barrier q);
        let pos = ring_mode (buffer_size t) base;
        buf \<leftarrow> block_write (buffer_size t) pos ptr sz (ring_buffer q);
        wb' \<leftarrow> op_set (write_ops t) pos end' wb;
        Some (q\<lparr>ring_buffer := buf, write_barrier := wb', read_barrier := rb\<rparr>) })"

definition try_block_enqueue :: "('a, 'w, 'r) queue_type \<Rightarrow> 'a list \<Rightarrow> u64 \<Rightarrow> ('a, 'w, 'r) ring \<Rightarrow> (bool \<times> ('a, 'w, 'r) ring) option" where
  "try_block_enqueue t ptr sz q =
     (let base = op_try_reserve (write_ops t) (write_barrier q); end' = base + sz
      in do {
        (v, rb) \<leftarrow> op_try_wait (read_ops t) (end' - buffer_size t) (read_barrier q);
        let q = q\<lparr>read_barrier := rb\<rparr>;
        if v = 0 then Some (False, q)
        else
          let (ok, wb) = op_set_reserve (write_ops t) base end' (write_barrier q); q = q\<lparr>write_barrier := wb\<rparr>
          in if \<not> ok then Some (False, q)
             else do {
               let pos = ring_mode (buffer_size t) base;
               buf \<leftarrow> block_write (buffer_size t) pos ptr sz (ring_buffer q);
               wb' \<leftarrow> op_set (write_ops t) pos end' wb;
               Some (True, q\<lparr>ring_buffer := buf, write_barrier := wb'\<rparr>) } })"

definition enqueue :: "('a, 'w, 'r) queue_type \<Rightarrow> 'a \<Rightarrow> ('a, 'w, 'r) ring \<Rightarrow> ('a, 'w, 'r) ring option" where
  "enqueue t v q =
     (let (base, wb) = op_reserve (write_ops t) 1 (write_barrier q); end' = base + 1
      in do {
        (_, rb) \<leftarrow> op_wait (read_ops t) (end' - buffer_size t) (read_barrier q);
        let pos = ring_mode (buffer_size t) base;
        buf \<leftarrow> put_node pos v (ring_buffer q);
        wb' \<leftarrow> op_set (write_ops t) pos end' wb;
        Some (q\<lparr>ring_buffer := buf, write_barrier := wb', read_barrier := rb\<rparr>) })"

definition try_enqueue :: "('a, 'w, 'r) queue_type \<Rightarrow> 'a \<Rightarrow> ('a, 'w, 'r) ring \<Rightarrow> (bool \<times> ('a, 'w, 'r) ring) option" where
  "try_enqueue t v q =
     (let base = op_try_reserve (write_ops t) (write_barrier q); end' = base + 1
      in do {
        (ready, rb) \<leftarrow> op_try_wait (read_ops t) (end' - buffer_size t) (read_barrier q);
        let q = q\<lparr>read_barrier := rb\<rparr>;
        if ready = 0 then Some (False, q)
        else
          let (ok, wb) = op_set_reserve (write_ops t) base end' (write_barrier q); q = q\<lparr>write_barrier := wb\<rparr>
          in if \<not> ok then Some (False, q)
             else do {
               let pos = ring_mode (buffer_size t) base;
               buf \<leftarrow> put_node pos v (ring_buffer q);
               wb' \<leftarrow> op_set (write_ops t) pos end' wb;
               Some (True, q\<lparr>ring_buffer := buf, write_barrier := wb'\<rparr>) } })"

definition reset_ring :: "('a, 'w, 'r) queue_type \<Rightarrow> ('a, 'w, 'r) ring \<Rightarrow> ('a, 'w, 'r) ring" where
  "reset_ring t q = q\<lparr>read_barrier := op_reset (read_ops t) (read_barrier q), write_barrier := op_reset (write_ops t) (write_barrier q)\<rparr>"

definition ring_size :: "('a, 'w, 'r) queue_type \<Rightarrow> ('a, 'w, 'r) ring \<Rightarrow> u64" where
  "ring_size t q = op_ready (write_ops t) (write_barrier q) - op_ready (read_ops t) (read_barrier q)"

section \<open>Reading\<close>

definition block_dequeue :: "('a, 'w, 'r) queue_type \<Rightarrow> 'a list \<Rightarrow> u64 \<Rightarrow> ('a, 'w, 'r) ring \<Rightarrow> ('a list \<times> ('a, 'w, 'r) ring) option" where
  "block_dequeue t ptr sz q =
     (let (base, rb) = op_reserve (read_ops t) sz (read_barrier q); end' = base + sz
      in do {
        (_, wb) \<leftarrow> op_wait (write_ops t) end' (write_barrier q);
        let pos = ring_mode (buffer_size t) base;
        out \<leftarrow> block_read (buffer_size t) pos ptr sz (ring_buffer q);
        rb' \<leftarrow> op_set (read_ops t) pos end' rb;
        Some (out, q\<lparr>write_barrier := wb, read_barrier := rb'\<rparr>) })"

definition try_block_dequeue :: "('a, 'w, 'r) queue_type \<Rightarrow> 'a list \<Rightarrow> u64 \<Rightarrow> ('a, 'w, 'r) ring \<Rightarrow> (bool \<times> 'a list \<times> ('a, 'w, 'r) ring) option" where
  "try_block_dequeue t ptr sz q =
     (let base = op_try_reserve (read_ops t) (read_barrier q); end' = base + sz
      in do {
        (v, wb) \<leftarrow> op_try_wait (write_ops t) end' (write_barrier q);
        let q = q\<lparr>write_barrier := wb\<rparr>;
        if v = 0 then Some (False, ptr, q)
        else
          let (ok, rb) = op_set_reserve (read_ops t) base end' (read_barrier q); q = q\<lparr>read_barrier := rb\<rparr>
          in if \<not> ok then Some (False, ptr, q)
             else do {
               let pos = ring_mode (buffer_size t) base;
               out \<leftarrow> block_read (buffer_size t) pos ptr sz (ring_buffer q);
               rb' \<leftarrow> op_set (read_ops t) pos end' rb;
               Some (True, out, q\<lparr>read_barrier := rb'\<rparr>) } })"

definition dequeue :: "('a, 'w, 'r) queue_type \<Rightarrow> ('a, 'w, 'r) ring \<Rightarrow> ('a \<times> ('a, 'w, 'r) ring) option" where
  "dequeue t q =
     (let (base, rb) = op_reserve (read_ops t) 1 (read_barrier q); end' = base + 1
      in do {
        (_, wb) \<leftarrow> op_wait (write_ops t) end' (write_barrier q);
        let pos = ring_mode (buffer_size t) base;
        (value', buf) \<leftarrow> smart_copy (moved t) pos (ring_buffer q);
        rb' \<leftarrow> op_set (read_ops t) pos end' rb;
        Some (value', q\<lparr>ring_buffer := buf, write_barrier := wb, read_barrier := rb'\<rparr>) })"

text \<open>The argument of \<open>try_dequeue\<close> keeps its value when the call returns false, here \<open>None\<close>.\<close>

definition try_dequeue :: "('a, 'w, 'r) queue_type \<Rightarrow> ('a, 'w, 'r) ring \<Rightarrow> ('a option \<times> ('a, 'w, 'r) ring) option" where
  "try_dequeue t q =
     (let base = op_try_reserve (read_ops t) (read_barrier q); end' = base + 1
      in do {
        (v, wb) \<leftarrow> op_try_wait (write_ops t) end' (write_barrier q);
        let q = q\<lparr>write_barrier := wb\<rparr>;
        if v = 0 then Some (None, q)
        else
          let (ok, rb) = op_set_reserve (read_ops t) base end' (read_barrier q); q = q\<lparr>read_barrier := rb\<rparr>
          in if \<not> ok then Some (None, q)
             else do {
               let pos = ring_mode (buffer_size t) base;
               (value', buf) \<leftarrow> smart_copy (moved t) pos (ring_buffer q);
               rb' \<leftarrow> op_set (read_ops t) pos end' rb;
               Some (Some value', q\<lparr>ring_buffer := buf, read_barrier := rb'\<rparr>) } })"

text \<open>\<open>warm_up\<close>: the argument goes once through every place of the buffer.\<close>

primrec warm_up_loop :: "('a, 'w, 'r) queue_type \<Rightarrow> nat \<Rightarrow> 'a \<Rightarrow> ('a, 'w, 'r) ring \<Rightarrow> ('a \<times> ('a, 'w, 'r) ring) option" where
  "warm_up_loop t 0 obj q = Some (obj, q)"
| "warm_up_loop t (Suc n) obj q = do {
     q1 \<leftarrow> enqueue t obj q;
     (obj', q2) \<leftarrow> dequeue t q1;
     warm_up_loop t n obj' q2 }"

definition warm_up :: "('a, 'w, 'r) queue_type \<Rightarrow> 'a \<Rightarrow> ('a, 'w, 'r) ring \<Rightarrow> ('a, 'w, 'r) ring option" where
  "warm_up t obj q = map_option snd (warm_up_loop t (unat (buffer_size t)) obj q)"

section \<open>Reserved blocks\<close>

text \<open>
  A block that a reader looks at in place. The pointers are indices into the ring's buffer (\<open>None\<close> is a null
  pointer); \<open>rr_cb\<close> holds the two captured values of the callback, which finishes the block.
\<close>

record read_reserve =
  rr_buff :: "nat option"
  rr_buff2 :: "nat option"
  rr_size_first :: u64
  rr_size :: u64
  rr_cb :: "(u64 \<times> u64) option"

definition empty_reserve :: read_reserve where
  "empty_reserve = \<lparr>rr_buff = None, rr_buff2 = None, rr_size_first = 0, rr_size = 0, rr_cb = None\<rparr>"

definition reserve_bool :: "read_reserve \<Rightarrow> bool" where
  "reserve_bool r \<longleftrightarrow> 0 \<noteq> rr_size r"

definition reserve_at :: "read_reserve \<Rightarrow> ('a, 'w, 'r) ring \<Rightarrow> u64 \<Rightarrow> 'a option" where
  "reserve_at r q idx = do {
     b \<leftarrow> rr_buff r;
     let i = b + unat (if idx < rr_size_first r then idx else idx - rr_size_first r);
     if i < length (ring_buffer q) then Some (ring_buffer q ! i) else None }"

definition release :: "('a, 'w, 'r) queue_type \<Rightarrow> read_reserve \<Rightarrow> ('a, 'w, 'r) ring \<Rightarrow> (read_reserve \<times> ('a, 'w, 'r) ring) option" where
  "release t r q =
     (case rr_cb r of None \<Rightarrow> Some (r, q)
      | Some (pos, end') \<Rightarrow> do {
          rb \<leftarrow> op_set (read_ops t) pos end' (read_barrier q);
          Some (r\<lparr>rr_cb := None\<rparr>, q\<lparr>read_barrier := rb\<rparr>) })"

definition try_reserve_block :: "('a, 'w, 'r) queue_type \<Rightarrow> u64 \<Rightarrow> ('a, 'w, 'r) ring \<Rightarrow> (read_reserve \<times> ('a, 'w, 'r) ring) option" where
  "try_reserve_block t sz q =
     (let r = empty_reserve; base = op_try_reserve (read_ops t) (read_barrier q); end' = base + sz
      in do {
        (v, wb) \<leftarrow> op_try_wait (write_ops t) end' (write_barrier q);
        let q = q\<lparr>write_barrier := wb\<rparr>;
        if v = 0 then Some (r, q)
        else
          let (ok, rb) = op_set_reserve (read_ops t) base end' (read_barrier q); q = q\<lparr>read_barrier := rb\<rparr>
          in if \<not> ok then Some (r, q)
             else
               let pos = ring_mode (buffer_size t) base; rest = buffer_size t - pos;
                   r = (if rest \<ge> sz then r\<lparr>rr_buff := Some (unat pos), rr_size_first := sz, rr_size := sz\<rparr>
                        else r\<lparr>rr_buff := Some (unat pos), rr_size_first := rest, rr_buff2 := Some 0, rr_size := sz\<rparr>)
               in Some (r\<lparr>rr_cb := Some (pos, end')\<rparr>, q) })"

end
