(* ===== verification/Ring_Window.thy ===== *)
theory Ring_Window
  imports Ring_Queue
begin

text \<open>
  The entries of a ring between two sequence numbers, and what copies into and out of the buffer do to them.
\<close>

section \<open>Sequence numbers\<close>

lemma seq_end: "w + unat n < 2 ^ 64 \<Longrightarrow> unat (of_nat w + n :: u64) = w + unat n"
  by (simp add: unat_word_ariths unat_of_nat)

lemma seq_back: "m < 63 \<Longrightarrow> 2 ^ m \<le> unat e \<Longrightarrow> unat (e - 2 ^ m :: u64) = unat e - 2 ^ m"
  by (simp add: unat_sub word_le_nat_alt unat_pow2)

lemma seq_pos: "m < 63 \<Longrightarrow> w < 2 ^ 64 \<Longrightarrow> unat (ring_mode (2 ^ m) (of_nat w)) = w mod 2 ^ m"
  by (simp add: ring_mode_mod unat_of_nat_id)

lemma seq_rest: "m < 63 \<Longrightarrow> unat (2 ^ m - ring_mode (2 ^ m) x) = 2 ^ m - unat x mod 2 ^ m"
  by (simp add: unat_sub word_le_nat_alt unat_pow2 ring_mode_mod less_imp_le)

lemma wrapped: "k < B \<Longrightarrow> (w + k) mod B = (if w mod B + k < B then w mod B + k else w mod B + k - (B::nat))"
proof -
  assume k: "k < B"
  define p where "p = w mod B"
  have p: "p < B"
    using k by (simp add: p_def)
  have "(w + k) mod B = (p + k) mod B"
    by (simp add: p_def mod_add_left_eq)
  also have "\<dots> = (if p + k < B then p + k else p + k - B)"
    using k p by (simp add: le_mod_geq)
  finally show ?thesis
    by (simp add: p_def)
qed

section \<open>Copies\<close>

lemma memcpy_some:
  assumes "i + n \<le> length dst" "j + n \<le> length src"
  obtains d where "memcpy dst i src j n = Some d" "length d = length dst"
    "\<And>k. k < length dst \<Longrightarrow> d ! k = (if i \<le> k \<and> k < i + n then src ! (j + (k - i)) else dst ! k)"
proof
  let ?d = "take i dst @ take n (drop j src) @ drop (i + n) dst"
  show "memcpy dst i src j n = Some ?d" "length ?d = length dst"
    using assms by (simp_all add: memcpy_def)
  have "length (take i dst) = i" "length (take n (drop j src)) = n"
    using assms by simp_all
  then show "?d ! k = (if i \<le> k \<and> k < i + n then src ! (j + (k - i)) else dst ! k)" if "k < length dst" for k
    using assms that by (simp only: nth_append) auto
qed

text \<open>\<open>buf'\<close> is \<open>buf\<close> with \<open>xs\<close> written from sequence number \<open>w\<close> on.\<close>

definition stored :: "nat \<Rightarrow> 'a list \<Rightarrow> nat \<Rightarrow> 'a list \<Rightarrow> 'a list \<Rightarrow> bool" where
  "stored m buf w xs buf' \<longleftrightarrow> length buf' = length buf
     \<and> (\<forall>k < 2 ^ m. buf' ! ((w + k) mod 2 ^ m) = (if k < length xs then xs ! k else buf ! ((w + k) mod 2 ^ m)))"

definition ring_window :: "nat \<Rightarrow> 'a list \<Rightarrow> nat \<Rightarrow> nat \<Rightarrow> 'a list" where
  "ring_window m buf r w = map (\<lambda>i. buf ! (i mod 2 ^ m)) [r..<w]"

lemma length_ring_window [simp]: "length (ring_window m buf r w) = w - r"
  by (simp add: ring_window_def)

lemma ring_window_split: "r \<le> s \<Longrightarrow> s \<le> w \<Longrightarrow> ring_window m buf r w = ring_window m buf r s @ ring_window m buf s w"
  using upt_add_eq_append [of r s "w - s"] by (simp add: ring_window_def)

lemma ring_window_drop: "n \<le> w - r \<Longrightarrow> drop n (ring_window m buf r w) = ring_window m buf (r + n) w"
  by (simp add: ring_window_def drop_map)

lemma ring_window_take: "r + n \<le> w \<Longrightarrow> take n (ring_window m buf r w) = ring_window m buf r (r + n)"
  by (simp add: ring_window_def take_map)

lemma ring_window_stored:
  assumes st: "stored m buf w xs buf'" and r: "r \<le> w" "w + length xs \<le> r + 2 ^ m"
  shows "ring_window m buf' r (w + length xs) = ring_window m buf r w @ xs"
proof -
  have "buf' ! (i mod 2 ^ m) = buf ! (i mod 2 ^ m)" if "r \<le> i" "i < w" for i
  proof -
    define k where "k = i + 2 ^ m - w"
    have "(w + k) mod 2 ^ m = i mod 2 ^ m" "k < 2 ^ m" "length xs \<le> k"
      using that r by (auto simp: k_def)
    then show ?thesis
      using st by (auto simp: stored_def)
  qed
  then have "ring_window m buf' r w = ring_window m buf r w"
    by (simp add: ring_window_def)
  moreover have "ring_window m buf' w (w + length xs) = xs"
  proof (rule nth_equalityI)
    fix i assume "i < length (ring_window m buf' w (w + length xs))"
    then show "ring_window m buf' w (w + length xs) ! i = xs ! i"
      using st r by (simp add: ring_window_def stored_def)
  qed simp
  ultimately show ?thesis
    using ring_window_split [of r w "w + length xs" m buf'] r(1) by simp
qed

lemma put_node_stored:
  assumes "m < 63" "w < 2 ^ 64" "length buf = 2 ^ m"
  obtains buf' where "put_node (ring_mode (2 ^ m) (of_nat w)) v buf = Some buf'" "stored m buf w [v] buf'"
proof
  show "put_node (ring_mode (2 ^ m) (of_nat w)) v buf = Some (buf[w mod 2 ^ m := v])"
    using assms by (simp add: put_node_def seq_pos)
  have "w mod 2 ^ m \<noteq> (w + k) mod 2 ^ m" if "0 < k" "k < 2 ^ m" for k
    using that mod_neq [of w "w + k" "2 ^ m"] by simp
  then show "stored m buf w [v] (buf[w mod 2 ^ m := v])"
    using assms(3) by (auto simp: stored_def nth_list_update)
qed

lemma storedI:
  assumes "length buf' = length buf" "p = w mod 2 ^ m" "length xs = n"
    "\<And>k. k < 2 ^ m \<Longrightarrow> p + k < 2 ^ m \<Longrightarrow> buf' ! (p + k) = (if k < n then xs ! k else buf ! (p + k))"
    "\<And>k. k < 2 ^ m \<Longrightarrow> 2 ^ m \<le> p + k \<Longrightarrow> buf' ! (p + k - 2 ^ m) = (if k < n then xs ! k else buf ! (p + k - 2 ^ m))"
  shows "stored m buf w xs buf'"
  using assms by (simp add: stored_def wrapped not_less)

lemma block_write_stored:
  assumes m: "m < 63" "w < 2 ^ 64" "length buf = 2 ^ m" and sz: "unat sz \<le> 2 ^ m" "unat sz \<le> length ptr"
  obtains buf' where "block_write (2 ^ m) (ring_mode (2 ^ m) (of_nat w)) ptr sz buf = Some buf'"
    "stored m buf w (take (unat sz) ptr) buf'"
proof -
  let ?B = "2 ^ m :: nat" and ?n = "unat sz" and ?pos = "ring_mode (2 ^ m) (of_nat w) :: u64"
  obtain p where p: "unat ?pos = p" "p < ?B" "p = w mod ?B"
    using m by (simp add: seq_pos)
  have rest: "unat (2 ^ m - ?pos) = ?B - p"
    using m p(3) seq_rest [of m "of_nat w"] by (simp add: unat_of_nat_id)
  show thesis
  proof (cases "?n \<le> ?B - p")
    case True
    obtain d where d: "memcpy buf p ptr 0 ?n = Some d" "length d = length buf"
      "\<And>k. k < length buf \<Longrightarrow> d ! k = (if p \<le> k \<and> k < p + ?n then ptr ! (0 + (k - p)) else buf ! k)"
      by (rule memcpy_some [of p ?n buf 0 ptr]) (use True p(2) m sz in auto)
    have run: "block_write (2 ^ m) ?pos ptr sz buf = Some d"
      using True rest p(1) d(1) by (simp add: block_write_def Let_def word_le_nat_alt)
    have "stored m buf w (take ?n ptr) d"
      using True p(2) d(2,3) m(3) sz by (intro storedI [OF _ p(3)]) auto
    then show thesis
      using run that by blast
  next
    case False
    let ?k = "?B - p"
    have k: "?k < ?n"
      using False by simp
    obtain d1 where d1: "memcpy buf p ptr 0 ?k = Some d1" "length d1 = length buf"
      "\<And>k. k < length buf \<Longrightarrow> d1 ! k = (if p \<le> k \<and> k < p + ?k then ptr ! (0 + (k - p)) else buf ! k)"
      by (rule memcpy_some [of p ?k buf 0 ptr]) (use k p(2) m sz in auto)
    obtain d where d: "memcpy d1 0 ptr ?k (?n - ?k) = Some d" "length d = length d1"
      "\<And>k. k < length d1 \<Longrightarrow> d ! k = (if 0 \<le> k \<and> k < 0 + (?n - ?k) then ptr ! (?k + (k - 0)) else d1 ! k)"
      by (rule memcpy_some [of 0 "?n - ?k" d1 ?k ptr]) (use k p(2) m sz d1(2) in auto)
    have "unat (sz - (2 ^ m - ?pos)) = ?n - ?k"
      using k rest by (subst unat_sub) (simp_all add: word_le_nat_alt)
    then have run: "block_write (2 ^ m) ?pos ptr sz buf = Some d"
      using k rest p(1) d1(1) d(1) by (simp add: block_write_def Let_def word_le_nat_alt)
    have "stored m buf w (take ?n ptr) d"
      using k p(2) d1(2,3) d(2,3) m(3) sz by (intro storedI [OF _ p(3)]) auto
    then show thesis
      using run that by blast
  qed
qed

lemma block_read_window:
  assumes m: "m < 63" "r < 2 ^ 64" "length buf = 2 ^ m" and sz: "unat sz \<le> 2 ^ m" "unat sz \<le> length ptr"
  shows "block_read (2 ^ m) (ring_mode (2 ^ m) (of_nat r)) ptr sz buf
    = Some (ring_window m buf r (r + unat sz) @ drop (unat sz) ptr)"
proof -
  let ?B = "2 ^ m :: nat" and ?n = "unat sz" and ?pos = "ring_mode (2 ^ m) (of_nat r) :: u64"
  let ?out = "ring_window m buf r (r + unat sz) @ drop (unat sz) ptr"
  obtain p where p: "unat ?pos = p" "p < ?B" "p = r mod ?B"
    using m by (simp add: seq_pos)
  have rest: "unat (2 ^ m - ?pos) = ?B - p"
    using m p(3) seq_rest [of m "of_nat r"] by (simp add: unat_of_nat_id)
  have at: "buf ! ((r + k) mod ?B) = (if p + k < ?B then buf ! (p + k) else buf ! (p + k - ?B))" if "k < ?B" for k
    using that by (simp add: wrapped p(3))
  have out: "length ?out = length ptr" "\<And>k. k < length ptr \<Longrightarrow> ?out ! k = (if k < ?n then buf ! ((r + k) mod ?B) else ptr ! k)"
    using sz by (auto simp: nth_append ring_window_def)
  show ?thesis
  proof (cases "?n \<le> ?B - p")
    case True
    obtain d where d: "memcpy ptr 0 buf p ?n = Some d" "length d = length ptr"
      "\<And>k. k < length ptr \<Longrightarrow> d ! k = (if 0 \<le> k \<and> k < 0 + ?n then buf ! (p + (k - 0)) else ptr ! k)"
      by (rule memcpy_some [of 0 ?n ptr p buf]) (use True p(2) m sz in auto)
    have "d = ?out"
      using True p(2) d(2,3) out sz(1) by (intro nth_equalityI) (auto simp: at add.commute [of p])
    then show ?thesis
      using True rest p(1) d(1) by (simp add: block_read_def Let_def word_le_nat_alt)
  next
    case False
    let ?k = "?B - p"
    have k: "?k < ?n"
      using False by simp
    obtain d1 where d1: "memcpy ptr 0 buf p ?k = Some d1" "length d1 = length ptr"
      "\<And>k. k < length ptr \<Longrightarrow> d1 ! k = (if 0 \<le> k \<and> k < 0 + ?k then buf ! (p + (k - 0)) else ptr ! k)"
      by (rule memcpy_some [of 0 ?k ptr p buf]) (use k p(2) m sz in auto)
    obtain d where d: "memcpy d1 ?k buf 0 (?n - ?k) = Some d" "length d = length d1"
      "\<And>k. k < length d1 \<Longrightarrow> d ! k = (if ?k \<le> k \<and> k < ?k + (?n - ?k) then buf ! (0 + (k - ?k)) else d1 ! k)"
      by (rule memcpy_some [of ?k "?n - ?k" d1 0 buf]) (use k p(2) m sz d1(2) in auto)
    have "unat (sz - (2 ^ m - ?pos)) = ?n - ?k"
      using k rest by (subst unat_sub) (simp_all add: word_le_nat_alt)
    moreover have "d = ?out"
      using k p(2) d1(2,3) d(2,3) out sz(1) by (intro nth_equalityI) (auto simp: at add.commute [of p])
    ultimately show ?thesis
      using k rest p(1) d1(1) d(1) by (simp add: block_read_def Let_def word_le_nat_alt)
  qed
qed

text \<open>What a move leaves behind is outside the rest of the window.\<close>

lemma smart_copy_window:
  assumes m: "m < 63" "r < 2 ^ 64" "length buf = 2 ^ m" and w: "r < w" "w \<le> r + 2 ^ m"
  obtains buf' where "smart_copy mv (ring_mode (2 ^ m) (of_nat r)) buf = Some (hd (ring_window m buf r w), buf')"
    "length buf' = length buf" "ring_window m buf' (r + 1) w = tl (ring_window m buf r w)"
proof -
  let ?y = "buf ! (r mod 2 ^ m)"
  define buf' where "buf' = (case mv of None \<Rightarrow> buf | Some f \<Rightarrow> buf[r mod 2 ^ m := f ?y])"
  have cons: "ring_window m buf r w = ?y # ring_window m buf (r + 1) w"
    using w(1) by (simp add: ring_window_def upt_conv_Cons)
  have "smart_copy mv (ring_mode (2 ^ m) (of_nat r)) buf = Some (hd (ring_window m buf r w), buf')"
    using m by (simp add: smart_copy_def seq_pos buf'_def Let_def cons split: option.split)
  moreover have "i mod 2 ^ m \<noteq> r mod 2 ^ m" if "r + 1 \<le> i" "i < w" for i
    using that w(2) mod_neq [of r i "2 ^ m"] by simp
  then have "ring_window m buf' (r + 1) w = ring_window m buf (r + 1) w"
    by (force simp: ring_window_def buf'_def split: option.split)
  moreover have "length buf' = length buf"
    by (simp add: buf'_def split: option.split)
  ultimately show thesis
    using that [of buf'] cons by simp
qed

end
