(* ===== verification/Ring_Fifo.thy ===== *)
theory Ring_Fifo
  imports Ring_Window
begin

text \<open>
  Every operation of the ring buffer queue, over any two barriers that keep the contract, does what a
  bounded first-in first-out queue does; interpreted for the four kinds of queue.
\<close>

section \<open>What a ring stands for\<close>

definition ring_type :: "nat \<Rightarrow> 'w barrier_ops \<Rightarrow> 'r barrier_ops \<Rightarrow> ('a \<Rightarrow> 'a) option \<Rightarrow> ('a, 'w, 'r) queue_type" where
  "ring_type m wops rops mv = \<lparr>buffer_size = 2 ^ m, write_ops = wops, read_ops = rops, moved = mv\<rparr>"

text \<open>The entries \<open>r\<close> to \<open>w\<close> are in the buffer; \<open>rres\<close> are claimed by readers.\<close>

definition ring_rep where
  "ring_rep m wrep rrep q rres r w xs \<longleftrightarrow> length (ring_buffer q) = 2 ^ m \<and> xs = ring_window m (ring_buffer q) r w
     \<and> (\<exists>lo_w lo_r. wrep (write_barrier q) w lo_w w \<and> rrep (read_barrier q) rres lo_r r
       \<and> r \<le> rres \<and> rres \<le> lo_w \<and> w \<le> lo_r + 2 ^ m)"

lemma ring_repI:
  assumes "length (ring_buffer q) = 2 ^ m" "xs = ring_window m (ring_buffer q) r w" "wrep (write_barrier q) w lo_w w"
    "rrep (read_barrier q) rres lo_r r" "r \<le> rres" "rres \<le> lo_w" "w \<le> lo_r + 2 ^ m"
  shows "ring_rep m wrep rrep q rres r w xs"
  using assms unfolding ring_rep_def by blast

lemma ring_repE:
  assumes "ring_rep m wrep rrep q rres r w xs"
  obtains lo_w lo_r where "length (ring_buffer q) = 2 ^ m" "xs = ring_window m (ring_buffer q) r w"
    "wrep (write_barrier q) w lo_w w" "rrep (read_barrier q) rres lo_r r" "r \<le> rres" "rres \<le> lo_w" "w \<le> lo_r + 2 ^ m"
  using assms unfolding ring_rep_def by blast

locale ring_queue =
  w: barrier wops m wrep wstrong + r: barrier rops m rrep rstrong
  for m :: nat and wops :: "'w barrier_ops" and wrep wstrong and rops :: "'r barrier_ops" and rrep rstrong
begin

lemma rep_bounds:
  assumes "ring_rep m wrep rrep q rres r w xs"
  shows "m < 63" "2 ^ m \<le> r" "r \<le> rres" "rres \<le> w" "w \<le> r + 2 ^ m" "w < 2 ^ 64" "length xs = w - r"
  using assms w.rep_order r.rep_order by (fastforce simp: ring_rep_def)+

text \<open>A writer that has its place copies in and is done.\<close>

lemma write_done:
  assumes rep: "wrep wb res lo_w w" "rrep rb rres lo_r r" "r \<le> rres" "rres \<le> lo_w"
    and room: "w + unat n \<le> lo_r + 2 ^ m" "0 < unat n" "res = w + unat n" "w + unat n < 2 ^ 64"
    and st: "stored m buf w ys buf'" "length ys = unat n" "length buf = 2 ^ m" "xs = ring_window m buf r w"
  obtains wb' where "op_set wops (ring_mode (2 ^ m) (of_nat w)) (of_nat w + n) wb = Some wb'"
    "ring_rep m wrep rrep (q\<lparr>ring_buffer := buf', write_barrier := wb', read_barrier := rb\<rparr>) rres r (w + unat n) (xs @ ys)"
proof -
  have o: "lo_r \<le> r" "lo_w \<le> w"
    using w.rep_order [OF rep(1)] r.rep_order [OF rep(2)] by simp_all
  have e: "unat (of_nat w + n :: u64) = w + unat n"
    using room(4) by (rule seq_end)
  have "unat (of_nat w + n :: u64) \<le> lo_w + 2 ^ m" "w < unat (of_nat w + n :: u64)"
    using room e o rep(3,4) by simp_all
  then obtain wb' lo' where wb': "op_set wops (ring_mode (2 ^ m) (of_nat w)) (of_nat w + n) wb = Some wb'"
    "wrep wb' (w + unat n) lo' (w + unat n)" "lo_w \<le> lo'"
    using w.set_done [OF rep(1), of "of_nat w + n"] unfolding e room(3) by blast
  have "ring_window m buf' r (w + unat n) = xs @ ys"
    using ring_window_stored [OF st(1), of r] o rep(3,4) room(1) st(2,4) by simp
  then have "ring_rep m wrep rrep (q\<lparr>ring_buffer := buf', write_barrier := wb', read_barrier := rb\<rparr>) rres r (w + unat n) (xs @ ys)"
    using wb'(2,3) rep room st by (intro ring_repI [where lo_w = lo' and lo_r = lo_r]) (simp_all add: stored_def)
  then show thesis
    using that [OF wb'(1)] by blast
qed

text \<open>A writer that finds room.\<close>

lemma write_room:
  assumes "ring_rep m wrep rrep q rres r w xs" "unat n + length xs \<le> 2 ^ m" "w + unat n < 2 ^ 64"
  shows "unat (of_nat w + n - 2 ^ m :: u64) \<le> r"
  using rep_bounds [OF assms(1)] assms(2,3) by (simp add: seq_back seq_end)

lemma write_no_room:
  assumes "ring_rep m wrep rrep q rres r w xs" "2 ^ m < unat n + length xs" "w + unat n < 2 ^ 64"
  shows "r < unat (of_nat w + n - 2 ^ m :: u64)"
  using rep_bounds [OF assms(1)] assms(2,3) by (simp add: seq_back seq_end)

abbreviation qt where "qt mv \<equiv> ring_type m wops rops mv"

abbreviation repr where "repr q rres r w xs \<equiv> ring_rep m wrep rrep q rres r w xs"

section \<open>Writing\<close>

lemma write_turn:
  assumes rep: "repr q rres r w xs" and n: "0 < unat n" "unat n + length xs \<le> 2 ^ m" "w + unat n < 2 ^ 64"
    and st: "stored m (ring_buffer q) w ys buf'" "length ys = unat n"
  obtains wb v' rb wb' where "op_reserve wops n (write_barrier q) = (of_nat w, wb)"
    "op_wait rops (of_nat w + n - 2 ^ m) (read_barrier q) = Some (v', rb)"
    "op_set wops (ring_mode (2 ^ m) (of_nat w)) (of_nat w + n) wb = Some wb'"
    "repr (q\<lparr>ring_buffer := buf', write_barrier := wb', read_barrier := rb\<rparr>) rres r (w + unat n) (xs @ ys)"
proof -
  note b = rep_bounds [OF rep]
  obtain lo_w lo_r where l: "length (ring_buffer q) = 2 ^ m" "xs = ring_window m (ring_buffer q) r w"
    "wrep (write_barrier q) w lo_w w" "rrep (read_barrier q) rres lo_r r" "r \<le> rres" "rres \<le> lo_w" "w \<le> lo_r + 2 ^ m"
    using rep by (rule ring_repE)
  obtain wb where wb: "op_reserve wops n (write_barrier q) = (of_nat w, wb)" "wrep wb (w + unat n) lo_w w"
    using w.reserve [OF l(3) n(3)] by auto
  obtain v' rb lo where rb: "op_wait rops (of_nat w + n - 2 ^ m) (read_barrier q) = Some (v', rb)" "rrep rb rres lo r"
    "unat (of_nat w + n - 2 ^ m :: u64) \<le> lo"
    using r.wait [OF l(4) write_room [OF rep n(2,3)]] by auto
  have room: "w + unat n \<le> lo + 2 ^ m"
    using rb(3) n b by (simp add: seq_back seq_end)
  obtain wb' where "op_set wops (ring_mode (2 ^ m) (of_nat w)) (of_nat w + n) wb = Some wb'"
    "repr (q\<lparr>ring_buffer := buf', write_barrier := wb', read_barrier := rb\<rparr>) rres r (w + unat n) (xs @ ys)"
    using write_done [OF wb(2) rb(2) l(5,6) room n(1) refl n(3) st l(1,2), of q] by blast
  then show thesis
    using that wb(1) rb(1) by blast
qed

lemma write_blocks:
  assumes rep: "repr q rres r w xs" and n: "2 ^ m < unat n + length xs" "w + unat n < 2 ^ 64"
  obtains wb where "op_reserve wops n (write_barrier q) = (of_nat w, wb)"
    "op_wait rops (of_nat w + n - 2 ^ m) (read_barrier q) = None"
proof -
  obtain lo_w lo_r where l: "wrep (write_barrier q) w lo_w w" "rrep (read_barrier q) rres lo_r r"
    using rep by (rule ring_repE)
  show thesis
    using w.reserve [OF l(1) n(2)] r.wait_spins [OF l(2) write_no_room [OF rep n]] that by blast
qed

text \<open>The ways a \<open>try_\<close> operation of a writer can go.\<close>

lemma write_try:
  assumes rep: "repr q rres r w xs" and n: "0 < unat n" "w + unat n < 2 ^ 64"
    and st: "unat n + length xs \<le> 2 ^ m \<Longrightarrow> stored m (ring_buffer q) w ys buf'" "length ys = unat n"
  obtains (full) rb where "2 ^ m < unat n + length xs" "op_try_wait rops (of_nat w + n - 2 ^ m) (read_barrier q) = Some (0, rb)"
      "repr (q\<lparr>read_barrier := rb\<rparr>) rres r w xs"
  | (beaten) v rb wb where "\<not> wstrong" "op_try_wait rops (of_nat w + n - 2 ^ m) (read_barrier q) = Some (v, rb)" "v \<noteq> 0"
      "op_set_reserve wops (of_nat w) (of_nat w + n) (write_barrier q) = (False, wb)"
      "repr (q\<lparr>read_barrier := rb, write_barrier := wb\<rparr>) rres r w xs"
  | (did) v rb wb wb' where "unat n + length xs \<le> 2 ^ m" "op_try_wait rops (of_nat w + n - 2 ^ m) (read_barrier q) = Some (v, rb)" "v \<noteq> 0"
      "op_set_reserve wops (of_nat w) (of_nat w + n) (write_barrier q) = (True, wb)"
      "op_set wops (ring_mode (2 ^ m) (of_nat w)) (of_nat w + n) wb = Some wb'"
      "repr (q\<lparr>read_barrier := rb, ring_buffer := buf', write_barrier := wb'\<rparr>) rres r (w + unat n) (xs @ ys)"
proof -
  note b = rep_bounds [OF rep]
  obtain lo_w lo_r where l: "length (ring_buffer q) = 2 ^ m" "xs = ring_window m (ring_buffer q) r w"
    "wrep (write_barrier q) w lo_w w" "rrep (read_barrier q) rres lo_r r" "r \<le> rres" "rres \<le> lo_w" "w \<le> lo_r + 2 ^ m"
    using rep by (rule ring_repE)
  let ?e = "of_nat w + n :: u64"
  obtain v rb lo where rb: "op_try_wait rops (?e - 2 ^ m) (read_barrier q) = Some (v, rb)" "rrep rb rres lo r" "lo_r \<le> lo"
    "v = 0 \<longleftrightarrow> r < unat (?e - 2 ^ m)" "v \<noteq> 0 \<longrightarrow> unat (?e - 2 ^ m) \<le> lo"
    using r.try_wait [OF l(4), of "?e - 2 ^ m"] by auto
  obtain ok wb where wb: "op_set_reserve wops (of_nat w) ?e (write_barrier q) = (ok, wb)"
    "wrep wb (if ok then unat ?e else w) lo_w w" "wstrong \<longrightarrow> ok"
    using w.set_reserve [OF l(3), of ?e] by blast
  have full_iff: "r < unat (?e - 2 ^ m) \<longleftrightarrow> 2 ^ m < unat n + length xs"
    using write_room [OF rep _ n(2)] write_no_room [OF rep _ n(2)] by (meson not_less)
  consider "v = 0" | "v \<noteq> 0" "\<not> ok" | "v \<noteq> 0" ok
    by blast
  then show thesis
  proof cases
    case 1
    have "repr (q\<lparr>read_barrier := rb\<rparr>) rres r w xs"
      using l rb(2,3) by (intro ring_repI [where lo_w = lo_w and lo_r = lo]) simp_all
    then show thesis
      using full rb 1 full_iff by blast
  next
    case 2
    have "repr (q\<lparr>read_barrier := rb, write_barrier := wb\<rparr>) rres r w xs"
      using l rb(2,3) wb(2) 2 by (intro ring_repI [where lo_w = lo_w and lo_r = lo]) simp_all
    then show thesis
      using beaten [OF _ rb(1) 2(1)] wb(1,3) 2(2) by simp
  next
    case 3
    have room: "unat n + length xs \<le> 2 ^ m" "w + unat n \<le> lo + 2 ^ m"
      using 3 rb(4,5) full_iff n b by (simp_all add: seq_back seq_end not_less)
    have wb2: "wrep wb (w + unat n) lo_w w"
      using wb(2) 3 n(2) by (simp add: seq_end)
    obtain wb' where "op_set wops (ring_mode (2 ^ m) (of_nat w)) ?e wb = Some wb'"
      "repr (q\<lparr>ring_buffer := buf', write_barrier := wb', read_barrier := rb\<rparr>) rres r (w + unat n) (xs @ ys)"
      using write_done [OF wb2 rb(2) l(5,6) room(2) n(1) refl n(2) st(1) [OF room(1)] st(2) l(1,2), of q] by blast
    then show thesis
      using did [OF room(1) rb(1) 3(1)] wb(1) 3(2) by (simp add: ring_rep_def)
  qed
qed

lemma room_block:
  assumes rep: "repr q rres r w xs" and n: "unat sz \<le> length ptr" "unat sz \<le> 2 ^ m"
  obtains buf' where "block_write (2 ^ m) (ring_mode (2 ^ m) (of_nat w)) ptr sz (ring_buffer q) = Some buf'"
    "stored m (ring_buffer q) w (take (unat sz) ptr) buf'"
proof -
  have "length (ring_buffer q) = 2 ^ m"
    using rep by (rule ring_repE)
  then show thesis
    using block_write_stored [OF rep_bounds(1,6) [OF rep] _ n(2,1)] that by blast
qed

lemma room_node:
  assumes rep: "repr q rres r w xs"
  obtains buf' where "put_node (ring_mode (2 ^ m) (of_nat w)) v (ring_buffer q) = Some buf'" "stored m (ring_buffer q) w [v] buf'"
proof -
  have "length (ring_buffer q) = 2 ^ m"
    using rep by (rule ring_repE)
  then show thesis
    using put_node_stored [OF rep_bounds(1,6) [OF rep], of "ring_buffer q" v] that by blast
qed

lemma enqueue_room:
  assumes rep: "repr q rres r w xs" and room: "length xs < 2 ^ m" "w + 1 < 2 ^ 64"
  shows "\<exists>q'. enqueue (qt mv) v q = Some q' \<and> repr q' rres r (w + 1) (xs @ [v])"
proof -
  obtain buf' where buf: "put_node (ring_mode (2 ^ m) (of_nat w)) v (ring_buffer q) = Some buf'" "stored m (ring_buffer q) w [v] buf'"
    using room_node [OF rep] .
  show ?thesis
    by (rule write_turn [OF rep _ _ _ buf(2), of 1]) (use room buf(1) in \<open>simp_all add: enqueue_def ring_type_def\<close>)
qed

lemma enqueue_full:
  assumes rep: "repr q rres r w xs" and full: "length xs = 2 ^ m" "w + 1 < 2 ^ 64"
  shows "enqueue (qt mv) v q = None"
  by (rule write_blocks [OF rep, of 1]) (use full in \<open>simp_all add: enqueue_def ring_type_def\<close>)

lemma block_enqueue_room:
  assumes rep: "repr q rres r w xs" and sz: "0 < unat sz" "unat sz \<le> length ptr"
    and room: "unat sz + length xs \<le> 2 ^ m" "w + unat sz < 2 ^ 64"
  shows "\<exists>q'. block_enqueue (qt mv) ptr sz q = Some q' \<and> repr q' rres r (w + unat sz) (xs @ take (unat sz) ptr)"
proof -
  obtain buf' where buf: "block_write (2 ^ m) (ring_mode (2 ^ m) (of_nat w)) ptr sz (ring_buffer q) = Some buf'"
    "stored m (ring_buffer q) w (take (unat sz) ptr) buf'"
    using room_block [OF rep sz(2)] room(1) by auto
  show ?thesis
    by (rule write_turn [OF rep sz(1) room buf(2)]) (use sz buf(1) in \<open>simp_all add: block_enqueue_def ring_type_def\<close>)
qed

lemma block_enqueue_full:
  assumes rep: "repr q rres r w xs" and full: "2 ^ m < unat sz + length xs" "w + unat sz < 2 ^ 64"
  shows "block_enqueue (qt mv) ptr sz q = None"
  by (rule write_blocks [OF rep full(1) full(2)]) (auto simp: block_enqueue_def ring_type_def)

lemma try_enqueue_result:
  assumes rep: "repr q rres r w xs" and w: "w + 1 < 2 ^ 64"
  shows "\<exists>ok q'. try_enqueue (qt mv) v q = Some (ok, q') \<and> (ok \<longrightarrow> length xs < 2 ^ m) \<and> (wstrong \<longrightarrow> length xs < 2 ^ m \<longrightarrow> ok)
    \<and> repr q' rres r (if ok then w + 1 else w) (if ok then xs @ [v] else xs)"
proof -
  have t: "op_try_reserve wops (write_barrier q) = of_nat w"
    using rep w.try_reserve by (auto elim: ring_repE)
  obtain buf' where buf: "put_node (ring_mode (2 ^ m) (of_nat w)) v (ring_buffer q) = Some buf'" "stored m (ring_buffer q) w [v] buf'"
    using room_node [OF rep] .
  show ?thesis
    by (rule write_try [OF rep _ _ buf(2), of 1]) (use w buf(1) t in \<open>auto simp: try_enqueue_def ring_type_def\<close>)
qed

lemma try_block_enqueue_result:
  assumes rep: "repr q rres r w xs" and sz: "0 < unat sz" "unat sz \<le> length ptr" and w: "w + unat sz < 2 ^ 64"
  shows "\<exists>ok q'. try_block_enqueue (qt mv) ptr sz q = Some (ok, q') \<and> (ok \<longrightarrow> unat sz + length xs \<le> 2 ^ m)
    \<and> (wstrong \<longrightarrow> unat sz + length xs \<le> 2 ^ m \<longrightarrow> ok)
    \<and> repr q' rres r (if ok then w + unat sz else w) (if ok then xs @ take (unat sz) ptr else xs)"
proof -
  have t: "op_try_reserve wops (write_barrier q) = of_nat w"
    using rep w.try_reserve by (auto elim: ring_repE)
  obtain buf' where buf: "unat sz + length xs \<le> 2 ^ m \<Longrightarrow> block_write (2 ^ m) (ring_mode (2 ^ m) (of_nat w)) ptr sz (ring_buffer q) = Some buf'"
    "unat sz + length xs \<le> 2 ^ m \<Longrightarrow> stored m (ring_buffer q) w (take (unat sz) ptr) buf'"
    by (cases "unat sz + length xs \<le> 2 ^ m") (auto intro: room_block [OF rep sz(2)])
  show ?thesis
    by (rule write_try [OF rep sz(1) w buf(2)]) (use sz buf(1) t in \<open>auto simp: try_block_enqueue_def ring_type_def\<close>)
qed

section \<open>Reading\<close>

lemma other_buffer:
  "repr q rres r w xs \<Longrightarrow> length buf' = 2 ^ m \<Longrightarrow> ring_window m buf' r w = ys \<Longrightarrow> repr (q\<lparr>ring_buffer := buf'\<rparr>) rres r w ys"
  by (auto simp: ring_rep_def)

text \<open>A reader that has claimed its entries and is done with them.\<close>

lemma read_done:
  assumes rep: "repr q rres r w xs" and n: "0 < unat n" "r + unat n \<le> rres"
  obtains rb where "op_set rops (ring_mode (2 ^ m) (of_nat r)) (of_nat r + n) (read_barrier q) = Some rb"
    "repr (q\<lparr>read_barrier := rb\<rparr>) rres (r + unat n) w (drop (unat n) xs)"
proof -
  note b = rep_bounds [OF rep]
  obtain lo_w lo_r where l: "length (ring_buffer q) = 2 ^ m" "xs = ring_window m (ring_buffer q) r w"
    "wrep (write_barrier q) w lo_w w" "rrep (read_barrier q) rres lo_r r" "r \<le> rres" "rres \<le> lo_w" "w \<le> lo_r + 2 ^ m"
    using rep by (rule ring_repE)
  have e: "unat (of_nat r + n :: u64) = r + unat n"
    using b(4,6) n(2) by (intro seq_end) linarith
  have "unat (of_nat r + n :: u64) \<le> lo_r + 2 ^ m" "r < unat (of_nat r + n :: u64)"
    using e n b(4) l(7) by simp_all
  then obtain rb lo' where rb: "op_set rops (ring_mode (2 ^ m) (of_nat r)) (of_nat r + n) (read_barrier q) = Some rb"
    "rrep rb rres lo' (r + unat n)" "lo_r \<le> lo'"
    using r.set_done [OF l(4), of "of_nat r + n"] unfolding e by blast
  have "drop (unat n) xs = ring_window m (ring_buffer q) (r + unat n) w"
    using n(2) b(4) l(2) by (simp add: ring_window_drop)
  then have "repr (q\<lparr>read_barrier := rb\<rparr>) rres (r + unat n) w (drop (unat n) xs)"
    using l rb n by (intro ring_repI [where lo_w = lo_w and lo_r = lo']) simp_all
  then show thesis
    using that rb(1) by blast
qed

lemma read_claim:
  assumes rep: "repr q r r w xs" and n: "unat n \<le> length xs"
  obtains rb v wb where "op_reserve rops n (read_barrier q) = (of_nat r, rb)"
    "op_wait wops (of_nat r + n) (write_barrier q) = Some (v, wb)"
    "repr (q\<lparr>write_barrier := wb, read_barrier := rb\<rparr>) (r + unat n) r w xs"
proof -
  note b = rep_bounds [OF rep]
  obtain lo_w lo_r where l: "length (ring_buffer q) = 2 ^ m" "xs = ring_window m (ring_buffer q) r w"
    "wrep (write_barrier q) w lo_w w" "rrep (read_barrier q) r lo_r r" "r \<le> r" "r \<le> lo_w" "w \<le> lo_r + 2 ^ m"
    using rep by (rule ring_repE)
  have w: "r + unat n \<le> w" "r + unat n < 2 ^ 64"
    using n b by simp_all
  obtain rb where rb: "op_reserve rops n (read_barrier q) = (of_nat r, rb)" "rrep rb (r + unat n) lo_r r"
    using r.reserve [OF l(4) w(2)] by auto
  obtain v wb lo where wb: "op_wait wops (of_nat r + n) (write_barrier q) = Some (v, wb)" "wrep wb w lo w" "r + unat n \<le> lo"
    using w.wait [OF l(3), of "of_nat r + n"] w(1) unfolding seq_end [OF w(2)] by auto
  have "repr (q\<lparr>write_barrier := wb, read_barrier := rb\<rparr>) (r + unat n) r w xs"
    using l rb wb by (intro ring_repI [where lo_w = lo and lo_r = lo_r]) simp_all
  then show thesis
    using that rb(1) wb(1) by blast
qed

lemma read_blocks:
  assumes rep: "repr q r r w xs" and n: "length xs < unat n" "r + unat n < 2 ^ 64"
  obtains rb where "op_reserve rops n (read_barrier q) = (of_nat r, rb)"
    "op_wait wops (of_nat r + n) (write_barrier q) = None"
proof -
  obtain lo_w lo_r where l: "wrep (write_barrier q) w lo_w w" "rrep (read_barrier q) r lo_r r"
    using rep by (rule ring_repE)
  have "w < unat (of_nat r + n :: u64)"
    using n rep_bounds [OF rep] by (simp add: seq_end)
  then show thesis
    using r.reserve [OF l(2) n(2)] w.wait_spins [OF l(1)] that by blast
qed

text \<open>The ways a \<open>try_\<close> operation of a reader can go.\<close>

lemma read_try:
  assumes rep: "repr q r r w xs" and n: "r + unat n < 2 ^ 64"
  obtains (none) wb where "length xs < unat n" "op_try_wait wops (of_nat r + n) (write_barrier q) = Some (0, wb)"
      "repr (q\<lparr>write_barrier := wb\<rparr>) r r w xs"
  | (beaten) v wb rb where "\<not> rstrong" "op_try_wait wops (of_nat r + n) (write_barrier q) = Some (v, wb)" "v \<noteq> 0"
      "op_set_reserve rops (of_nat r) (of_nat r + n) (read_barrier q) = (False, rb)"
      "repr (q\<lparr>write_barrier := wb, read_barrier := rb\<rparr>) r r w xs"
  | (claimed) v wb rb where "unat n \<le> length xs" "op_try_wait wops (of_nat r + n) (write_barrier q) = Some (v, wb)" "v \<noteq> 0"
      "op_set_reserve rops (of_nat r) (of_nat r + n) (read_barrier q) = (True, rb)"
      "repr (q\<lparr>write_barrier := wb, read_barrier := rb\<rparr>) (r + unat n) r w xs"
proof -
  note b = rep_bounds [OF rep]
  obtain lo_w lo_r where l: "length (ring_buffer q) = 2 ^ m" "xs = ring_window m (ring_buffer q) r w"
    "wrep (write_barrier q) w lo_w w" "rrep (read_barrier q) r lo_r r" "r \<le> r" "r \<le> lo_w" "w \<le> lo_r + 2 ^ m"
    using rep by (rule ring_repE)
  let ?e = "of_nat r + n :: u64"
  obtain v wb lo where wb: "op_try_wait wops ?e (write_barrier q) = Some (v, wb)" "wrep wb w lo w" "lo_w \<le> lo"
    "v = 0 \<longleftrightarrow> w < r + unat n" "v \<noteq> 0 \<longrightarrow> r + unat n \<le> lo"
    using w.try_wait [OF l(3), of ?e] unfolding seq_end [OF n] by auto
  obtain ok rb where rb: "op_set_reserve rops (of_nat r) ?e (read_barrier q) = (ok, rb)"
    "rrep rb (if ok then r + unat n else r) lo_r r" "rstrong \<longrightarrow> ok"
    using r.set_reserve [OF l(4), of ?e] unfolding seq_end [OF n] by blast
  consider "v = 0" | "v \<noteq> 0" "\<not> ok" | "v \<noteq> 0" ok
    by blast
  then show thesis
  proof cases
    case 1
    have "repr (q\<lparr>write_barrier := wb\<rparr>) r r w xs"
      using l wb(2,3) by (intro ring_repI [where lo_w = lo and lo_r = lo_r]) simp_all
    then show thesis
      using none [OF _ wb(1) [unfolded 1]] 1 wb(4) b by simp
  next
    case 2
    have "repr (q\<lparr>write_barrier := wb, read_barrier := rb\<rparr>) r r w xs"
      using l wb(2,3) rb(2) 2 by (intro ring_repI [where lo_w = lo and lo_r = lo_r]) simp_all
    then show thesis
      using beaten [OF _ wb(1) 2(1)] rb(1,3) 2(2) by simp
  next
    case 3
    have "repr (q\<lparr>write_barrier := wb, read_barrier := rb\<rparr>) (r + unat n) r w xs"
      using l wb(2,5) rb(2) 3 by (intro ring_repI [where lo_w = lo and lo_r = lo_r]) simp_all
    then show thesis
      using claimed [OF _ wb(1) 3(1)] rb(1) 3 wb(4) b by simp
  qed
qed

end

end
