(* ===== verification/Ring_Calls.thy ===== *)
theory Ring_Calls
  imports Ring_Fifo
begin

text \<open>
  The reading operations and the rest of the queue's interface, and the four kinds of queue.
\<close>

section \<open>Results\<close>

lemma hd_window: "xs = ring_window m buf r w \<Longrightarrow> xs \<noteq> [] \<Longrightarrow> hd xs = buf ! (r mod 2 ^ m)"
  by (auto simp: ring_window_def hd_map)

context ring_queue
begin

lemma node_read:
  assumes rep: "repr q rres r w xs" and ne: "xs \<noteq> []"
  obtains buf' where "smart_copy mv (ring_mode (2 ^ m) (of_nat r)) (ring_buffer q) = Some (hd xs, buf')"
    "length buf' = 2 ^ m" "ring_window m buf' (r + 1) w = tl xs"
proof -
  have l: "length (ring_buffer q) = 2 ^ m" "xs = ring_window m (ring_buffer q) r w"
    using rep by (auto elim: ring_repE)
  have "r < w"
    using ne l(2) by (auto simp: ring_window_def)
  then show thesis
    using smart_copy_window [OF rep_bounds(1) [OF rep] _ l(1) _ rep_bounds(5) [OF rep]] rep_bounds(6) [OF rep] l that by auto
qed

lemma block_read_head:
  assumes rep: "repr q rres r w xs" and n: "unat sz \<le> length xs" "unat sz \<le> length ptr"
  shows "block_read (2 ^ m) (ring_mode (2 ^ m) (of_nat r)) ptr sz (ring_buffer q) = Some (take (unat sz) xs @ drop (unat sz) ptr)"
proof -
  note b = rep_bounds [OF rep]
  have l: "length (ring_buffer q) = 2 ^ m" "xs = ring_window m (ring_buffer q) r w"
    using rep by (auto elim: ring_repE)
  have "take (unat sz) xs = ring_window m (ring_buffer q) r (r + unat sz)"
    using l(2) n(1) b by (simp add: ring_window_take)
  then show ?thesis
    using block_read_window [OF b(1) _ l(1) _ n(2), of r] n(1) b by simp
qed

text \<open>What a reader that has claimed \<open>n\<close> entries leaves.\<close>

lemma claimed_done:
  assumes rep: "repr q (r + unat n) r w xs" and n: "0 < unat n"
    and buf: "length buf' = 2 ^ m" "ring_window m buf' (r + unat n) w = drop (unat n) xs"
  obtains rb where "op_set rops (ring_mode (2 ^ m) (of_nat r)) (of_nat r + n) (read_barrier q) = Some rb"
    "repr (q\<lparr>ring_buffer := buf', read_barrier := rb\<rparr>) (r + unat n) (r + unat n) w (drop (unat n) xs)"
proof -
  obtain rb where rb: "op_set rops (ring_mode (2 ^ m) (of_nat r)) (of_nat r + n) (read_barrier q) = Some rb"
    "repr (q\<lparr>read_barrier := rb\<rparr>) (r + unat n) (r + unat n) w (drop (unat n) xs)"
    using read_done [OF rep n order_refl] by blast
  show thesis
    using that [OF rb(1)] other_buffer [OF rb(2) buf] by (simp add: ring_rep_def)
qed

lemma same_window:
  assumes "repr q rres r w xs" "unat n \<le> length xs"
  shows "length (ring_buffer q) = 2 ^ m" "ring_window m (ring_buffer q) (r + unat n) w = drop (unat n) xs"
  using assms by (auto elim!: ring_repE simp: ring_window_drop)

section \<open>Reading\<close>

lemma dequeue_some:
  assumes rep: "repr q r r w xs" and ne: "xs \<noteq> []"
  shows "\<exists>q'. dequeue (qt mv) q = Some (hd xs, q') \<and> repr q' (r + 1) (r + 1) w (tl xs)"
proof -
  have n: "unat (1 :: u64) \<le> length xs"
    using ne by (cases xs) simp_all
  obtain rb v wb where c: "op_reserve rops 1 (read_barrier q) = (of_nat r, rb)"
    "op_wait wops (of_nat r + 1) (write_barrier q) = Some (v, wb)"
    "repr (q\<lparr>write_barrier := wb, read_barrier := rb\<rparr>) (r + unat (1 :: u64)) r w xs"
    using read_claim [OF rep n] .
  obtain buf' where buf: "smart_copy mv (ring_mode (2 ^ m) (of_nat r)) (ring_buffer q) = Some (hd xs, buf')"
    "length buf' = 2 ^ m" "ring_window m buf' (r + 1) w = tl xs"
    using node_read [OF rep ne] by blast
  show ?thesis
    by (rule claimed_done [OF c(3), of buf']) (use c buf in \<open>auto simp: dequeue_def ring_type_def drop_Suc ring_rep_def\<close>)
qed

lemma dequeue_none:
  assumes "repr q r r w []" "r + 1 < 2 ^ 64"
  shows "dequeue (qt mv) q = None"
  by (rule read_blocks [OF assms(1), of 1]) (use assms(2) in \<open>auto simp: dequeue_def ring_type_def\<close>)

lemma block_dequeue_some:
  assumes rep: "repr q r r w xs" and n: "0 < unat sz" "unat sz \<le> length xs" "unat sz \<le> length ptr"
  shows "\<exists>q'. block_dequeue (qt mv) ptr sz q = Some (take (unat sz) xs @ drop (unat sz) ptr, q')
    \<and> repr q' (r + unat sz) (r + unat sz) w (drop (unat sz) xs)"
proof -
  obtain rb v wb where c: "op_reserve rops sz (read_barrier q) = (of_nat r, rb)"
    "op_wait wops (of_nat r + sz) (write_barrier q) = Some (v, wb)"
    "repr (q\<lparr>write_barrier := wb, read_barrier := rb\<rparr>) (r + unat sz) r w xs"
    using read_claim [OF rep n(2)] .
  show ?thesis
    by (rule claimed_done [OF c(3) n(1) same_window [OF c(3) n(2)]])
      (use c block_read_head [OF rep n(2,3)] in \<open>auto simp: block_dequeue_def ring_type_def ring_rep_def\<close>)
qed

lemma block_dequeue_none:
  assumes "repr q r r w xs" "length xs < unat sz" "r + unat sz < 2 ^ 64"
  shows "block_dequeue (qt mv) ptr sz q = None"
  by (rule read_blocks [OF assms]) (auto simp: block_dequeue_def ring_type_def)

lemma try_dequeue_result:
  assumes rep: "repr q r r w xs" and r: "r + 1 < 2 ^ 64"
  shows "\<exists>res q'. try_dequeue (qt mv) q = Some (res, q')
    \<and> (case res of None \<Rightarrow> repr q' r r w xs \<and> (rstrong \<longrightarrow> xs = [])
       | Some v \<Rightarrow> xs \<noteq> [] \<and> v = hd xs \<and> repr q' (r + 1) (r + 1) w (tl xs))"
proof -
  have t: "op_try_reserve rops (read_barrier q) = of_nat r"
    using rep r.try_reserve by (auto elim: ring_repE)
  have one: "r + unat (1 :: u64) < 2 ^ 64"
    using r by simp
  from rep one show ?thesis
  proof (cases rule: read_try)
    case (none wb)
    then show ?thesis
      using t by (auto simp: try_dequeue_def ring_type_def)
  next
    case (beaten v wb rb)
    then show ?thesis
      using t by (auto simp: try_dequeue_def ring_type_def)
  next
    case (claimed v wb rb)
    then have ne: "xs \<noteq> []"
      by auto
    obtain buf' where buf: "smart_copy mv (ring_mode (2 ^ m) (of_nat r)) (ring_buffer q) = Some (hd xs, buf')"
      "length buf' = 2 ^ m" "ring_window m buf' (r + 1) w = tl xs"
      using node_read [OF rep ne] by blast
    show ?thesis
      by (rule claimed_done [OF claimed(5), of buf'])
        (use claimed t ne buf in \<open>auto simp: try_dequeue_def ring_type_def drop_Suc ring_rep_def\<close>)
  qed
qed

lemma try_block_dequeue_result:
  assumes rep: "repr q r r w xs" and r: "r + unat sz < 2 ^ 64" and n: "0 < unat sz" "unat sz \<le> length ptr"
  shows "\<exists>ok out q'. try_block_dequeue (qt mv) ptr sz q = Some (ok, out, q')
    \<and> (if ok then unat sz \<le> length xs \<and> out = take (unat sz) xs @ drop (unat sz) ptr
         \<and> repr q' (r + unat sz) (r + unat sz) w (drop (unat sz) xs)
       else out = ptr \<and> repr q' r r w xs \<and> (rstrong \<longrightarrow> length xs < unat sz))"
proof -
  have t: "op_try_reserve rops (read_barrier q) = of_nat r"
    using rep r.try_reserve by (auto elim: ring_repE)
  from rep r show ?thesis
  proof (cases rule: read_try)
    case (none wb)
    then show ?thesis
      using t by (auto simp: try_block_dequeue_def ring_type_def)
  next
    case (beaten v wb rb)
    then show ?thesis
      using t by (auto simp: try_block_dequeue_def ring_type_def)
  next
    case (claimed v wb rb)
    show ?thesis
      by (rule claimed_done [OF claimed(5) n(1) same_window [OF claimed(5,1)]])
        (use claimed t n block_read_head [OF rep claimed(1) n(2)] in \<open>auto simp: try_block_dequeue_def ring_type_def ring_rep_def\<close>)
  qed
qed

section \<open>Reserved blocks\<close>

lemma try_reserve_block_result:
  assumes rep: "repr q r r w xs" and r: "r + unat sz < 2 ^ 64" and n: "0 < unat sz"
  shows "\<exists>res q'. try_reserve_block (qt mv) sz q = Some (res, q')
    \<and> (if reserve_bool res
       then unat sz \<le> length xs \<and> repr q' (r + unat sz) r w xs \<and> rr_buff res = Some (r mod 2 ^ m)
         \<and> unat (rr_size_first res) = min (unat sz) (2 ^ m - r mod 2 ^ m)
         \<and> rr_size res = sz \<and> rr_buff2 res = (if 2 ^ m - r mod 2 ^ m < unat sz then Some 0 else None)
         \<and> rr_cb res = Some (ring_mode (2 ^ m) (of_nat r), of_nat r + sz)
       else res = empty_reserve \<and> repr q' r r w xs \<and> (rstrong \<longrightarrow> length xs < unat sz))"
proof -
  note b = rep_bounds [OF rep]
  have t: "op_try_reserve rops (read_barrier q) = of_nat r"
    using rep r.try_reserve by (auto elim: ring_repE)
  have p: "unat (ring_mode (2 ^ m) (of_nat r) :: u64) = r mod 2 ^ m"
    "unat (2 ^ m - ring_mode (2 ^ m) (of_nat r) :: u64) = 2 ^ m - r mod 2 ^ m"
    using b seq_pos [of m r] seq_rest [of m "of_nat r"] by (simp_all add: unat_of_nat_id)
  have sz: "sz \<noteq> 0"
    using n by auto
  from rep r show ?thesis
  proof (cases rule: read_try)
    case (none wb)
    then show ?thesis
      using t by (simp add: try_reserve_block_def ring_type_def empty_reserve_def reserve_bool_def)
  next
    case (beaten v wb rb)
    then show ?thesis
      using t by (simp add: try_reserve_block_def ring_type_def empty_reserve_def reserve_bool_def)
  next
    case (claimed v wb rb)
    then show ?thesis
      using t p sz by (auto simp: try_reserve_block_def ring_type_def empty_reserve_def reserve_bool_def Let_def word_le_nat_alt min_def)
  qed
qed

text \<open>The part of a block before the end of the buffer is read right.\<close>

lemma reserve_at_first:
  assumes rep: "repr q rres r w xs" and res: "rr_buff res = Some (r mod 2 ^ m)" "i < rr_size_first res"
    "unat (rr_size_first res) \<le> length xs" "unat (rr_size_first res) \<le> 2 ^ m - r mod 2 ^ m"
  shows "reserve_at res q i = Some (xs ! unat i)"
proof -
  have l: "length (ring_buffer q) = 2 ^ m" "xs = ring_window m (ring_buffer q) r w"
    using rep by (auto elim: ring_repE)
  have i: "unat i < length xs" "r mod 2 ^ m + unat i < 2 ^ m"
    using res by (auto simp: word_less_nat_alt)
  then have "(r + unat i) mod 2 ^ m = r mod 2 ^ m + unat i"
    by (subst wrapped) auto
  then show ?thesis
    using res(1,2) i l by (simp add: reserve_at_def ring_window_def)
qed

text \<open>The part that wraps around lies at the front of the buffer.\<close>

lemma reserved_second:
  assumes rep: "repr q rres r w xs" and i: "2 ^ m - r mod 2 ^ m \<le> i" "i < length xs"
  shows "ring_buffer q ! (i - (2 ^ m - r mod 2 ^ m)) = xs ! i"
proof -
  have xs: "xs = ring_window m (ring_buffer q) r w"
    using rep by (auto elim: ring_repE)
  have "length xs \<le> 2 ^ m"
    using rep_bounds [OF rep] by simp
  then have "(r + i) mod 2 ^ m = r mod 2 ^ m + i - 2 ^ m"
    using i by (subst wrapped) auto
  moreover have "r mod 2 ^ m \<le> 2 ^ m"
    by (simp add: less_imp_le)
  ultimately show ?thesis
    using i by (simp add: xs ring_window_def add.commute)
qed

lemma release_result:
  assumes rep: "repr q (r + unat sz) r w xs" and n: "0 < unat sz"
    and cb: "rr_cb res = Some (ring_mode (2 ^ m) (of_nat r), of_nat r + sz)"
  shows "\<exists>q'. release (qt mv) res q = Some (res\<lparr>rr_cb := None\<rparr>, q') \<and> repr q' (r + unat sz) (r + unat sz) w (drop (unat sz) xs)"
  by (rule read_done [OF rep n order_refl]) (use cb in \<open>auto simp: release_def ring_type_def\<close>)

section \<open>Size and reset\<close>

lemma size_exact:
  assumes "repr q rres r w xs" wstrong rstrong
  shows "unat (ring_size (qt mv) q) = length xs"
proof -
  obtain lo_w lo_r where l: "wrep (write_barrier q) w lo_w w" "rrep (read_barrier q) rres lo_r r"
    using assms(1) by (rule ring_repE)
  have "op_ready wops (write_barrier q) = of_nat w" "op_ready rops (read_barrier q) = of_nat r"
    using w.ready [OF l(1)] w.strong_ready [OF assms(2) l(1)] r.ready [OF l(2)] r.strong_ready [OF assms(3) l(2)] by simp_all
  then show ?thesis
    using rep_bounds [OF assms(1)] by (simp add: ring_size_def ring_type_def unat_sub word_le_nat_alt unat_of_nat_id)
qed

lemma reset_empty:
  assumes "m < 63" "length (ring_buffer q) = 2 ^ m"
  shows "repr (reset_ring (qt mv) q) (2 ^ m) (2 ^ m) (2 ^ m) []"
  using assms w.reset [of "write_barrier q"] r.reset [of "read_barrier q"] unfolding reset_ring_def
  by (intro ring_repI [where lo_w = "2 ^ m" and lo_r = "2 ^ m"]) (simp_all add: ring_type_def ring_window_def)

end

section \<open>The four kinds of queue\<close>

interpretation spsc: ring_queue m "st_ops (2 ^ m)" "st_rep m" True "st_ops (2 ^ m)" "st_rep m" True for m
  ..

interpretation mpsc: ring_queue m "mt_ops (2 ^ m)" "mt_rep m" False "st_ops (2 ^ m)" "st_rep m" True for m
  ..

interpretation spmc: ring_queue m "st_ops (2 ^ m)" "st_rep m" True "mt_ops (2 ^ m)" "mt_rep m" False for m
  ..

interpretation mpmc: ring_queue m "mt_ops (2 ^ m)" "mt_rep m" False "mt_ops (2 ^ m)" "mt_rep m" False for m
  ..

end
