(* ===== verification/Ring_Runs.thy ===== *)
theory Ring_Runs
  imports Ring_Calls
begin

text \<open>
  Sequences of calls to a ring buffer queue, against a bounded first-in first-out queue.
\<close>

section \<open>Calls and their results\<close>

text \<open>A block is an array that is passed with its length.\<close>

datatype 'a call =
    Enqueue 'a | Try_enqueue 'a | Block_enqueue "'a list" | Try_block_enqueue "'a list"
  | Dequeue | Try_dequeue | Block_dequeue "'a list" | Try_block_dequeue "'a list"

datatype 'a result = Done | Flag bool | Value "'a option" | Block "'a list" | Flag_block bool "'a list"

fun ring_call :: "('a, 'w, 'r) queue_type \<Rightarrow> 'a call \<Rightarrow> ('a, 'w, 'r) ring \<Rightarrow> ('a result \<times> ('a, 'w, 'r) ring) option" where
  "ring_call t (Enqueue v) q = map_option (Pair Done) (enqueue t v q)"
| "ring_call t (Try_enqueue v) q = map_option (apfst Flag) (try_enqueue t v q)"
| "ring_call t (Block_enqueue ys) q = map_option (Pair Done) (block_enqueue t ys (of_nat (length ys)) q)"
| "ring_call t (Try_block_enqueue ys) q = map_option (apfst Flag) (try_block_enqueue t ys (of_nat (length ys)) q)"
| "ring_call t Dequeue q = map_option (apfst (Value \<circ> Some)) (dequeue t q)"
| "ring_call t Try_dequeue q = map_option (apfst Value) (try_dequeue t q)"
| "ring_call t (Block_dequeue ys) q = map_option (apfst Block) (block_dequeue t ys (of_nat (length ys)) q)"
| "ring_call t (Try_block_dequeue ys) q =
     map_option (\<lambda>(ok, out, q). (Flag_block ok out, q)) (try_block_dequeue t ys (of_nat (length ys)) q)"

fun ring_run :: "('a, 'w, 'r) queue_type \<Rightarrow> 'a call list \<Rightarrow> ('a, 'w, 'r) ring \<Rightarrow> ('a result list \<times> ('a, 'w, 'r) ring) option" where
  "ring_run t [] q = Some ([], q)"
| "ring_run t (c # cs) q = do {
     (res, q1) \<leftarrow> ring_call t c q;
     (ress, q2) \<leftarrow> ring_run t cs q1;
     Some (res # ress, q2) }"

fun call_size :: "'a call \<Rightarrow> nat" where
  "call_size (Block_enqueue ys) = length ys"
| "call_size (Try_block_enqueue ys) = length ys"
| "call_size (Block_dequeue ys) = length ys"
| "call_size (Try_block_dequeue ys) = length ys"
| "call_size _ = 1"

definition proper_calls :: "'a call list \<Rightarrow> bool" where
  "proper_calls cs \<longleftrightarrow> (\<forall>c \<in> set cs. 0 < call_size c) \<and> sum_list (map call_size cs) < 2 ^ 63"

section \<open>The bounded queue\<close>

text \<open>
  The contents after a call with a given result, \<open>None\<close> if a queue of at most \<open>cap\<close> entries cannot give that
  result. A \<open>try_\<close> operation of an exact side fails only if it has to.
\<close>

definition fifo_put :: "nat \<Rightarrow> 'a list \<Rightarrow> 'a list \<Rightarrow> 'a list option" where
  "fifo_put cap ys xs = (if length ys + length xs \<le> cap then Some (xs @ ys) else None)"

definition fifo_take :: "nat \<Rightarrow> 'a list \<Rightarrow> 'a list \<Rightarrow> 'a list option" where
  "fifo_take n out xs = (if n \<le> length xs \<and> out = take n xs then Some (drop n xs) else None)"

fun fifo_step :: "bool \<Rightarrow> bool \<Rightarrow> nat \<Rightarrow> 'a list \<Rightarrow> 'a call \<times> 'a result \<Rightarrow> 'a list option" where
  "fifo_step ew er cap xs (Enqueue v, res) = (if res = Done then fifo_put cap [v] xs else None)"
| "fifo_step ew er cap xs (Try_enqueue v, res) =
     (case res of
        Flag ok \<Rightarrow> if ok then fifo_put cap [v] xs else if ew \<and> length xs < cap then None else Some xs
      | _ \<Rightarrow> None)"
| "fifo_step ew er cap xs (Block_enqueue ys, res) = (if res = Done then fifo_put cap ys xs else None)"
| "fifo_step ew er cap xs (Try_block_enqueue ys, res) =
     (case res of
        Flag ok \<Rightarrow> if ok then fifo_put cap ys xs else if ew \<and> length ys + length xs \<le> cap then None else Some xs
      | _ \<Rightarrow> None)"
| "fifo_step ew er cap xs (Dequeue, res) = (case res of Value (Some v) \<Rightarrow> fifo_take 1 [v] xs | _ \<Rightarrow> None)"
| "fifo_step ew er cap xs (Try_dequeue, res) =
     (case res of
        Value (Some v) \<Rightarrow> fifo_take 1 [v] xs
      | Value None \<Rightarrow> if er \<and> xs \<noteq> [] then None else Some xs
      | _ \<Rightarrow> None)"
| "fifo_step ew er cap xs (Block_dequeue ys, res) = (case res of Block out \<Rightarrow> fifo_take (length ys) out xs | _ \<Rightarrow> None)"
| "fifo_step ew er cap xs (Try_block_dequeue ys, res) =
     (case res of
        Flag_block ok out \<Rightarrow>
          if ok then fifo_take (length ys) out xs
          else if er \<and> length ys \<le> length xs \<or> out \<noteq> ys then None else Some xs
      | _ \<Rightarrow> None)"

fun fifo_after :: "bool \<Rightarrow> bool \<Rightarrow> nat \<Rightarrow> 'a list \<Rightarrow> ('a call \<times> 'a result) list \<Rightarrow> 'a list option" where
  "fifo_after ew er cap xs [] = Some xs"
| "fifo_after ew er cap xs (e # es) = Option.bind (fifo_step ew er cap xs e) (\<lambda>ys. fifo_after ew er cap ys es)"

section \<open>Every call is a step of the bounded queue\<close>

context ring_queue
begin

lemma call_step:
  assumes rep: "repr q r r w xs" and c: "0 < call_size c" "w + call_size c < 2 ^ 64"
    and run: "ring_call (qt mv) c q = Some (res, q')"
  obtains r' w' ys where "fifo_step wstrong rstrong (2 ^ m) xs (c, res) = Some ys" "repr q' r' r' w' ys" "w' \<le> w + call_size c"
proof -
  note b = rep_bounds [OF rep]
  have sz: "unat (of_nat (length zs) :: u64) = length zs" if "w + length zs < 2 ^ 64" for zs :: "'x list"
    using that by (simp add: unat_of_nat_id)
  show thesis
  proof (cases c)
    case (Enqueue v)
    have room: "length xs < 2 ^ m"
      using run enqueue_full [OF rep] Enqueue c b by (cases "length xs = 2 ^ m") simp_all
    obtain q1 where "enqueue (qt mv) v q = Some q1" "repr q1 r r (w + 1) (xs @ [v])"
      using enqueue_room [OF rep room, where v = v and mv = mv] c Enqueue by auto
    then show thesis
      using that [of "xs @ [v]" r "w + 1"] run room Enqueue by (auto simp: fifo_put_def)
  next
    case (Try_enqueue v)
    obtain ok q1 where t: "try_enqueue (qt mv) v q = Some (ok, q1)" "ok \<Longrightarrow> length xs < 2 ^ m"
      "wstrong \<Longrightarrow> length xs < 2 ^ m \<Longrightarrow> ok" "repr q1 r r (if ok then w + 1 else w) (if ok then xs @ [v] else xs)"
      using try_enqueue_result [OF rep, where v = v and mv = mv] c Try_enqueue by auto
    show thesis
    proof (cases ok)
      case True
      then show thesis
        using t run Try_enqueue that [of "xs @ [v]" r "w + 1"] by (auto simp: fifo_put_def)
    next
      case False
      then have "\<not> (wstrong \<and> length xs < 2 ^ m)"
        using t(3) by blast
      then show thesis
        using t(1,4) False run Try_enqueue that [of xs r w] by auto
    qed
  next
    case (Block_enqueue zs)
    have room: "length zs + length xs \<le> 2 ^ m"
      using run block_enqueue_full [OF rep, where sz = "of_nat (length zs)" and ptr = zs and mv = mv] sz [of zs] c Block_enqueue
      by (cases "length zs + length xs \<le> 2 ^ m") auto
    obtain q1 where "block_enqueue (qt mv) zs (of_nat (length zs)) q = Some q1" "repr q1 r r (w + length zs) (xs @ zs)"
      using block_enqueue_room [OF rep, where sz = "of_nat (length zs)" and ptr = zs and mv = mv] room sz [of zs] c Block_enqueue by auto
    then show thesis
      using that [of "xs @ zs" r "w + length zs"] run room Block_enqueue by (auto simp: fifo_put_def)
  next
    case (Try_block_enqueue zs)
    have s: "unat (of_nat (length zs) :: u64) = length zs"
      using sz [of zs] c Try_block_enqueue by simp
    obtain ok q1 where t: "try_block_enqueue (qt mv) zs (of_nat (length zs)) q = Some (ok, q1)" "ok \<longrightarrow> length zs + length xs \<le> 2 ^ m"
      "wstrong \<longrightarrow> length zs + length xs \<le> 2 ^ m \<longrightarrow> ok" "repr q1 r r (if ok then w + length zs else w) (if ok then xs @ take (length zs) zs else xs)"
      using try_block_enqueue_result [OF rep, where sz = "of_nat (length zs)" and ptr = zs and mv = mv, unfolded s] c Try_block_enqueue by auto
    show thesis
    proof (cases ok)
      case True
      then show thesis
        using t run Try_block_enqueue that [of "xs @ zs" r "w + length zs"] by (auto simp: fifo_put_def)
    next
      case False
      then have "\<not> (wstrong \<and> length zs + length xs \<le> 2 ^ m)"
        using t(3) by blast
      then show thesis
        using t(1,4) False run Try_block_enqueue that [of xs r w] by auto
    qed
  next
    case Dequeue
    have ne: "xs \<noteq> []"
      using run dequeue_none [of q r w] rep c b Dequeue by (cases xs) auto
    obtain q1 where "dequeue (qt mv) q = Some (hd xs, q1)" "repr q1 (r + 1) (r + 1) w (tl xs)"
      using dequeue_some [OF rep ne] by blast
    then show thesis
      using that [of "tl xs" "r + 1" w] run ne Dequeue by (cases xs) (auto simp: fifo_take_def)
  next
    case Try_dequeue
    obtain v q1 where t: "try_dequeue (qt mv) q = Some (v, q1)" "(case v of None \<Rightarrow> repr q1 r r w xs \<and> (rstrong \<longrightarrow> xs = [])
       | Some v \<Rightarrow> xs \<noteq> [] \<and> v = hd xs \<and> repr q1 (r + 1) (r + 1) w (tl xs))"
      using try_dequeue_result [OF rep] c b Try_dequeue by fastforce
    show thesis
    proof (cases v)
      case None
      then show thesis
        using t run Try_dequeue that [of xs r w] by auto
    next
      case (Some y)
      then show thesis
        using t run Try_dequeue that [of "tl xs" "r + 1" w] by (cases xs) (auto simp: fifo_take_def)
    qed
  next
    case (Block_dequeue zs)
    have have_n: "length zs \<le> length xs"
      using run block_dequeue_none [OF rep, where sz = "of_nat (length zs)" and ptr = zs and mv = mv] sz [of zs] c b Block_dequeue
      by (cases "length zs \<le> length xs") auto
    obtain q1 where "block_dequeue (qt mv) zs (of_nat (length zs)) q = Some (take (length zs) xs, q1)"
      "repr q1 (r + length zs) (r + length zs) w (drop (length zs) xs)"
      using block_dequeue_some [OF rep, where sz = "of_nat (length zs)" and ptr = zs and mv = mv] have_n sz [of zs] c Block_dequeue by auto
    then show thesis
      using that [of "drop (length zs) xs" "r + length zs" w] run have_n Block_dequeue by (auto simp: fifo_take_def)
  next
    case (Try_block_dequeue zs)
    have s: "unat (of_nat (length zs) :: u64) = length zs"
      using sz [of zs] c Try_block_dequeue by simp
    then have "r + unat (of_nat (length zs) :: u64) < 2 ^ 64"
      using c b Try_block_dequeue by simp
    then obtain ok out q1 where t: "try_block_dequeue (qt mv) zs (of_nat (length zs)) q = Some (ok, out, q1)"
      "if ok then length zs \<le> length xs \<and> out = take (length zs) xs
         \<and> repr q1 (r + length zs) (r + length zs) w (drop (length zs) xs)
       else out = zs \<and> repr q1 r r w xs \<and> (rstrong \<longrightarrow> length xs < length zs)"
      using try_block_dequeue_result [OF rep, where sz = "of_nat (length zs)" and ptr = zs and mv = mv, unfolded s] s c Try_block_dequeue by auto
    show thesis
    proof (cases ok)
      case True
      then show thesis
        using t run Try_block_dequeue that [of "drop (length zs) xs" "r + length zs" w] by (auto simp: fifo_take_def)
    next
      case False
      then show thesis
        using t run Try_block_dequeue that [of xs r w] by auto
    qed
  qed
qed

lemma run_steps:
  "repr q r r w xs \<Longrightarrow> \<forall>c \<in> set cs. 0 < call_size c \<Longrightarrow> w + sum_list (map call_size cs) < 2 ^ 64 \<Longrightarrow>
    ring_run (qt mv) cs q = Some (ress, q') \<Longrightarrow>
    \<exists>r' w' ys. fifo_after wstrong rstrong (2 ^ m) xs (zip cs ress) = Some ys \<and> repr q' r' r' w' ys
      \<and> w' \<le> w + sum_list (map call_size cs)"
proof (induction cs arbitrary: q r w xs ress)
  case (Cons c cs)
  obtain res q1 ress' where run: "ring_call (qt mv) c q = Some (res, q1)" "ring_run (qt mv) cs q1 = Some (ress', q')" "ress = res # ress'"
    using Cons.prems(4) by (auto split: Option.bind_splits)
  have c: "0 < call_size c" "w + call_size c < 2 ^ 64"
    using Cons.prems(2,3) by simp_all
  obtain r1 w1 ys where s: "fifo_step wstrong rstrong (2 ^ m) xs (c, res) = Some ys" "repr q1 r1 r1 w1 ys" "w1 \<le> w + call_size c"
    using call_step [OF Cons.prems(1) _ _ run(1)] c by blast
  show ?case
    using Cons.IH [OF s(2) _ _ run(2)] Cons.prems(2,3) s(1,3) run(3) by force
qed auto

text \<open>When the blocking calls return, and that the others do.\<close>

lemma returns:
  assumes rep: "repr q r r w xs" and w: "w + 1 < 2 ^ 64"
  shows "enqueue (qt mv) v q \<noteq> None \<longleftrightarrow> length xs < 2 ^ m" "dequeue (qt mv) q \<noteq> None \<longleftrightarrow> xs \<noteq> []"
    "try_enqueue (qt mv) v q \<noteq> None" "try_dequeue (qt mv) q \<noteq> None"
proof -
  note b = rep_bounds [OF rep]
  have r: "r + 1 < 2 ^ 64"
    using b w by simp
  show "enqueue (qt mv) v q \<noteq> None \<longleftrightarrow> length xs < 2 ^ m"
    using enqueue_full [OF rep _ w, of mv v] enqueue_room [OF rep _ w, of mv v] b by (cases "length xs = 2 ^ m") auto
  show "dequeue (qt mv) q \<noteq> None \<longleftrightarrow> xs \<noteq> []"
    using dequeue_none [of q r w mv] dequeue_some [OF rep, of mv] rep r by (cases "xs = []") auto
  show "try_enqueue (qt mv) v q \<noteq> None"
    using try_enqueue_result [OF rep w, of mv v] by auto
  show "try_dequeue (qt mv) q \<noteq> None"
    using try_dequeue_result [OF rep r, of mv] by auto
qed

end

section \<open>New queues\<close>

lemma size_pow:
  assumes "size_to_pow_2 sz = Some bs" "unat sz \<le> 2 ^ 62"
  obtains m where "m < 63" "bs = 2 ^ m"
proof -
  have "unat sz \<le> 2 ^ 63"
    using assms(2) by simp
  then obtain m where m: "m < 64" "size_to_pow_2 sz = Some (2 ^ m)" "\<forall>j < m. 2 ^ j < unat sz"
    by (rule size_to_pow_2_least)
  have "\<not> 62 < m"
    using m(3) [rule_format, of 62] assms(2) by linarith
  then show thesis
    using that [of m] m(2) assms(1) by simp
qed

lemma new_spsc:
  assumes "spsc_ring_buffer_queue mv sz = Some t" "unat sz \<le> 2 ^ 62"
  obtains m where "m < 63" "t = ring_type m (st_ops (2 ^ m)) (st_ops (2 ^ m)) mv" "unat (buffer_size t) = 2 ^ m"
    "spsc.repr m (ring_buffer_base t node (new_st (buffer_size t)) (new_st (buffer_size t))) (2 ^ m) (2 ^ m) (2 ^ m) []"
proof -
  obtain bs where bs: "size_to_pow_2 sz = Some bs" "t = \<lparr>buffer_size = bs, write_ops = st_ops bs, read_ops = st_ops bs, moved = mv\<rparr>"
    using assms(1) by (auto simp: spsc_ring_buffer_queue_def)
  obtain m where m: "m < 63" "bs = 2 ^ m"
    using size_pow [OF bs(1) assms(2)] .
  have st: "st_rep m (new_st (2 ^ m)) (2 ^ m) (2 ^ m) (2 ^ m)"
    using st.reset [OF m(1)] by (simp add: new_st_def st_ops_def)
  then have "spsc.repr m (ring_buffer_base t node (new_st (2 ^ m)) (new_st (2 ^ m))) (2 ^ m) (2 ^ m) (2 ^ m) []"
    using m bs(2) by (intro ring_repI [where lo_w = "2 ^ m" and lo_r = "2 ^ m"]) (simp_all add: ring_buffer_base_def ring_window_def unat_pow2)
  then show thesis
    using that [of m] m bs by (simp add: ring_type_def unat_pow2)
qed

lemma new_mpmc:
  assumes "mpmc_ring_buffer_queue mv sz = Some t" "unat sz \<le> 2 ^ 62"
  obtains m where "m < 63" "t = ring_type m (mt_ops (2 ^ m)) (mt_ops (2 ^ m)) mv" "unat (buffer_size t) = 2 ^ m"
    "mpmc.repr m (ring_buffer_base t node (new_mt (buffer_size t) fails_w) (new_mt (buffer_size t) fails_r)) (2 ^ m) (2 ^ m) (2 ^ m) []"
proof -
  obtain bs where bs: "size_to_pow_2 sz = Some bs" "t = \<lparr>buffer_size = bs, write_ops = mt_ops bs, read_ops = mt_ops bs, moved = mv\<rparr>"
    using assms(1) by (auto simp: mpmc_ring_buffer_queue_def)
  obtain m where m: "m < 63" "bs = 2 ^ m"
    using size_pow [OF bs(1) assms(2)] .
  have st: "mt_rep m (new_mt (2 ^ m) fs) (2 ^ m) (2 ^ m) (2 ^ m)" for fs
    using mt.reset [OF m(1)] by (simp add: new_mt_def mt_ops_def)
  then have "mpmc.repr m (ring_buffer_base t node (new_mt (2 ^ m) fails_w) (new_mt (2 ^ m) fails_r)) (2 ^ m) (2 ^ m) (2 ^ m) []"
    using m bs(2) by (intro ring_repI [where lo_w = "2 ^ m" and lo_r = "2 ^ m"]) (simp_all add: ring_buffer_base_def ring_window_def unat_pow2)
  then show thesis
    using that [of m] m bs by (simp add: ring_type_def unat_pow2)
qed

end
