(* ===== verification/Ring_Properties.thy ===== *)
theory Ring_Properties
  imports Ring_Runs
begin

text \<open>
  What the ring buffer queues promise: they are bounded first-in first-out queues, their calls return when
  such a queue can answer, and a block that is read in place is the head of the queue. Also where
  \<open>size\<close> and reserved blocks that wrap around go wrong.
\<close>

section \<open>Capacity\<close>

text \<open>
  C23: the size of a ring's buffer is the least power of two that is at least the size asked for, and
  the template recursion that computes it ends, for every size up to \<open>2 ^ 63\<close>.
\<close>

theorem buffer_size_least:
  assumes "unat sz \<le> 2 ^ 63"
  shows "\<exists>m. size_to_pow_2 sz = Some (2 ^ m) \<and> m < 64 \<and> unat sz \<le> 2 ^ m \<and> (\<forall>j < m. 2 ^ j < unat sz)"
  by (rule size_to_pow_2_least [OF assms]) blast

theorem buffer_size_least_witness:
  "\<exists>m. size_to_pow_2 1000 = Some (2 ^ m) \<and> m < 64 \<and> unat (1000 :: u64) \<le> 2 ^ m \<and> (\<forall>j < m. 2 ^ j < unat (1000 :: u64))"
  using buffer_size_least [of 1000] by simp

section \<open>Runs\<close>

lemma proper_bounds:
  assumes "proper_calls cs" "m < 63"
  shows "\<forall>c \<in> set cs. 0 < call_size c" "2 ^ m + sum_list (map call_size cs) < 2 ^ 64" "2 ^ m + sum_list (map call_size cs) + 1 < (2 :: nat) ^ 64"
proof -
  show "\<forall>c \<in> set cs. 0 < call_size c" "2 ^ m + sum_list (map call_size cs) < 2 ^ 64" "2 ^ m + sum_list (map call_size cs) + 1 < (2 :: nat) ^ 64"
    using assms(1) size_le [OF assms(2)] by (simp_all add: proper_calls_def)
qed

text \<open>The example queues: two entries, and four entries with exchanges that fail for no reason.\<close>

definition spsc_example :: "(nat, barrier_st, barrier_st) queue_type" where
  "spsc_example = \<lparr>buffer_size = 2, write_ops = st_ops 2, read_ops = st_ops 2, moved = None\<rparr>"

definition mpmc_example :: "(nat, barrier_mt, barrier_mt) queue_type" where
  "mpmc_example = \<lparr>buffer_size = 4, write_ops = mt_ops 4, read_ops = mt_ops 4, moved = Some (\<lambda>_. 0)\<rparr>"

definition example_calls :: "nat call list" where
  "example_calls = [Enqueue 5, Try_enqueue 6, Try_enqueue 7, Dequeue, Block_enqueue [8], Try_block_dequeue [0, 0], Try_dequeue, Enqueue 9]"

lemma size_to_pow_2_examples: "size_to_pow_2 2 = Some 2" "size_to_pow_2 3 = Some 4"
  by code_simp+

lemma examples_are_queues:
  "spsc_ring_buffer_queue None 2 = Some spsc_example" "mpmc_ring_buffer_queue (Some (\<lambda>_. 0)) 3 = Some mpmc_example"
  by (simp_all add: spsc_ring_buffer_queue_def mpmc_ring_buffer_queue_def size_to_pow_2_examples spsc_example_def mpmc_example_def)

lemma proper_example_calls: "proper_calls example_calls"
  by (simp add: proper_calls_def example_calls_def)

definition new_spsc_example :: "(nat, barrier_st, barrier_st) ring" where
  "new_spsc_example = ring_buffer_base spsc_example 0 (new_st 2) (new_st 2)"

definition new_mpmc_example :: "(nat, barrier_mt, barrier_mt) ring" where
  "new_mpmc_example = ring_buffer_base mpmc_example 0 (new_mt 4 [True, False, True]) (new_mt 4 [True])"

definition spsc_results :: "nat result list" where
  "spsc_results = [Done, Flag True, Flag False, Value (Some 5), Done, Flag_block True [6, 8], Value None, Done]"

definition mpmc_results :: "nat result list" where
  "mpmc_results = [Done, Flag False, Flag True, Value (Some 5), Done, Flag_block False [0, 0], Value (Some 7), Done]"

lemma spsc_run_example: "map_option fst (ring_run spsc_example example_calls new_spsc_example) = Some spsc_results"
  by code_simp

lemma mpmc_run_example: "map_option fst (ring_run mpmc_example example_calls new_mpmc_example) = Some mpmc_results"
  by code_simp

lemma spsc_run_to:
  obtains q where "ring_run spsc_example example_calls (ring_buffer_base spsc_example 0 (new_st (buffer_size spsc_example))
      (new_st (buffer_size spsc_example))) = Some (spsc_results, q)"
  using spsc_run_example by (auto simp: new_spsc_example_def spsc_example_def)

lemma mpmc_run_to:
  obtains q where "ring_run mpmc_example example_calls (ring_buffer_base mpmc_example 0 (new_mt (buffer_size mpmc_example) [True, False, True])
      (new_mt (buffer_size mpmc_example) [True])) = Some (mpmc_results, q)"
  using mpmc_run_example by (auto simp: new_mpmc_example_def mpmc_example_def)

text \<open>
  C19: the results of any calls to a new \<open>spsc_ring_buffer_queue\<close>, single and in blocks, are those of a
  first-in first-out queue of as many entries as the buffer has: what comes out is what went in, in
  order; a \<open>try_\<close> call fails exactly when it must; and \<open>size\<close> counts what is in the queue.
\<close>

theorem spsc_queue_is_fifo:
  assumes "spsc_ring_buffer_queue mv sz = Some t" "unat sz \<le> 2 ^ 62" "proper_calls cs"
    and "ring_run t cs (ring_buffer_base t node (new_st (buffer_size t)) (new_st (buffer_size t))) = Some (ress, q)"
  shows "\<exists>xs. fifo_after True True (unat (buffer_size t)) [] (zip cs ress) = Some xs \<and> unat (ring_size t q) = length xs"
proof -
  obtain m where m: "m < 63" "t = ring_type m (st_ops (2 ^ m)) (st_ops (2 ^ m)) mv" "unat (buffer_size t) = 2 ^ m"
    "spsc.repr m (ring_buffer_base t node (new_st (buffer_size t)) (new_st (buffer_size t))) (2 ^ m) (2 ^ m) (2 ^ m) []"
    using new_spsc [OF assms(1,2)] .
  obtain r w xs where xs: "fifo_after True True (2 ^ m) [] (zip cs ress) = Some xs" "spsc.repr m q r r w xs"
    using spsc.run_steps [OF m(4) [unfolded m(2)] proper_bounds(1,2) [OF assms(3) m(1)] assms(4) [unfolded m(2)]] by blast
  then show ?thesis
    using spsc.size_exact [OF xs(2), of mv] m(2,3) by simp
qed

theorem spsc_queue_is_fifo_witness:
  "\<exists>xs. fifo_after True True 2 [] (zip example_calls spsc_results) = Some xs"
proof -
  obtain q where "ring_run spsc_example example_calls (ring_buffer_base spsc_example 0 (new_st (buffer_size spsc_example))
      (new_st (buffer_size spsc_example))) = Some (spsc_results, q)"
    by (rule spsc_run_to)
  from spsc_queue_is_fifo [OF examples_are_queues(1) _ proper_example_calls this] show ?thesis
    by (auto simp: spsc_example_def)
qed

text \<open>
  C20: the results of any calls to a new \<open>mpmc_ring_buffer_queue\<close> are those of a bounded first-in first-out
  queue too, whichever weak exchanges fail for no reason; only a \<open>try_\<close> call may fail without need.
\<close>

theorem mpmc_queue_is_fifo:
  assumes "mpmc_ring_buffer_queue mv sz = Some t" "unat sz \<le> 2 ^ 62" "proper_calls cs"
    and "ring_run t cs (ring_buffer_base t node (new_mt (buffer_size t) fails_w) (new_mt (buffer_size t) fails_r)) = Some (ress, q)"
  shows "\<exists>xs. fifo_after False False (unat (buffer_size t)) [] (zip cs ress) = Some xs"
proof -
  obtain m where m: "m < 63" "t = ring_type m (mt_ops (2 ^ m)) (mt_ops (2 ^ m)) mv" "unat (buffer_size t) = 2 ^ m"
    "mpmc.repr m (ring_buffer_base t node (new_mt (buffer_size t) fails_w) (new_mt (buffer_size t) fails_r)) (2 ^ m) (2 ^ m) (2 ^ m) []"
    using new_mpmc [OF assms(1,2)] .
  then show ?thesis
    using mpmc.run_steps [OF m(4) [unfolded m(2)] proper_bounds(1,2) [OF assms(3) m(1)] assms(4) [unfolded m(2)]] unfolding m(3) by blast
qed

theorem mpmc_queue_is_fifo_witness:
  "\<exists>xs. fifo_after False False 4 [] (zip example_calls mpmc_results) = Some xs"
proof -
  obtain q where "ring_run mpmc_example example_calls (ring_buffer_base mpmc_example 0 (new_mt (buffer_size mpmc_example) [True, False, True])
      (new_mt (buffer_size mpmc_example) [True])) = Some (mpmc_results, q)"
    by (rule mpmc_run_to)
  from mpmc_queue_is_fifo [OF examples_are_queues(2) _ proper_example_calls this] show ?thesis
    by (auto simp: mpmc_example_def)
qed

text \<open>
  C21: after any such calls, \<open>enqueue\<close> returns exactly when the queue is not full and \<open>dequeue\<close> when it is not
  empty, however the chain of finished blocks and the weak exchanges went; the \<open>try_\<close> calls always return.
\<close>

theorem mpmc_calls_return:
  assumes "mpmc_ring_buffer_queue mv sz = Some t" "unat sz \<le> 2 ^ 62" "proper_calls cs"
    and "ring_run t cs (ring_buffer_base t node (new_mt (buffer_size t) fails_w) (new_mt (buffer_size t) fails_r)) = Some (ress, q)"
    and "fifo_after False False (unat (buffer_size t)) [] (zip cs ress) = Some xs"
  shows "(enqueue t v q \<noteq> None \<longleftrightarrow> length xs < unat (buffer_size t)) \<and> (dequeue t q \<noteq> None \<longleftrightarrow> xs \<noteq> [])
    \<and> try_enqueue t v q \<noteq> None \<and> try_dequeue t q \<noteq> None"
proof -
  obtain m where m: "m < 63" "t = ring_type m (mt_ops (2 ^ m)) (mt_ops (2 ^ m)) mv" "unat (buffer_size t) = 2 ^ m"
    "mpmc.repr m (ring_buffer_base t node (new_mt (buffer_size t) fails_w) (new_mt (buffer_size t) fails_r)) (2 ^ m) (2 ^ m) (2 ^ m) []"
    using new_mpmc [OF assms(1,2)] .
  obtain r w where "mpmc.repr m q r r w xs" "w + 1 < 2 ^ 64"
    using mpmc.run_steps [OF m(4) [unfolded m(2)] proper_bounds(1,2) [OF assms(3) m(1)] assms(4) [unfolded m(2)]]
      assms(5) [unfolded m(3)] proper_bounds(3) [OF assms(3) m(1)] by auto
  then show ?thesis
    using mpmc.returns [of m q r w xs] m(2,3) by simp
qed

theorem mpmc_calls_return_witness:
  "\<exists>q. ring_run mpmc_example example_calls new_mpmc_example = Some (mpmc_results, q)
     \<and> enqueue mpmc_example 4 q \<noteq> None \<and> dequeue mpmc_example q \<noteq> None"
proof -
  obtain q where run: "ring_run mpmc_example example_calls (ring_buffer_base mpmc_example 0 (new_mt (buffer_size mpmc_example) [True, False, True])
      (new_mt (buffer_size mpmc_example) [True])) = Some (mpmc_results, q)"
    by (rule mpmc_run_to)
  have "fifo_after False False (unat (buffer_size mpmc_example)) [] (zip example_calls mpmc_results) = Some [8, 9]"
    by code_simp
  from mpmc_calls_return [OF examples_are_queues(2) _ proper_example_calls run this, of 4] show ?thesis
    using run by (auto simp: mpmc_example_def new_mpmc_example_def)
qed

section \<open>Reading in place\<close>

text \<open>
  C22: a block that \<open>try_block_dequeue\<close> reserves in an \<open>spsc_ring_buffer_queue\<close> is the head of the queue. Its
  first part, as long as the block or the buffer's rest behind \<open>buff_\<close>, is read in place by \<open>operator[]\<close>. The
  entries that wrap around, if there are any, lie at \<open>buff2_\<close>, the front of the buffer; \<open>operator[]\<close> does not read
  them there (\<open>wrapped_block_misread\<close>). After the release the queue goes on with the rest.
\<close>

theorem reserved_block_is_head:
  assumes "spsc_ring_buffer_queue mv sz = Some t" "unat sz \<le> 2 ^ 62"
    and "ring_run t cs (ring_buffer_base t node (new_st (buffer_size t)) (new_st (buffer_size t))) = Some (ress, q)"
    and "fifo_after True True (unat (buffer_size t)) [] (zip cs ress) = Some xs"
    and "try_reserve_block t n q = Some (res, q1)" "reserve_bool res" "release t res q1 = Some (res2, q2)"
    and "ring_run t cs2 q2 = Some (ress2, q3)" "0 < unat n" "unat n < 2 ^ 62" "proper_calls (cs @ cs2)"
  shows "unat n \<le> length xs \<and> rr_size res = n
    \<and> (\<exists>p < unat (buffer_size t). rr_buff res = Some p \<and> unat (rr_size_first res) = min (unat n) (unat (buffer_size t) - p))
    \<and> (\<forall>i < rr_size_first res. reserve_at res q1 i = Some (xs ! unat i))
    \<and> (if rr_size_first res < n then rr_buff2 res = Some 0
         \<and> (\<forall>i. unat (rr_size_first res) \<le> i \<and> i < unat n \<longrightarrow> ring_buffer q1 ! (i - unat (rr_size_first res)) = xs ! i)
       else rr_buff2 res = None)
    \<and> fifo_after True True (unat (buffer_size t)) (drop (unat n) xs) (zip cs2 ress2) \<noteq> None"
proof -
  obtain m where m: "m < 63" "t = ring_type m (st_ops (2 ^ m)) (st_ops (2 ^ m)) mv" "unat (buffer_size t) = 2 ^ m"
    "spsc.repr m (ring_buffer_base t node (new_st (buffer_size t)) (new_st (buffer_size t))) (2 ^ m) (2 ^ m) (2 ^ m) []"
    using new_spsc [OF assms(1,2)] .
  have p: "proper_calls cs" "\<forall>c \<in> set cs2. 0 < call_size c" "sum_list (map call_size cs) + sum_list (map call_size cs2) < 2 ^ 63" "(2 :: nat) ^ m \<le> 2 ^ 62"
    using assms(11) size_le [OF m(1)] by (auto simp: proper_calls_def)
  obtain r w where q: "spsc.repr m q r r w xs" "w \<le> 2 ^ m + sum_list (map call_size cs)"
    using spsc.run_steps [OF m(4) [unfolded m(2)] proper_bounds(1,2) [OF p(1) m(1)] assms(3) [unfolded m(2)]] assms(4) [unfolded m(3)] by auto
  have w: "r + unat n < 2 ^ 64" "w + sum_list (map call_size cs2) < 2 ^ 64"
    using q(2) p(3,4) assms(10) spsc.rep_bounds [OF q(1)] by simp_all
  have res: "unat n \<le> length xs" "spsc.repr m q1 (r + unat n) r w xs" "rr_buff res = Some (r mod 2 ^ m)"
    "unat (rr_size_first res) = min (unat n) (2 ^ m - r mod 2 ^ m)" "rr_cb res = Some (ring_mode (2 ^ m) (of_nat r), of_nat r + n)"
    "rr_size res = n" "rr_buff2 res = (if 2 ^ m - r mod 2 ^ m < unat n then Some 0 else None)"
    using spsc.try_reserve_block_result [OF q(1) w(1) assms(9), of mv] assms(5,6) m(2) by auto
  have "spsc.repr m q2 (r + unat n) (r + unat n) w (drop (unat n) xs)"
    using spsc.release_result [OF res(2) assms(9) res(5), of mv] assms(7) m(2) by simp
  then have "fifo_after True True (unat (buffer_size t)) (drop (unat n) xs) (zip cs2 ress2) \<noteq> None"
    using spsc.run_steps [OF _ p(2) w(2) assms(8) [unfolded m(2)]] unfolding m(3) by blast
  moreover have "\<forall>i < rr_size_first res. reserve_at res q1 i = Some (xs ! unat i)"
    using spsc.reserve_at_first [OF res(2,3)] res(1,4) by simp
  moreover have "r mod 2 ^ m < unat (buffer_size t)"
    by (simp add: m(3))
  moreover have "\<forall>i. unat (rr_size_first res) \<le> i \<and> i < unat n \<longrightarrow> ring_buffer q1 ! (i - unat (rr_size_first res)) = xs ! i"
    using spsc.reserved_second [OF res(2)] res(1,4) by (auto simp: min_def split: if_splits)
  moreover have "rr_buff2 res = (if rr_size_first res < n then Some 0 else None)"
    using res(4,7) by (simp add: word_less_nat_alt min_def)
  ultimately show ?thesis
    using res(1,3,4,6) unfolding m(3) by auto
qed

definition wrapping_calls :: "nat call list" where
  "wrapping_calls = [Enqueue 5, Dequeue, Enqueue 6, Enqueue 7]"

definition wrapping_results :: "nat result list" where
  "wrapping_results = [Done, Value (Some 5), Done, Done]"

definition ring_wrapping :: "(nat, barrier_st, barrier_st) ring" where
  "ring_wrapping = snd (the (ring_run spsc_example wrapping_calls new_spsc_example))"

definition wrapping_block :: "read_reserve \<times> (nat, barrier_st, barrier_st) ring" where
  "wrapping_block = the (try_reserve_block spsc_example 2 ring_wrapping)"

definition released :: "read_reserve \<times> (nat, barrier_st, barrier_st) ring" where
  "released = the (release spsc_example (fst wrapping_block) (snd wrapping_block))"

lemma wrapping_run:
  "ring_run spsc_example wrapping_calls (ring_buffer_base spsc_example 0 (new_st (buffer_size spsc_example)) (new_st (buffer_size spsc_example)))
    = Some (wrapping_results, ring_wrapping)"
  "fifo_after True True (unat (buffer_size spsc_example)) [] (zip wrapping_calls wrapping_results) = Some [6, 7]"
  "try_reserve_block spsc_example 2 ring_wrapping = Some (fst wrapping_block, snd wrapping_block)"
  "reserve_bool (fst wrapping_block)"
  "release spsc_example (fst wrapping_block) (snd wrapping_block) = Some (fst released, snd released)"
  "ring_run spsc_example [Enqueue 9] (snd released) = Some ([Done], snd (the (ring_run spsc_example [Enqueue 9] (snd released))))"
  "rr_size_first (fst wrapping_block) = 1"
  by code_simp+

theorem reserved_block_is_head_witness:
  "reserve_at (fst wrapping_block) (snd wrapping_block) 0 = Some 6
    \<and> rr_buff2 (fst wrapping_block) = Some 0 \<and> ring_buffer (snd wrapping_block) ! 0 = 7"
proof -
  have "proper_calls (wrapping_calls @ [Enqueue 9])"
    by (simp add: proper_calls_def wrapping_calls_def)
  from reserved_block_is_head [OF examples_are_queues(1) _ wrapping_run(1-6) _ _ this] show ?thesis
    by (simp add: wrapping_run(7)) (metis le_refl lessI numeral_2_eq_2)
qed

text \<open>
  Past the end of the buffer it is not: \<open>operator[]\<close> takes the second part from \<open>buff_\<close>, not \<open>buff2_\<close>, so
  the second of the two entries 6 and 7 is read as 6.
\<close>

lemma wrapped_block_misread:
  "reserve_at (fst wrapping_block) (snd wrapping_block) 1 = Some 6"
  by code_simp

text \<open>
  With a \<open>ring_buffer_barrier_mt\<close> on the writers' side \<open>size\<close> does not count what no reader has waited for: it is 0
  with two entries in the queue.
\<close>

lemma mt_size_lags:
  "map_option (ring_size mpmc_example \<circ> snd) (ring_run mpmc_example [Enqueue 1, Enqueue 2] new_mpmc_example) = Some 0"
  by code_simp

end
