(* ===== verification/Ring_Pool.thy ===== *)
theory Ring_Pool
  imports Ring_Runs
begin

text \<open>
  The pool of objects shared by threads (\<open>rapid_ring/ring_buffer_object_poll.hpp\<close>): a ring buffer queue of the
  pointers to the objects nobody uses. A pointer is the index of its object, \<open>None\<close> the null pointer.
\<close>

section \<open>Operations\<close>

record ('b, 'w, 'r) ring_pool =
  pool_queue :: "(nat option, 'w, 'r) ring"
  pool_objects :: "'b list"

fun fill_pool :: "(nat option, 'w, 'r) queue_type \<Rightarrow> nat list \<Rightarrow> (nat option, 'w, 'r) ring \<Rightarrow> (nat option, 'w, 'r) ring option" where
  "fill_pool t [] q = Some q"
| "fill_pool t (i # is) q = Option.bind (enqueue t (Some i) q) (fill_pool t is)"

definition ring_buffer_object_pool ::
    "(nat option, 'w, 'r) queue_type \<Rightarrow> 'b \<Rightarrow> (nat option, 'w, 'r) ring \<Rightarrow> ('b, 'w, 'r) ring_pool option" where
  "ring_buffer_object_pool t obj q = do {
     q1 \<leftarrow> warm_up t None q;
     q2 \<leftarrow> fill_pool t [0..<unat (buffer_size t)] q1;
     Some \<lparr>pool_queue = q2, pool_objects = replicate (unat (buffer_size t)) obj\<rparr> }"

definition get_obj :: "(nat option, 'w, 'r) queue_type \<Rightarrow> ('b, 'w, 'r) ring_pool \<Rightarrow> (nat option \<times> ('b, 'w, 'r) ring_pool) option" where
  "get_obj t p = map_option (\<lambda>(ptr, q). (ptr, p\<lparr>pool_queue := q\<rparr>)) (dequeue t (pool_queue p))"

definition release_obj :: "(nat option, 'w, 'r) queue_type \<Rightarrow> nat option \<Rightarrow> ('b, 'w, 'r) ring_pool \<Rightarrow> ('b, 'w, 'r) ring_pool option" where
  "release_obj t ptr p = map_option (\<lambda>q. p\<lparr>pool_queue := q\<rparr>) (enqueue t ptr (pool_queue p))"

definition try_get_obj :: "(nat option, 'w, 'r) queue_type \<Rightarrow> ('b, 'w, 'r) ring_pool \<Rightarrow> (nat option \<times> ('b, 'w, 'r) ring_pool) option" where
  "try_get_obj t p =
     map_option (\<lambda>(res, q). (case res of Some ptr \<Rightarrow> ptr | None \<Rightarrow> None, p\<lparr>pool_queue := q\<rparr>)) (try_dequeue t (pool_queue p))"

definition try_release_obj :: "(nat option, 'w, 'r) queue_type \<Rightarrow> nat option \<Rightarrow> ('b, 'w, 'r) ring_pool \<Rightarrow> (bool \<times> ('b, 'w, 'r) ring_pool) option" where
  "try_release_obj t ptr p = map_option (\<lambda>(ok, q). (ok, p\<lparr>pool_queue := q\<rparr>)) (try_enqueue t ptr (pool_queue p))"

section \<open>Use\<close>

text \<open>\<open>pool_calls t obj q0 n p H\<close>: after \<open>n\<close> calls by clients that release only what they hold, they hold \<open>H\<close>.\<close>

inductive pool_calls ::
    "(nat option, 'w, 'r) queue_type \<Rightarrow> 'b \<Rightarrow> (nat option, 'w, 'r) ring \<Rightarrow> nat \<Rightarrow> ('b, 'w, 'r) ring_pool \<Rightarrow> nat set \<Rightarrow> bool"
  for t obj q0 where
  new: "ring_buffer_object_pool t obj q0 = Some p \<Longrightarrow> pool_calls t obj q0 0 p {}"
| get: "pool_calls t obj q0 n p H \<Longrightarrow> get_obj t p = Some (ptr, p') \<Longrightarrow> pool_calls t obj q0 (n + 1) p' (H \<union> set_option ptr)"
| try_get: "pool_calls t obj q0 n p H \<Longrightarrow> try_get_obj t p = Some (ptr, p') \<Longrightarrow> pool_calls t obj q0 (n + 1) p' (H \<union> set_option ptr)"
| release: "pool_calls t obj q0 n p H \<Longrightarrow> i \<in> H \<Longrightarrow> release_obj t (Some i) p = Some p' \<Longrightarrow> pool_calls t obj q0 (n + 1) p' (H - {i})"
| try_release: "pool_calls t obj q0 n p H \<Longrightarrow> i \<in> H \<Longrightarrow> try_release_obj t (Some i) p = Some (ok, p') \<Longrightarrow>
    pool_calls t obj q0 (n + 1) p' (if ok then H - {i} else H)"

context ring_queue
begin

text \<open>The queue has the objects that nobody holds.\<close>

definition pool_rep :: "nat \<Rightarrow> ('b, 'w, 'r) ring_pool \<Rightarrow> nat set \<Rightarrow> bool" where
  "pool_rep n p H \<longleftrightarrow> (\<exists>r w xs. repr (pool_queue p) r r w (map Some xs) \<and> w \<le> 3 * 2 ^ m + n \<and> distinct xs
     \<and> set xs \<inter> H = {} \<and> set xs \<union> H = {..<2 ^ m})"

lemma warm_up_loop_empty:
  "repr q r r w [] \<Longrightarrow> w + n < 2 ^ 64 \<Longrightarrow> \<exists>q'. warm_up_loop (qt mv) n v q = Some (v, q') \<and> repr q' (r + n) (r + n) (w + n) []"
proof (induction n arbitrary: q r w)
  case (Suc n)
  obtain q1 where q1: "enqueue (qt mv) v q = Some q1" "repr q1 r r (w + 1) [v]"
    using enqueue_room [OF Suc.prems(1), where v = v and mv = mv] Suc.prems(2) by auto
  obtain q2 where q2: "dequeue (qt mv) q1 = Some (v, q2)" "repr q2 (r + 1) (r + 1) (w + 1) []"
    using dequeue_some [OF q1(2), of mv] by auto
  show ?case
    using Suc.IH [OF q2(2)] Suc.prems(2) q1(1) q2(1) by simp
qed simp

lemma fill_pool_room:
  "repr q r r w (map Some xs) \<Longrightarrow> length xs + length ys \<le> 2 ^ m \<Longrightarrow> w + length ys < 2 ^ 64 \<Longrightarrow>
    \<exists>q'. fill_pool (qt mv) ys q = Some q' \<and> repr q' r r (w + length ys) (map Some (xs @ ys))"
proof (induction ys arbitrary: q w xs)
  case (Cons y ys)
  obtain q1 where q1: "enqueue (qt mv) (Some y) q = Some q1" "repr q1 r r (w + 1) (map Some (xs @ [y]))"
    using enqueue_room [OF Cons.prems(1), where v = "Some y" and mv = mv] Cons.prems(2,3) by auto
  show ?case
    using Cons.IH [OF q1(2)] Cons.prems(2,3) q1(1) by simp
qed simp

lemma new_pool_rep:
  assumes rep: "repr q0 (2 ^ m) (2 ^ m) (2 ^ m) []" and new: "ring_buffer_object_pool (qt mv) obj q0 = Some p"
  shows "pool_rep 0 p {}"
proof -
  have m: "m < 63" "unat (2 ^ m :: u64) = 2 ^ m" "(2 :: nat) ^ m \<le> 2 ^ 62"
    using rep_bounds(1) [OF rep] size_le by (simp_all add: unat_pow2)
  obtain q1 where q1: "warm_up_loop (qt mv) (2 ^ m) None q0 = Some (None, q1)"
    "repr q1 (2 ^ m + 2 ^ m) (2 ^ m + 2 ^ m) (2 ^ m + 2 ^ m) (map Some [])"
    using warm_up_loop_empty [OF rep, of "2 ^ m" mv None] m(3) by auto
  obtain q2 where q2: "fill_pool (qt mv) [0..<2 ^ m] q1 = Some q2"
    "repr q2 (2 ^ m + 2 ^ m) (2 ^ m + 2 ^ m) (2 ^ m + 2 ^ m + 2 ^ m) (map Some [0..<2 ^ m])"
    using fill_pool_room [OF q1(2), of "[0..<2 ^ m]" mv] m(3) by auto
  have "pool_queue p = q2"
    using new q1(1) q2(1) m(2) by (auto simp: ring_buffer_object_pool_def warm_up_def ring_type_def)
  then show ?thesis
    using q2(2) unfolding pool_rep_def
    by (intro exI [of _ "2 ^ m + 2 ^ m"] exI [of _ "2 ^ m + 2 ^ m + 2 ^ m"] exI [of _ "[0..<2 ^ m]"]) auto
qed

lemma pool_repI:
  assumes "repr (pool_queue p) r r w (map Some xs)" "w \<le> 3 * 2 ^ m + n" "distinct xs" "set xs \<inter> H = {}" "set xs \<union> H = {..<2 ^ m}"
  shows "pool_rep n p H"
  using assms unfolding pool_rep_def by blast

lemma pool_get:
  assumes rep: "pool_rep n p H" and run: "get_obj (qt mv) p = Some (ptr, p')" and n: "n < 2 ^ 61"
  shows "pool_rep (n + 1) p' (H \<union> set_option ptr)" "\<exists>i. ptr = Some i \<and> i < 2 ^ m \<and> i \<notin> H"
proof -
  obtain r w xs where x: "repr (pool_queue p) r r w (map Some xs)" "w \<le> 3 * 2 ^ m + n" "distinct xs" "set xs \<inter> H = {}" "set xs \<union> H = {..<2 ^ m}"
    using rep by (auto simp: pool_rep_def)
  have "xs \<noteq> []"
  proof
    assume "xs = []"
    moreover have "r + 1 < 2 ^ 64"
      using rep_bounds [OF x(1)] x(2) n size_le [OF rep_bounds(1) [OF x(1)]] by simp
    ultimately show False
      using dequeue_none [of "pool_queue p" r w mv] x(1) run by (simp add: get_obj_def)
  qed
  then obtain i ys where xs: "xs = i # ys"
    by (cases xs) auto
  then obtain q' where q': "dequeue (qt mv) (pool_queue p) = Some (Some i, q')" "repr q' (r + 1) (r + 1) w (map Some ys)"
    using dequeue_some [OF x(1), of mv] by auto
  then have "ptr = Some i" "pool_queue p' = q'"
    using run by (auto simp: get_obj_def)
  moreover have "set ys \<inter> insert i H = {}" "set ys \<union> insert i H = {..<2 ^ m}"
    using x(3-5) xs by auto
  ultimately show "pool_rep (n + 1) p' (H \<union> set_option ptr)" "\<exists>i. ptr = Some i \<and> i < 2 ^ m \<and> i \<notin> H"
    using x xs q'(2) pool_repI [of p' "r + 1" w ys "n + 1" "H \<union> set_option ptr"] by auto
qed

lemma pool_repE:
  assumes "pool_rep n p H"
  obtains r w xs where "repr (pool_queue p) r r w (map Some xs)" "w \<le> 3 * 2 ^ m + n" "distinct xs" "set xs \<inter> H = {}" "set xs \<union> H = {..<2 ^ m}"
  using assms by (auto simp: pool_rep_def)

lemma pool_bounds:
  assumes "repr q r r w (map Some xs)" "w \<le> 3 * 2 ^ m + n" "n < 2 ^ 61"
  shows "r + 1 < 2 ^ 64" "w + 1 < 2 ^ 64"
  using rep_bounds [OF assms(1)] assms(2,3) size_le [OF rep_bounds(1) [OF assms(1)]] by simp_all

text \<open>Whoever holds an object leaves room for it in the queue.\<close>

lemma held_room:
  assumes "distinct xs" "set xs \<inter> H = {}" "set xs \<union> H = {..<(2 :: nat) ^ m}" "i \<in> H"
  shows "length xs < 2 ^ m"
proof -
  have "set xs \<subset> {..<2 ^ m}"
    using assms(2-4) by auto
  then have "card (set xs) < card {..<(2 :: nat) ^ m}"
    by (intro psubset_card_mono) auto
  then show ?thesis
    using assms(1) by (simp add: distinct_card)
qed

lemma given_back:
  assumes "repr q' r r w' (map Some (xs @ [i]))" "w' \<le> 3 * 2 ^ m + n" "distinct xs" "set xs \<inter> H = {}" "set xs \<union> H = {..<2 ^ m}" "i \<in> H"
  shows "pool_rep n (p\<lparr>pool_queue := q'\<rparr>) (H - {i})"
  using assms unfolding pool_rep_def by (intro exI [of _ r] exI [of _ w'] exI [of _ "xs @ [i]"]) auto

lemma pool_release:
  assumes rep: "pool_rep n p H" and i: "i \<in> H" and n: "n < 2 ^ 61"
  obtains p' where "release_obj (qt mv) (Some i) p = Some p'" "pool_rep (n + 1) p' (H - {i})"
proof -
  obtain r w xs where x: "repr (pool_queue p) r r w (map Some xs)" "w \<le> 3 * 2 ^ m + n" "distinct xs" "set xs \<inter> H = {}" "set xs \<union> H = {..<2 ^ m}"
    using rep by (rule pool_repE)
  obtain q' where q': "enqueue (qt mv) (Some i) (pool_queue p) = Some q'" "repr q' r r (w + 1) (map Some (xs @ [i]))"
    using enqueue_room [OF x(1) _ pool_bounds(2) [OF x(1,2) n], where v = "Some i" and mv = mv] held_room [OF x(3-5) i] by auto
  then show thesis
    using that given_back [OF q'(2) _ x(3-5) i, of "n + 1" p] x(2) by (simp add: release_obj_def)
qed

lemma pool_try_release:
  assumes rep: "pool_rep n p H" and i: "i \<in> H" and n: "n < 2 ^ 61" and run: "try_release_obj (qt mv) (Some i) p = Some (ok, p')"
  shows "pool_rep (n + 1) p' (if ok then H - {i} else H)"
proof -
  obtain r w xs where x: "repr (pool_queue p) r r w (map Some xs)" "w \<le> 3 * 2 ^ m + n" "distinct xs" "set xs \<inter> H = {}" "set xs \<union> H = {..<2 ^ m}"
    using rep by (rule pool_repE)
  obtain q' where q': "try_enqueue (qt mv) (Some i) (pool_queue p) = Some (ok, q')" "p' = p\<lparr>pool_queue := q'\<rparr>"
    using run by (auto simp: try_release_obj_def)
  then have after: "repr q' r r (if ok then w + 1 else w) (if ok then map Some xs @ [Some i] else map Some xs)"
    using try_enqueue_result [OF x(1) pool_bounds(2) [OF x(1,2) n], of mv "Some i"] by auto
  show ?thesis
  proof (cases ok)
    case True
    then show ?thesis
      using after given_back [of q' r "w + 1" xs i "n + 1" H p] x(2-5) i q'(2) by simp
  next
    case False
    then show ?thesis
      using after x(2-5) q'(2) by (simp add: pool_repI [of _ r w xs])
  qed
qed

lemma pool_try_get:
  assumes rep: "pool_rep n p H" and run: "try_get_obj (qt mv) p = Some (ptr, p')" and n: "n < 2 ^ 61"
  shows "pool_rep (n + 1) p' (H \<union> set_option ptr)" "ptr = Some i \<Longrightarrow> i < 2 ^ m \<and> i \<notin> H"
proof -
  obtain r w xs where x: "repr (pool_queue p) r r w (map Some xs)" "w \<le> 3 * 2 ^ m + n" "distinct xs" "set xs \<inter> H = {}" "set xs \<union> H = {..<2 ^ m}"
    using rep by (rule pool_repE)
  obtain res q' where q': "try_dequeue (qt mv) (pool_queue p) = Some (res, q')" "p' = p\<lparr>pool_queue := q'\<rparr>"
    "ptr = (case res of Some ptr \<Rightarrow> ptr | None \<Rightarrow> None)"
    using run by (auto simp: try_get_obj_def)
  have after: "case res of None \<Rightarrow> repr q' r r w (map Some xs)
      | Some v \<Rightarrow> map Some xs \<noteq> [] \<and> v = hd (map Some xs) \<and> repr q' (r + 1) (r + 1) w (tl (map Some xs))"
    using try_dequeue_result [OF x(1) pool_bounds(1) [OF x(1,2) n], of mv] q'(1) by (auto split: option.splits)
  have "pool_rep (n + 1) p' (H \<union> set_option ptr) \<and> (ptr = Some i \<longrightarrow> i < 2 ^ m \<and> i \<notin> H)"
  proof (cases res)
    case None
    then show ?thesis
      using after x(2-5) q'(2,3) by (simp add: pool_repI [of _ r w xs])
  next
    case (Some v)
    then obtain j ys where xs: "xs = j # ys"
      using after by (cases xs) auto
    then have "set ys \<inter> insert j H = {}" "set ys \<union> insert j H = {..<2 ^ m}" "distinct ys" "j < 2 ^ m" "j \<notin> H"
      using x(3-5) by auto
    then show ?thesis
      using after Some xs x(2) q'(2,3) pool_repI [of p' "r + 1" w ys "n + 1" "H \<union> set_option ptr"] by auto
  qed
  then show "pool_rep (n + 1) p' (H \<union> set_option ptr)" "ptr = Some i \<Longrightarrow> i < 2 ^ m \<and> i \<notin> H"
    by blast+
qed

lemma pool_calls_rep:
  assumes rep: "repr q0 (2 ^ m) (2 ^ m) (2 ^ m) []"
  shows "pool_calls (qt mv) obj q0 n p H \<Longrightarrow> n < 2 ^ 61 \<Longrightarrow> pool_rep n p H"
proof (induction rule: pool_calls.induct)
  case (new p)
  then show ?case
    using new_pool_rep [OF rep, of mv obj p] by simp
next
  case (get n p H ptr p')
  then show ?case
    using pool_get(1) [of n p H mv ptr p'] by simp
next
  case (try_get n p H ptr p')
  then show ?case
    using pool_try_get(1) [of n p H mv ptr p'] by simp
next
  case (release n p H i p')
  then have "pool_rep n p H" "n < 2 ^ 61"
    by simp_all
  then obtain p2 where "release_obj (qt mv) (Some i) p = Some p2" "pool_rep (n + 1) p2 (H - {i})"
    using pool_release [OF _ release.hyps(2)] by blast
  then show ?case
    using release.hyps(3) by simp
next
  case (try_release n p H i ok p')
  then show ?case
    using pool_try_release [of n p H i mv ok p'] by simp
qed

text \<open>What a pool in use promises.\<close>

lemma pool_promises:
  assumes rep: "pool_rep n p H" and n: "n < 2 ^ 61"
  shows "get_obj (qt mv) p = None \<longleftrightarrow> H = {..<2 ^ m}"
    "get_obj (qt mv) p = Some (ptr, p') \<Longrightarrow> \<exists>i. ptr = Some i \<and> i < 2 ^ m \<and> i \<notin> H"
    "i \<in> H \<Longrightarrow> release_obj (qt mv) (Some i) p \<noteq> None"
proof -
  obtain r w xs where x: "repr (pool_queue p) r r w (map Some xs)" "w \<le> 3 * 2 ^ m + n" "distinct xs" "set xs \<inter> H = {}" "set xs \<union> H = {..<2 ^ m}"
    using rep by (rule pool_repE)
  have "get_obj (qt mv) p = None \<longleftrightarrow> xs = []"
    using dequeue_none [of "pool_queue p" r w mv] dequeue_some [OF x(1), of mv] x(1) pool_bounds(1) [OF x(1,2) n]
    by (cases xs) (auto simp: get_obj_def)
  also have "\<dots> \<longleftrightarrow> H = {..<2 ^ m}"
    using x(4,5) by (cases xs) auto
  finally show "get_obj (qt mv) p = None \<longleftrightarrow> H = {..<2 ^ m}" .
  show "\<exists>i. ptr = Some i \<and> i < 2 ^ m \<and> i \<notin> H" if "get_obj (qt mv) p = Some (ptr, p')"
    using pool_get(2) [OF rep that n] .
  show "release_obj (qt mv) (Some i) p \<noteq> None" if "i \<in> H"
    by (rule pool_release [OF rep that n, of mv]) simp
qed

end

text \<open>
  C24: however threads take objects from an \<open>mpmc_ring_buffer_object_pool\<close> and give back what they hold, fewer
  than \<open>2 ^ 61\<close> times, \<open>get_obj\<close> waits exactly while all objects are in use, gives an object that nobody
  holds, never the null pointer its buffer is warmed up with; and giving an object back never waits.
\<close>

theorem shared_pool_gives_unused:
  assumes "mpmc_ring_buffer_queue mv sz = Some t" "unat sz \<le> 2 ^ 62" "n < 2 ^ 61"
    and "pool_calls t obj (ring_buffer_base t None (new_mt (buffer_size t) fails_w) (new_mt (buffer_size t) fails_r)) n p H"
  shows "(get_obj t p = None \<longleftrightarrow> H = {..<unat (buffer_size t)})
    \<and> (\<forall>ptr p'. get_obj t p = Some (ptr, p') \<longrightarrow> (\<exists>i < unat (buffer_size t). i \<notin> H \<and> ptr = Some i))
    \<and> (\<forall>i \<in> H. release_obj t (Some i) p \<noteq> None)"
proof -
  obtain m where m: "m < 63" "t = ring_type m (mt_ops (2 ^ m)) (mt_ops (2 ^ m)) mv" "unat (buffer_size t) = 2 ^ m"
    "mpmc.repr m (ring_buffer_base t None (new_mt (buffer_size t) fails_w) (new_mt (buffer_size t) fails_r)) (2 ^ m) (2 ^ m) (2 ^ m) []"
    using new_mpmc [OF assms(1,2)] .
  have rep: "mpmc.pool_rep m n p H"
    using mpmc.pool_calls_rep [OF m(4) [unfolded m(2)] assms(4) [unfolded m(2)] assms(3)] .
  show ?thesis
    unfolding m(3) unfolding m(2) using mpmc.pool_promises [OF rep assms(3), where mv = mv] by blast
qed

text \<open>The example: two objects, of which one is taken.\<close>

definition pool_type :: "(nat option, barrier_mt, barrier_mt) queue_type" where
  "pool_type = \<lparr>buffer_size = 2, write_ops = mt_ops 2, read_ops = mt_ops 2, moved = None\<rparr>"

definition pool_ring :: "(nat option, barrier_mt, barrier_mt) ring" where
  "pool_ring = ring_buffer_base pool_type None (new_mt (buffer_size pool_type) [True]) (new_mt (buffer_size pool_type) [])"

definition full_pool :: "(char, barrier_mt, barrier_mt) ring_pool" where
  "full_pool = the (ring_buffer_object_pool pool_type CHR ''x'' pool_ring)"

definition lent_pool :: "(char, barrier_mt, barrier_mt) ring_pool" where
  "lent_pool = snd (the (get_obj pool_type full_pool))"

lemma pool_example:
  "ring_buffer_object_pool pool_type CHR ''x'' pool_ring = Some full_pool"
  "get_obj pool_type full_pool = Some (Some 0, lent_pool)"
  by code_simp+

theorem shared_pool_gives_unused_witness:
  "get_obj pool_type lent_pool \<noteq> None \<and> release_obj pool_type (Some 0) lent_pool \<noteq> None"
proof -
  have t: "mpmc_ring_buffer_queue None 2 = Some pool_type"
    by (simp add: mpmc_ring_buffer_queue_def pool_type_def) code_simp
  have "pool_calls pool_type CHR ''x'' pool_ring (0 + 1) lent_pool ({} \<union> set_option (Some 0))"
    by (rule pool_calls.get [OF pool_calls.new [OF pool_example(1)] pool_example(2)])
  from shared_pool_gives_unused [OF t _ _ this [unfolded pool_ring_def]] show ?thesis
    by (auto simp: pool_type_def)
qed

end
