(* ===== verification/Object_Pool.thy ===== *)
theory Object_Pool
  imports Prelude
begin

text \<open>
  The pool of objects of one thread (\<open>memory/object_pool.hpp\<close>): a stack of pointers to the free places of a
  buffer. A pointer is the index of its place; \<open>objects\<close> has the objects constructed in the buffer.
\<close>

section \<open>Operations\<close>

record 'a object_pool =
  stack :: "nat list"
  top_count :: nat
  objects :: "nat \<rightharpoonup> 'a"

definition new_pool :: "nat \<Rightarrow> 'a object_pool" where
  "new_pool sz = \<lparr>stack = [0..<sz], top_count = sz, objects = (\<lambda>_. None)\<rparr>"

definition pool_alloc :: "'a \<Rightarrow> 'a object_pool \<Rightarrow> nat option \<times> 'a object_pool" where
  "pool_alloc a s =
     (if top_count s = 0 then (None, s)
      else let ptr = stack s ! (top_count s - 1)
           in (Some ptr, s\<lparr>top_count := top_count s - 1, objects := (objects s)(ptr \<mapsto> a)\<rparr>))"

definition pool_free :: "nat \<Rightarrow> nat \<Rightarrow> 'a object_pool \<Rightarrow> bool \<times> 'a object_pool" where
  "pool_free sz ptr s =
     (if top_count s = sz then (False, s)
      else (True, s\<lparr>objects := (objects s)(ptr := None), stack := (stack s)[top_count s := ptr], top_count := top_count s + 1\<rparr>))"

section \<open>Use\<close>

text \<open>A client that frees only what it got and has not freed yet.\<close>

inductive pool_used :: "nat \<Rightarrow> 'a object_pool \<Rightarrow> bool" for sz where
  new: "pool_used sz (new_pool sz)"
| alloc: "pool_used sz s \<Longrightarrow> pool_alloc a s = (r, s') \<Longrightarrow> pool_used sz s'"
| free: "pool_used sz s \<Longrightarrow> ptr \<in> dom (objects s) \<Longrightarrow> pool_free sz ptr s = (r, s') \<Longrightarrow> pool_used sz s'"

text \<open>The free places are on the stack, each once; the others have objects.\<close>

definition free_places :: "'a object_pool \<Rightarrow> nat list" where
  "free_places s = take (top_count s) (stack s)"

definition pool_inv :: "nat \<Rightarrow> 'a object_pool \<Rightarrow> bool" where
  "pool_inv sz s \<longleftrightarrow> length (stack s) = sz \<and> top_count s \<le> sz \<and> distinct (free_places s)
     \<and> set (free_places s) \<inter> dom (objects s) = {} \<and> set (free_places s) \<union> dom (objects s) = {..<sz}"

lemma pool_inv_new: "pool_inv sz (new_pool sz)"
  by (auto simp: pool_inv_def new_pool_def free_places_def)

lemma alloc_place:
  assumes "pool_inv sz s" "top_count s \<noteq> 0"
  obtains rest where "free_places s = rest @ [stack s ! (top_count s - 1)]"
    "rest = take (top_count s - 1) (stack s)"
proof -
  have "top_count s - 1 < length (stack s)" "top_count s = Suc (top_count s - 1)"
    using assms by (auto simp: pool_inv_def)
  then show thesis
    using that take_Suc_conv_app_nth [of "top_count s - 1" "stack s"] by (simp add: free_places_def)
qed

lemma pool_inv_alloc:
  assumes inv: "pool_inv sz s" and run: "pool_alloc a s = (r, s')"
  shows "pool_inv sz s'"
proof (cases "top_count s = 0")
  case False
  obtain rest where rest: "free_places s = rest @ [stack s ! (top_count s - 1)]" "rest = take (top_count s - 1) (stack s)"
    using alloc_place [OF inv False] .
  have s': "s' = s\<lparr>top_count := top_count s - 1, objects := (objects s)(stack s ! (top_count s - 1) \<mapsto> a)\<rparr>"
    using run False by (simp add: pool_alloc_def Let_def)
  then have "free_places s' = rest"
    using rest(2) by (simp add: free_places_def)
  then show ?thesis
    using inv rest(1) s' by (auto simp: pool_inv_def)
qed (use inv run in \<open>simp add: pool_alloc_def\<close>)

lemma top_room:
  assumes "pool_inv sz s" "ptr \<in> dom (objects s)"
  shows "top_count s < sz"
proof -
  have "card (set (free_places s)) = top_count s"
    using assms(1) by (simp add: pool_inv_def distinct_card free_places_def)
  moreover have "set (free_places s) \<subset> {..<sz}"
    using assms by (auto simp: pool_inv_def)
  ultimately show ?thesis
    using psubset_card_mono [of "{..<sz}" "set (free_places s)"] by simp
qed

lemma pool_inv_free:
  assumes inv: "pool_inv sz s" and ptr: "ptr \<in> dom (objects s)" and run: "pool_free sz ptr s = (r, s')"
  shows "pool_inv sz s'"
proof -
  have top: "top_count s < sz"
    using top_room [OF inv ptr] .
  then have s': "s' = s\<lparr>objects := (objects s)(ptr := None), stack := (stack s)[top_count s := ptr], top_count := top_count s + 1\<rparr>"
    using run by (simp add: pool_free_def)
  have "free_places s' = free_places s @ [ptr]"
    using top inv by (simp add: s' free_places_def pool_inv_def take_Suc_conv_app_nth)
  then show ?thesis
    using inv ptr top s' by (auto simp: pool_inv_def)
qed

lemma pool_used_inv: "pool_used sz s \<Longrightarrow> pool_inv sz s"
  by (induction rule: pool_used.induct) (auto intro: pool_inv_new pool_inv_alloc pool_inv_free)

text \<open>
  C33: however a client allocates and frees what it holds, \<open>alloc\<close> gives a place of the buffer that holds no
  live object and constructs the new one there, or \<open>nullptr\<close> exactly when all places hold live
  objects; and no other object changes.
\<close>

theorem alloc_gives_unused_place:
  assumes "pool_used sz s"
  shows "case pool_alloc a s of
      (None, s') \<Rightarrow> s' = s \<and> dom (objects s) = {..<sz}
    | (Some ptr, s') \<Rightarrow> ptr < sz \<and> ptr \<notin> dom (objects s) \<and> objects s' = (objects s)(ptr \<mapsto> a)"
proof (cases "top_count s = 0")
  case True
  then show ?thesis
    using pool_used_inv [OF assms] by (auto simp: pool_alloc_def pool_inv_def free_places_def)
next
  case False
  obtain rest where "free_places s = rest @ [stack s ! (top_count s - 1)]"
    using alloc_place [OF pool_used_inv [OF assms] False] .
  then have "stack s ! (top_count s - 1) \<in> set (free_places s)"
    by simp
  then show ?thesis
    using pool_used_inv [OF assms] False by (auto simp: pool_alloc_def pool_inv_def Let_def)
qed

lemma used_alloc: "pool_used sz s \<Longrightarrow> pool_used sz (snd (pool_alloc a s))"
  by (erule pool_used.alloc) (rule prod.collapse [symmetric])

lemma used_free: "pool_used sz s \<Longrightarrow> ptr \<in> dom (objects s) \<Longrightarrow> pool_used sz (snd (pool_free sz ptr s))"
  by (erule pool_used.free, assumption) (rule prod.collapse [symmetric])

definition used_pool :: "char object_pool" where
  "used_pool = snd (pool_alloc CHR ''b'' (snd (pool_free 2 1 (snd (pool_alloc CHR ''a'' (new_pool 2))))))"

theorem alloc_gives_unused_place_witness:
  "\<exists>ptr s'. pool_alloc CHR ''c'' used_pool = (Some ptr, s') \<and> ptr = 0 \<and> objects s' = [0 \<mapsto> CHR ''c'', 1 \<mapsto> CHR ''b'']"
proof -
  have "pool_used 2 used_pool"
    unfolding used_pool_def by (intro used_alloc used_free pool_used.new) (simp add: pool_alloc_def new_pool_def)
  from alloc_gives_unused_place [OF this, of "CHR ''c''"] show ?thesis
    by (auto simp: used_pool_def pool_alloc_def pool_free_def new_pool_def fun_upd_twist)
qed

end
