(* ===== verification/Spin_Mutex.thy ===== *)
theory Spin_Mutex
  imports Order
begin

text \<open>
  The mutex (\<open>core/spin_mutex.hpp\<close>) and how an engine takes its own and those of the engines its implied
  orders rest on (\<open>engine::lock\<close>, \<open>engine::unlock\<close>): one after the other in the order of \<open>_mutex_set\<close>, a set of
  pointers, and back in reverse. One kind of order makes \<open>engine::handle\<close> return without giving them back; that way out
  is a step too. A step is one atomic operation on one flag by one thread. Memory is
  sequentially consistent here; the code asks for relaxed order only.
\<close>

section \<open>One mutex\<close>

text \<open>
  \<open>_f.compare_exchange_weak(expected, 1)\<close> with \<open>expected\<close> 0: whether it succeeds, and the flag after it. It may fail
  for no reason.
\<close>

definition exchange_weak :: "bool \<Rightarrow> u64 \<Rightarrow> bool \<times> u64" where
  "exchange_weak no_reason f = (if f = 0 \<and> \<not> no_reason then (True, 1) else (False, f))"

definition try_lock :: "bool \<Rightarrow> u64 \<Rightarrow> bool \<times> u64" where
  "try_lock no_reason f = exchange_weak no_reason f"

definition new_mutex :: u64 where
  "new_mutex = 0"

text \<open>One round of the loop of \<open>lock\<close>; it goes on when the exchange fails.\<close>

definition lock_round :: "bool \<Rightarrow> u64 \<Rightarrow> bool \<times> u64" where
  "lock_round no_reason f = exchange_weak no_reason f"

definition unlock_flag :: "u64 \<Rightarrow> u64" where
  "unlock_flag f = 0"

section \<open>Threads\<close>

text \<open>
  A thread is outside, taking the mutexes still to do, inside with all of its set, or giving them back.
  \<open>held\<close> has what it holds, the last taken first, and \<open>handling\<close> the order of its call. \<open>lost\<close> are the mutexes of
  calls that returned without giving them back: nobody holds them, and their flags stay up.
\<close>

datatype phase = Outside | Taking "nat list" | Inside | Giving

record world =
  flag :: "nat \<Rightarrow> u64"
  phase_of :: "nat \<Rightarrow> phase"
  handling :: "nat \<Rightarrow> order"
  held :: "nat \<Rightarrow> nat list"
  lost :: "nat set"

definition new_world :: world where
  "new_world = \<lparr>flag = (\<lambda>_. new_mutex), phase_of = (\<lambda>_. Outside), handling = (\<lambda>_. new_order), held = (\<lambda>_. []), lost = {}\<rparr>"

text \<open>
  Whether \<open>handle\<close> reaches its \<open>unlock\<close>: an auction order of another side than \<open>BUY\<close> and \<open>SELL\<close> makes it return before.
\<close>

definition reaches_unlock :: "order \<Rightarrow> bool" where
  "reaches_unlock o1 \<longleftrightarrow> \<not> (time_condition o1 = AUCTION \<and> \<not> (side o1 = BUY \<or> side o1 = SELL))"

text \<open>\<open>ms\<close> is the engine's set of mutexes in the order in which a set of pointers is walked.\<close>

inductive thread_step :: "nat \<Rightarrow> world \<Rightarrow> world \<Rightarrow> bool" for t where
  call: "phase_of s t = Outside \<Longrightarrow> sorted_wrt (<) ms \<Longrightarrow>
    thread_step t s (s\<lparr>phase_of := (phase_of s)(t := Taking ms), handling := (handling s)(t := o1), held := (held s)(t := [])\<rparr>)"
| take: "phase_of s t = Taking (m # ms) \<Longrightarrow> lock_round no_reason (flag s m) = (True, f) \<Longrightarrow>
    thread_step t s (s\<lparr>flag := (flag s)(m := f), phase_of := (phase_of s)(t := Taking ms), held := (held s)(t := m # held s t)\<rparr>)"
| spin: "phase_of s t = Taking (m # ms) \<Longrightarrow> lock_round no_reason (flag s m) = (False, f) \<Longrightarrow>
    thread_step t s (s\<lparr>flag := (flag s)(m := f)\<rparr>)"
| locked: "phase_of s t = Taking [] \<Longrightarrow> thread_step t s (s\<lparr>phase_of := (phase_of s)(t := Inside)\<rparr>)"
| leave: "phase_of s t = Inside \<Longrightarrow> reaches_unlock (handling s t) \<Longrightarrow> thread_step t s (s\<lparr>phase_of := (phase_of s)(t := Giving)\<rparr>)"
| returned: "phase_of s t = Inside \<Longrightarrow> \<not> reaches_unlock (handling s t) \<Longrightarrow>
    thread_step t s (s\<lparr>phase_of := (phase_of s)(t := Outside), held := (held s)(t := []), lost := lost s \<union> set (held s t)\<rparr>)"
| give: "phase_of s t = Giving \<Longrightarrow> held s t = m # hs \<Longrightarrow>
    thread_step t s (s\<lparr>flag := (flag s)(m := unlock_flag (flag s m)), held := (held s)(t := hs)\<rparr>)"
| unlocked: "phase_of s t = Giving \<Longrightarrow> held s t = [] \<Longrightarrow> thread_step t s (s\<lparr>phase_of := (phase_of s)(t := Outside)\<rparr>)"

inductive reachable :: "world \<Rightarrow> bool" where
  start: "reachable new_world"
| step: "reachable s \<Longrightarrow> thread_step t s s' \<Longrightarrow> reachable s'"

section \<open>The invariant\<close>

fun to_take :: "phase \<Rightarrow> nat list" where
  "to_take (Taking ms) = ms"
| "to_take _ = []"

text \<open>A flag is up when one thread holds the mutex or it is lost, and threads take mutexes in ascending order.\<close>

definition lock_inv :: "world \<Rightarrow> bool" where
  "lock_inv s \<longleftrightarrow>
     (\<forall>m. flag s m \<noteq> 0 \<longleftrightarrow> m \<in> lost s \<or> (\<exists>t. m \<in> set (held s t)))
   \<and> (\<forall>m t. m \<in> set (held s t) \<longrightarrow> m \<notin> lost s)
   \<and> (\<forall>m t u. m \<in> set (held s t) \<longrightarrow> m \<in> set (held s u) \<longrightarrow> t = u)
   \<and> (\<forall>t. sorted_wrt (<) (rev (held s t) @ to_take (phase_of s t)))
   \<and> (\<forall>t. phase_of s t = Outside \<longrightarrow> held s t = [])
   \<and> finite {t. phase_of s t \<noteq> Outside}"

lemma lock_invD:
  assumes "lock_inv s"
  shows "flag s m \<noteq> 0 \<longleftrightarrow> m \<in> lost s \<or> (\<exists>t. m \<in> set (held s t))"
    "m \<in> set (held s t) \<Longrightarrow> m \<in> set (held s u) \<Longrightarrow> t = u"
    "sorted_wrt (<) (rev (held s t) @ to_take (phase_of s t))"
    "phase_of s t = Outside \<Longrightarrow> held s t = []"
    "finite {t. phase_of s t \<noteq> Outside}" "m \<in> set (held s t) \<Longrightarrow> m \<notin> lost s"
  using assms by (auto simp: lock_inv_def)

lemma lock_invI:
  assumes "\<And>m. flag s m \<noteq> 0 \<longleftrightarrow> m \<in> lost s \<or> (\<exists>t. m \<in> set (held s t))"
    "\<And>m t u. m \<in> set (held s t) \<Longrightarrow> m \<in> set (held s u) \<Longrightarrow> t = u"
    "\<And>t. sorted_wrt (<) (rev (held s t) @ to_take (phase_of s t))"
    "\<And>t. phase_of s t = Outside \<Longrightarrow> held s t = []"
    "finite {t. phase_of s t \<noteq> Outside}" "\<And>m t. m \<in> set (held s t) \<Longrightarrow> m \<notin> lost s"
  shows "lock_inv s"
  using assms unfolding lock_inv_def by blast

lemmas flag_ops = exchange_weak_def try_lock_def lock_round_def unlock_flag_def new_mutex_def

lemma lock_inv_new: "lock_inv new_world"
  by (simp add: lock_inv_def new_world_def flag_ops)

lemma finite_phase: "finite {t. phase_of s t \<noteq> Outside} \<Longrightarrow> finite {u. ((phase_of s)(t := p)) u \<noteq> Outside}"
  by (rule finite_subset [of _ "insert t {t. phase_of s t \<noteq> Outside}"]) (auto split: if_splits)

text \<open>Steps that change no flag and hold nothing more.\<close>

lemma lock_inv_phase:
  assumes "lock_inv s" "sorted_wrt (<) (rev (held s t) @ to_take p)" "p = Outside \<longrightarrow> held s t = []"
  shows "lock_inv (s\<lparr>phase_of := (phase_of s)(t := p)\<rparr>)"
  using assms finite_phase [OF lock_invD(5) [OF assms(1)], of t p] by (auto simp: lock_inv_def)

lemma lock_inv_take:
  assumes inv: "lock_inv s" and p: "phase_of s t = Taking (m # ms)" and f: "flag s m = 0"
  shows "lock_inv (s\<lparr>flag := (flag s)(m := 1), phase_of := (phase_of s)(t := Taking ms), held := (held s)(t := m # held s t)\<rparr>)"
proof -
  note d = lock_invD [OF inv]
  have free: "m \<notin> set (held s u)" for u
    using d(1) [of m] f by blast
  let ?s = "s\<lparr>flag := (flag s)(m := 1), phase_of := (phase_of s)(t := Taking ms), held := (held s)(t := m # held s t)\<rparr>"
  have other: "k \<in> set (held ?s u) \<longleftrightarrow> k \<in> set (held s u)" if "k \<noteq> m" for k u
    using that by simp
  have mine: "m \<in> set (held ?s u) \<longleftrightarrow> u = t" for u
    using free by simp
  have 1: "flag ?s k \<noteq> 0 \<longleftrightarrow> k \<in> lost ?s \<or> (\<exists>u. k \<in> set (held ?s u))" for k
    using d(1) [of k] other [of k] mine by (cases "k = m") simp_all
  have 6: "k \<notin> lost ?s" if "k \<in> set (held ?s u)" for k u
    using that d(1) [of m] d(6) [of k u] other [of k] f by (cases "k = m") simp_all
  have 2: "u = v" if "k \<in> set (held ?s u)" "k \<in> set (held ?s v)" for k u v
    using that d(2) [of k u v] other [of k] mine by (cases "k = m") simp_all
  have 3: "sorted_wrt (<) (rev (held ?s u) @ to_take (phase_of ?s u))" for u
    using d(3) [of u] p by (cases "u = t") simp_all
  have 4: "held ?s u = []" if "phase_of ?s u = Outside" for u
    using d(4) [of u] that by (simp split: if_splits)
  have 5: "finite {u. phase_of ?s u \<noteq> Outside}"
    using finite_phase [OF d(5), of t "Taking ms"] by simp
  show ?thesis
    by (rule lock_invI [OF 1 2 3 4 5 6])
qed

lemma lock_inv_give:
  assumes inv: "lock_inv s" and p: "phase_of s t = Giving" "held s t = m # hs"
  shows "lock_inv (s\<lparr>flag := (flag s)(m := 0), held := (held s)(t := hs)\<rparr>)"
proof -
  note d = lock_invD [OF inv]
  have s: "sorted_wrt (<) (rev hs @ [m])"
    using d(3) [of t] p by simp
  have only: "m \<notin> set (held s u)" if "u \<noteq> t" for u
    using d(2) [of m t u] p(2) that by auto
  have last: "m \<notin> set hs"
    using s by (auto simp: sorted_wrt_append)
  let ?s = "s\<lparr>flag := (flag s)(m := 0), held := (held s)(t := hs)\<rparr>"
  have other: "k \<in> set (held ?s u) \<longleftrightarrow> k \<in> set (held s u)" if "k \<noteq> m" for k u
    using that p(2) by simp
  have nobody: "m \<notin> set (held ?s u)" for u
    using only last by simp
  have kept: "m \<notin> lost s"
    using d(6) [of m t] p(2) by simp
  have 1: "flag ?s k \<noteq> 0 \<longleftrightarrow> k \<in> lost ?s \<or> (\<exists>u. k \<in> set (held ?s u))" for k
    using d(1) [of k] other [of k] nobody kept by (cases "k = m") simp_all
  have 6: "k \<notin> lost ?s" if "k \<in> set (held ?s u)" for k u
    using that d(6) [of k u] other [of k] nobody by (cases "k = m") simp_all
  have 2: "u = v" if "k \<in> set (held ?s u)" "k \<in> set (held ?s v)" for k u v
    using that d(2) [of k u v] other [of k] nobody by (cases "k = m") simp_all
  have 3: "sorted_wrt (<) (rev (held ?s u) @ to_take (phase_of ?s u))" for u
    using d(3) [of u] s p(1) by (simp add: sorted_wrt_append)
  have 4: "held ?s u = []" if "phase_of ?s u = Outside" for u
    using d(4) [of u] that p(1) by (cases "u = t") simp_all
  have 5: "finite {u. phase_of ?s u \<noteq> Outside}"
    using d(5) by simp
  show ?thesis
    by (rule lock_invI [OF 1 2 3 4 5 6])
qed

lemma lock_inv_handling: "lock_inv (s\<lparr>handling := h\<rparr>) \<longleftrightarrow> lock_inv s"
  by (simp add: lock_inv_def)

lemma lock_inv_returned:
  assumes inv: "lock_inv s" and p: "phase_of s t = Inside"
  shows "lock_inv (s\<lparr>phase_of := (phase_of s)(t := Outside), held := (held s)(t := []), lost := lost s \<union> set (held s t)\<rparr>)"
proof -
  note d = lock_invD [OF inv]
  let ?s = "s\<lparr>phase_of := (phase_of s)(t := Outside), held := (held s)(t := []), lost := lost s \<union> set (held s t)\<rparr>"
  have 1: "flag ?s k \<noteq> 0 \<longleftrightarrow> k \<in> lost ?s \<or> (\<exists>u. k \<in> set (held ?s u))" for k
    using d(1) [of k] by auto
  have 2: "u = v" if "k \<in> set (held ?s u)" "k \<in> set (held ?s v)" for k u v
    using that d(2) [of k u v] by (simp split: if_splits)
  have 3: "sorted_wrt (<) (rev (held ?s u) @ to_take (phase_of ?s u))" for u
    using d(3) [of u] by simp
  have 4: "held ?s u = []" if "phase_of ?s u = Outside" for u
    using d(4) [of u] that by (simp split: if_splits)
  have 5: "finite {u. phase_of ?s u \<noteq> Outside}"
    using finite_phase [OF d(5), of t Outside] by simp
  have 6: "k \<notin> lost ?s" if "k \<in> set (held ?s u)" for k u
    using that d(6) [of k u] d(2) [of k u t] by (auto split: if_splits)
  show ?thesis
    by (rule lock_invI [OF 1 2 3 4 5 6])
qed

lemma thread_step_inv: "thread_step t s s' \<Longrightarrow> lock_inv s \<Longrightarrow> lock_inv s'"
proof (induction rule: thread_step.induct)
  case (call s ms o1)
  then have "held s t = []"
    using lock_invD(4) by blast
  then have "(held s)(t := []) = held s"
    by auto
  then show ?case
    using lock_inv_phase [of s t "Taking ms"] call \<open>held s t = []\<close>
      lock_inv_handling [of "(handling s)(t := o1)" "s\<lparr>phase_of := (phase_of s)(t := Taking ms)\<rparr>"] by simp
next
  case (take s m ms no_reason f)
  then show ?case
    using lock_inv_take by (auto simp: flag_ops split: if_splits)
next
  case (spin s m ms no_reason f)
  then have "(flag s)(m := f) = flag s"
    by (auto simp: flag_ops split: if_splits)
  then show ?case
    using spin by simp
next
  case (locked s)
  then show ?case
    using lock_inv_phase [of s t Inside] lock_invD(3) [of s t] by simp
next
  case (leave s)
  then show ?case
    using lock_inv_phase [of s t Giving] lock_invD(3) [of s t] by simp
next
  case (returned s)
  then show ?case
    using lock_inv_returned by simp
next
  case (give s m hs)
  then show ?case
    using lock_inv_give by (auto simp: flag_ops)
next
  case (unlocked s)
  then show ?case
    using lock_inv_phase [of s t Outside] by simp
qed

lemma lock_reachable_inv: "reachable s \<Longrightarrow> lock_inv s"
  by (induction rule: reachable.induct) (auto intro: lock_inv_new thread_step_inv)

section \<open>Safety and progress\<close>

text \<open>A step that is not another failed exchange.\<close>

definition moves :: "world \<Rightarrow> bool" where
  "moves s \<longleftrightarrow> (\<exists>t s'. thread_step t s s' \<and> (phase_of s' t \<noteq> phase_of s t \<or> held s' t \<noteq> held s t) \<and> phase_of s t \<noteq> Outside)"

lemma movesI: "thread_step t s s' \<Longrightarrow> phase_of s' t \<noteq> phase_of s t \<or> held s' t \<noteq> held s t \<Longrightarrow> phase_of s t \<noteq> Outside \<Longrightarrow> moves s"
  by (auto simp: moves_def)

lemma not_taking_moves: "phase_of s t = Inside \<or> phase_of s t = Giving \<or> phase_of s t = Taking [] \<Longrightarrow> moves s"
proof (elim disjE)
  assume p: "phase_of s t = Giving"
  then show "moves s"
    by (cases "held s t") (auto intro: movesI [OF thread_step.give] movesI [OF thread_step.unlocked])
next
  assume "phase_of s t = Inside"
  then show "moves s"
    by (cases "reaches_unlock (handling s t)") (auto intro: movesI [OF thread_step.leave] movesI [OF thread_step.returned])
qed (auto intro: movesI [OF thread_step.locked])

lemma free_moves: "phase_of s t = Taking (m # ms) \<Longrightarrow> flag s m = 0 \<Longrightarrow> moves s"
  by (rule movesI [OF thread_step.take [where no_reason = False]]) (auto simp: flag_ops)

text \<open>A thread whose next mutex is lost.\<close>

definition waits_for_lost :: "world \<Rightarrow> nat \<Rightarrow> bool" where
  "waits_for_lost s u \<longleftrightarrow> (\<exists>m ms. phase_of s u = Taking (m # ms) \<and> m \<in> lost s)"

text \<open>The thread that waits for the greatest mutex waits for one whose holder can go on, if none is lost.\<close>

lemma some_thread_moves:
  assumes inv: "lock_inv s" and active: "phase_of s t \<noteq> Outside" and none: "\<And>u. \<not> waits_for_lost s u"
  shows "moves s"
proof (rule ccontr)
  assume stuck: "\<not> moves s"
  have waits: "\<exists>m ms. phase_of s u = Taking (m # ms) \<and> flag s m \<noteq> 0" if "phase_of s u \<noteq> Outside" for u
  proof (cases "phase_of s u")
    case (Taking ms)
    then show ?thesis
      using stuck not_taking_moves free_moves by (cases ms) blast+
  qed (use that stuck not_taking_moves in blast)+
  let ?want = "\<lambda>u. hd (to_take (phase_of s u))"
  define W where "W = ?want ` {u. phase_of s u \<noteq> Outside}"
  have "finite W" "W \<noteq> {}"
    using lock_invD(5) [OF inv] active by (auto simp: W_def)
  then have "Max W \<in> W"
    by (rule Max_in)
  then have "Max W \<in> ?want ` {u. phase_of s u \<noteq> Outside}"
    by (simp only: W_def)
  then obtain u where u: "phase_of s u \<noteq> Outside" "Max W = ?want u"
    by blast
  obtain m ms where m: "phase_of s u = Taking (m # ms)" "flag s m \<noteq> 0"
    using waits [OF u(1)] by blast
  obtain v where v: "m \<in> set (held s v)"
    using lock_invD(1) [OF inv] m none [of u] by (auto simp: waits_for_lost_def)
  then have "phase_of s v \<noteq> Outside"
    using lock_invD(4) [OF inv] by force
  then obtain m' ms' where m': "phase_of s v = Taking (m' # ms')"
    using waits by blast
  have "m < m'"
    using lock_invD(3) [OF inv, of v] v m' by (auto simp: sorted_wrt_append)
  moreover have "m' \<in> W"
    using m' \<open>phase_of s v \<noteq> Outside\<close> unfolding W_def by (intro image_eqI [of _ _ v]) auto
  ultimately show False
    using \<open>finite W\<close> u(2) m(1) Max_ge [of W m'] by simp
qed

text \<open>A lost mutex stays lost.\<close>

inductive thread_steps :: "world \<Rightarrow> world \<Rightarrow> bool" for s where
  none: "thread_steps s s"
| one_more: "thread_steps s s1 \<Longrightarrow> thread_step t s1 s2 \<Longrightarrow> thread_steps s s2"

lemma lost_step:
  assumes "thread_step t s s'" "lock_inv s" "waits_for_lost s u"
  shows "waits_for_lost s' u"
proof -
  obtain m ms where m: "phase_of s u = Taking (m # ms)" "m \<in> lost s"
    using assms(3) by (auto simp: waits_for_lost_def)
  then have up: "flag s m \<noteq> 0"
    using lock_invD(1) [OF assms(2)] by blast
  show ?thesis
    using assms(1) m up by cases (auto simp: waits_for_lost_def flag_ops)
qed

lemma lost_waits_for_ever:
  assumes "lock_inv s" "waits_for_lost s u" "thread_steps s s'"
  shows "waits_for_lost s' u"
proof -
  have "lock_inv s' \<and> waits_for_lost s' u"
    using assms(3) by induction (use assms(1,2) thread_step_inv lost_step in blast)+
  then show ?thesis
    by blast
qed

text \<open>
  C13: however the threads interleave, no mutex is held by two of them, so no two calls of \<open>handle\<close>
  work on the books of one engine at a time.
\<close>

theorem mutual_exclusion:
  assumes "reachable s" "m \<in> set (held s t)" "m \<in> set (held s u)"
  shows "t = u"
  using lock_invD(2) [OF lock_reachable_inv [OF assms(1)] assms(2,3)] .

text \<open>
  C14: threads that take any sets of mutexes never wait for each other in a circle. As long as one is not outside,
  some thread has a step ahead of it that takes, gives back or goes on, unless a thread waits for a mutex
  that a call of \<open>handle\<close> with an auction order of a stop side took and did not give back; and that thread then waits for ever.
\<close>

theorem no_deadlock:
  assumes "reachable s" "phase_of s t \<noteq> Outside"
  shows "(moves s \<or> (\<exists>u. waits_for_lost s u)) \<and> (\<forall>u s'. waits_for_lost s u \<longrightarrow> thread_steps s s' \<longrightarrow> waits_for_lost s' u)"
  using some_thread_moves [OF lock_reachable_inv [OF assms(1)] assms(2)] lost_waits_for_ever [OF lock_reachable_inv [OF assms(1)]] by blast

text \<open>A mutex is only lost by a call whose order keeps \<open>handle\<close> from its \<open>unlock\<close>.\<close>

lemma lost_by_auction_stop:
  assumes "thread_step t s s'" "lost s' \<noteq> lost s"
  shows "time_condition (handling s t) = AUCTION \<and> side (handling s t) \<noteq> BUY \<and> side (handling s t) \<noteq> SELL"
  using assms by cases (auto simp: reaches_unlock_def)

text \<open>Two threads: the first inside with mutex 1, the second with 0 taken and waiting for 1.\<close>

definition contended :: world where
  "contended = \<lparr>flag = (\<lambda>_. 0)(1 := 1, 0 := 1), phase_of = (\<lambda>_. Outside)(7 := Inside, 8 := Taking [1]),
     handling = (\<lambda>_. new_order), held = (\<lambda>_. [])(7 := [1], 8 := [0]), lost = {}\<rparr>"

lemma reachable_contended: "reachable contended"
proof -
  define s1 where "s1 = \<lparr>flag = (\<lambda>_. 0 :: u64), phase_of = (\<lambda>_. Outside)(7 := Taking [1]), handling = (\<lambda>_. new_order), held = (\<lambda>_. [] :: nat list), lost = {}\<rparr>"
  define s2 where "s2 = \<lparr>flag = (\<lambda>_. 0 :: u64)(1 := 1), phase_of = (\<lambda>_. Outside)(7 := Taking []), handling = (\<lambda>_. new_order), held = (\<lambda>_. [] :: nat list)(7 := [1]), lost = {}\<rparr>"
  define s3 where "s3 = \<lparr>flag = (\<lambda>_. 0 :: u64)(1 := 1), phase_of = (\<lambda>_. Outside)(7 := Inside), handling = (\<lambda>_. new_order), held = (\<lambda>_. [] :: nat list)(7 := [1]), lost = {}\<rparr>"
  define s4 where "s4 = \<lparr>flag = (\<lambda>_. 0 :: u64)(1 := 1), phase_of = (\<lambda>_. Outside)(7 := Inside, 8 := Taking [0, 1]), handling = (\<lambda>_. new_order), held = (\<lambda>_. [] :: nat list)(7 := [1]), lost = {}\<rparr>"
  note defs = s1_def s2_def s3_def s4_def contended_def new_world_def flag_ops fun_upd_idem
  have 1: "thread_step 7 new_world s1"
    using thread_step.call [of new_world 7 "[1]" new_order] by (simp add: defs)
  have 2: "thread_step 7 s1 s2"
    using thread_step.take [of s1 7 1 "[]" False 1] by (simp add: defs)
  have 3: "thread_step 7 s2 s3"
    using thread_step.locked [of s2 7] by (simp add: defs)
  have 4: "thread_step 8 s3 s4"
    using thread_step.call [of s3 8 "[0, 1]" new_order] by (simp add: defs)
  have 5: "thread_step 8 s4 contended"
    using thread_step.take [of s4 8 0 "[1]" False 1] by (simp add: defs)
  note run = reachable.step [OF reachable.step [OF reachable.step [OF reachable.start 1] 2] 3]
  show ?thesis
    by (rule reachable.step [OF reachable.step [OF run 4] 5])
qed

theorem mutual_exclusion_witness: "{u. 1 \<in> set (held contended u)} = {7}"
proof -
  have h: "1 \<in> set (held contended 7)"
    by (simp add: contended_def)
  then show ?thesis
    using mutual_exclusion [OF reachable_contended _ h] by blast
qed

theorem no_deadlock_witness: "phase_of contended 8 = Taking [1] \<and> moves contended"
proof -
  have p: "phase_of contended 8 = Taking [1]" and l: "\<nexists>u. waits_for_lost contended u"
    by (simp_all add: contended_def waits_for_lost_def)
  have "phase_of contended 8 \<noteq> Outside"
    by (simp add: p)
  from conjunct1 [OF no_deadlock [OF reachable_contended this]] l p show ?thesis
    by blast
qed

end
