(* ===== verification/Recovery.thy ===== *)
theory Recovery
  imports Example_Market
begin

text \<open>
  A dump of an engine and its recovery: the orders a dump sends out, inserted into a new engine in whatever
  order the map of orders was walked, give that engine the same books.
\<close>

section \<open>A book is determined by its entries\<close>

context price_order
begin

lemma first_level:
  assumes "wf_book cmp ((q, oids) # ls)"
  shows "takeWhile (\<lambda>en. fst en = q) (entries ((q, oids) # ls)) = map (Pair q) oids"
    "dropWhile (\<lambda>en. fst en = q) (entries ((q, oids) # ls)) = entries ls"
proof -
  have "fst en \<noteq> q" if "en \<in> set (entries ls)" for en
    using later_price [OF assms that] by simp
  then have "takeWhile (\<lambda>en. fst en = q) (entries ls) = []" "dropWhile (\<lambda>en. fst en = q) (entries ls) = entries ls"
    by (cases "entries ls"; auto)+
  then show "takeWhile (\<lambda>en. fst en = q) (entries ((q, oids) # ls)) = map (Pair q) oids"
    "dropWhile (\<lambda>en. fst en = q) (entries ((q, oids) # ls)) = entries ls"
    by (simp_all add: takeWhile_append dropWhile_append)
qed

lemma entries_inj: "wf_book cmp bk \<Longrightarrow> wf_book cmp bk' \<Longrightarrow> entries bk = entries bk' \<Longrightarrow> bk = bk'"
proof (induction bk arbitrary: bk')
  case Nil
  then show ?case
    by (cases bk') (auto simp: wf_book_Cons)
next
  case (Cons l ls)
  obtain q oids where l: "l = (q, oids)" "oids \<noteq> []"
    using Cons.prems(1) by (cases l) (simp add: wf_book_Cons)
  obtain q' oids' ls' where bk': "bk' = (q', oids') # ls'" "oids' \<noteq> []"
    using Cons.prems(2,3) l by (cases bk') (auto simp: wf_book_Cons)
  have q: "q = q'"
    using Cons.prems(3) l bk' by (cases oids; cases oids') auto
  have "map (Pair q) oids = map (Pair q') oids'" "entries ls = entries ls'"
    using first_level [OF Cons.prems(1) [unfolded l]] first_level [OF Cons.prems(2) [unfolded bk']] Cons.prems(3)
    unfolding l(1) bk'(1) q by metis+
  then have "oids = oids'" "ls = ls'"
    using Cons.IH [of ls'] Cons.prems(1,2) l bk' q by (auto simp: wf_book_Cons inj_on_def dest: map_injective)
  then show ?case
    using l bk' q by simp
qed

lemma wf_book_unique:
  assumes "wf_book cmp bk" "wf_book cmp bk'" "set (entries bk) = set (entries bk')"
  shows "bk = bk'"
proof (rule entries_inj [OF assms(1,2)])
  show "entries bk = entries bk'"
    by (rule sorted_wrt_set_unique [of "entry_before cmp"])
      (use assms wf_entries_sorted entry_before_asym in blast)+
qed

end

section \<open>Inserting dumped orders\<close>

text \<open>An order as it rests in a book of an engine without stop orders.\<close>

definition restorable :: "order \<Rightarrow> bool" where
  "restorable o1 \<longleftrightarrow> (side o1 = BUY \<or> side o1 = SELL) \<and> (order_action o1 = NEW \<or> order_action o1 = AMEND)
     \<and> time_condition o1 \<noteq> AUCTION"

definition idle :: "nat \<Rightarrow> sys \<Rightarrow> bool" where
  "idle e s \<longleftrightarrow> \<not> is_auction (engs s e) \<and> \<not> mutex (engs s e) \<and> mutex_set (engs s e) = [e]"

definition entries_on :: "order_side \<Rightarrow> order list \<Rightarrow> (ll \<times> u64) set" where
  "entries_on sd os = (\<lambda>o1. (price o1, order_id o1)) ` {o1 \<in> set os. side o1 = sd}"

text \<open>The engine holds exactly the orders \<open>os\<close>.\<close>

definition holds :: "nat \<Rightarrow> sys \<Rightarrow> order list \<Rightarrow> bool" where
  "holds e s os \<longleftrightarrow> slot s e = map_of (map (\<lambda>o1. (order_id o1, o1)) os)
     \<and> wf_book greater (bid_book (engs s e)) \<and> wf_book less (ask_book (engs s e))
     \<and> set (entries (bid_book (engs s e))) = entries_on BUY os \<and> set (entries (ask_book (engs s e))) = entries_on SELL os"

lemma same_action: "order_action o1 = x \<Longrightarrow> o1\<lparr>order_action := x\<rparr> = o1"
  by (cases o1) simp

lemma same_upd: "x = y \<Longrightarrow> f(a := x) = f(a := y)"
  by simp

lemma unlocked_engine: "\<not> mutex x \<Longrightarrow> x\<lparr>mutex := False\<rparr> = x"
  by (cases x) simp

lemma dump_order_action:
  assumes "restorable o1"
  shows "order_action (dump_order o1) = INSERT_NEW \<or> order_action (dump_order o1) = INSERT_AMEND"
    "(if order_action (dump_order o1) = INSERT_NEW then (dump_order o1)\<lparr>order_action := NEW\<rparr>
      else if order_action (dump_order o1) = INSERT_AMEND then (dump_order o1)\<lparr>order_action := AMEND\<rparr> else dump_order o1) = o1"
    "time_condition (dump_order o1) = time_condition o1" "side (dump_order o1) = side o1"
proof -
  have "order_action o1 = NEW \<or> order_action o1 = AMEND"
    using assms by (simp add: restorable_def)
  then consider "order_action o1 = NEW" "dump_order o1 = o1\<lparr>order_action := INSERT_NEW\<rparr>"
    | "order_action o1 = AMEND" "dump_order o1 = o1\<lparr>order_action := INSERT_AMEND\<rparr>"
    by (fastforce simp: dump_order_def)
  note cases = this
  show "order_action (dump_order o1) = INSERT_NEW \<or> order_action (dump_order o1) = INSERT_AMEND"
    by (cases rule: cases) simp_all
  show "(if order_action (dump_order o1) = INSERT_NEW then (dump_order o1)\<lparr>order_action := NEW\<rparr>
      else if order_action (dump_order o1) = INSERT_AMEND then (dump_order o1)\<lparr>order_action := AMEND\<rparr> else dump_order o1) = o1"
    by (cases rule: cases) (simp_all add: same_action)
  show "time_condition (dump_order o1) = time_condition o1" "side (dump_order o1) = side o1"
    by (cases rule: cases; simp)+
qed

lemma insert_one:
  assumes o1: "restorable o1" and idle: "idle e s"
  shows "submit (e, dump_order o1) s = Some (emit e o1 (upd_eng e (\<lambda>x. x\<lparr>odr_map := emplace (order_id o1) o1 (odr_map x),
     bid_book := (if side o1 = BUY then book_insert greater (price o1) (order_id o1) (bid_book x) else bid_book x),
     ask_book := (if side o1 = SELL then book_insert less (price o1) (order_id o1) (ask_book x) else ask_book x)\<rparr>) s)\<lparr>arg := o1\<rparr>)"
proof -
  note a = dump_order_action [OF o1]
  have tc: "time_condition o1 \<noteq> AUCTION" "side o1 = BUY \<or> side o1 = SELL"
    using o1 by (simp_all add: restorable_def)
  let ?s = "(upd_eng e (\<lambda>x. x\<lparr>mutex := True\<rparr>) s)\<lparr>arg := dump_order o1\<rparr>"
  have lock: "lock e (s\<lparr>arg := dump_order o1\<rparr>) = Some ?s"
    using idle by (simp add: lock_def idle_def)
  have upd: "upd_arg g ?s = ?s\<lparr>arg := g (dump_order o1)\<rparr>" for g
    by (simp add: upd_arg_def)
  have arg: "upd_arg (\<lambda>o1. if order_action o1 = INSERT_NEW then o1\<lparr>order_action := NEW\<rparr>
      else if order_action o1 = INSERT_AMEND then o1\<lparr>order_action := AMEND\<rparr> else o1) ?s = ?s\<lparr>arg := o1\<rparr>"
    unfolding upd a(2) by (rule refl)
  have "dispatch e ?s = handle_insert e ?s"
    using a(1) by (auto simp: dispatch_def)
  also have "\<dots> = Some (emit e o1 (if side o1 = BUY then insert_bid e (?s\<lparr>arg := o1\<rparr>) else insert_ask e (?s\<lparr>arg := o1\<rparr>)))"
    unfolding handle_insert_def Let_def arg using tc(2) by (auto simp: insert_bid_def insert_ask_def emplace_arg_def)
  finally have run: "handle e (s\<lparr>arg := dump_order o1\<rparr>) = Some (unlock e (finish_auction e
      (emit e o1 (if side o1 = BUY then insert_bid e (?s\<lparr>arg := o1\<rparr>) else insert_ask e (?s\<lparr>arg := o1\<rparr>)))))"
    using tc(1) a(3) by (simp add: handle_def lock)
  have un: "unlock e (finish_auction e t) = upd_eng e (\<lambda>x. x\<lparr>mutex := False\<rparr>) t" if "\<not> is_auction (engs t e)" "mutex_set (engs t e) = [e]" for t
    using that by (simp add: finish_auction_def unlock_def)
  have "(engs s e)\<lparr>mutex := False\<rparr> = engs s e"
    using idle by (simp add: idle_def unlocked_engine)
  then show ?thesis
    using tc(2) idle unfolding submit_def fst_conv snd_conv run
    by (elim disjE) (auto simp: un idle_def insert_bid_def insert_ask_def emplace_arg_def emit_def intro!: sys.equality engine.equality same_upd)
qed

lemma insert_holds:
  assumes o1: "restorable o1" and h: "idle e s" "holds e s os" and new: "order_id o1 \<notin> order_id ` set os"
  obtains s' where "submit (e, dump_order o1) s = Some s'" "idle e s'" "holds e s' (o1 # os)"
proof -
  define s' where "s' = emit e o1 (upd_eng e (\<lambda>x. x\<lparr>odr_map := emplace (order_id o1) o1 (odr_map x),
     bid_book := (if side o1 = BUY then book_insert greater (price o1) (order_id o1) (bid_book x) else bid_book x),
     ask_book := (if side o1 = SELL then book_insert less (price o1) (order_id o1) (ask_book x) else ask_book x)\<rparr>) s)\<lparr>arg := o1\<rparr>"
  have run: "submit (e, dump_order o1) s = Some s'"
    using insert_one [OF o1 h(1)] by (simp add: s'_def)
  have i: "idle e s'"
    using h(1) by (simp add: s'_def idle_def emit_def)
  have absent: "map_of (odr_map (engs s e)) (order_id o1) = None"
    using h(2) new by (force simp: holds_def slot_def fun_eq_iff map_of_eq_None_iff)
  have "slot s' e = map_of (map (\<lambda>o1. (order_id o1, o1)) (o1 # os))"
    using h(2) absent by (auto simp: s'_def slot_def holds_def emit_def map_of_emplace fun_eq_iff)
  moreover have "wf_book greater (bid_book (engs s' e)) \<and> set (entries (bid_book (engs s' e))) = entries_on BUY (o1 # os)"
    using h(2) greater.wf_book_insert greater.book_insert_entries by (auto simp: s'_def holds_def emit_def entries_on_def)
  moreover have "wf_book less (ask_book (engs s' e)) \<and> set (entries (ask_book (engs s' e))) = entries_on SELL (o1 # os)"
    using h(2) less.wf_book_insert less.book_insert_entries by (auto simp: s'_def holds_def emit_def entries_on_def)
  ultimately show thesis
    using that [OF run i] by (simp add: holds_def)
qed

lemma insert_all:
  "\<forall>o1 \<in> set os. restorable o1 \<Longrightarrow> distinct (map order_id (os @ ps)) \<Longrightarrow> idle e s \<Longrightarrow> holds e s ps \<Longrightarrow>
    \<exists>s'. submits (map (Pair e) (map dump_order os)) s = Some s' \<and> idle e s' \<and> holds e s' (rev os @ ps)"
proof (induction os arbitrary: s ps)
  case (Cons o1 os)
  obtain s1 where s1: "submit (e, dump_order o1) s = Some s1" "idle e s1" "holds e s1 (o1 # ps)"
    using insert_holds [of o1 e s ps] Cons.prems by auto
  then show ?case
    using Cons.IH [of "o1 # ps" s1] Cons.prems(1,2) by auto
qed simp

section \<open>Dumping\<close>

lemma slot_map: "slot s e = map_of (odr_map (engs s e))"
  by (simp add: slot_def fun_eq_iff)

lemma slot_of_side:
  assumes inv: "books_inv e s" and o1: "slot s e j = Some o1"
  shows "order_id o1 = j"
    "side o1 = BUY \<and> (price o1, j) \<in> set (entries (bid_book (engs s e)))
     \<or> side o1 = SELL \<and> (price o1, j) \<in> set (entries (ask_book (engs s e)))"
proof -
  have "j \<in> snd ` set (entries (ask_book (engs s e))) \<or> j \<in> snd ` set (entries (bid_book (engs s e)))"
    using inv o1 by (auto simp: books_inv_def booked_def walked_def book_ids_def)
  moreover have "wf_resting BUY px j o1" if "(px, j) \<in> set (entries (ask_book (engs s e)))" for px
    using inv o1 that by (fastforce simp: books_inv_def wf_side_def walked_def)
  moreover have "wf_resting SELL px j o1" if "(px, j) \<in> set (entries (bid_book (engs s e)))" for px
    using inv o1 that by (fastforce simp: books_inv_def wf_side_def walked_def)
  ultimately show "order_id o1 = j" "side o1 = BUY \<and> (price o1, j) \<in> set (entries (bid_book (engs s e)))
     \<or> side o1 = SELL \<and> (price o1, j) \<in> set (entries (ask_book (engs s e)))"
    by (fastforce simp: wf_resting_def own_side_def)+
qed

lemma entry_slot:
  assumes inv: "books_inv e s"
  shows "(px, j) \<in> set (entries (bid_book (engs s e))) \<Longrightarrow> \<exists>o1. slot s e j = Some o1 \<and> side o1 = BUY \<and> price o1 = px"
    "(px, j) \<in> set (entries (ask_book (engs s e))) \<Longrightarrow> \<exists>o1. slot s e j = Some o1 \<and> side o1 = SELL \<and> price o1 = px"
  using inv by (fastforce simp: books_inv_def wf_side_def walked_def wf_resting_def own_side_def split: option.splits)+

lemma walk_map_orders:
  assumes inv: "books_inv e s" and perm: "mset (umap_order s (map fst (odr_map (engs s e)))) = mset (map fst (odr_map (engs s e)))"
  shows "distinct (map order_id (walk_map s e))" "set (walk_map s e) = Map.ran (slot s e)"
proof -
  let ?js = "umap_order s (map fst (odr_map (engs s e)))"
  have js: "set ?js = dom (slot s e)" "distinct ?js"
    using inv mset_eq_setD [OF perm] mset_eq_imp_distinct_iff [OF perm]
    by (simp_all add: slot_map dom_map_of_conv_image_fst books_inv_def)
  have walk: "walk_map s e = map (\<lambda>j. the (slot s e j)) ?js"
    unfolding walk_map_def map_filter_def using js(1) by (auto simp: filter_id_conv dom_def)
  have ids: "map order_id (walk_map s e) = ?js"
    unfolding walk map_map comp_def using js(1) slot_of_side(1) [OF inv] by (intro map_idI) force
  then show "distinct (map order_id (walk_map s e))"
    using js(2) by simp
  show "set (walk_map s e) = Map.ran (slot s e)"
    using js(1) by (force simp: walk Map.ran_def dom_def)
qed

lemma books_hold:
  assumes inv: "books_inv e s" and os: "distinct (map order_id os)" "set os = Map.ran (slot s e)"
  shows "holds e s os"
proof -
  have "slot s e j = map_of (map (\<lambda>o1. (order_id o1, o1)) os) j" for j
  proof (cases "slot s e j")
    case None
    have "order_id o1 \<noteq> j" if "o1 \<in> set os" for o1
      using that os(2) None slot_of_side(1) [OF inv] by (force simp: Map.ran_def)
    then have "map_of (map (\<lambda>o1. (order_id o1, o1)) os) j = None"
      by (force simp: map_of_eq_None_iff)
    then show ?thesis
      using None by simp
  next
    case (Some o1)
    then have "(j, o1) \<in> set (map (\<lambda>o1. (order_id o1, o1)) os)"
      using os(2) slot_of_side(1) [OF inv Some] by (force simp: Map.ran_def)
    then show ?thesis
      using Some os(1) by (simp add: map_of_eq_Some_iff comp_def)
  qed
  moreover have "set (entries (bid_book (engs s e))) = entries_on BUY os" "set (entries (ask_book (engs s e))) = entries_on SELL os"
    unfolding entries_on_def os(2) using entry_slot [OF inv] slot_of_side [OF inv]
    by (auto simp: Map.ran_def image_iff) (metis order_side.distinct)+
  ultimately show ?thesis
    using inv by (auto simp: holds_def books_inv_def wf_side_def walked_def side_cmp_def)
qed

lemma dump_sends:
  assumes "idle e s" "order_action d = DUMP" "time_condition d \<noteq> AUCTION"
  obtains s1 where "submit (e, d) s = Some s1"
    "out s1 = out s @ map (Pair e) (map dump_order (walk_map s e) @ [new_order\<lparr>order_action := DUMP_END\<rparr>])"
proof -
  have emits: "fold (emit e) os t = t\<lparr>out := out t @ map (Pair e) os\<rparr>" for os t
    by (induction os arbitrary: t) (simp_all add: emit_def)
  have walk: "walk_map (s\<lparr>arg := d, engs := (engs s)(e := engs s e\<lparr>mutex := True\<rparr>)\<rparr>) e = walk_map s e"
    by (simp add: walk_map_def slot_map)
  show thesis
    by (rule that [of "the (submit (e, d) s)"])
      (use assms in \<open>auto simp: submit_def handle_def lock_def idle_def dispatch_def handle_dump_def emits finish_auction_def unlock_def walk emit_def\<close>)
qed

section \<open>Recovery\<close>

lemma map_of_rev_distinct: "distinct (map fst xs) \<Longrightarrow> map_of (rev xs) = map_of xs"
  by (rule ext) (metis map_of_eq_Some_iff distinct_rev rev_map set_rev not_Some_eq)

text \<open>
  C10: take an engine that has only buy and sell orders: no stop orders, no auction orders and no impliers. The orders that
  its dump sends out, in whatever order its map is walked, can all be inserted into a new engine, which then has
  the same bids, asks and orders, byte for byte of every order. This is not so with stop orders: a sell stop order that is
  inserted goes to the buy stop orders (\<open>sell_stop_inserted_with_buy_stops\<close>).
\<close>

theorem dump_restores_engine:
  assumes "plain_inv e s" "\<forall>o1 \<in> Map.ran (slot s e). restorable o1"
    and "mset (umap_order s (map fst (odr_map (engs s e)))) = mset (map fst (odr_map (engs s e)))"
    and "order_action d = DUMP" "time_condition d \<noteq> AUCTION" "engs s0 e' = new_engine e' tick"
  shows "\<exists>os s1 s2. submit (e, d) s = Some s1 \<and> out s1 = out s @ map (Pair e) (os @ [new_order\<lparr>order_action := DUMP_END\<rparr>])
    \<and> submits (map (Pair e') os) s0 = Some s2
    \<and> bid_book (engs s2 e') = bid_book (engs s e) \<and> ask_book (engs s2 e') = ask_book (engs s e) \<and> slot s2 e' = slot s e"
proof -
  have inv: "books_inv e s" "idle e s"
    using assms(1) by (simp_all add: plain_inv_def idle_def)
  let ?ws = "walk_map s e"
  note ws = walk_map_orders [OF inv(1) assms(3)]
  have h: "holds e s ?ws"
    by (rule books_hold [OF inv(1) ws])
  have new: "idle e' s0" "holds e' s0 []"
    using assms(6) by (simp_all add: idle_def holds_def new_engine_def slot_def fun_eq_iff wf_book_def entries_on_def)
  obtain s1 where s1: "submit (e, d) s = Some s1"
    "out s1 = out s @ map (Pair e) (map dump_order ?ws @ [new_order\<lparr>order_action := DUMP_END\<rparr>])"
    using dump_sends [OF inv(2) assms(4,5)] .
  obtain s2 where s2: "submits (map (Pair e') (map dump_order ?ws)) s0 = Some s2" "holds e' s2 (rev ?ws)"
    using insert_all [OF _ _ new, of ?ws] ws assms(2) by auto
  have "bid_book (engs s2 e') = bid_book (engs s e)"
    by (rule greater.wf_book_unique) (use h s2(2) in \<open>auto simp: holds_def entries_on_def\<close>)
  moreover have "ask_book (engs s2 e') = ask_book (engs s e)"
    by (rule less.wf_book_unique) (use h s2(2) in \<open>auto simp: holds_def entries_on_def\<close>)
  moreover have "slot s2 e' = slot s e"
  proof -
    have "distinct (map fst (map (\<lambda>o1. (order_id o1, o1)) ?ws))"
      using ws(1) by (simp add: comp_def)
    from map_of_rev_distinct [OF this] show ?thesis
      using h s2(2) by (simp add: holds_def rev_map)
  qed
  ultimately show ?thesis
    using s1 s2(1) by blast
qed

theorem dump_restores_engine_witness:
  "\<exists>os s1 s2. submit (0, new_order\<lparr>order_action := DUMP\<rparr>) asks_market = Some s1 \<and> out s1 = map (Pair 0) (os @ [new_order\<lparr>order_action := DUMP_END\<rparr>])
    \<and> submits (map (Pair 1) os) (init_sys (\<lambda>_. (0, 0)) 9 1) = Some s2 \<and> ask_book (engs s2 1) = [(100, [1]), (101, [2])]"
proof -
  have "\<forall>o1 \<in> Map.ran (slot asks_market 0). restorable o1"
    by (auto simp: Map.ran_def restorable_def split: if_splits) (simp_all add: example_defs)
  then show ?thesis
    using dump_restores_engine [of 0 asks_market "new_order\<lparr>order_action := DUMP\<rparr>" "init_sys (\<lambda>_. (0, 0)) 9 1" 1 1] market_inv
    by (auto simp: asks_market_def init_sys_def new_order_def)
qed

end
