(* ===== verification/Engine_Defects.thy ===== *)
theory Engine_Defects
  imports Example_Market
begin

text \<open>
  Behaviour of the engine that its own comments and the rest of the code do not expect, each shown on the
  model.
\<close>

section \<open>An auction order for a stop side\<close>

text \<open>
  \<open>handle\<close> returns from inside the check of an auction order without giving back its mutexes: no later call to the
  engine gets past \<open>lock\<close>.
\<close>

lemma auction_stop_keeps_lock:
  assumes "mutex_set (engs s e) = [e]" "\<not> mutex (engs s e)"
    and "time_condition o1 = AUCTION" "side o1 \<noteq> BUY" "side o1 \<noteq> SELL"
  shows "\<exists>s1. submit (e, o1) s = Some s1 \<and> (\<forall>o2. submit (e, o2) s1 = None)"
  using assms by (simp add: submit_def handle_def lock_def upd_arg_def emit_def)

section \<open>Inserting a sell stop order\<close>

definition dumped_sell_stop :: order where
  "dumped_sell_stop = new_order\<lparr>order_id := 5, order_action := INSERT_NEW, side := SELL_STOP, quantity := 3, remain_quantity := 3,
     price := STOP_PRICE, sell_stop_trigger_price := 90, sell_stop_limit_price := 89\<rparr>"

text \<open>A sell stop order is put into the book of buy stop orders, at its buy trigger price.\<close>

lemma sell_stop_inserted_with_buy_stops:
  "map_option (\<lambda>s. (bid_stop_book (engs s 0), ask_stop_book (engs s 0))) (submit (0, dumped_sell_stop) asks_market)
    = Some ([(0, [5])], [])"
  by code_simp

section \<open>Triggering stop orders\<close>

definition buy_stop_at_101 :: order where
  "buy_stop_at_101 = new_order\<lparr>side := BUY_STOP, quantity := 3, display_quantity := 3, buy_stop_trigger_price := 101, buy_stop_limit_price := 105\<rparr>"

definition buy_at_100 :: "u64 \<Rightarrow> order" where
  "buy_at_100 n = new_order\<lparr>side := BUY, price := 100, quantity := n, display_quantity := n\<rparr>"

definition orders_after :: "(nat \<times> order) list \<Rightarrow> (u64 \<times> order_side \<times> u64) list option" where
  "orders_after eos = map_option (\<lambda>s. map (\<lambda>(i, o1). (i, side o1, remain_quantity o1)) (odr_map (engs s 0))) (submits eos asks_market)"

text \<open>
  An order that is filled moves the best price without triggering stop orders: the stop orders are only looked
  at when something of the new order is left. Here the best ask goes from 100 to 101 and the buy stop
  order at 101 waits on.
\<close>

lemma filled_order_triggers_no_stop:
  "orders_after [(0, buy_stop_at_101), (0, buy_at_100 5)] = Some [(2, SELL, 4), (3, BUY_STOP, 3)]"
  by code_simp

end
