(* ===== verification/Uncrossed.thy ===== *)
theory Uncrossed
  imports Plain_Runs
begin

text \<open>
  The best bid stays below the best ask: shown for every operation of a plain engine on the prices that rest
  on its two sides, then for any sequence of calls.
\<close>

section \<open>The prices of the two sides\<close>

definition prices :: "sys \<Rightarrow> nat \<Rightarrow> order_side \<Rightarrow> ll set" where
  "prices s e sd = price ` set (orders_of s e sd)"

text \<open>
  No two prices cross, and all of them are at most \<open>K\<close> in size, so that moving one by a tick does
  not wrap around.
\<close>

definition apart :: "nat \<Rightarrow> int \<Rightarrow> sys \<Rightarrow> bool" where
  "apart e K s \<longleftrightarrow> (\<forall>sd p. two_sided sd \<longrightarrow> p \<in> prices s e sd \<longrightarrow>
     \<bar>p\<bar> \<le> K \<and> (\<forall>q \<in> prices s e (own_side sd). side_cmp sd q p))"

definition fits :: "int \<Rightarrow> order \<Rightarrow> bool" where
  "fits K o1 \<longleftrightarrow> price o1 = MARKET_PRICE \<or> \<bar>price o1\<bar> \<le> K"

text \<open>Why a match ends: nothing is left of the order, or nothing it may trade with.\<close>

definition halted :: "nat \<Rightarrow> order_side \<Rightarrow> sys \<Rightarrow> bool" where
  "halted e sd s \<longleftrightarrow> remain_quantity (arg s) = 0 \<or> prices s e sd = {}
     \<or> price (arg s) \<noteq> MARKET_PRICE \<and> (\<forall>p \<in> prices s e sd. side_cmp sd (price (arg s)) p)"

lemma prices_frame [simp]:
  "prices (record_event e' o1 s) e sd = prices s e sd" "prices (s\<lparr>ticks := n\<rparr>) e sd = prices s e sd"
  "prices (s\<lparr>arg := a\<rparr>) e sd = prices s e sd" "prices (s\<lparr>ids := i\<rparr>) e sd = prices s e sd"
  "prices (set_mat_local e' sd2 it s) e sd = prices s e sd"
  by (simp_all add: prices_def)

lemma apart_frame [simp]:
  "apart e K (record_event e' o1 s) = apart e K s" "apart e K (s\<lparr>ticks := n\<rparr>) = apart e K s"
  "apart e K (s\<lparr>arg := a\<rparr>) = apart e K s" "apart e K (s\<lparr>ids := i\<rparr>) = apart e K s"
  "apart e K (set_mat_local e' sd2 it s) = apart e K s"
  by (simp_all add: apart_def)

lemma side_cmp_own: "two_sided sd \<Longrightarrow> side_cmp (own_side sd) q p = side_cmp sd p q"
  by (auto simp: side_cmp_def own_side_def less_def greater_def)

lemma apartD:
  assumes "apart e K s" "two_sided sd" "p \<in> prices s e sd"
  shows "\<bar>p\<bar> \<le> K" "q \<in> prices s e (own_side sd) \<Longrightarrow> side_cmp sd q p"
  using assms by (auto simp: apart_def)

text \<open>It is enough to look from one side.\<close>

lemma apartI:
  assumes "two_sided sd" "\<And>p. p \<in> prices s e sd \<Longrightarrow> \<bar>p\<bar> \<le> K" "\<And>p. p \<in> prices s e (own_side sd) \<Longrightarrow> \<bar>p\<bar> \<le> K"
    and "\<And>p q. p \<in> prices s e sd \<Longrightarrow> q \<in> prices s e (own_side sd) \<Longrightarrow> side_cmp sd q p"
  shows "apart e K s"
  unfolding apart_def
proof (intro allI impI conjI ballI)
  fix sd' p assume sd': "two_sided sd'" and p: "p \<in> prices s e sd'"
  then have which: "sd' = sd \<or> sd' = own_side sd"
    using assms(1) by auto
  then show "\<bar>p\<bar> \<le> K"
    using assms(2,3) p by blast
  fix q assume "q \<in> prices s e (own_side sd')"
  then show "side_cmp sd' q p"
    using which assms(1,4) p by (metis own_own side_cmp_own)
qed

lemma apart_shrink:
  assumes "apart e K s" "\<And>sd. two_sided sd \<Longrightarrow> prices s' e sd \<subseteq> prices s e sd" "K \<le> K'"
  shows "apart e K' s'"
proof (rule apartI [of BUY])
  show "\<bar>p\<bar> \<le> K'" if "p \<in> prices s' e BUY" for p
    using apartD(1) [OF assms(1), of BUY p] assms(2) [of BUY] assms(3) that by fastforce
  show "\<bar>p\<bar> \<le> K'" if "p \<in> prices s' e (own_side BUY)" for p
    using apartD(1) [OF assms(1), of SELL p] assms(2) [of SELL] assms(3) that by fastforce
  show "side_cmp BUY q p" if "p \<in> prices s' e BUY" "q \<in> prices s' e (own_side BUY)" for p q
    using apartD(2) [OF assms(1), of BUY p q] assms(2) [of BUY] assms(2) [of SELL] that by auto
qed simp

lemma apart_mono: "apart e K s \<Longrightarrow> K \<le> K' \<Longrightarrow> apart e K' s"
  by (rule apart_shrink) auto

lemma top_is_best:
  assumes wf: "wf_side s e sd" and os: "orders_of s e sd = m # ms" and p: "p \<in> prices s e sd"
  shows "p = price m \<or> side_cmp sd (price m) p"
proof -
  obtain js ls where w: "walked (engs s e) sd = (price m, order_id m # js) # ls"
    using wf os by (rule top_level)
  have wb: "wf_book (side_cmp sd) ((price m, order_id m # js) # ls)"
    using wf w by (simp add: wf_side_def)
  obtain x where x: "x \<in> set (orders_of s e sd)" "p = price x"
    using p by (auto simp: prices_def)
  then have "(p, order_id x) \<in> set (entries ((price m, order_id m # js) # ls))"
    using orders_of_slot(3) [OF wf x(1)] w by simp
  then show ?thesis
    using side.later_price(1) [OF wb] by auto
qed

section \<open>Resting\<close>

lemma queue_in_prices: "price ` set (queue_in cmp o1 os) \<subseteq> insert (price o1) (price ` set os)"
  by (auto simp: queue_in_def)

lemma rests_apart:
  assumes r: "rests e sd s s'" and sd: "two_sided sd" and ap: "apart e K s" and px: "\<bar>price (arg s)\<bar> \<le> K"
    and clear: "\<And>p. p \<in> prices s e sd \<Longrightarrow> side_cmp sd (price (arg s)) p"
  shows "apart e K s'"
proof -
  have same: "prices s' e sd = prices s e sd"
    using r by (simp add: rests_def prices_def)
  have own: "prices s' e (own_side sd) \<subseteq> insert (price (arg s)) (prices s e (own_side sd))"
    using r queue_in_prices by (simp add: rests_def prices_def)
  show ?thesis
  proof (rule apartI [OF sd])
    show "\<bar>p\<bar> \<le> K" if "p \<in> prices s' e sd" for p
      using apartD(1) [OF ap sd] that same by simp
    show "\<bar>p\<bar> \<le> K" if "p \<in> prices s' e (own_side sd)" for p
      using apartD(1) [OF ap two_sided_own] that own px by blast
    show "side_cmp sd q p" if "p \<in> prices s' e sd" "q \<in> prices s' e (own_side sd)" for p q
      using apartD(2) [OF ap sd] that same own clear by blast
  qed
qed

lemma finish_rest_apart:
  assumes inv: "books_inv e s" and sd: "two_sided sd" and new: "slot s e (order_id (arg s)) = None"
    and o1: "price (arg s) \<noteq> MARKET_PRICE" "remain_quantity (arg s) \<noteq> 0" "side (arg s) = sd"
    and ap: "apart e K s" "\<bar>price (arg s)\<bar> \<le> K" "\<And>p. p \<in> prices s e sd \<Longrightarrow> side_cmp sd (price (arg s)) p"
    and run: "finish_rest e sd Arg s = Some s'"
  shows "apart e K s'"
proof -
  have "wf_resting (own_side sd) (price (arg s)) (order_id (arg s)) (arg s)"
    using o1 sd by (simp add: wf_resting_def)
  then obtain s1 where "finish_rest e sd Arg s = Some s1" "rests e sd s s1"
    using finish_rest_plain [OF inv sd new] by blast
  then show ?thesis
    using rests_apart [OF _ sd ap] run by simp
qed

lemma match_finish_apart:
  assumes inv: "books_inv e s" and sd: "two_sided sd" and new: "slot s e (order_id (arg s)) = None" and side: "side (arg s) = sd"
    and ap: "apart e K s" "fits K (arg s)" "halted e sd s" and run: "match_finish e sd Arg s = Some s'"
  shows "apart e K s'"
proof -
  have stop: "finish_cancel e Arg st s0 = Some s' \<Longrightarrow> apart e K s0 \<Longrightarrow> apart e K s'" for st s0
    by (auto simp: finish_cancel_eq Let_def)
  consider "remain_quantity (arg s) = 0 \<or> time_condition (arg s) = IOC \<or> time_condition (arg s) = AUCTION"
    | "remain_quantity (arg s) \<noteq> 0" "price (arg s) \<noteq> MARKET_PRICE" "finish_rest e sd Arg s = Some s'"
    | "remain_quantity (arg s) \<noteq> 0" "time_condition (arg s) \<noteq> IOC" "time_condition (arg s) \<noteq> AUCTION" "price (arg s) = MARKET_PRICE"
    using run by (auto simp: match_finish_def split: if_splits)
  then show ?thesis
  proof cases
    case 1
    then show ?thesis
      using run stop ap(1) by (auto simp: match_finish_def split: if_splits)
  next
    case 2
    then show ?thesis
      using finish_rest_apart [OF inv sd new _ _ side ap(1)] ap(2,3) by (auto simp: fits_def halted_def)
  next
    case 3
    let ?px = "top_of (orders_of s e (own_side sd))"
    have none: "prices s e sd = {}"
      using 3 ap(3) by (simp add: halted_def)
    obtain it where it: "(if sd = BUY then best_bid e s else best_ask e s) = Some (?px, set_mat_local e (own_side sd) it s)"
      "books_inv e (set_mat_local e (own_side sd) it s)"
      using top_of_own [OF inv sd] by blast
    define s2 where "s2 = (set_mat_local e (own_side sd) it s)\<lparr>arg := (arg s)\<lparr>price := ?px\<rparr>\<rparr>"
    have run2: "(if ?px = MARKET_PRICE then finish_cancel e Arg CANCELED_BY_MARKET_ORDER_NOTHING_MATCH s2
        else finish_rest e sd Arg s2) = Some s'"
      using 3 run it(1) by (auto simp: match_finish_def s2_def Let_def split: if_splits)
    have s2: "books_inv e s2" "apart e K s2" "slot s2 e (order_id (arg s2)) = None" "prices s2 e sd = {}"
      "price (arg s2) = ?px" "remain_quantity (arg s2) \<noteq> 0" "side (arg s2) = sd"
      using it(2) ap(1) new none 3 side by (simp_all add: s2_def)
    show ?thesis
    proof (cases "?px = MARKET_PRICE")
      case False
      then have "?px \<in> prices s e (own_side sd)"
        by (auto simp: top_of_def prices_def split: list.splits)
      then have "\<bar>price (arg s2)\<bar> \<le> K"
        using apartD(1) [OF ap(1) two_sided_own] s2(5) by simp
      then show ?thesis
        using False run2 finish_rest_apart [OF s2(1) sd s2(3) _ s2(6,7,2)] s2(4,5) by auto
    qed (use run2 stop s2(2) in auto)
  qed
qed

section \<open>Matching\<close>

lemma prices_quotes: "prices s e sd = set (map (\<lambda>q. fst (snd q)) (map quote_of (orders_of s e sd)))"
  by (simp add: prices_def quote_of_def comp_def)

lemma sweep_prices:
  "sweep cmp lmt n qs = (fs, n', qs') \<Longrightarrow> set (map (\<lambda>q. fst (snd q)) qs') \<subseteq> set (map (\<lambda>q. fst (snd q)) qs)"
proof (induction cmp lmt n qs arbitrary: fs rule: sweep.induct)
  case (2 cmp lmt n j p r qs)
  show ?case
  proof (cases "n = 0 \<or> lmt \<noteq> MARKET_PRICE \<and> cmp lmt p")
    case False
    show ?thesis
    proof (cases "r \<le> n")
      case True
      then obtain gs where "sweep cmp lmt (n - r) qs = (gs, n', qs')"
        using 2(2) False by (auto split: prod.splits)
      from 2(1) [OF False True this] show ?thesis
        by auto
    next
      case nq: False
      then show ?thesis
        using 2(2) False by auto
    qed
  qed (use 2 in auto)
qed simp

lemma swept_prices:
  assumes inv: "books_inv e s" and sd: "two_sided sd" and sw: "swept cmp e sd s s'" and sd': "two_sided sd'"
  shows "prices s' e sd' \<subseteq> prices s e sd'"
proof -
  obtain fs n qs where f: "sweep cmp (price (arg s)) (remain_quantity (arg s)) (map quote_of (orders_of s e sd)) = (fs, n, qs)"
    "map quote_of (orders_of s' e sd) = qs" and p: "progress e sd s s'"
    using sw by (auto simp: swept_def split: prod.splits)
  have "prices s' e sd \<subseteq> prices s e sd"
    unfolding prices_quotes f(2) by (rule sweep_prices [OF f(1)])
  moreover have "prices s' e (own_side sd) = prices s e (own_side sd)"
    using wf_other(2) [OF p books_invD(1,2) [OF inv sd] own_side_opposite] by (simp add: prices_def)
  ultimately show ?thesis
    using sd sd' by auto
qed

lemma halted_top:
  assumes wf: "wf_side s e sd" and os: "orders_of s e sd = m # ms"
    and px: "price (arg s) \<noteq> MARKET_PRICE" "side_cmp sd (price (arg s)) (price m)"
  shows "halted e sd s"
  using px top_is_best [OF wf os] side.cmp_trans [of sd "price (arg s)" "price m"] unfolding halted_def by blast

lemma swept_halted:
  assumes sw: "swept (side_cmp sd) e sd s s'"
  shows "halted e sd s'"
proof -
  obtain fs n qs where f: "sweep (side_cmp sd) (price (arg s)) (remain_quantity (arg s)) (map quote_of (orders_of s e sd)) = (fs, n, qs)"
    "map quote_of (orders_of s' e sd) = qs" "remain_quantity (arg s') = n" and p: "progress e sd s s'" and wf: "wf_side s' e sd"
    using sw by (auto simp: swept_def split: prod.splits)
  show ?thesis
  proof (cases "orders_of s' e sd")
    case (Cons m ms)
    then have "n = 0 \<or> price (arg s') \<noteq> MARKET_PRICE \<and> side_cmp sd (price (arg s')) (price m)"
      using sweep_stops [OF f(1)] f(2) progressD(2) [OF p] by (auto simp: quote_of_def)
    then show ?thesis
      using halted_top [OF wf Cons] f(3) by (auto simp: halted_def)
  qed (simp add: halted_def prices_def)
qed

lemma match_loop_apart:
  assumes inv: "books_inv e s" and sd: "two_sided sd" and top: "at_top s e sd (mat_local s e sd)"
    and ap: "apart e K s" "fits K (arg s)" and t: "0 < t" "K + t < LL_MAX"
    and run: "match_loop (side_cmp sd) e sd Arg (if sd = BUY then - t else t) s = Some (ret, s')"
  shows "apart e (K + t) s'" "fits (K + t) (arg s')" "\<not> ret \<Longrightarrow> halted e sd s'"
proof -
  note inv' = books_invD [OF inv sd]
  have K: "apart e (K + t) s" "fits (K + t) (arg s)"
    using ap t apart_mono [of e K s "K + t"] by (auto simp: fits_def)
  have "apart e (K + t) s' \<and> fits (K + t) (arg s') \<and> (\<not> ret \<longrightarrow> halted e sd s')"
  proof (cases "time_condition (arg s) = MAKER_ONLY \<or> time_condition (arg s) = MAKER_ONLY_REPRICE")
    case False
    then obtain s1 where "match_loop (side_cmp sd) e sd Arg (if sd = BUY then - t else t) s = Some (False, s1)"
      "swept (side_cmp sd) e sd s s1"
      using match_loop_sweeps [OF inv'(1,2) top inv'(3)] by blast
    then have sw: "swept (side_cmp sd) e sd s s'"
      using run by simp
    then have "progress e sd s s'"
      by (auto simp: swept_def split: prod.splits)
    then have "price (arg s') = price (arg s)"
      using progressD(2) by blast
    then show ?thesis
      using apart_shrink [OF ap(1) swept_prices [OF inv sd sw], of "K + t"] swept_halted [OF sw] K(2) t(1)
      by (simp add: fits_def)
  next
    case only: True
    show ?thesis
    proof (cases "orders_of s e sd")
      case Nil
      then have "s' = s"
        using run matcher_top_local [OF inv'(1,2) top inv'(3)] by (subst (asm) match_loop.simps) (auto split: if_splits)
      then show ?thesis
        using K Nil by (simp add: halted_def prices_def)
    next
      case (Cons m ms)
      define t' where "t' = (if sd = BUY then - t else t)"
      have mem: "price m \<in> prices s e sd"
        by (simp add: prices_def Cons)
      have m: "price m \<noteq> MARKET_PRICE" "\<bar>price m\<bar> \<le> K"
        using orders_of_slot(2) [OF inv'(1), of m] apartD(1) [OF ap(1) sd mem] by (simp_all add: Cons wf_resting_def)
      have "is_ll (price m + t')"
        using m(2) t by (auto simp: t'_def is_ll_def LL_MIN_def LL_MAX_def)
      then have step: "ll_add (price m) t' = price m + t'" "\<bar>price m + t'\<bar> \<le> K + t" "price m + t' \<noteq> MARKET_PRICE"
        "side_cmp sd (price m + t') (price m)"
        using m(2) t by (auto simp: t'_def ll_add_exact LL_MAX_def MARKET_PRICE_def side_cmp_def less_def greater_def)
      consider "s' = s" "remain_quantity (arg s) = 0 \<or> price (arg s) \<noteq> MARKET_PRICE \<and> side_cmp sd (price (arg s)) (price m)"
        | a where "ret" "s' = record_event e a ((ticked s)\<lparr>arg := a\<rparr>)" "price a = price (arg s)"
        | "s' = s\<lparr>arg := (arg s)\<lparr>price := price m + t'\<rparr>\<rparr>"
        using run only m(1) matcher_top_local [OF inv'(1,2) top inv'(3), of "side_cmp sd"] unfolding t'_def [symmetric]
        by (subst (asm) match_loop.simps) (auto simp: Cons callback_eq step(1) split: if_splits)
      then show ?thesis
      proof cases
        case 1
        then show ?thesis
          using K halted_top [OF inv'(1) Cons] by (auto simp: halted_def)
      next
        case 2
        then show ?thesis
          using K by (simp add: fits_def)
      next
        case 3
        have "halted e sd s'"
          unfolding 3 using inv'(1) Cons step(3,4) by (intro halted_top [of _ e sd m ms]) simp_all
        then show ?thesis
          using K step(2) by (simp add: 3 fits_def)
      qed
    qed
  qed
  then show "apart e (K + t) s'" "fits (K + t) (arg s')" "\<not> ret \<Longrightarrow> halted e sd s'"
    by blast+
qed

lemma normal_match_apart:
  assumes inv: "books_inv e s" and sd: "two_sided sd" and new: "slot s e (order_id (arg s)) = None" and side: "side (arg s) = sd"
    and ap: "apart e K s" "fits K (arg s)" and t: "0 < t" "K + t < LL_MAX"
    and run: "normal_match (side_cmp sd) e sd Arg (if sd = BUY then - t else t) s = Some s'"
  shows "apart e (K + t) s'"
proof -
  obtain it where it: "matcher_reset e sd s = Some (set_mat_local e sd it s)" "at_top s e sd it"
    "books_inv e (set_mat_local e sd it s)"
    using matcher_reset_plain [OF inv sd] by blast
  let ?s = "set_mat_local e sd it s" and ?t = "if sd = BUY then - t else t"
  have top: "at_top ?s e sd (mat_local ?s e sd)"
    using it(2) by simp
  obtain ret s1 where s1: "match_loop (side_cmp sd) e sd Arg ?t ?s = Some (ret, s1)" "ran e ?s s1 1"
    "\<forall>j. slot ?s e j = None \<longrightarrow> slot s1 e j = None" "side (arg s1) = side (arg ?s)"
    using match_loop_plain [OF it(3) sd top] by blast
  have "apart e K ?s" "fits K (arg ?s)"
    using ap by simp_all
  note loop = match_loop_apart [OF it(3) sd top this t s1(1)]
  have fin: "(if ret then Some s1 else match_finish e sd Arg s1) = Some s'"
    using run it(1) s1(1) by (simp add: normal_match_def)
  show ?thesis
  proof (cases ret)
    case False
    have "books_inv e s1" "slot s1 e (order_id (arg s1)) = None" "side (arg s1) = sd"
      using s1(2-4) new side by (simp_all add: ran_def)
    then show ?thesis
      using match_finish_apart [OF _ sd _ _ loop(1,2)] loop(3) fin False by simp
  qed (use fin loop(1) in simp)
qed

lemma fok_match_apart:
  assumes inv: "books_inv e s" and sd: "two_sided sd" and ap: "apart e K s" and run: "fok_match cmp e sd Arg s = Some s'"
  shows "apart e K s'"
proof -
  obtain fs n qs where sw: "sweep cmp (price (arg s)) (remain_quantity (arg s)) (map quote_of (orders_of s e sd)) = (fs, n, qs)"
    using prod_cases3 by blast
  obtain it where c: "if n = 0 then \<exists>s'. fok_match cmp e sd Arg s = Some s' \<and> swept cmp e sd s s' \<and> mat_local s' e sd = it
     else fok_match cmp e sd Arg s = finish_cancel e Arg CANCELED_BY_FOK (set_mat_local e sd it s)"
    using fok_match_cases [OF inv sd sw] by blast
  show ?thesis
  proof (cases "n = 0")
    case True
    then have sw': "swept cmp e sd s s'"
      using c run by auto
    show ?thesis
      using apart_shrink [OF ap swept_prices [OF inv sd sw'] order_refl] .
  next
    case False
    then show ?thesis
      using c run ap by (auto simp: finish_cancel_eq Let_def)
  qed
qed

lemma match_side_apart:
  assumes inv: "books_inv e s" and sd: "two_sided sd" and new: "slot s e (order_id (arg s)) = None" and side: "side (arg s) = sd"
    and ap: "apart e K s" "fits K (arg s)" and t: "mini_tick (engs s e) = t" "0 < t" "0 \<le> K" "K + t < LL_MAX"
    and run: "match_side e sd s = Some s'"
  shows "apart e (K + t) s'"
proof -
  have tick: "ll_mul t (- 1) = - t"
    using t by (intro ll_mul_exact [of t "- 1", simplified]) (simp add: is_ll_def LL_MIN_def LL_MAX_def)
  have "match_side e sd s = (if time_condition (arg s) = FOK then fok_match (side_cmp sd) e sd Arg s
      else normal_match (side_cmp sd) e sd Arg (if sd = BUY then - t else t) s)"
    using sd t(1) tick by (auto simp: match_side_def match_asks_def match_bids_def side_cmp_def)
  then show ?thesis
    using run normal_match_apart [OF inv sd new side ap t(2,4)] fok_match_apart [OF inv sd ap(1)] apart_mono [of e K s' "K + t"] t(2)
    by (auto split: if_splits)
qed

lemma match_trigger_apart:
  assumes inv: "books_inv e s" and sd: "two_sided sd" and new: "slot s e (order_id (arg s)) = None" and side: "side (arg s) = sd"
    and ap: "apart e K s" "fits K (arg s)" and t: "mini_tick (engs s e) = t" "0 < t" "0 \<le> K" "K + t < LL_MAX"
    and run: "match_side e sd s \<bind> trigger_stops e = Some s'"
  shows "apart e (K + t) s'"
proof -
  obtain s1 where s1: "match_side e sd s = Some s1" "ran e s s1 2"
    using match_side_plain [OF inv sd new side] by blast
  have ap1: "apart e (K + t) s1"
    using match_side_apart [OF inv sd new side ap t s1(1)] .
  have "books_inv e s1"
    using s1(2) by (simp add: ran_def)
  then obtain it1 it2 where "trigger_stops e s1 = Some s1 \<or>
      trigger_stops e s1 = Some (set_mat_local e BUY it2 (set_mat_local e SELL it1 s1))"
    using trigger_stops_plain by blast
  then show ?thesis
    using run s1(1) ap1 by auto
qed

section \<open>Handling\<close>

text \<open>A call that ran keeps the sides apart.\<close>

lemma new_side_apart:
  assumes inv: "books_inv e s" "fresh e s" and sd: "two_sided sd" "side (arg s) = sd" and id: "order_id (arg s) = 0"
    and ap: "apart e K s" "fits K (arg s)" and t: "mini_tick (engs s e) = t" "0 < t" "0 \<le> K" "K + t < LL_MAX"
    and run: "new_side e sd s = Some s'"
  shows "apart e (K + t) s'"
proof -
  define a where "a = (arg s)\<lparr>order_id := next_id s, remain_quantity := quantity (arg s), order_state := OPEN\<rparr>"
  define s1 where "s1 = s\<lparr>ids := ids s + 1, arg := a\<rparr>"
  have s1: "init_new_order s = s1"
    using id by (simp add: s1_def a_def init_new_order_def get_id_eq upd_arg_def)
  have "slot s e (next_id s) = None"
    using inv(2) by (cases "slot s e (next_id s)") (auto simp: fresh_def)
  then have f: "books_inv e s1" "slot s1 e (order_id (arg s1)) = None" "side (arg s1) = sd" "apart e K s1" "fits K (arg s1)"
    "mini_tick (engs s1 e) = t"
    using inv(1) sd(2) ap t(1) by (simp_all add: s1_def a_def fits_def)
  have "apart e (K + t) s1"
    using f(4) t(2) by (intro apart_mono [of e K s1 "K + t"]) simp_all
  then show ?thesis
    using run match_trigger_apart [OF f(1) sd(1) f(2-6) t(2-4)]
    by (auto simp: new_side_eq s1 Let_def reject_def upd_arg_def callback_eq split: if_splits)
qed

lemma reject_apart: "reject e st s = Some s' \<Longrightarrow> apart e K s' = apart e K s"
  by (auto simp: reject_def upd_arg_def callback_eq)

lemma handle_new_apart:
  assumes inv: "books_inv e s" "fresh e s" and sd: "two_sided (side (arg s))" and act: "order_action (arg s) = NEW"
    and ap: "apart e K s" "fits K (arg s)" and t: "mini_tick (engs s e) = t" "0 < t" "0 \<le> K" "K + t < LL_MAX"
    and run: "handle_new e s = Some s'"
  shows "apart e (K + t) s'"
proof -
  define s1 where "s1 = upd_arg (\<lambda>o1. o1\<lparr>order_id := 0\<rparr>) s"
  have s1: "books_inv e s1" "fresh e s1" "side (arg s1) = side (arg s)" "order_id (arg s1) = 0" "apart e K s1" "fits K (arg s1)"
    "mini_tick (engs s1 e) = t"
    using inv ap t(1) by (simp_all add: s1_def upd_arg_def fits_def)
  have up: "apart e (K + t) s1"
    using s1(5) t(2) by (intro apart_mono [of e K s1 "K + t"]) simp_all
  have "handle_new e s = (if quantity (arg s1) = 0 then reject e REJECT_QUANTITY_ZERO s1
      else if display_quantity (arg s1) > quantity (arg s1) then
        reject e REJECT_DISPLAY_QUANTITY_LARGER_THAN_QUANTITY s1
      else new_side e (side (arg s1)) s1)"
    using act sd s1(3) by (auto simp: handle_new_def s1_def [symmetric] new_side_def Let_def)
  then show ?thesis
    using run up reject_apart new_side_apart [OF s1(1,2) _ refl s1(4-7) t(2-4)] sd s1(3) by (auto split: if_splits)
qed

lemma handle_cancel_apart:
  assumes inv: "books_inv e s" and act: "order_action (arg s) \<in> {CANCEL, AMEND}" and ap: "apart e K s"
    and run: "handle_cancel e s = Some (c, s')"
  shows "apart e K s'" "price (arg s') = price (arg s)"
proof -
  have "apart e K s' \<and> price (arg s') = price (arg s)"
  proof (cases "slot s e (order_id (arg s))")
    case None
    then show ?thesis
      using run act ap by (auto simp: handle_cancel_def upd_arg_def callback_eq)
  next
    case (Some m)
    obtain s1 where s1: "handle_cancel e s = Some (True, s1)"
      "\<forall>sd. two_sided sd \<longrightarrow> orders_of s1 e sd = filter (\<lambda>x. order_id x \<noteq> order_id (arg s)) (orders_of s e sd)" "arg s1 = arg s"
      using handle_cancel_plain [OF inv Some act] by blast
    have "apart e K s1"
      using s1(2) by (intro apart_shrink [OF ap _ order_refl]) (auto simp: prices_def)
    then show ?thesis
      using run s1 by simp
  qed
  then show "apart e K s'" "price (arg s') = price (arg s)"
    by blast+
qed

lemma put_slot_apart:
  assumes "books_inv e s" "slot s e oid = Some m" "order_id m' = order_id m" "price m' = price m" "side m' = side m"
    "remain_quantity m' \<noteq> 0" and ap: "apart e K s"
  shows "apart e K (put_slot e oid m' s)"
proof (rule apart_shrink [OF ap _ order_refl])
  fix sd assume sd: "two_sided sd"
  have eq: "orders_of (put_slot e oid m' s) e sd = map (\<lambda>x. if order_id x = oid then m' else x) (orders_of s e sd)"
    using put_slot_inv(2) [OF assms(1-6) sd] .
  have "price x = price m'" if "x \<in> set (orders_of s e sd)" "order_id x = oid" for x
    using orders_of_slot(1) [OF books_invD(1) [OF assms(1) sd] that(1)] that(2) assms(2,4) by simp
  then have "map price (orders_of (put_slot e oid m' s) e sd) = map price (orders_of s e sd)"
    unfolding eq by simp
  then have "set (map price (orders_of (put_slot e oid m' s) e sd)) = set (map price (orders_of s e sd))"
    by (rule arg_cong)
  then show "prices (put_slot e oid m' s) e sd \<subseteq> prices s e sd"
    by (simp add: prices_def)
qed

lemma handle_amend_apart:
  assumes inv: "books_inv e s" "fresh e s" and sd: "two_sided (side (arg s))" and act: "order_action (arg s) = AMEND"
    and ap: "apart e K s" "fits K (arg s)" and t: "mini_tick (engs s e) = t" "0 < t" "0 \<le> K" "K + t < LL_MAX"
    and run: "handle_amend e s = Some s'"
  shows "apart e (K + t) s'"
proof -
  have up: "apart e K s0 \<Longrightarrow> apart e (K + t) s0" for s0
    using t(2) by (intro apart_mono [of e K s0 "K + t"]) simp_all
  from inv(1) act show ?thesis
  proof (cases rule: handle_amend_cases)
    case (rejected st)
    then show ?thesis
      using run ap(1) up reject_apart by simp
  next
    case (in_place m m')
    then show ?thesis
      using run up put_slot_apart [OF inv(1) in_place(1-5) ap(1)] by simp
  next
    case (replaced m m' c s2)
    let ?s1 = "put_slot e (order_id (arg s)) m' s"
    have k1: "books_inv e ?s1" "fresh e ?s1" "mini_tick (engs ?s1 e) = t" "order_action (arg ?s1) \<in> {CANCEL, AMEND}"
      using put_slot_kept [OF inv replaced(1-5)] act stableD(3) [of e s ?s1] t(1) by (simp_all add: kept_def)
    obtain c' s2' where "handle_cancel e ?s1 = Some (c', s2')" "kept e 0 ?s1 s2'" "side (arg s2') = side (arg ?s1)"
      using handle_cancel_kept [OF k1(1,2,4)] by blast
    then have k2: "kept e 0 ?s1 s2" "side (arg s2) = side (arg s)"
      using replaced(6) by simp_all
    note ap2 = handle_cancel_apart [OF k1(1,4) put_slot_apart [OF inv(1) replaced(1-5) ap(1)] replaced(6)]
    let ?s3 = "renewed m' s2"
    have s3: "books_inv e ?s3" "fresh e ?s3" "two_sided (side (arg ?s3))" "order_action (arg ?s3) = NEW"
      "apart e K ?s3" "fits K (arg ?s3)" "mini_tick (engs ?s3 e) = t"
      using k2 sd ap2 ap(2) k1(3) stableD(3) [of e ?s1 s2] by (simp_all add: kept_def fits_def) (simp_all add: renewed_def upd_arg_def)
    show ?thesis
      using run replaced(7) up ap2(1) handle_new_apart [OF s3 t(2-4)] by (auto split: if_splits)
  qed
qed

section \<open>Calls\<close>

lemma apart_flags [simp]:
  "apart e K (upd_eng e (\<lambda>x. x\<lparr>mutex := b\<rparr>) s) = apart e K s"
  "apart e K (upd_eng e (\<lambda>x. x\<lparr>is_auction := b\<rparr>) s) = apart e K s"
  "apart e K (upd_eng e (\<lambda>x. x\<lparr>is_auction := b, cb_records := r\<rparr>) s) = apart e K s"
  "apart e K (upd_eng e (\<lambda>x. x\<lparr>mutex := b, is_auction := c\<rparr>) s) = apart e K s"
  "apart e K (s\<lparr>out := w\<rparr>) = apart e K s"
  by (simp_all add: apart_def prices_def orders_of_def slot_def walked_def)

lemma dispatch_apart:
  assumes inv: "books_inv e s" "fresh e s" and o1: "plain_order (arg s)"
    and ap: "apart e K s" "fits K (arg s)" and t: "mini_tick (engs s e) = t" "0 < t" "0 \<le> K" "K + t < LL_MAX"
    and run: "dispatch e s = Some s'"
  shows "apart e (K + t) s'"
proof -
  have up: "apart e K s0 \<Longrightarrow> apart e (K + t) s0" for s0
    using t(2) by (intro apart_mono [of e K s0 "K + t"]) simp_all
  have sd: "two_sided (side (arg s))" and "order_action (arg s) \<in> {NEW, CANCEL, AMEND, DUMP}"
    using o1 by (simp_all add: plain_order_def)
  then consider "order_action (arg s) = NEW" | "order_action (arg s) = CANCEL"
    | "order_action (arg s) = AMEND" | "order_action (arg s) = DUMP"
    by auto
  then show ?thesis
  proof cases
    case 1
    then show ?thesis
      using handle_new_apart [OF inv sd 1 ap t] run by (simp add: dispatch_def)
  next
    case 2
    then obtain c where "handle_cancel e s = Some (c, s')"
      using run by (auto simp: dispatch_def bind_eq_Some_conv)
    then show ?thesis
      using handle_cancel_apart(1) [OF inv(1) _ ap(1)] 2 up by simp
  next
    case 3
    then show ?thesis
      using handle_amend_apart [OF inv sd 3 ap t] run by (simp add: dispatch_def)
  next
    case 4
    then show ?thesis
      using run up ap(1) by (auto simp: dispatch_def handle_dump_def fold_emit emit_def)
  qed
qed

lemma handle_apart:
  assumes inv: "plain_inv e s" and o1: "plain_order (arg s)" and b: "pot s e + 3 < 2 ^ 57"
    and ap: "apart e K s" "fits K (arg s)" and t: "mini_tick (engs s e) = t" "0 < t" "0 \<le> K" "K + t < LL_MAX"
    and run: "handle e s = Some s'"
  shows "apart e (K + t) s'" "mini_tick (engs s' e) = t"
proof -
  define s1 where "s1 = upd_eng e (\<lambda>x. x\<lparr>mutex := True\<rparr>) s"
  define s2 where "s2 = (if time_condition (arg s1) = AUCTION then upd_eng e (\<lambda>x. x\<lparr>is_auction := True\<rparr>) s1 else s1)"
  have lock: "lock e s = Some s1"
    using inv by (simp add: lock_def plain_inv_def s1_def)
  have a1: "arg s1 = arg s"
    by (simp add: s1_def)
  have s2: "books_inv e s2" "fresh e s2" "arg s2 = arg s" "pot s2 e = pot s e" "apart e K s2" "mini_tick (engs s2 e) = t"
    "mutex_set (engs s2 e) = [e]"
    using inv ap(1) t(1) by (simp_all add: s2_def s1_def plain_inv_def)
  obtain s3 where s3: "dispatch e s2 = Some s3" "kept e 3 s2 s3"
    using dispatch_kept [OF s2(1,2)] o1 b s2(3,4) by auto
  have run': "handle e s = Some (unlock e (finish_auction e s3))"
    using lock s3(1) o1 a1 by (cases "time_condition (arg s) = AUCTION") (auto simp: handle_def s2_def plain_order_def Let_def)
  have st: "stable e s2 s3"
    using s3(2) by (simp add: kept_def)
  have "apart e (K + t) s3"
    using dispatch_apart [OF s2(1,2) _ s2(5) _ s2(6) t(2-4) s3(1)] o1 b ap(2) s2(3,4) by simp
  then have s4: "apart e (K + t) (finish_auction e s3)" "mutex_set (engs (finish_auction e s3) e) = [e]"
    "mini_tick (engs (finish_auction e s3) e) = t"
    using stableD(3,7) [OF st] s2(6,7) by (simp_all add: finish_auction_eq)
  then show "apart e (K + t) s'" "mini_tick (engs s' e) = t"
    using run run' by (simp_all add: unlock_def) auto
qed

lemma submits_apart:
  assumes "plain_inv e s" "\<forall>o1 \<in> set os. plain_order o1 \<and> fits K o1" "pot s e + 3 * length os < 2 ^ 57"
    and "apart e L s" "K \<le> L" "0 \<le> L" "mini_tick (engs s e) = t" "0 < t" "L + int (length os) * t < LL_MAX"
  shows "\<exists>s' L'. submits (map (Pair e) os) s = Some s' \<and> plain_inv e s' \<and> apart e L' s'"
  using assms
proof (induction os arbitrary: s L)
  case (Cons o1 os)
  let ?s = "s\<lparr>arg := o1\<rparr>"
  obtain s1 where s1: "handle e ?s = Some s1" "plain_inv e s1" "pot s1 e \<le> pot ?s e + 3"
    using handle_plain [of e ?s] Cons.prems by auto
  have inv: "plain_inv e ?s" "plain_order (arg ?s)" "pot ?s e + 3 < 2 ^ 57" "apart e L ?s" "fits L (arg ?s)" "mini_tick (engs ?s e) = t"
    using Cons.prems by (auto simp: fits_def)
  have "0 \<le> int (length os) * t"
    using Cons.prems(8) by simp
  then have L: "L + t < LL_MAX" "L + t + int (length os) * t < LL_MAX"
    using Cons.prems(9) by (simp_all add: algebra_simps)
  note ap = handle_apart [OF inv Cons.prems(8,6) L(1) s1(1)]
  obtain s' L' where "submits (map (Pair e) os) s1 = Some s'" "plain_inv e s'" "apart e L' s'"
    using Cons.IH [OF s1(2) _ _ ap(1) _ _ ap(2)] s1(3) Cons.prems L(2) by auto
  then show ?case
    using s1 by (auto simp: submit_def)
qed auto

section \<open>The books never cross\<close>

text \<open>What a client reads off the books: the first levels, when both sides have one.\<close>

definition uncrossed :: "engine \<Rightarrow> bool" where
  "uncrossed x = (case (bid_book x, ask_book x) of ((b, _) # _, (a, _) # _) \<Rightarrow> b < a | _ \<Rightarrow> True)"

lemma top_in_prices:
  assumes "wf_side s e sd" "walked (engs s e) sd = (p, js) # ls"
  shows "p \<in> prices s e sd"
proof -
  obtain j where "(p, j) \<in> set (entries (walked (engs s e) sd))"
    using assms by (cases js) (auto simp: wf_side_def wf_book_def)
  then show ?thesis
    unfolding orders_of_entries [OF assms(1), symmetric] by (auto simp: prices_def)
qed

lemma apart_uncrossed:
  assumes "books_inv e s" "apart e K s"
  shows "uncrossed (engs s e)"
proof -
  have "b < a" if "bid_book (engs s e) = (b, js) # ls" "ask_book (engs s e) = (a, ks) # ms" for a b js ks ls ms
  proof -
    have "a \<in> prices s e BUY" "b \<in> prices s e SELL"
      using that assms(1) by (auto intro!: top_in_prices simp: books_inv_def walked_def)
    then show ?thesis
      using apartD(2) [OF assms(2), of BUY a b] by (simp add: side_cmp_def less_def)
  qed
  then show ?thesis
    by (auto simp: uncrossed_def split: list.splits)
qed

text \<open>
  C2: from an engine as its constructor leaves it, after any sequence of buy and sell orders, new,
  amended or cancelled, with any time condition, the best bid is below the best ask: an order that could
  trade with one that rests has traded or was cancelled. Orders ask for the market or have a price of at
  most \<open>K\<close>; a repriced order may move one tick further, so that the bound keeps prices inside 64 bits.
\<close>

theorem books_never_cross:
  assumes "\<forall>o1 \<in> set os. plain_order o1 \<and> fits K o1" and "0 < tick" "0 \<le> K" "K + int (length os) * tick < LL_MAX"
    and "unat first_id + 3 * length os < 2 ^ 57"
  shows "\<exists>s'. submits (map (Pair e) os) (init_sys clk first_id tick) = Some s' \<and> uncrossed (engs s' e)"
proof -
  let ?s = "init_sys clk first_id tick"
  have "apart e K ?s" "mini_tick (engs ?s e) = tick"
    by (simp_all add: apart_def prices_def orders_of_def init_sys_def new_engine_def walked_def)
  then obtain s' L' where "submits (map (Pair e) os) ?s = Some s'" "plain_inv e s'" "apart e L' s'"
    using submits_apart [of e ?s os K K tick] assms plain_init(1) [of e clk first_id tick] plain_init(2) [of clk first_id tick e]
    by auto
  then show ?thesis
    using apart_uncrossed by (auto simp: plain_inv_def)
qed

text \<open>A maker-only order that would trade rests one tick off the best ask.\<close>

theorem books_never_cross_witness:
  "\<exists>s'. submits [(0, new_order\<lparr>side := SELL, quantity := 4, price := 100\<rparr>),
                 (0, new_order\<lparr>side := BUY, quantity := 5, price := 103, time_condition := MAKER_ONLY_REPRICE\<rparr>)]
          (init_sys (\<lambda>_. (0, 0)) 1 1) = Some s' \<and> uncrossed (engs s' 0)"
  using books_never_cross [of "[new_order\<lparr>side := SELL, quantity := 4, price := 100\<rparr>,
      new_order\<lparr>side := BUY, quantity := 5, price := 103, time_condition := MAKER_ONLY_REPRICE\<rparr>]" 200 1 1 0 "\<lambda>_. (0, 0)"]
  by (simp add: plain_order_def fits_def LL_MAX_def) (simp add: new_order_def)

end
