(* ===== verification/Codec.thy ===== *)
theory Codec
  imports Prelude
begin

text \<open>
  Codecs as the byte streams use them (\<open>common/codec.h\<close>, \<open>common/codec.tcc\<close>). A codec is called with
  whatever input and room there is; \<open>transcode\<close> calls it until everything is through. The locale
  \<open>stream_codec\<close> states what a codec has to keep for the result not to depend on the sizes.
\<close>

section \<open>Bytes as unsigned\<close>

type_synonym u32 = "32 word"

lemma unat_byte [simp]: "unat (ucast (x :: u8) :: u32) = unat x"
proof -
  have "unat x < 2 ^ 8"
    using unsigned_less [of x, where ?'a = nat] by simp
  then have "take_bit 32 (unat x) = unat x"
    by (simp add: take_bit_nat_eq_self_iff)
  then show ?thesis
    by (simp add: unsigned_ucast_eq)
qed

lemma byte_less [simp]: "unat (x :: u8) < 256"
  using unsigned_less [of x, where ?'a = nat] by simp

lemma low_byte: "unat (b :: u32) < 256 \<Longrightarrow> ucast (ucast b :: u8) = b"
  by (rule unsigned_word_eqI [where ?'a = nat]) (simp add: unsigned_ucast_eq unsigned_take_bit_eq take_bit_nat_eq_self_iff)

section \<open>The interface of a codec\<close>

text \<open>\<open>std::ios_base::failure\<close> for bad input, \<open>std::logic_error\<close> for a call in a state that has none.\<close>

datatype failure = Invalid_input | Illegal_state

text \<open>
  \<open>process(out, n_out, in, n_in)\<close>: the value returned, the bytes written to \<open>out\<close>, the input left and the
  codec after it. \<open>finish(out, n_out)\<close> the same without input.
\<close>

record 'c codec =
  start :: 'c
  process :: "'c \<Rightarrow> nat \<Rightarrow> u8 list \<Rightarrow> failure + (bool \<times> u8 list \<times> u8 list \<times> 'c)"
  finish :: "'c \<Rightarrow> nat \<Rightarrow> failure + (bool \<times> u8 list \<times> 'c)"

text \<open>\<open>*out++ = x, --n_out\<close> before the rest of the run.\<close>

definition emit_byte :: "u8 \<Rightarrow> failure + (bool \<times> u8 list \<times> 'r) \<Rightarrow> failure + (bool \<times> u8 list \<times> 'r)" where
  "emit_byte x r = (case r of Inl e \<Rightarrow> Inl e | Inr (fin, os, rst) \<Rightarrow> Inr (fin, x # os, rst))"

section \<open>Calling a codec until it is through\<close>

text \<open>\<open>None\<close> is a loop that never ends. \<open>room\<close> is \<open>OBufSize\<close>.\<close>

partial_function (option) process_loop ::
    "'c codec \<Rightarrow> nat \<Rightarrow> 'c \<Rightarrow> u8 list \<Rightarrow> u8 list \<Rightarrow> (failure + (u8 list \<times> 'c)) option" where
  "process_loop k room c ins outs =
     (case process k c room ins of
        Inl e \<Rightarrow> Some (Inl e)
      | Inr (fin, os, rst, c') \<Rightarrow>
          if fin then Some (Inr (outs @ os, c')) else process_loop k room c' rst (outs @ os))"

partial_function (option) finish_loop :: "'c codec \<Rightarrow> nat \<Rightarrow> 'c \<Rightarrow> u8 list \<Rightarrow> (failure + u8 list) option" where
  "finish_loop k room c outs =
     (case finish k c room of
        Inl e \<Rightarrow> Some (Inl e)
      | Inr (fin, os, c') \<Rightarrow> if fin then Some (Inr (outs @ os)) else finish_loop k room c' (outs @ os))"

declare process_loop.simps [code] finish_loop.simps [code]

text \<open>\<open>transcode(std::string &out, const void *in, size_t n_in)\<close>.\<close>

definition transcode :: "'c codec \<Rightarrow> nat \<Rightarrow> u8 list \<Rightarrow> u8 list \<Rightarrow> (failure + u8 list) option" where
  "transcode k room outs ins =
     (case process_loop k room (start k) ins outs of
        None \<Rightarrow> None
      | Some (Inl e) \<Rightarrow> Some (Inl e)
      | Some (Inr (os, c)) \<Rightarrow> finish_loop k room c os)"

text \<open>\<open>transcode(std::string &out, Source &source)\<close>: the source gives its data in reads, the last of which fails.\<close>

fun transcode_reads :: "'c codec \<Rightarrow> nat \<Rightarrow> 'c \<Rightarrow> u8 list \<Rightarrow> u8 list list \<Rightarrow> (failure + u8 list) option" where
  "transcode_reads k room c outs [] = finish_loop k room c outs"
| "transcode_reads k room c outs (ins # inss) =
     (case process_loop k room c ins outs of
        None \<Rightarrow> None
      | Some (Inl e) \<Rightarrow> Some (Inl e)
      | Some (Inr (os, c')) \<Rightarrow> transcode_reads k room c' os inss)"

definition transcode_source :: "'c codec \<Rightarrow> nat \<Rightarrow> u8 list \<Rightarrow> u8 list list \<Rightarrow> (failure + u8 list) option" where
  "transcode_source k room outs inss = transcode_reads k room (start k) outs inss"

text \<open>
  \<open>transcode(void *out, size_t n_out, const void *in, size_t n_in)\<close>: the bytes written, or \<open>None\<close> for
  \<open>SIZE_MAX\<close>, when they do not fit.
\<close>

definition transcode_into :: "'c codec \<Rightarrow> nat \<Rightarrow> u8 list \<Rightarrow> failure + u8 list option" where
  "transcode_into k n_out ins =
     (case process k (start k) n_out ins of
        Inl e \<Rightarrow> Inl e
      | Inr (fin, os, _, c) \<Rightarrow>
          if \<not> fin then Inr None
          else (case finish k c (n_out - length os) of
                  Inl e \<Rightarrow> Inl e
                | Inr (fin', os', _) \<Rightarrow> if fin' then Inr (Some (os @ os')) else Inr None))"

text \<open>The result when \<open>r\<close> is all that comes out.\<close>

definition answer :: "u8 list \<Rightarrow> u8 list option \<Rightarrow> (failure + u8 list) option" where
  "answer outs r = Some (case r of None \<Rightarrow> Inl Invalid_input | Some os \<Rightarrow> Inr (outs @ os))"

lemma answer_more: "answer outs (map_option ((@) os) r) = answer (outs @ os) r"
  by (simp add: answer_def split: option.split)

lemma append_nothing: "map_option ((@) []) r = r"
  by (cases r) simp_all

section \<open>What a codec keeps\<close>

text \<open>
  A run on the input \<open>ins\<close> with room \<open>n\<close>, in a state from which the stream \<open>xs\<close> gives \<open>M xs\<close>: it throws when
  \<open>ins\<close> is bad input whatever follows it, returns \<open>true\<close> when it has used all of \<open>ins\<close>, and returns
  \<open>false\<close> only when the room is used and more is to come. \<open>w\<close> bounds the steps that are left.
\<close>

definition run_ok :: "('c \<Rightarrow> bool) \<Rightarrow> ('c \<Rightarrow> u8 list \<Rightarrow> u8 list option) \<Rightarrow> ('c \<Rightarrow> nat) \<Rightarrow> nat \<Rightarrow> u8 list \<Rightarrow> nat \<Rightarrow> (u8 list \<Rightarrow> u8 list option)
    \<Rightarrow> failure + (bool \<times> u8 list \<times> u8 list \<times> 'c) \<Rightarrow> bool" where
  "run_ok live means owed n ins w M r = (case r of
     Inl e \<Rightarrow> e = Invalid_input \<and> (\<forall>later. M (ins @ later) = None)
   | Inr (fin, os, rst, c') \<Rightarrow> live c' \<and> length os \<le> n
       \<and> (\<exists>used. ins = used @ rst \<and> (\<forall>xs. M (used @ xs) = map_option ((@) os) (means c' xs)))
       \<and> (if fin then rst = []
          else length os = n \<and> (\<forall>later. means c' (rst @ later) \<noteq> Some [])
            \<and> 4 * length rst + owed c' \<le> w \<and> (0 < n \<longrightarrow> 4 * length rst + owed c' < w)))"

text \<open>The steps of a run: it throws, is out of input, is out of room, reads, writes, or does both.\<close>

lemma run_ok_throw: "(\<And>later. M (ins @ later) = None) \<Longrightarrow> run_ok live means owed n ins w M (Inl Invalid_input)"
  by (simp add: run_ok_def)

lemma run_ok_used: "live c' \<Longrightarrow> (\<And>xs. M xs = means c' xs) \<Longrightarrow> run_ok live means owed n [] w M (Inr (True, [], [], c'))"
  by (simp add: run_ok_def append_nothing)

lemma run_ok_full:
  "live c' \<Longrightarrow> (\<And>xs. M xs = means c' xs) \<Longrightarrow> (\<And>later. M (rst @ later) \<noteq> Some []) \<Longrightarrow> 4 * length rst + owed c' \<le> w \<Longrightarrow>
    run_ok live means owed 0 rst w M (Inr (False, [], rst, c'))"
  by (simp add: run_ok_def append_nothing)

lemma run_ok_read:
  assumes r: "run_ok live means owed n ins w M r" and M: "\<And>xs. M' (x # xs) = M xs" and w: "w \<le> w'"
  shows "run_ok live means owed n (x # ins) w' M' r"
proof (cases r)
  case (Inr p)
  obtain fin os rst c' where p: "p = (fin, os, rst, c')"
    by (cases p)
  obtain used where used: "ins = used @ rst" "\<And>xs. M (used @ xs) = map_option ((@) os) (means c' xs)"
    using r by (auto simp: run_ok_def Inr p)
  have "\<exists>used'. x # ins = used' @ rst \<and> (\<forall>xs. M' (used' @ xs) = map_option ((@) os) (means c' xs))"
    using used by (intro exI [of _ "x # used"]) (simp add: M)
  then show ?thesis
    using r w by (auto simp: run_ok_def Inr p)
qed (use r M in \<open>simp add: run_ok_def\<close>)

lemma run_ok_write:
  assumes r: "run_ok live means owed n ins w M r" and M: "\<And>xs. M' xs = map_option ((#) y) (M xs)" and w: "w < w'"
  shows "run_ok live means owed (Suc n) ins w' M' (emit_byte y r)"
proof (cases r)
  case (Inr p)
  obtain fin os rst c' where p: "p = (fin, os, rst, c')"
    by (cases p)
  obtain used where used: "ins = used @ rst" "\<And>xs. M (used @ xs) = map_option ((@) os) (means c' xs)"
    using r by (auto simp: run_ok_def Inr p)
  have "M' (used @ xs) = map_option ((@) (y # os)) (means c' xs)" for xs
    by (cases "means c' xs") (simp_all add: M used(2))
  then have "\<exists>used'. ins = used' @ rst \<and> (\<forall>xs. M' (used' @ xs) = map_option ((@) (y # os)) (means c' xs))"
    using used(1) by blast
  then show ?thesis
    using r w by (auto simp: run_ok_def emit_byte_def Inr p)
qed (use r M in \<open>simp add: run_ok_def emit_byte_def\<close>)

lemma run_ok_both:
  assumes r: "run_ok live means owed n ins w M r" and M: "\<And>xs. M' (x # xs) = map_option ((#) y) (M xs)" and w: "w < w'"
  shows "run_ok live means owed (Suc n) (x # ins) w' M' (emit_byte y r)"
  using run_ok_write [OF r refl w] M by (rule run_ok_read) simp

text \<open>
  \<open>means c ins\<close> is all that is to come out of the codec from state \<open>c\<close> on when \<open>ins\<close> is the rest of its input,
  \<open>ends c\<close> when \<open>finish\<close> is called; \<open>None\<close> if it throws. \<open>owed c\<close> counts the steps it can still take without
  input.
\<close>

locale stream_codec =
  fixes k :: "'c codec" and live :: "'c \<Rightarrow> bool" and means :: "'c \<Rightarrow> u8 list \<Rightarrow> u8 list option"
    and ends :: "'c \<Rightarrow> u8 list option" and owed :: "'c \<Rightarrow> nat"
  assumes live_start: "live (start k)"
    and means_Nil: "live c \<Longrightarrow> means c [] = ends c"
    and process_runs: "live c \<Longrightarrow> run_ok live means owed n ins (4 * length ins + owed c) (means c) (process k c n ins)"
    and finish_ok: "ends c \<noteq> None \<or> live c \<Longrightarrow> finish k c n = Inr (fin, os, c') \<Longrightarrow>
          length os \<le> n \<and> (if fin then ends c = Some os else ends c = map_option ((@) os) (ends c') \<and> ends c' \<noteq> None
            \<and> ends c' \<noteq> Some [] \<and> length os = n \<and> owed c' \<le> owed c \<and> (0 < n \<longrightarrow> owed c' < owed c))"
    and finish_fails: "ends c \<noteq> None \<or> live c \<Longrightarrow> finish k c n = Inl e \<Longrightarrow> e = Invalid_input \<and> ends c = None"
begin

lemma process_used:
  assumes "live c" "process k c n ins = Inr (fin, os, rst, c')"
  obtains used where "ins = used @ rst" "\<And>xs. means c (used @ xs) = map_option ((@) os) (means c' xs)"
    "live c'" "length os \<le> n" "fin \<longrightarrow> rst = []"
  using process_runs [OF assms(1), of n ins] assms(2) by (auto simp: run_ok_def split: if_splits)

lemma process_ok: "live c \<Longrightarrow> process k c n ins = Inr (fin, os, rst, c') \<Longrightarrow>
    live c' \<and> length os \<le> n \<and> (fin \<longrightarrow> rst = []) \<and> means c (ins @ later) = map_option ((@) os) (means c' (rst @ later))"
  by (erule (1) process_used) simp

lemma process_full: "live c \<Longrightarrow> process k c n ins = Inr (False, os, rst, c') \<Longrightarrow>
    length os = n \<and> means c' (rst @ later) \<noteq> Some [] \<and> (0 < n \<longrightarrow> 4 * length rst + owed c' < 4 * length ins + owed c)"
  using process_runs [of c n ins] by (auto simp: run_ok_def)

lemma process_fails: "live c \<Longrightarrow> process k c n ins = Inl e \<Longrightarrow> e = Invalid_input \<and> means c (ins @ later) = None"
  using process_runs [of c n ins] by (simp add: run_ok_def)

lemma process_means:
  "live c \<Longrightarrow> process k c n ins = Inr (fin, os, rst, c') \<Longrightarrow> means c (ins @ later) = map_option ((@) os) (means c' (rst @ later))"
  using process_ok by blast

text \<open>What \<open>process_loop\<close> gives: bad input, or the output so far and a codec that owes the rest.\<close>

definition looped where
  "looped c ins outs r \<longleftrightarrow> r = Some (Inl Invalid_input) \<and> (\<forall>later. means c (ins @ later) = None)
     \<or> (\<exists>os c'. r = Some (Inr (outs @ os, c')) \<and> live c' \<and> (\<forall>later. means c (ins @ later) = map_option ((@) os) (means c' later)))"

lemma loopedE:
  assumes "looped c ins outs r"
  obtains (bad) "r = Some (Inl Invalid_input)" "\<And>later. means c (ins @ later) = None"
    | (good) os c' where "r = Some (Inr (outs @ os, c'))" "live c'"
        "\<And>later. means c (ins @ later) = map_option ((@) os) (means c' later)"
  using assms unfolding looped_def by auto

lemma looped_step:
  assumes c: "\<And>later. means c (ins @ later) = map_option ((@) os) (means c1 (rst @ later))" and r: "looped c1 rst (outs @ os) r"
  shows "looped c ins outs r"
proof -
  from r show ?thesis
  proof (cases rule: loopedE)
    case (good os' c')
    have "\<forall>later. means c (ins @ later) = map_option ((@) (os @ os')) (means c' later)"
      by (simp add: c good(3) option.map_comp comp_def append_assoc [symmetric] del: append_assoc)
    then show ?thesis
      unfolding looped_def good(1) using good(2) by (intro disjI2 exI [of _ "os @ os'"] exI [of _ c']) simp
  qed (simp add: c looped_def)
qed

lemma process_loop_returns: "0 < room \<Longrightarrow> live c \<Longrightarrow> looped c ins outs (process_loop k room c ins outs)"
proof (induction "4 * length ins + owed c" arbitrary: c ins outs rule: less_induct)
  case less
  show ?case
  proof (cases "process k c room ins")
    case (Inl e)
    then have "process_loop k room c ins outs = Some (Inl e)"
      by (subst process_loop.simps) simp
    then show ?thesis
      using process_fails [OF less.prems(2) Inl] by (simp add: looped_def)
  next
    case (Inr r)
    obtain fin os rst c1 where r: "process k c room ins = Inr (fin, os, rst, c1)"
      using Inr by (cases r) auto
    note ok = process_ok [OF less.prems(2) r]
    have loop: "process_loop k room c ins outs = (if fin then Some (Inr (outs @ os, c1)) else process_loop k room c1 rst (outs @ os))"
      using r by (subst process_loop.simps) simp
    have "looped c1 rst (outs @ os) (process_loop k room c ins outs)"
    proof (cases fin)
      case True
      then show ?thesis
        unfolding loop looped_def using ok by (intro disjI2 exI [of _ "[]"] exI [of _ c1]) (auto simp: append_nothing)
    next
      case False
      then have "4 * length rst + owed c1 < 4 * length ins + owed c"
        using process_full [OF less.prems(2), of room ins os rst c1] r less.prems(1) by simp
      then show ?thesis
        using less.hyps [of rst c1 "outs @ os"] ok less.prems(1) False by (simp add: loop)
    qed
    then show ?thesis
      by (rule looped_step [OF process_means [OF less.prems(2) r]])
  qed
qed

lemma finish_loop_returns:
  assumes "0 < room" "ends c \<noteq> None \<or> live c"
  shows "finish_loop k room c outs = answer outs (ends c)"
  using assms(2)
proof (induction "owed c" arbitrary: c outs rule: less_induct)
  case less
  show ?case
  proof (cases "finish k c room")
    case (Inl e)
    then show ?thesis
      using finish_fails [OF less.prems Inl] by (subst finish_loop.simps) (simp add: answer_def)
  next
    case (Inr r)
    obtain fin os c1 where r: "finish k c room = Inr (fin, os, c1)"
      using Inr by (cases r) auto
    note ok = finish_ok [OF less.prems r]
    show ?thesis
    proof (cases fin)
      case True
      then show ?thesis
        using r ok by (subst finish_loop.simps) (simp add: answer_def)
    next
      case False
      then have "finish_loop k room c outs = answer (outs @ os) (ends c1)"
        using r ok less.hyps [of c1 "outs @ os"] assms(1) by (subst finish_loop.simps) simp
      then show ?thesis
        using ok False answer_more by simp
    qed
  qed
qed

lemma transcode_reads_returns:
  assumes "0 < room" "live c"
  shows "transcode_reads k room c outs inss = answer outs (means c (concat inss))"
  using assms(2)
proof (induction inss arbitrary: c outs)
  case Nil
  then show ?case
    using finish_loop_returns [OF assms(1), of c outs] by (simp add: means_Nil)
next
  case (Cons ins inss)
  have "looped c ins outs (process_loop k room c ins outs)"
    using process_loop_returns assms(1) Cons.prems .
  then show ?case
    by (cases rule: loopedE) (simp_all add: Cons.IH answer_more, simp_all add: answer_def)
qed

text \<open>However the input is cut and whatever room there is, the result is the same.\<close>

lemma transcode_source_means:
  "0 < room \<Longrightarrow> transcode_source k room outs inss = answer outs (means (start k) (concat inss))"
  using transcode_reads_returns live_start by (simp add: transcode_source_def)

lemma transcode_means: "0 < room \<Longrightarrow> transcode k room outs ins = answer outs (means (start k) ins)"
  using transcode_reads_returns [OF _ live_start, of room outs "[ins]"]
  by (simp add: transcode_def split: option.splits sum.splits prod.splits)

text \<open>With a buffer of fixed size: all of the output, when it fits.\<close>

lemma transcode_into_means:
  assumes os: "means (start k) ins = Some os"
  shows "transcode_into k n ins = Inr (if length os \<le> n then Some os else None)"
proof (cases "process k (start k) n ins")
  case (Inl e)
  then show ?thesis
    using process_fails [OF live_start Inl, of "[]"] os by simp
next
  case (Inr r)
  obtain fin os1 rst c where r: "process k (start k) n ins = Inr (fin, os1, rst, c)"
    using Inr by (cases r) auto
  note ok = process_ok [OF live_start r, of "[]"]
  show ?thesis
  proof (cases fin)
    case False
    have "means c rst \<noteq> Some []" "length os1 = n"
      using process_full [OF live_start, of n ins os1 rst c "[]"] r False by simp_all
    moreover have "\<exists>os2. means c rst = Some os2 \<and> os = os1 @ os2"
      using ok os by (cases "means c rst") auto
    ultimately have "n < length os"
      by auto
    then show ?thesis
      using r False by (simp add: transcode_into_def)
  next
    case True
    have c: "live c" "length os1 \<le> n" "map_option ((@) os1) (ends c) = Some os"
      using ok True os means_Nil [of c] by auto
    then obtain os2 where os2: "ends c = Some os2" "os = os1 @ os2"
      by auto
    show ?thesis
    proof (cases "finish k c (n - length os1)")
      case (Inl e)
      then show ?thesis
        using finish_fails [of c "n - length os1" e] c(1) os2(1) by simp
    next
      case (Inr r')
      obtain fin' os3 c' where f: "finish k c (n - length os1) = Inr (fin', os3, c')"
        using Inr by (cases r') auto
      have "if fin' then os3 = os2 \<and> length os3 \<le> n - length os1 else n - length os1 < length os2"
        using finish_ok [OF _ f] c(1) os2(1) by (auto split: if_splits)
      then show ?thesis
        using r True f os2(2) c(2) by (auto simp: transcode_into_def split: if_splits)
    qed
  qed
qed

end

end
