(* ===== verification/Codec_Streams.thy ===== *)
theory Codec_Streams
  imports Codec
begin

text \<open>
  Streams with a codec in them (\<open>CodecSource\<close> and \<open>CodecSink\<close> of \<open>common/codec.tcc\<close>). What a sink has taken, what
  is in its buffer and what its codec owes are together always what the codec makes of the bytes written.
\<close>

section \<open>CodecSink\<close>

text \<open>
  \<open>sink_obuf\<close> is what lies between \<open>obuf_ptr\<close> and \<open>obuf_eptr\<close>, \<open>sink_end\<close> is \<open>obuf_eptr - obuf\<close>. The sink below is the
  number of bytes it takes of those it is offered.
\<close>

record 'c codec_sink =
  sink_codec :: 'c
  sink_obuf :: "u8 list"
  sink_end :: nat

definition new_codec_sink :: "'c codec \<Rightarrow> 'c codec_sink" where
  "new_codec_sink k = \<lparr>sink_codec = start k, sink_obuf = [], sink_end = 0\<rparr>"

text \<open>\<open>(obuf_ptr += sink.write(obuf_ptr, obuf_eptr - obuf_ptr)) == obuf_eptr\<close>: whether all was taken, what was, and the state.\<close>

definition pass_on :: "(u8 list \<Rightarrow> nat) \<Rightarrow> 'c codec_sink \<Rightarrow> bool \<times> u8 list \<times> 'c codec_sink" where
  "pass_on takes st =
     (let n = min (takes (sink_obuf st)) (length (sink_obuf st))
      in if n = length (sink_obuf st) then (True, sink_obuf st, st\<lparr>sink_obuf := [], sink_end := 0\<rparr>)
         else (False, take n (sink_obuf st), st\<lparr>sink_obuf := drop n (sink_obuf st)\<rparr>))"

definition codec_sink_write ::
    "'c codec \<Rightarrow> nat \<Rightarrow> (u8 list \<Rightarrow> nat) \<Rightarrow> u8 list \<Rightarrow> 'c codec_sink \<Rightarrow> failure + (nat \<times> u8 list \<times> 'c codec_sink)" where
  "codec_sink_write k bufsize takes ins st =
     (case process k (sink_codec st) (bufsize - sink_end st) ins of
        Inl e \<Rightarrow> Inl e
      | Inr (_, os, rst, c) \<Rightarrow>
          (let (_, taken, st') = pass_on takes
                 (st\<lparr>sink_codec := c, sink_obuf := sink_obuf st @ os, sink_end := sink_end st + length os\<rparr>)
           in Inr (length ins - length rst, taken, st')))"

text \<open>\<open>flushed\<close> is what \<open>flush\<close> of the sink below returns.\<close>

partial_function (option) codec_sink_flush ::
    "'c codec \<Rightarrow> nat \<Rightarrow> (u8 list \<Rightarrow> nat) \<Rightarrow> bool \<Rightarrow> u8 list \<Rightarrow> 'c codec_sink \<Rightarrow> (failure + (bool \<times> u8 list \<times> 'c codec_sink)) option" where
  "codec_sink_flush k bufsize takes flushed outs st =
     (case finish k (sink_codec st) (bufsize - sink_end st) of
        Inl e \<Rightarrow> Some (Inl e)
      | Inr (fin, os, c) \<Rightarrow>
          (let (all_taken, taken, st') = pass_on takes
                 (st\<lparr>sink_codec := c, sink_obuf := sink_obuf st @ os, sink_end := sink_end st + length os\<rparr>)
           in if \<not> all_taken then Some (Inr (False, outs @ taken, st'))
              else if fin then Some (Inr (flushed, outs @ taken, st'))
              else codec_sink_flush k bufsize takes flushed (outs @ taken) st'))"

declare codec_sink_flush.simps [code]

text \<open>A sink that got the bytes \<open>given\<close> in some writes, whose sink below took \<open>taken\<close>.\<close>

inductive sink_used :: "'c codec \<Rightarrow> nat \<Rightarrow> u8 list \<Rightarrow> u8 list \<Rightarrow> 'c codec_sink \<Rightarrow> bool" for k bufsize where
  new: "sink_used k bufsize [] [] (new_codec_sink k)"
| wrote: "sink_used k bufsize given taken st \<Longrightarrow> codec_sink_write k bufsize takes ins st = Inr (n, t, st') \<Longrightarrow>
    sink_used k bufsize (given @ take n ins) (taken @ t) st'"

inductive_cases new_sink_used: "sink_used k bufsize [] taken st"

section \<open>CodecSource\<close>

text \<open>
  \<open>source_ibuf\<close> is what lies between \<open>ibuf_ptr\<close> and \<open>ibuf_eptr\<close>, \<open>source_end\<close> is \<open>ibuf_eptr - ibuf\<close>. The source below
  gives at most the bytes asked for, or \<open>None\<close> for a negative result.
\<close>

record 'c codec_source =
  source_codec :: 'c
  source_ibuf :: "u8 list"
  source_end :: nat

definition new_codec_source :: "'c codec \<Rightarrow> 'c codec_source" where
  "new_codec_source k = \<lparr>source_codec = start k, source_ibuf = [], source_end = 0\<rparr>"

text \<open>
  The value returned, the bytes in the buffer of the caller, the bytes written past its end and the state. \<open>finish\<close>
  is given \<open>obuf_eptr\<close>, the end of that buffer, as the place to write to.
\<close>

definition codec_source_read ::
    "'c codec \<Rightarrow> nat \<Rightarrow> (nat \<Rightarrow> u8 list option) \<Rightarrow> nat \<Rightarrow> 'c codec_source \<Rightarrow> failure + (int \<times> u8 list \<times> u8 list \<times> 'c codec_source)" where
  "codec_source_read k bufsize gives n st =
     (let s = gives (bufsize - source_end st);
          new = (case s of None \<Rightarrow> [] | Some xs \<Rightarrow> xs)
      in case process k (source_codec st) n (source_ibuf st @ new) of
           Inl e \<Rightarrow> Inl e
         | Inr (fin, os, rst, c) \<Rightarrow>
             if \<not> fin then Inr (int (length os), os, [], \<lparr>source_codec = c, source_ibuf = rst, source_end = source_end st + length new\<rparr>)
             else if s = None then
               (case finish k c (n - length os) of
                  Inl e \<Rightarrow> Inl e
                | Inr (finished, past, c') \<Rightarrow>
                    Inr (if os = [] then (if finished then - 1 else 0) else int (length os), os, past,
                         \<lparr>source_codec = c', source_ibuf = [], source_end = 0\<rparr>))
             else Inr (int (length os), os, [], \<lparr>source_codec = c, source_ibuf = [], source_end = 0\<rparr>))"

section \<open>A sink loses nothing\<close>

context stream_codec
begin

lemma pass_on_keeps:
  "pass_on takes st = (b, taken, st') \<Longrightarrow> sink_obuf st = taken @ sink_obuf st' \<and> sink_codec st' = sink_codec st
     \<and> sink_end st' \<le> sink_end st \<and> (b \<longrightarrow> sink_obuf st' = [] \<and> sink_end st' = 0)"
  by (auto simp: pass_on_def Let_def split: if_splits)

lemma write_keeps:
  assumes live: "live (sink_codec st)" and run: "codec_sink_write k bufsize takes ins st = Inr (n, taken, st')" and fit: "sink_end st \<le> bufsize"
  shows "live (sink_codec st')" "sink_end st' \<le> bufsize"
    "means (sink_codec st) (take n ins @ later) \<noteq> None \<Longrightarrow>
      sink_obuf st @ the (means (sink_codec st) (take n ins @ later)) = taken @ sink_obuf st' @ the (means (sink_codec st') later)
      \<and> means (sink_codec st') later \<noteq> None"
proof -
  obtain fin os rst c where p: "process k (sink_codec st) (bufsize - sink_end st) ins = Inr (fin, os, rst, c)"
    using run by (auto simp: codec_sink_write_def split: sum.splits)
  obtain used where u: "ins = used @ rst" "\<And>xs. means (sink_codec st) (used @ xs) = map_option ((@) os) (means c xs)"
    "live c" "length os \<le> bufsize - sink_end st"
    using process_used [OF live p] by blast
  obtain b where b: "pass_on takes (st\<lparr>sink_codec := c, sink_obuf := sink_obuf st @ os, sink_end := sink_end st + length os\<rparr>) = (b, taken, st')"
    and n: "take n ins = used"
    using run p u(1) by (auto simp: codec_sink_write_def split: prod.splits)
  note keeps = pass_on_keeps [OF b]
  show "live (sink_codec st')"
    using keeps u(3) by simp
  have "sink_end st' \<le> sink_end st + length os"
    using keeps by simp
  then show "sink_end st' \<le> bufsize"
    using u(4) fit by arith
  show "sink_obuf st @ the (means (sink_codec st) (take n ins @ later)) = taken @ sink_obuf st' @ the (means (sink_codec st') later)
      \<and> means (sink_codec st') later \<noteq> None" if "means (sink_codec st) (take n ins @ later) \<noteq> None"
    using keeps that by (cases "means c later") (auto simp: n u(2))
qed

text \<open>A codec that takes any input: an encoder.\<close>

lemma sink_used_inv:
  assumes total: "\<And>xs. means (start k) xs \<noteq> None" and used: "sink_used k bufsize given taken st"
  shows "live (sink_codec st) \<and> sink_end st \<le> bufsize
    \<and> (\<forall>later. means (start k) (given @ later) = map_option ((@) (taken @ sink_obuf st)) (means (sink_codec st) later))"
  using used
proof induction
  case new
  then show ?case
    by (simp add: new_codec_sink_def live_start option.map_ident)
next
  case (wrote given taken st takes ins n t st')
  have "means (start k) ((given @ take n ins) @ later) = map_option ((@) ((taken @ t) @ sink_obuf st')) (means (sink_codec st') later)" for later
  proof -
    have eq: "means (start k) (given @ take n ins @ later) = map_option ((@) (taken @ sink_obuf st)) (means (sink_codec st) (take n ins @ later))"
      using wrote.IH by blast
    then obtain os where os: "means (sink_codec st) (take n ins @ later) = Some os"
      using total [of "given @ take n ins @ later"] by (cases "means (sink_codec st) (take n ins @ later)") auto
    then show ?thesis
      using write_keeps(3) [OF _ wrote.hyps(2), of later] wrote.IH eq by auto
  qed
  then show ?case
    using write_keeps(1,2) [OF _ wrote.hyps(2)] wrote.IH by blast
qed

lemma flush_all:
  assumes "0 < bufsize" "sink_end st \<le> bufsize" "ends (sink_codec st) = Some os"
  shows "\<exists>st'. codec_sink_flush k bufsize length flushed outs st = Some (Inr (flushed, outs @ sink_obuf st @ os, st'))"
  using assms
proof (induction "2 * owed (sink_codec st) + (if sink_end st = bufsize then 1 else 0)" arbitrary: st os outs rule: less_induct)
  case less
  obtain fin os1 c where f: "finish k (sink_codec st) (bufsize - sink_end st) = Inr (fin, os1, c)"
    using finish_fails [of "sink_codec st" "bufsize - sink_end st"] less.prems(3)
    by (cases "finish k (sink_codec st) (bufsize - sink_end st)") auto
  note ok = finish_ok [OF _ f]
  define st1 where "st1 = st\<lparr>sink_codec := c, sink_obuf := [], sink_end := 0\<rparr>"
  have run: "codec_sink_flush k bufsize length flushed outs st =
      (if fin then Some (Inr (flushed, outs @ sink_obuf st @ os1, st1)) else codec_sink_flush k bufsize length flushed (outs @ sink_obuf st @ os1) st1)"
    using f by (subst codec_sink_flush.simps) (simp add: pass_on_def st1_def)
  show ?case
  proof (cases fin)
    case True
    then show ?thesis
      using run ok less.prems(3) by simp
  next
    case False
    obtain os2 where os2: "ends c = Some os2" "os = os1 @ os2"
      using ok False less.prems(3) by auto
    have "\<exists>st'. codec_sink_flush k bufsize length flushed (outs @ sink_obuf st @ os1) st1 = Some (Inr (flushed, (outs @ sink_obuf st @ os1) @ sink_obuf st1 @ os2, st'))"
    proof (rule less.hyps)
      have "owed c \<le> owed (sink_codec st)" "sink_end st < bufsize \<Longrightarrow> owed c < owed (sink_codec st)"
        using ok False less.prems(3) by simp_all
      then show "2 * owed (sink_codec st1) + (if sink_end st1 = bufsize then 1 else 0) < 2 * owed (sink_codec st) + (if sink_end st = bufsize then 1 else 0)"
        using less.prems(1,2) by (auto simp: st1_def)
    qed (use less.prems(1) os2(1) in \<open>simp_all add: st1_def\<close>)
    then show ?thesis
      using run False os2(2) by (simp add: st1_def)
  qed
qed

end

end
