(* ===== verification/Hex.thy ===== *)
theory Hex
  imports Codec_Streams
begin

text \<open>
  The codec of hexadecimal digits (\<open>common/hex.cpp\<close>) as two state machines that keep the contract of
  \<open>Codec\<close>, and what its two directions do.
\<close>

record hex_codec =
  buf_full :: bool
  hex_buf :: u8

definition new_hex :: hex_codec where
  "new_hex = \<lparr>buf_full = False, hex_buf = 0\<rparr>"

section \<open>HexEncoder\<close>

definition hex_encode_table :: "u8 list" where
  "hex_encode_table = map of_char ''0123456789abcdef''"

definition hex_digit :: "u32 \<Rightarrow> u8" where
  "hex_digit b = hex_encode_table ! unat b"

text \<open>The two points of the loop: its head, and the label \<open>buf_full\<close>.\<close>

fun hex_encode_head :: "nat \<Rightarrow> hex_codec \<Rightarrow> u8 list \<Rightarrow> failure + (bool \<times> u8 list \<times> u8 list \<times> hex_codec)"
  and hex_encode_full :: "nat \<Rightarrow> hex_codec \<Rightarrow> u32 \<Rightarrow> u8 list \<Rightarrow> failure + (bool \<times> u8 list \<times> u8 list \<times> hex_codec)" where
  "hex_encode_head n_out c [] = Inr (True, [], [], c\<lparr>buf_full := False\<rparr>)"
| "hex_encode_head 0 c (x # ins) = Inr (False, [], x # ins, c\<lparr>buf_full := False\<rparr>)"
| "hex_encode_head (Suc n_out) c (x # ins) =
     emit_byte (hex_digit (drop_bit 4 (ucast x))) (hex_encode_full n_out c (ucast x) ins)"
| "hex_encode_full 0 c b ins = Inr (False, [], ins, c\<lparr>buf_full := True, hex_buf := ucast b\<rparr>)"
| "hex_encode_full (Suc n_out) c b ins = emit_byte (hex_digit (and b 15)) (hex_encode_head n_out c ins)"

definition hex_encode_process :: "hex_codec \<Rightarrow> nat \<Rightarrow> u8 list \<Rightarrow> failure + (bool \<times> u8 list \<times> u8 list \<times> hex_codec)" where
  "hex_encode_process c n_out ins =
     (if buf_full c then hex_encode_full n_out c (ucast (hex_buf c)) ins else hex_encode_head n_out c ins)"

definition hex_encode_finish :: "hex_codec \<Rightarrow> nat \<Rightarrow> failure + (bool \<times> u8 list \<times> hex_codec)" where
  "hex_encode_finish c n_out =
     (case hex_encode_process c n_out [] of Inl e \<Rightarrow> Inl e | Inr (fin, os, _, c') \<Rightarrow> Inr (fin, os, c'))"

definition HexEncoder :: "hex_codec codec" where
  "HexEncoder = \<lparr>start = new_hex, process = hex_encode_process, finish = hex_encode_finish\<rparr>"

section \<open>HexDecoder\<close>

definition hex_decode_table :: "int list" where
  "hex_decode_table = [
     0, 1, 2, 3, 4, 5, 6, 7, 8, 9, -1, -1, -1, -1, -1, -1,
     -1, 10, 11, 12, 13, 14, 15, -1, -1, -1, -1, -1, -1, -1, -1, -1,
     -1, -1, -1, -1, -1, -1, -1, -1, -1, -1, -1, -1, -1, -1, -1, -1,
     -1, 10, 11, 12, 13, 14, 15]"

text \<open>\<open>(b -= '0') > 'f' - '0' || static_cast<int>(b = decode[b]) < 0\<close>: \<open>None\<close> when it throws.\<close>

definition hex_value :: "u8 \<Rightarrow> u32 option" where
  "hex_value x = (let b = ucast x - 48 :: u32 in
     if b > 54 then None
     else let v = hex_decode_table ! unat b in if v < 0 then None else Some (word_of_int v))"

fun hex_decode_head :: "nat \<Rightarrow> hex_codec \<Rightarrow> u8 list \<Rightarrow> failure + (bool \<times> u8 list \<times> u8 list \<times> hex_codec)"
  and hex_decode_full :: "nat \<Rightarrow> hex_codec \<Rightarrow> u32 \<Rightarrow> u8 list \<Rightarrow> failure + (bool \<times> u8 list \<times> u8 list \<times> hex_codec)" where
  "hex_decode_head n_out c [] = Inr (True, [], [], c\<lparr>buf_full := False\<rparr>)"
| "hex_decode_head n_out c (x # ins) =
     (case hex_value x of None \<Rightarrow> Inl Invalid_input | Some b0 \<Rightarrow> hex_decode_full n_out c b0 ins)"
| "hex_decode_full n_out c b0 [] = Inr (True, [], [], c\<lparr>buf_full := True, hex_buf := ucast b0\<rparr>)"
| "hex_decode_full 0 c b0 (x # ins) = Inr (False, [], x # ins, c\<lparr>buf_full := True, hex_buf := ucast b0\<rparr>)"
| "hex_decode_full (Suc n_out) c b0 (x # ins) =
     (case hex_value x of
        None \<Rightarrow> Inl Invalid_input
      | Some b1 \<Rightarrow> emit_byte (ucast (or (push_bit 4 b0) b1)) (hex_decode_head n_out c ins))"

definition hex_decode_process :: "hex_codec \<Rightarrow> nat \<Rightarrow> u8 list \<Rightarrow> failure + (bool \<times> u8 list \<times> u8 list \<times> hex_codec)" where
  "hex_decode_process c n_out ins =
     (if buf_full c then hex_decode_full n_out c (ucast (hex_buf c)) ins else hex_decode_head n_out c ins)"

definition hex_decode_finish :: "hex_codec \<Rightarrow> nat \<Rightarrow> failure + (bool \<times> u8 list \<times> hex_codec)" where
  "hex_decode_finish c n_out = (if buf_full c then Inl Invalid_input else Inr (True, [], c))"

definition HexDecoder :: "hex_codec codec" where
  "HexDecoder = \<lparr>start = new_hex, process = hex_decode_process, finish = hex_decode_finish\<rparr>"

section \<open>The two directions\<close>

text \<open>Two lower-case digits per byte, and back from digits of either case.\<close>

definition hex_text :: "u8 list \<Rightarrow> u8 list" where
  "hex_text xs = concat (map (\<lambda>x. [hex_digit (drop_bit 4 (ucast x)), hex_digit (and (ucast x) 15)]) xs)"

fun hex_bytes :: "u8 list \<Rightarrow> u8 list option"
  and hex_second :: "u32 \<Rightarrow> u8 list \<Rightarrow> u8 list option" where
  "hex_bytes [] = Some []"
| "hex_bytes (x # ins) = (case hex_value x of None \<Rightarrow> None | Some b0 \<Rightarrow> hex_second b0 ins)"
| "hex_second b0 [] = None"
| "hex_second b0 (y # ins) =
     (case hex_value y of None \<Rightarrow> None | Some b1 \<Rightarrow> map_option ((#) (ucast (or (push_bit 4 b0) b1))) (hex_bytes ins))"

lemma hex_text_simps [simp]:
  "hex_text [] = []"
  "hex_text (x # xs) = hex_digit (drop_bit 4 (ucast x)) # hex_digit (and (ucast x) 15) # hex_text xs"
  by (simp_all add: hex_text_def)

text \<open>What is to come: the digit kept back, then the digits of the input.\<close>

definition hex_encode_means :: "hex_codec \<Rightarrow> u8 list \<Rightarrow> u8 list option" where
  "hex_encode_means c ins = Some ((if buf_full c then [hex_digit (and (ucast (hex_buf c)) 15)] else []) @ hex_text ins)"

definition hex_encode_owed :: "hex_codec \<Rightarrow> nat" where
  "hex_encode_owed c = (if buf_full c then 1 else 0)"

abbreviation "hex_encode_ok \<equiv> run_ok (\<lambda>_. True) hex_encode_means hex_encode_owed"

lemma hex_encode_run:
  "hex_encode_ok n ins (4 * length ins) (\<lambda>xs. Some (hex_text xs)) (hex_encode_head n c ins)"
  "unat b < 256 \<Longrightarrow> hex_encode_ok n ins (4 * length ins + 1) (\<lambda>xs. Some (hex_digit (and b 15) # hex_text xs)) (hex_encode_full n c b ins)"
proof (induction n c ins and n c b ins rule: hex_encode_head_hex_encode_full.induct)
  case (1 n_out c)
  show ?case
    by (simp add: run_ok_used hex_encode_means_def)
next
  case (2 c x ins)
  show ?case
    by (auto intro!: run_ok_full simp: hex_encode_means_def hex_encode_owed_def)
next
  case (3 n_out c x ins)
  show ?case
    using 3 by (auto intro!: run_ok_both)
next
  case (4 c b ins)
  then show ?case
    by (auto intro!: run_ok_full simp: hex_encode_means_def hex_encode_owed_def low_byte)
next
  case (5 n_out c b ins)
  show ?case
    using 5(1) by (auto intro!: run_ok_write)
qed

interpretation hex_encoder: stream_codec HexEncoder "\<lambda>_. True" hex_encode_means "\<lambda>c. hex_encode_means c []" hex_encode_owed
proof
  fix c n ins
  show "hex_encode_ok n ins (4 * length ins + hex_encode_owed c) (hex_encode_means c) (process HexEncoder c n ins)"
    using hex_encode_run(1) [of n ins c] hex_encode_run(2) [of "ucast (hex_buf c)" n ins c]
    by (cases "buf_full c") (simp_all add: HexEncoder_def hex_encode_process_def hex_encode_owed_def hex_encode_means_def [abs_def])
next
  fix c n fin os c'
  assume "finish HexEncoder c n = Inr (fin, os, c')"
  then show "length os \<le> n \<and> (if fin then hex_encode_means c [] = Some os
      else hex_encode_means c [] = map_option ((@) os) (hex_encode_means c' []) \<and> hex_encode_means c' [] \<noteq> None
        \<and> hex_encode_means c' [] \<noteq> Some [] \<and> length os = n \<and> hex_encode_owed c' \<le> hex_encode_owed c \<and> (0 < n \<longrightarrow> hex_encode_owed c' < hex_encode_owed c))"
    by (cases n) (auto simp: HexEncoder_def hex_encode_finish_def hex_encode_process_def hex_encode_means_def hex_encode_owed_def
        emit_byte_def low_byte split: if_splits)
next
  fix c n e
  assume "finish HexEncoder c n = Inl e"
  then show "e = Invalid_input \<and> hex_encode_means c [] = None"
    by (cases n) (auto simp: HexEncoder_def hex_encode_finish_def hex_encode_process_def emit_byte_def split: if_splits)
qed simp_all

section \<open>The decoder keeps the contract\<close>

definition hex_decode_means :: "hex_codec \<Rightarrow> u8 list \<Rightarrow> u8 list option" where
  "hex_decode_means c ins = (if buf_full c then hex_second (ucast (hex_buf c)) ins else hex_bytes ins)"

abbreviation "hex_decode_ok \<equiv> run_ok (\<lambda>_. True) hex_decode_means (\<lambda>_. 0)"

lemma hex_decode_values: "\<forall>v \<in> set hex_decode_table. v < 16"
  by (simp add: hex_decode_table_def)

lemma hex_value_less: "hex_value x = Some b \<Longrightarrow> unat b < 16"
proof -
  assume a: "hex_value x = Some b"
  let ?i = "unat (ucast x - 48 :: u32)"
  have i: "?i < length hex_decode_table" and b: "0 \<le> hex_decode_table ! ?i" "b = word_of_int (hex_decode_table ! ?i)"
    using a by (auto simp: hex_value_def Let_def word_less_nat_alt hex_decode_table_def split: if_splits)
  have "hex_decode_table ! ?i < 16"
    using hex_decode_values i nth_mem by blast
  then show "unat b < 16"
    using b by (simp add: unsigned_of_int take_bit_int_eq_self)
qed

lemma hex_decode_run:
  "hex_decode_ok n ins (4 * length ins) hex_bytes (hex_decode_head n c ins)"
  "unat b0 < 256 \<Longrightarrow> hex_decode_ok n ins (4 * length ins) (hex_second b0) (hex_decode_full n c b0 ins)"
proof (induction n c ins and n c b0 ins rule: hex_decode_head_hex_decode_full.induct)
  case (1 n_out c)
  show ?case
    by (simp add: run_ok_used hex_decode_means_def)
next
  case (2 n_out c x ins)
  show ?case
  proof (cases "hex_value x")
    case (Some b0)
    then show ?thesis
      using 2 hex_value_less [OF Some] by (auto elim: run_ok_read)
  qed (simp add: run_ok_throw)
next
  case (3 n_out c b0)
  then show ?case
    by (simp add: run_ok_used hex_decode_means_def low_byte)
next
  case (4 c b0 x ins)
  then show ?case
    by (cases "hex_value x") (auto intro!: run_ok_full simp: hex_decode_means_def low_byte)
next
  case (5 n_out c b0 x ins)
  show ?case
  proof (cases "hex_value x")
    case (Some b1)
    then show ?thesis
      using 5 by (auto intro!: run_ok_both)
  qed (simp add: run_ok_throw)
qed

interpretation hex_decoder: stream_codec HexDecoder "\<lambda>_. True" hex_decode_means "\<lambda>c. hex_decode_means c []" "\<lambda>_. 0"
proof
  fix c n ins
  show "hex_decode_ok n ins (4 * length ins + 0) (hex_decode_means c) (process HexDecoder c n ins)"
    using hex_decode_run(1) [of n ins c] hex_decode_run(2) [of "ucast (hex_buf c)" n ins c]
    by (cases "buf_full c") (simp_all add: HexDecoder_def hex_decode_process_def hex_decode_means_def [abs_def])
qed (auto simp: HexDecoder_def hex_decode_finish_def hex_decode_means_def split: if_splits)

section \<open>Properties\<close>

lemma hex_digits: "\<forall>i \<in> set [0..<16]. hex_value (hex_digit (of_nat i)) = Some (of_nat i)"
  by code_simp

lemma hex_value_digit: "unat b < 16 \<Longrightarrow> hex_value (hex_digit b) = Some b"
  using hex_digits [rule_format, of "unat b"] by simp

lemma hex_byte:
  fixes x :: u8
  shows "unat (drop_bit 4 (ucast x :: u32)) < 16" "unat (and (ucast x :: u32) 15) < 16"
    "ucast (or (push_bit 4 (drop_bit 4 (ucast x :: u32))) (and (ucast x) 15)) = x"
proof -
  have low: "and (ucast x :: u32) 15 = take_bit 4 (ucast x)"
    by (simp add: take_bit_eq_mask mask_eq_exp_minus_1)
  have m: "unat x mod 4294967296 = unat x"
    by (rule mod_less) (rule less_trans [OF byte_less], simp)
  have "unat (drop_bit 4 (ucast x :: u32)) = unat x div 16" "unat (and (ucast x :: u32) 15) = unat x mod 16"
    unfolding low by (simp_all add: unsigned_drop_bit_eq unsigned_take_bit_eq) (simp_all add: drop_bit_eq_div take_bit_eq_mod m)
  then show "unat (drop_bit 4 (ucast x :: u32)) < 16" "unat (and (ucast x :: u32) 15) < 16"
    using less_mult_imp_div_less [of "unat x" 16 16] by simp_all
  show "ucast (or (push_bit 4 (drop_bit 4 (ucast x :: u32))) (and (ucast x) 15)) = x"
    unfolding low by (rule bit_word_eqI) (auto simp: bit_simps)
qed

lemma hex_bytes_text: "hex_bytes (hex_text xs) = Some xs"
  by (induction xs) (simp_all add: hex_value_digit hex_byte)

end
