(* ===== verification/Base64.thy ===== *)
theory Base64
  imports Codec_Streams
begin

text \<open>
  The base64 codec (\<open>common/base64.cpp\<close>): the labels \<open>state0\<close> to \<open>state5\<close> of the two loops are functions that
  call each other, and a call that runs out of input or room files its label in \<open>state\<close>.
\<close>

record base64_codec =
  b64_state :: u8
  b64_buf :: u8

definition new_base64 :: base64_codec where
  "new_base64 = \<lparr>b64_state = 0, b64_buf = 0\<rparr>"

definition pad :: u8 where
  "pad = 61"

section \<open>Base64Encoder\<close>

definition base64_encode_table :: "u8 list" where
  "base64_encode_table = map of_char
     ''ABCDEFGHIJKLMNOPQRSTUVWXYZabcdefghijklmnopqrstuvwxyz0123456789+/''"

definition base64_digit :: "u32 \<Rightarrow> u8" where
  "base64_digit b = base64_encode_table ! unat b"

type_synonym base64_run = "failure + (bool \<times> u8 list \<times> u8 list \<times> base64_codec)"

fun base64_encode0 :: "nat \<Rightarrow> base64_codec \<Rightarrow> u8 list \<Rightarrow> base64_run"
  and base64_encode1 :: "nat \<Rightarrow> base64_codec \<Rightarrow> u32 \<Rightarrow> u8 list \<Rightarrow> base64_run"
  and base64_encode2 :: "nat \<Rightarrow> base64_codec \<Rightarrow> u32 \<Rightarrow> u8 list \<Rightarrow> base64_run"
  and base64_encode3 :: "nat \<Rightarrow> base64_codec \<Rightarrow> u32 \<Rightarrow> u8 list \<Rightarrow> base64_run" where
  "base64_encode0 n_out c [] = Inr (True, [], [], c\<lparr>b64_state := 0\<rparr>)"
| "base64_encode0 0 c (x # ins) = Inr (False, [], x # ins, c\<lparr>b64_state := 0\<rparr>)"
| "base64_encode0 (Suc n_out) c (x # ins) =
     emit_byte (base64_digit (drop_bit 2 (ucast x))) (base64_encode1 n_out c (ucast x) ins)"
| "base64_encode1 n_out c b0 [] = Inr (True, [], [], c\<lparr>b64_state := 1, b64_buf := ucast b0\<rparr>)"
| "base64_encode1 0 c b0 (x # ins) = Inr (False, [], x # ins, c\<lparr>b64_state := 1, b64_buf := ucast b0\<rparr>)"
| "base64_encode1 (Suc n_out) c b0 (x # ins) =
     emit_byte (base64_digit (or (and (push_bit 4 b0) 63) (drop_bit 4 (ucast x)))) (base64_encode2 n_out c (ucast x) ins)"
| "base64_encode2 n_out c b1 [] = Inr (True, [], [], c\<lparr>b64_state := 2, b64_buf := ucast b1\<rparr>)"
| "base64_encode2 0 c b1 (x # ins) = Inr (False, [], x # ins, c\<lparr>b64_state := 2, b64_buf := ucast b1\<rparr>)"
| "base64_encode2 (Suc n_out) c b1 (x # ins) =
     emit_byte (base64_digit (or (and (push_bit 2 b1) 63) (drop_bit 6 (ucast x)))) (base64_encode3 n_out c (ucast x) ins)"
| "base64_encode3 0 c b0 ins = Inr (False, [], ins, c\<lparr>b64_state := 3, b64_buf := ucast b0\<rparr>)"
| "base64_encode3 (Suc n_out) c b0 ins = emit_byte (base64_digit (and b0 63)) (base64_encode0 n_out c ins)"

definition base64_encode_process :: "base64_codec \<Rightarrow> nat \<Rightarrow> u8 list \<Rightarrow> base64_run" where
  "base64_encode_process c n_out ins =
     (if b64_state c = 0 then base64_encode0 n_out c ins
      else if b64_state c = 1 then base64_encode1 n_out c (ucast (b64_buf c)) ins
      else if b64_state c = 2 then base64_encode2 n_out c (ucast (b64_buf c)) ins
      else if b64_state c = 3 then base64_encode3 n_out c (ucast (b64_buf c)) ins
      else Inl Illegal_state)"

text \<open>\<open>case 5\<close> and the label \<open>state5\<close>, then \<open>case 4\<close>, each with what it falls through to.\<close>

fun base64_finish5 :: "base64_codec \<Rightarrow> nat \<Rightarrow> failure + (bool \<times> u8 list \<times> base64_codec)" where
  "base64_finish5 c 0 = Inr (False, [], c\<lparr>b64_state := 5\<rparr>)"
| "base64_finish5 c (Suc n_out) = Inr (True, [pad], c\<lparr>b64_state := 6\<rparr>)"

fun base64_finish4 :: "base64_codec \<Rightarrow> nat \<Rightarrow> failure + (bool \<times> u8 list \<times> base64_codec)" where
  "base64_finish4 c 0 = Inr (False, [], c\<lparr>b64_state := 4\<rparr>)"
| "base64_finish4 c (Suc n_out) = emit_byte pad (base64_finish5 c n_out)"

definition base64_encode_finish :: "base64_codec \<Rightarrow> nat \<Rightarrow> failure + (bool \<times> u8 list \<times> base64_codec)" where
  "base64_encode_finish c n_out =
     (let b = ucast (b64_buf c) :: u32 in
      if b64_state c = 0 then Inr (True, [], c\<lparr>b64_state := 6\<rparr>)
      else if b64_state c = 1 then
        (case n_out of 0 \<Rightarrow> Inr (False, [], c)
         | Suc n \<Rightarrow> emit_byte (base64_digit (and (push_bit 4 b) 63)) (base64_finish4 c n))
      else if b64_state c = 4 then base64_finish4 c n_out
      else if b64_state c = 2 then
        (case n_out of 0 \<Rightarrow> Inr (False, [], c)
         | Suc n \<Rightarrow> emit_byte (base64_digit (and (push_bit 2 b) 63)) (base64_finish5 c n))
      else if b64_state c = 5 then base64_finish5 c n_out
      else if b64_state c = 3 then
        (case n_out of 0 \<Rightarrow> Inr (False, [], c)
         | Suc n \<Rightarrow> Inr (True, [base64_digit (and b 63)], c\<lparr>b64_state := 6\<rparr>))
      else if b64_state c = 6 then Inr (True, [], c)
      else Inl Illegal_state)"

definition Base64Encoder :: "base64_codec codec" where
  "Base64Encoder = \<lparr>start = new_base64, process = base64_encode_process, finish = base64_encode_finish\<rparr>"

section \<open>Base64Decoder\<close>

definition base64_decode_table :: "int list" where
  "base64_decode_table = [
     62, -1, -1, -1, 63, 52, 53, 54, 55, 56, 57, 58, 59, 60, 61, -1, -1, -1, -1, -1,
     -1, -1,  0,  1,  2,  3,  4,  5,  6,  7,  8,  9, 10, 11, 12, 13, 14, 15, 16, 17,
     18, 19, 20, 21, 22, 23, 24, 25, -1, -1, -1, -1, -1, -1, 26, 27, 28, 29, 30, 31,
     32, 33, 34, 35, 36, 37, 38, 39, 40, 41, 42, 43, 44, 45, 46, 47, 48, 49, 50, 51]"

text \<open>\<open>(b -= '+') > 'z' - '+' || static_cast<int>(b = decode[b]) < 0\<close>: \<open>None\<close> when it throws.\<close>

definition base64_value :: "u8 \<Rightarrow> u32 option" where
  "base64_value x = (let b = ucast x - 43 :: u32 in
     if b > 79 then None
     else let v = base64_decode_table ! unat b in if v < 0 then None else Some (word_of_int v))"

fun base64_decode5 :: "base64_codec \<Rightarrow> u8 list \<Rightarrow> base64_run" where
  "base64_decode5 c [] = Inr (True, [], [], c\<lparr>b64_state := 5\<rparr>)"
| "base64_decode5 c (x # ins) = Inl Invalid_input"

fun base64_decode4 :: "base64_codec \<Rightarrow> u8 list \<Rightarrow> base64_run" where
  "base64_decode4 c [] = Inr (True, [], [], c\<lparr>b64_state := 4\<rparr>)"
| "base64_decode4 c (x # ins) = (if x \<noteq> pad then Inl Invalid_input else base64_decode5 c ins)"

fun base64_decode0 :: "nat \<Rightarrow> base64_codec \<Rightarrow> u8 list \<Rightarrow> base64_run"
  and base64_decode1 :: "nat \<Rightarrow> base64_codec \<Rightarrow> u32 \<Rightarrow> u8 list \<Rightarrow> base64_run"
  and base64_decode2 :: "nat \<Rightarrow> base64_codec \<Rightarrow> u32 \<Rightarrow> u8 list \<Rightarrow> base64_run"
  and base64_decode3 :: "nat \<Rightarrow> base64_codec \<Rightarrow> u32 \<Rightarrow> u8 list \<Rightarrow> base64_run" where
  "base64_decode0 n_out c [] = Inr (True, [], [], c\<lparr>b64_state := 0\<rparr>)"
| "base64_decode0 n_out c (x # ins) =
     (case base64_value x of None \<Rightarrow> Inl Invalid_input | Some b0 \<Rightarrow> base64_decode1 n_out c b0 ins)"
| "base64_decode1 n_out c b0 [] = Inr (True, [], [], c\<lparr>b64_state := 1, b64_buf := ucast b0\<rparr>)"
| "base64_decode1 0 c b0 (x # ins) = Inr (False, [], x # ins, c\<lparr>b64_state := 1, b64_buf := ucast b0\<rparr>)"
| "base64_decode1 (Suc n_out) c b0 (x # ins) =
     (case base64_value x of None \<Rightarrow> Inl Invalid_input
      | Some b1 \<Rightarrow> emit_byte (ucast (or (push_bit 2 b0) (drop_bit 4 b1))) (base64_decode2 n_out c b1 ins))"
| "base64_decode2 n_out c b1 [] = Inr (True, [], [], c\<lparr>b64_state := 2, b64_buf := ucast b1\<rparr>)"
| "base64_decode2 n_out c b1 (x # ins) =
     (if x = pad then base64_decode4 c ins
      else case n_out of
        0 \<Rightarrow> Inr (False, [], x # ins, c\<lparr>b64_state := 2, b64_buf := ucast b1\<rparr>)
      | Suc n \<Rightarrow>
          (case base64_value x of None \<Rightarrow> Inl Invalid_input
           | Some b0 \<Rightarrow> emit_byte (ucast (or (push_bit 4 b1) (drop_bit 2 b0))) (base64_decode3 n c b0 ins)))"
| "base64_decode3 n_out c b0 [] = Inr (True, [], [], c\<lparr>b64_state := 3, b64_buf := ucast b0\<rparr>)"
| "base64_decode3 n_out c b0 (x # ins) =
     (if x = pad then base64_decode5 c ins
      else case n_out of
        0 \<Rightarrow> Inr (False, [], x # ins, c\<lparr>b64_state := 3, b64_buf := ucast b0\<rparr>)
      | Suc n \<Rightarrow>
          (case base64_value x of None \<Rightarrow> Inl Invalid_input
           | Some b1 \<Rightarrow> emit_byte (ucast (or (push_bit 6 b0) b1)) (base64_decode0 n c ins)))"

text \<open>A state that has no case enters the loop at its head; there is none above 5.\<close>

definition base64_decode_process :: "base64_codec \<Rightarrow> nat \<Rightarrow> u8 list \<Rightarrow> base64_run" where
  "base64_decode_process c n_out ins =
     (if b64_state c = 1 then base64_decode1 n_out c (ucast (b64_buf c)) ins
      else if b64_state c = 2 then base64_decode2 n_out c (ucast (b64_buf c)) ins
      else if b64_state c = 3 then base64_decode3 n_out c (ucast (b64_buf c)) ins
      else if b64_state c = 4 then base64_decode4 c ins
      else if b64_state c = 5 then base64_decode5 c ins
      else base64_decode0 n_out c ins)"

definition base64_decode_finish :: "base64_codec \<Rightarrow> nat \<Rightarrow> failure + (bool \<times> u8 list \<times> base64_codec)" where
  "base64_decode_finish c n_out = (if b64_state c \<noteq> 0 \<and> b64_state c \<noteq> 5 then Inl Invalid_input else Inr (True, [], c))"

definition Base64Decoder :: "base64_codec codec" where
  "Base64Decoder = \<lparr>start = new_base64, process = base64_decode_process, finish = base64_decode_finish\<rparr>"

section \<open>The text of a list of bytes\<close>

text \<open>As RFC 4648 has it: three bytes are four digits, and what is left over is padded.\<close>

fun base64_text :: "u8 list \<Rightarrow> u8 list" where
  "base64_text [] = []"
| "base64_text [x] = [base64_digit (drop_bit 2 (ucast x)), base64_digit (and (push_bit 4 (ucast x)) 63), pad, pad]"
| "base64_text [x, y] =
     [base64_digit (drop_bit 2 (ucast x)), base64_digit (or (and (push_bit 4 (ucast x)) 63) (drop_bit 4 (ucast y))),
      base64_digit (and (push_bit 2 (ucast y)) 63), pad]"
| "base64_text (x # y # z # xs) =
     base64_digit (drop_bit 2 (ucast x)) # base64_digit (or (and (push_bit 4 (ucast x)) 63) (drop_bit 4 (ucast y)))
     # base64_digit (or (and (push_bit 2 (ucast y)) 63) (drop_bit 6 (ucast z))) # base64_digit (and (ucast z) 63) # base64_text xs"

text \<open>The text after one and after two bytes of a group.\<close>

fun base64_after1 :: "u32 \<Rightarrow> u8 list \<Rightarrow> u8 list"
  and base64_after2 :: "u32 \<Rightarrow> u8 list \<Rightarrow> u8 list" where
  "base64_after1 b0 [] = [base64_digit (and (push_bit 4 b0) 63), pad, pad]"
| "base64_after1 b0 (y # ins) = base64_digit (or (and (push_bit 4 b0) 63) (drop_bit 4 (ucast y))) # base64_after2 (ucast y) ins"
| "base64_after2 b1 [] = [base64_digit (and (push_bit 2 b1) 63), pad]"
| "base64_after2 b1 (z # ins) =
     base64_digit (or (and (push_bit 2 b1) 63) (drop_bit 6 (ucast z))) # base64_digit (and (ucast z) 63) # base64_text ins"

lemma base64_text_Cons: "base64_text (x # ins) = base64_digit (drop_bit 2 (ucast x)) # base64_after1 (ucast x) ins"
  by (cases ins; cases "tl ins") auto

section \<open>The encoder keeps the contract\<close>

definition base64_pending :: "base64_codec \<Rightarrow> u32" where
  "base64_pending c = ucast (b64_buf c)"

definition base64_encode_means :: "base64_codec \<Rightarrow> u8 list \<Rightarrow> u8 list option" where
  "base64_encode_means c ins =
     Some (if b64_state c = 0 then base64_text ins else if b64_state c = 1 then base64_after1 (base64_pending c) ins
           else if b64_state c = 2 then base64_after2 (base64_pending c) ins
           else base64_digit (and (base64_pending c) 63) # base64_text ins)"

definition base64_encode_live :: "base64_codec \<Rightarrow> bool" where
  "base64_encode_live c \<longleftrightarrow> b64_state c \<in> {0, 1, 2, 3}"

definition base64_encode_ends :: "base64_codec \<Rightarrow> u8 list option" where
  "base64_encode_ends c =
     (if base64_encode_live c then base64_encode_means c [] else if b64_state c = 4 then Some [pad, pad]
      else if b64_state c = 5 then Some [pad] else if b64_state c = 6 then Some [] else None)"

definition base64_encode_owed :: "base64_codec \<Rightarrow> nat" where
  "base64_encode_owed c =
     (if b64_state c = 1 then 3 else if b64_state c \<in> {2, 4} then 2 else if b64_state c \<in> {3, 5} then 1 else 0)"

abbreviation "base64_encode_ok \<equiv> run_ok base64_encode_live base64_encode_means base64_encode_owed"

lemmas base64_encode_defs = base64_encode_means_def base64_encode_live_def base64_encode_owed_def base64_pending_def

lemma base64_encode_run:
  "base64_encode_ok n ins (4 * length ins) (\<lambda>xs. Some (base64_text xs)) (base64_encode0 n c ins)"
  "unat b < 256 \<Longrightarrow> base64_encode_ok n ins (4 * length ins + 3) (\<lambda>xs. Some (base64_after1 b xs)) (base64_encode1 n c b ins)"
  "unat b < 256 \<Longrightarrow> base64_encode_ok n ins (4 * length ins + 2) (\<lambda>xs. Some (base64_after2 b xs)) (base64_encode2 n c b ins)"
  "unat b < 256 \<Longrightarrow> base64_encode_ok n ins (4 * length ins + 1) (\<lambda>xs. Some (base64_digit (and b 63) # base64_text xs))
     (base64_encode3 n c b ins)"
proof (induction n c ins and n c b ins and n c b ins and n c b ins
    rule: base64_encode0_base64_encode1_base64_encode2_base64_encode3.induct)
  case (1 n_out c)
  show ?case
    by (simp add: run_ok_used base64_encode_defs)
next
  case (2 c x ins)
  show ?case
    by (auto intro!: run_ok_full simp: base64_encode_defs base64_text_Cons)
next
  case (3 n_out c x ins)
  show ?case
    using 3 by (auto intro!: run_ok_both simp: base64_text_Cons)
next
  case (4 n_out c b0)
  then show ?case
    by (simp add: run_ok_used base64_encode_defs low_byte)
next
  case (5 c b0 x ins)
  then show ?case
    by (auto intro!: run_ok_full simp: base64_encode_defs low_byte)
next
  case (6 n_out c b0 x ins)
  show ?case
    using 6 by (auto intro!: run_ok_both)
next
  case (7 n_out c b1)
  then show ?case
    by (simp add: run_ok_used base64_encode_defs low_byte)
next
  case (8 c b1 x ins)
  then show ?case
    by (auto intro!: run_ok_full simp: base64_encode_defs low_byte)
next
  case (9 n_out c b1 x ins)
  show ?case
    using 9 by (auto intro!: run_ok_both)
next
  case (10 c b0 ins)
  then show ?case
    by (auto intro!: run_ok_full simp: base64_encode_defs low_byte)
next
  case (11 n_out c b0 ins)
  show ?case
    using 11(1) by (auto intro!: run_ok_write)
qed

lemma base64_finish5_eq:
  "base64_finish5 c n = (if n = 0 then Inr (False, [], c\<lparr>b64_state := 5\<rparr>) else Inr (True, [pad], c\<lparr>b64_state := 6\<rparr>))"
  by (cases n) simp_all

lemma base64_finish4_eq:
  "base64_finish4 c n = (if n = 0 then Inr (False, [], c\<lparr>b64_state := 4\<rparr>) else emit_byte pad (base64_finish5 c (n - 1)))"
  by (cases n) simp_all

interpretation base64_encoder:
  stream_codec Base64Encoder base64_encode_live base64_encode_means base64_encode_ends base64_encode_owed
proof
  show "base64_encode_live (start Base64Encoder)"
    by (simp add: Base64Encoder_def new_base64_def base64_encode_live_def)
  show "base64_encode_means c [] = base64_encode_ends c" if "base64_encode_live c" for c
    using that by (simp add: base64_encode_ends_def)
  show "base64_encode_ok n ins (4 * length ins + base64_encode_owed c) (base64_encode_means c) (process Base64Encoder c n ins)"
    if "base64_encode_live c" for c n ins
    using that base64_encode_run(1) [of n ins c] base64_encode_run(2-4) [of "base64_pending c" n ins c]
    by (auto simp: Base64Encoder_def base64_encode_process_def base64_encode_means_def [abs_def] base64_encode_owed_def base64_encode_live_def base64_pending_def)
next
  fix c n fin os c'
  assume c: "base64_encode_ends c \<noteq> None \<or> base64_encode_live c" and run: "finish Base64Encoder c n = Inr (fin, os, c')"
  have st: "b64_state c \<in> {0, 1, 2, 3, 4, 5, 6}"
    using c by (auto simp: base64_encode_ends_def base64_encode_live_def split: if_splits)
  show "length os \<le> n \<and> (if fin then base64_encode_ends c = Some os
      else base64_encode_ends c = map_option ((@) os) (base64_encode_ends c') \<and> base64_encode_ends c' \<noteq> None
        \<and> base64_encode_ends c' \<noteq> Some [] \<and> length os = n \<and> base64_encode_owed c' \<le> base64_encode_owed c \<and> (0 < n \<longrightarrow> base64_encode_owed c' < base64_encode_owed c))"
    using st run
    by (auto simp: Base64Encoder_def base64_encode_finish_def base64_encode_ends_def base64_encode_defs base64_finish4_eq base64_finish5_eq
        emit_byte_def Let_def split: if_splits nat.splits)
next
  fix c n e
  assume c: "base64_encode_ends c \<noteq> None \<or> base64_encode_live c" and run: "finish Base64Encoder c n = Inl e"
  have "b64_state c \<in> {0, 1, 2, 3, 4, 5, 6}"
    using c by (auto simp: base64_encode_ends_def base64_encode_live_def split: if_splits)
  then show "e = Invalid_input \<and> base64_encode_ends c = None"
    using run
    by (auto simp: Base64Encoder_def base64_encode_finish_def base64_finish4_eq base64_finish5_eq emit_byte_def Let_def split: if_splits nat.splits)
qed

section \<open>The decoder keeps the contract\<close>

definition base64_end4 :: "u8 list \<Rightarrow> u8 list option" where
  "base64_end4 ins = (if ins = [pad] then Some [] else None)"

definition base64_end5 :: "u8 list \<Rightarrow> u8 list option" where
  "base64_end5 ins = (if ins = [] then Some [] else None)"

text \<open>What a text stands for, from each place in a group of four digits.\<close>

fun base64_bytes :: "u8 list \<Rightarrow> u8 list option"
  and base64_bytes1 :: "u32 \<Rightarrow> u8 list \<Rightarrow> u8 list option"
  and base64_bytes2 :: "u32 \<Rightarrow> u8 list \<Rightarrow> u8 list option"
  and base64_bytes3 :: "u32 \<Rightarrow> u8 list \<Rightarrow> u8 list option" where
  "base64_bytes [] = Some []"
| "base64_bytes (x # ins) = (case base64_value x of None \<Rightarrow> None | Some b0 \<Rightarrow> base64_bytes1 b0 ins)"
| "base64_bytes1 b0 [] = None"
| "base64_bytes1 b0 (x # ins) =
     (case base64_value x of None \<Rightarrow> None
      | Some b1 \<Rightarrow> map_option ((#) (ucast (or (push_bit 2 b0) (drop_bit 4 b1)))) (base64_bytes2 b1 ins))"
| "base64_bytes2 b1 [] = None"
| "base64_bytes2 b1 (x # ins) =
     (if x = pad then base64_end4 ins
      else case base64_value x of None \<Rightarrow> None
      | Some b0 \<Rightarrow> map_option ((#) (ucast (or (push_bit 4 b1) (drop_bit 2 b0)))) (base64_bytes3 b0 ins))"
| "base64_bytes3 b0 [] = None"
| "base64_bytes3 b0 (x # ins) =
     (if x = pad then base64_end5 ins
      else case base64_value x of None \<Rightarrow> None
      | Some b1 \<Rightarrow> map_option ((#) (ucast (or (push_bit 6 b0) b1))) (base64_bytes ins))"

definition base64_decode_means :: "base64_codec \<Rightarrow> u8 list \<Rightarrow> u8 list option" where
  "base64_decode_means c ins =
     (if b64_state c = 1 then base64_bytes1 (base64_pending c) ins else if b64_state c = 2 then base64_bytes2 (base64_pending c) ins
      else if b64_state c = 3 then base64_bytes3 (base64_pending c) ins else if b64_state c = 4 then base64_end4 ins
      else if b64_state c = 5 then base64_end5 ins else base64_bytes ins)"

definition base64_decode_live :: "base64_codec \<Rightarrow> bool" where
  "base64_decode_live c \<longleftrightarrow> b64_state c \<in> {0, 1, 2, 3, 4, 5}"

abbreviation "base64_decode_ok \<equiv> run_ok base64_decode_live base64_decode_means (\<lambda>_. 0)"

lemmas base64_decode_defs = base64_decode_means_def base64_decode_live_def base64_pending_def

lemma base64_decode_values: "\<forall>v \<in> set base64_decode_table. v < 64"
  by (simp add: base64_decode_table_def)

lemma base64_value_less: "base64_value x = Some b \<Longrightarrow> unat b < 64"
proof -
  assume a: "base64_value x = Some b"
  let ?i = "unat (ucast x - 43 :: u32)"
  have i: "?i < length base64_decode_table" and b: "0 \<le> base64_decode_table ! ?i" "b = word_of_int (base64_decode_table ! ?i)"
    using a by (auto simp: base64_value_def Let_def word_less_nat_alt base64_decode_table_def split: if_splits)
  have "base64_decode_table ! ?i < 64"
    using base64_decode_values i nth_mem by blast
  then show "unat b < 64"
    using b by (simp add: unsigned_of_int take_bit_int_eq_self)
qed

lemma base64_decode5_run:
  "base64_decode_ok n ins w base64_end5 (base64_decode5 c ins)"
  by (cases ins) (auto intro!: run_ok_throw run_ok_used simp: base64_end5_def base64_decode_defs)

lemma base64_decode4_run: "base64_decode_ok n ins w base64_end4 (base64_decode4 c ins)"
proof (cases ins)
  case (Cons x xs)
  show ?thesis
  proof (cases "x = pad")
    case True
    then show ?thesis
      using base64_decode5_run [of n xs w c] Cons by (auto elim!: run_ok_read simp: base64_end4_def base64_end5_def)
  qed (simp add: Cons run_ok_throw base64_end4_def)
qed (auto intro!: run_ok_used simp: base64_decode_defs)

lemma base64_decode_run:
  "base64_decode_ok n ins (4 * length ins) base64_bytes (base64_decode0 n c ins)"
  "unat b < 256 \<Longrightarrow> base64_decode_ok n ins (4 * length ins) (base64_bytes1 b) (base64_decode1 n c b ins)"
  "unat b < 256 \<Longrightarrow> base64_decode_ok n ins (4 * length ins) (base64_bytes2 b) (base64_decode2 n c b ins)"
  "unat b < 256 \<Longrightarrow> base64_decode_ok n ins (4 * length ins) (base64_bytes3 b) (base64_decode3 n c b ins)"
proof (induction n c ins and n c b ins and n c b ins and n c b ins
    rule: base64_decode0_base64_decode1_base64_decode2_base64_decode3.induct)
  case (1 n_out c)
  show ?case
    by (simp add: run_ok_used base64_decode_defs)
next
  case (2 n_out c x ins)
  show ?case
  proof (cases "base64_value x")
    case (Some b0)
    then show ?thesis
      using 2 base64_value_less [OF Some] by (auto elim: run_ok_read)
  qed (simp add: run_ok_throw)
next
  case (3 n_out c b0)
  then show ?case
    by (simp add: run_ok_used base64_decode_defs low_byte)
next
  case (4 c b0 x ins)
  then show ?case
    by (cases "base64_value x") (auto intro!: run_ok_full simp: base64_decode_defs low_byte)
next
  case (5 n_out c b0 x ins)
  show ?case
  proof (cases "base64_value x")
    case (Some b1)
    then show ?thesis
      using 5 base64_value_less [OF Some] by (auto intro!: run_ok_both)
  qed (simp add: run_ok_throw)
next
  case (6 n_out c b1)
  then show ?case
    by (simp add: run_ok_used base64_decode_defs low_byte)
next
  case (7 n_out c b1 x ins)
  show ?case
  proof (cases "x = pad")
    case True
    then show ?thesis
      using base64_decode4_run [of n_out ins "4 * length ins" c] by (auto elim: run_ok_read)
  next
    case pad: False
    show ?thesis
    proof (cases n_out)
      case 0
      then show ?thesis
        using 7(2) pad by (cases "base64_value x") (auto intro!: run_ok_full simp: base64_decode_defs low_byte)
    next
      case n: (Suc n)
      show ?thesis
      proof (cases "base64_value x")
        case (Some b0)
        then have "base64_decode_ok n ins (4 * length ins) (base64_bytes3 b0) (base64_decode3 n c b0 ins)"
          using 7(1) n pad base64_value_less [OF Some] by simp
        then show ?thesis
          using Some n pad by (auto intro!: run_ok_both)
      qed (simp add: n pad run_ok_throw)
    qed
  qed
next
  case (8 n_out c b0)
  then show ?case
    by (simp add: run_ok_used base64_decode_defs low_byte)
next
  case (9 n_out c b0 x ins)
  show ?case
  proof (cases "x = pad")
    case True
    then show ?thesis
      using base64_decode5_run [of n_out ins "4 * length ins" c] by (auto elim: run_ok_read)
  next
    case pad: False
    show ?thesis
    proof (cases n_out)
      case 0
      then show ?thesis
        using 9(2) pad by (cases "base64_value x") (auto intro!: run_ok_full simp: base64_decode_defs low_byte)
    next
      case n: (Suc n)
      show ?thesis
      proof (cases "base64_value x")
        case (Some b1)
        then show ?thesis
          using 9 n pad by (auto intro!: run_ok_both)
      qed (simp add: n pad run_ok_throw)
    qed
  qed
qed

interpretation base64_decoder:
  stream_codec Base64Decoder base64_decode_live base64_decode_means "\<lambda>c. if base64_decode_live c then base64_decode_means c [] else None" "\<lambda>_. 0"
proof
  show "base64_decode_ok n ins (4 * length ins + 0) (base64_decode_means c) (process Base64Decoder c n ins)"
    if "base64_decode_live c" for c n ins
    using that base64_decode_run(1) [of n ins c] base64_decode_run(2-4) [of "base64_pending c" n ins c]
      base64_decode4_run [of n ins "4 * length ins" c] base64_decode5_run [of n ins "4 * length ins" c]
    by (auto simp: Base64Decoder_def base64_decode_process_def base64_decode_means_def [abs_def] base64_decode_live_def base64_pending_def)
qed (auto simp: Base64Decoder_def new_base64_def base64_decode_finish_def base64_decode_defs base64_end4_def base64_end5_def split: if_splits)

section \<open>From bytes to text and back\<close>

lemma base64_table: "map base64_value base64_encode_table = map (\<lambda>i. Some (of_nat i)) [0..<64]" "pad \<notin> set base64_encode_table"
  by code_simp+

lemma length_base64_table: "length base64_encode_table = 64"
  by (simp add: base64_encode_table_def)

lemma base64_value_digit:
  assumes "unat b < 64"
  shows "base64_value (base64_digit b) = Some b" "base64_digit b \<noteq> pad"
proof -
  have "map base64_value base64_encode_table ! unat b = Some b"
    unfolding base64_table(1) using assms by simp
  then show "base64_value (base64_digit b) = Some b"
    using assms by (simp add: base64_digit_def length_base64_table)
  have "base64_digit b \<in> set base64_encode_table"
    unfolding base64_digit_def using assms by (intro nth_mem) (simp add: length_base64_table)
  then show "base64_digit b \<noteq> pad"
    using base64_table(2) by auto
qed

lemma six_bits: "and (b :: u32) 63 = take_bit 6 b"
  by (simp add: take_bit_eq_mask mask_eq_exp_minus_1)

lemma unat_six_bits: "(\<And>i. bit b i \<Longrightarrow> i < 6) \<Longrightarrow> unat (b :: u32) < 64"
proof -
  assume b: "\<And>i. bit b i \<Longrightarrow> i < 6"
  have "b = take_bit 6 b"
    by (rule bit_word_eqI) (auto simp: bit_simps dest: b)
  then have "unat b = take_bit 6 (unat b)"
    by (metis unsigned_take_bit_eq)
  also have "\<dots> < 64"
    by (simp add: take_bit_eq_mod)
  finally show ?thesis .
qed

lemma byte_bit: "bit (x :: u8) i \<Longrightarrow> i < 8"
  using bit_imp_le_length by fastforce

lemma two_back [simp]: "2 \<le> n \<Longrightarrow> Suc (Suc (n - 2)) = n"
  by simp

text \<open>The sextets of three bytes, the last one padded with zeros when bytes are missing.\<close>

definition sextet1 :: "u8 \<Rightarrow> u32" where
  "sextet1 x = drop_bit 2 (ucast x)"

definition sextet2 :: "u8 \<Rightarrow> u8 \<Rightarrow> u32" where
  "sextet2 x y = or (and (push_bit 4 (ucast x)) 63) (drop_bit 4 (ucast y))"

definition sextet3 :: "u8 \<Rightarrow> u8 \<Rightarrow> u32" where
  "sextet3 y z = or (and (push_bit 2 (ucast y)) 63) (drop_bit 6 (ucast z))"

definition sextet4 :: "u8 \<Rightarrow> u32" where
  "sextet4 z = and (ucast z) 63"

lemmas sextet_defs = sextet1_def sextet2_def sextet3_def sextet4_def

lemma base64_text_sextets:
  "base64_text [x] = [base64_digit (sextet1 x), base64_digit (sextet2 x 0), pad, pad]"
  "base64_text [x, y] = [base64_digit (sextet1 x), base64_digit (sextet2 x y), base64_digit (sextet3 y 0), pad]"
  "base64_text (x # y # z # xs) = base64_digit (sextet1 x) # base64_digit (sextet2 x y) # base64_digit (sextet3 y z)
     # base64_digit (sextet4 z) # base64_text xs"
  by (simp_all add: sextet_defs)

lemma sextet_less: "unat (sextet1 x) < 64" "unat (sextet2 x y) < 64" "unat (sextet3 x y) < 64" "unat (sextet4 x) < 64"
  unfolding sextet_defs six_bits by (rule unat_six_bits; auto simp: bit_simps dest!: byte_bit)+

lemma sextet_byte1: "ucast (or (push_bit 2 (sextet1 x)) (drop_bit 4 (sextet2 x y))) = x"
  unfolding sextet_defs six_bits by (rule bit_word_eqI) (auto simp: bit_simps dest: byte_bit)

lemma sextet_byte2: "ucast (or (push_bit 4 (sextet2 x y)) (drop_bit 2 (sextet3 y z))) = y"
  unfolding sextet_defs six_bits by (rule bit_word_eqI) (auto simp: bit_simps dest: byte_bit)

lemma sextet_byte3: "ucast (or (push_bit 6 (sextet3 y z)) (sextet4 z)) = z"
  unfolding sextet_defs six_bits by (rule bit_word_eqI) (auto simp: bit_simps dest: byte_bit)

lemma base64_bytes_text: "base64_bytes (base64_text xs) = Some xs"
proof (induction xs rule: base64_text.induct)
  case (2 x)
  show ?case
    unfolding base64_text_sextets
    by (simp add: base64_value_digit sextet_less sextet_byte1 base64_end4_def)
next
  case (3 x y)
  show ?case
    unfolding base64_text_sextets
    by (simp add: base64_value_digit sextet_less sextet_byte1 sextet_byte2 base64_end5_def)
next
  case (4 x y z xs)
  then show ?case
    unfolding base64_text_sextets
    by (simp add: base64_value_digit sextet_less sextet_byte1 sextet_byte2 sextet_byte3)
qed simp

end
