(* ===== verification/Codec_Properties.thy ===== *)
theory Codec_Properties
  imports Hex Base64
begin

text \<open>
  What the codecs promise: their output depends on neither the sizes of the buffers nor the cuts in the input, text
  goes back to the bytes it came from, and bad text is turned down. At the end, where a \<open>CodecSource\<close> goes wrong.
\<close>

lemma base64_encoder_means: "base64_encode_means (start Base64Encoder) xs = Some (base64_text xs)"
  by (simp add: Base64Encoder_def new_base64_def base64_encode_means_def)

lemma base64_decoder_means: "base64_decode_means (start Base64Decoder) xs = base64_bytes xs"
  by (simp add: Base64Decoder_def new_base64_def base64_decode_means_def)

lemma hex_encoder_means: "hex_encode_means (start HexEncoder) xs = Some (hex_text xs)"
  by (simp add: HexEncoder_def new_hex_def hex_encode_means_def)

lemma hex_decoder_means: "hex_decode_means (start HexDecoder) xs = hex_bytes xs"
  by (simp add: HexDecoder_def new_hex_def hex_decode_means_def)

section \<open>Encoding\<close>

text \<open>
  C34: whatever the size of the output buffer and however the source cuts its data, the base64 encoder appends the
  text that RFC 4648 gives for all of the data; into a buffer of fixed size it writes that text exactly when it
  fits.
\<close>

theorem base64_encodes_any_cuts:
  assumes "0 < room"
  shows "transcode_source Base64Encoder room outs inss = Some (Inr (outs @ base64_text (concat inss)))
    \<and> transcode_into Base64Encoder n ins = Inr (if length (base64_text ins) \<le> n then Some (base64_text ins) else None)"
  using base64_encoder.transcode_source_means [OF assms, of outs inss]
    base64_encoder.transcode_into_means [OF base64_encoder_means, of n ins]
  by (simp add: base64_encoder_means answer_def)

theorem base64_encodes_any_cuts_witness:
  "transcode_source Base64Encoder 3 [] [[102], [], [111, 111, 98]] = Some (Inr [90, 109, 57, 118, 89, 103, 61, 61])"
proof -
  have "base64_text (concat [[102], [], [111, 111, 98]]) = [90, 109, 57, 118, 89, 103, 61, 61]"
    by code_simp
  then show ?thesis
    using base64_encodes_any_cuts [of 3 "[]" "[[102], [], [111, 111, 98]]"] by simp
qed

section \<open>Round trips\<close>

text \<open>
  C35: what the base64 encoder makes of some data, cut in any other way and read into buffers of any other size, is
  decoded to that data.
\<close>

theorem base64_roundtrip:
  assumes "0 < room" "0 < room'" "transcode_source Base64Encoder room [] inss = Some (Inr text)" "concat texts = text"
  shows "transcode_source Base64Decoder room' outs texts = Some (Inr (outs @ concat inss))"
proof -
  have "text = base64_text (concat inss)"
    using base64_encoder.transcode_source_means [OF assms(1), of "[]" inss] assms(3) by (simp add: base64_encoder_means answer_def)
  then show ?thesis
    using base64_decoder.transcode_source_means [OF assms(2), of outs texts] assms(4)
    by (simp add: base64_decoder_means answer_def base64_bytes_text)
qed

theorem base64_roundtrip_witness:
  "transcode_source Base64Decoder 1 [] [[90, 109], [57, 118, 89], [103, 61, 61]] = Some (Inr [102, 111, 111, 98])"
proof -
  have "transcode_source Base64Encoder 2 [] [[102, 111, 111, 98]] = Some (Inr [90, 109, 57, 118, 89, 103, 61, 61])"
    by code_simp
  then show ?thesis
    using base64_roundtrip [of 2 1 "[[102, 111, 111, 98]]" _ "[[90, 109], [57, 118, 89], [103, 61, 61]]" "[]"] by simp
qed

text \<open>
  C36: the same for hexadecimal text; and a text of an odd length or with another character than a digit is turned
  down, however it is cut.
\<close>

theorem hex_roundtrip:
  assumes "0 < room" "0 < room'" "transcode_source HexEncoder room [] inss = Some (Inr text)" "concat texts = text"
  shows "transcode_source HexDecoder room' outs texts = Some (Inr (outs @ concat inss))"
proof -
  have "text = hex_text (concat inss)"
    using hex_encoder.transcode_source_means [OF assms(1), of "[]" inss] assms(3) by (simp add: hex_encoder_means answer_def)
  then show ?thesis
    using hex_decoder.transcode_source_means [OF assms(2), of outs texts] assms(4)
    by (simp add: hex_decoder_means answer_def hex_bytes_text)
qed

theorem hex_roundtrip_witness:
  "transcode_source HexDecoder 1 [] [[48], [102, 97], [48]] = Some (Inr [15, 160])"
proof -
  have "transcode_source HexEncoder 2 [] [[15], [160]] = Some (Inr [48, 102, 97, 48])"
    by code_simp
  then show ?thesis
    using hex_roundtrip [of 2 1 "[[15], [160]]" _ "[[48], [102, 97], [48]]" "[]"] by simp
qed

lemma hex_bad: "odd (length ins) \<or> (\<exists>x \<in> set ins. hex_value x = None) \<Longrightarrow> hex_bytes ins = None"
  "even (length ins) \<or> (\<exists>x \<in> set ins. hex_value x = None) \<Longrightarrow> hex_second b ins = None"
  by (induction ins and b ins rule: hex_bytes_hex_second.induct) (auto split: option.split)

text \<open>
  C38: hexadecimal text of an odd length, or with a character that is no digit, is turned down with an exception by
  each of the decoding functions, wherever reads cut it.
\<close>

theorem bad_hex_rejected:
  assumes "0 < room" "odd (length (concat texts)) \<or> (\<exists>x \<in> set (concat texts). hex_value x = None)"
  shows "transcode_source HexDecoder room outs texts = Some (Inl Invalid_input)
    \<and> transcode HexDecoder room outs (concat texts) = Some (Inl Invalid_input)"
  using hex_decoder.transcode_source_means [OF assms(1), of outs texts] hex_decoder.transcode_means [OF assms(1), of outs "concat texts"]
    hex_bad(1) [OF assms(2)]
  by (simp add: hex_decoder_means answer_def)

theorem bad_hex_rejected_witness: "transcode_source HexDecoder 4 [] [[48, 49], [122]] = Some (Inl Invalid_input)"
  using bad_hex_rejected [of 4 "[[48, 49], [122]]" "[]"] by simp

section \<open>Sinks\<close>

text \<open>
  C37: a sink that encodes to base64 loses nothing and repeats nothing, although the sink below may take any part of
  what it is offered: after any writes, a flush to a sink that takes all of it completes the text of exactly the
  bytes that the writes accepted.
\<close>

theorem base64_sink_is_complete:
  assumes "sink_used Base64Encoder room given taken st" "0 < room"
  shows "\<exists>os st'. codec_sink_flush Base64Encoder room length flushed [] st = Some (Inr (flushed, os, st')) \<and> taken @ os = base64_text given"
proof -
  have inv: "base64_encode_live (sink_codec st)" "sink_end st \<le> room"
    "base64_encode_means (start Base64Encoder) (given @ []) = map_option ((@) (taken @ sink_obuf st)) (base64_encode_means (sink_codec st) [])"
    using base64_encoder.sink_used_inv [OF _ assms(1)] base64_encoder_means by blast+
  then obtain os where os: "base64_encode_ends (sink_codec st) = Some os" "base64_text given = taken @ sink_obuf st @ os"
    using base64_encoder.means_Nil [OF inv(1)] inv(3)
    by (cases "base64_encode_ends (sink_codec st)") (auto simp: base64_encoder_means)
  then show ?thesis
    using base64_encoder.flush_all [OF assms(2) inv(2) os(1), of flushed "[]"] by auto
qed

definition half_sink :: "u8 list \<Rightarrow> nat" where
  "half_sink xs = length xs div 2"

theorem base64_sink_is_complete_witness:
  "\<exists>given taken st os st'. sink_used Base64Encoder 3 given taken st \<and> given = [102, 111] \<and> taken = [90]
    \<and> codec_sink_flush Base64Encoder 3 length True [] st = Some (Inr (True, os, st')) \<and> taken @ os = base64_text given"
proof -
  define st where "st = \<lparr>sink_codec = \<lparr>b64_state = 2, b64_buf = 111\<rparr>, sink_obuf = [109], sink_end = 2\<rparr>"
  have "codec_sink_write Base64Encoder 3 half_sink [102, 111] (new_codec_sink Base64Encoder) = Inr (2, [90], st)"
    unfolding st_def by code_simp
  then have "sink_used Base64Encoder 3 ([] @ take 2 [102, 111]) ([] @ [90]) st"
    by (rule sink_used.intros(2) [OF sink_used.intros(1)])
  then have used: "sink_used Base64Encoder 3 [102, 111] [90] st"
    by simp
  then show ?thesis
    using base64_sink_is_complete [OF used, of True] by auto
qed

section \<open>A source writes past its buffer\<close>

text \<open>
  At the end of its data a source calls \<open>finish\<close> with the end of the caller's buffer as the place to write to: here
  three bytes go past a buffer of eight, and the caller sees an empty read.
\<close>

lemma source_finishes_past_end:
  "case codec_source_read Base64Encoder 512 (\<lambda>_. Some [102]) 8 (new_codec_source Base64Encoder) of
     Inr (n, os, past, st) \<Rightarrow> n = 1 \<and> os = [90] \<and> past = []
       \<and> (case codec_source_read Base64Encoder 512 (\<lambda>_. None) 8 st of
            Inr (n', os', past', _) \<Rightarrow> n' = - 1 \<and> os' = [] \<and> past' = [103, 61, 61] | _ \<Rightarrow> False)
   | _ \<Rightarrow> False"
  by code_simp

end
