(* ===== verification/Disruptor.thy ===== *)
theory Disruptor
  imports Ring_Runs
begin

text \<open>
  The disruptor (\<open>rapid_ring/ring_buffer_disruptor.hpp\<close>, class \<open>barriers\<close> of \<open>rapid_ring/barrier.hpp\<close>): one ring that is
  written through its base class and read by several consumers, each of which sees every entry. A
  consumer waits for the ring or for other consumers (its upper barriers); the ring waits for the consumers
  that \<open>configure::commit\<close> picked. Objects are named by their place: the ring is \<open>Root\<close>, the consumers are
  numbered. \<open>None\<close> is a call that never returns, or one with undefined behaviour.
\<close>

section \<open>Barriers of either kind\<close>

text \<open>The address of a \<open>barrier_interface\<close>.\<close>

datatype barrier_ref = Root | Consumer nat

datatype own_barrier = Own_st barrier_st | Own_mt barrier_mt

definition own_ops :: "u64 \<Rightarrow> own_barrier barrier_ops" where
  "own_ops bs = \<lparr>
     op_reset = (\<lambda>b. case b of Own_st s \<Rightarrow> Own_st (st_reset bs s) | Own_mt s \<Rightarrow> Own_mt (mt_reset bs s)),
     op_reserve = (\<lambda>n b. case b of Own_st s \<Rightarrow> apsnd Own_st (st_do_reserve n s) | Own_mt s \<Rightarrow> apsnd Own_mt (mt_do_reserve n s)),
     op_try_reserve = (\<lambda>b. case b of Own_st s \<Rightarrow> st_reserve s | Own_mt s \<Rightarrow> mt_reserve s),
     op_set_reserve = (\<lambda>base e b. case b of Own_st s \<Rightarrow> apsnd Own_st (st_set_reserve base e s)
       | Own_mt s \<Rightarrow> apsnd Own_mt (mt_set_reserve base e s)),
     op_wait = (\<lambda>mn b. case b of Own_st s \<Rightarrow> map_option (apsnd Own_st) (st_wait mn s)
       | Own_mt s \<Rightarrow> map_option (apsnd Own_mt) (mt_wait bs mn s)),
     op_try_wait = (\<lambda>mn b. case b of Own_st s \<Rightarrow> map_option (apsnd Own_st) (st_try_wait mn s)
       | Own_mt s \<Rightarrow> map_option (apsnd Own_mt) (mt_try_wait bs mn s)),
     op_set = (\<lambda>pos e b. case b of Own_st s \<Rightarrow> map_option Own_st (st_set pos e s) | Own_mt s \<Rightarrow> map_option Own_mt (mt_set pos e s)),
     op_ready = (\<lambda>b. case b of Own_st s \<Rightarrow> st_ready s | Own_mt s \<Rightarrow> mt_ready s) \<rparr>"

section \<open>Several barriers\<close>

text \<open>
  The loop of \<open>barriers::wait\<close> and of \<open>try_wait\<close>: \<open>w\<close> waits for one barrier, \<open>rt\<close> is the least result so far. It starts
  with the greatest number.
\<close>

fun barriers_loop :: "('b \<Rightarrow> 's \<Rightarrow> (u64 \<times> 's) option) \<Rightarrow> 'b list \<Rightarrow> u64 \<Rightarrow> 's \<Rightarrow> (u64 \<times> 's) option" where
  "barriers_loop w [] rt s = Some (rt, s)"
| "barriers_loop w (b # bs) rt s = do {
     (v, s1) \<leftarrow> w b s;
     barriers_loop w bs (if v < rt then v else rt) s1 }"

definition barriers_wait :: "('b \<Rightarrow> 's \<Rightarrow> (u64 \<times> 's) option) \<Rightarrow> 'b list \<Rightarrow> 's \<Rightarrow> (u64 \<times> 's) option" where
  "barriers_wait w bs s = barriers_loop w bs (- 1) s"

section \<open>The ring and its consumers\<close>

record consumer =
  upper_barriers :: "barrier_ref list"
  own :: own_barrier

text \<open>What the ring waits for, and the consumers there are.\<close>

record fan =
  waits_for :: "nat list"
  consumers :: "consumer list"

type_synonym ('a, 'w) disruptor = "('a, 'w, fan) ring"

type_synonym ('a, 'w) disruptor_type = "('a, 'w, fan) queue_type"

definition new_consumer_st :: "u64 \<Rightarrow> consumer" where
  "new_consumer_st bs = \<lparr>upper_barriers = [], own = Own_st (new_st bs)\<rparr>"

definition new_consumer_mt :: "u64 \<Rightarrow> bool list \<Rightarrow> consumer" where
  "new_consumer_mt bs weak = \<lparr>upper_barriers = [], own = Own_mt (new_mt bs weak)\<rparr>"

text \<open>\<open>wait\<close> and \<open>try_wait\<close> of a consumer, for \<open>f\<close> that of its own barrier.\<close>

definition consumer_wait :: "(own_barrier \<Rightarrow> (u64 \<times> own_barrier) option) \<Rightarrow> nat \<Rightarrow> consumer list \<Rightarrow> (u64 \<times> consumer list) option" where
  "consumer_wait f i cs =
     (if i < length cs then map_option (\<lambda>(v, b). (v, cs[i := (cs ! i)\<lparr>own := b\<rparr>])) (f (own (cs ! i))) else None)"

definition fan_wait :: "(own_barrier \<Rightarrow> (u64 \<times> own_barrier) option) \<Rightarrow> fan \<Rightarrow> (u64 \<times> fan) option" where
  "fan_wait f s = map_option (\<lambda>(v, cs). (v, s\<lparr>consumers := cs\<rparr>)) (barriers_wait (consumer_wait f) (waits_for s) (consumers s))"

text \<open>
  The ring's read barrier. The class \<open>barriers\<close> has \<open>wait\<close> and \<open>try_wait\<close> only, and the writing operations of
  \<open>ring_buffer_base\<close> call nothing else; the other fields are not reached.
\<close>

definition fan_ops :: "u64 \<Rightarrow> fan barrier_ops" where
  "fan_ops bs = \<lparr>op_reset = (\<lambda>s. s), op_reserve = (\<lambda>n s. (0, s)), op_try_reserve = (\<lambda>s. 0), op_set_reserve = (\<lambda>b e s. (False, s)),
     op_wait = (\<lambda>mn. fan_wait (op_wait (own_ops bs) mn)), op_try_wait = (\<lambda>mn. fan_wait (op_try_wait (own_ops bs) mn)),
     op_set = (\<lambda>pos e s. None), op_ready = (\<lambda>s. 0)\<rparr>"

definition sp_ring_buffer_disruptor :: "('a \<Rightarrow> 'a) option \<Rightarrow> u64 \<Rightarrow> ('a, barrier_st) disruptor_type option" where
  "sp_ring_buffer_disruptor mv sz = map_option (\<lambda>bs.
     \<lparr>buffer_size = bs, write_ops = st_ops bs, read_ops = fan_ops bs, moved = mv\<rparr>) (size_to_pow_2 sz)"

definition mp_ring_buffer_disruptor :: "('a \<Rightarrow> 'a) option \<Rightarrow> u64 \<Rightarrow> ('a, barrier_mt) disruptor_type option" where
  "mp_ring_buffer_disruptor mv sz = map_option (\<lambda>bs.
     \<lparr>buffer_size = bs, write_ops = mt_ops bs, read_ops = fan_ops bs, moved = mv\<rparr>) (size_to_pow_2 sz)"

definition put_consumers :: "consumer list \<Rightarrow> ('a, 'w) disruptor \<Rightarrow> ('a, 'w) disruptor" where
  "put_consumers cs d = d\<lparr>read_barrier := (read_barrier d)\<lparr>consumers := cs\<rparr>\<rparr>"

abbreviation disruptor_consumers :: "('a, 'w) disruptor \<Rightarrow> consumer list" where
  "disruptor_consumers d \<equiv> consumers (read_barrier d)"

definition get_consumer :: "nat \<Rightarrow> ('a, 'w) disruptor \<Rightarrow> consumer option" where
  "get_consumer i d = (if i < length (disruptor_consumers d) then Some (disruptor_consumers d ! i) else None)"

definition put_own :: "nat \<Rightarrow> own_barrier \<Rightarrow> ('a, 'w) disruptor \<Rightarrow> ('a, 'w) disruptor" where
  "put_own i b d = put_consumers ((disruptor_consumers d)[i := (disruptor_consumers d ! i)\<lparr>own := b\<rparr>]) d"

text \<open>The virtual call \<open>wait\<close> or \<open>try_wait\<close>: \<open>fw\<close> is that of the ring's write barrier, \<open>fc\<close> that of a consumer's barrier.\<close>

fun ref_wait :: "('w \<Rightarrow> (u64 \<times> 'w) option) \<Rightarrow> (own_barrier \<Rightarrow> (u64 \<times> own_barrier) option)
    \<Rightarrow> barrier_ref \<Rightarrow> ('a, 'w) disruptor \<Rightarrow> (u64 \<times> ('a, 'w) disruptor) option" where
  "ref_wait fw fc Root d = map_option (\<lambda>(v, wb). (v, d\<lparr>write_barrier := wb\<rparr>)) (fw (write_barrier d))"
| "ref_wait fw fc (Consumer i) d = map_option (\<lambda>(v, cs). (v, put_consumers cs d)) (consumer_wait fc i (disruptor_consumers d))"

definition upper_wait :: "('a, 'w) disruptor_type \<Rightarrow> u64 \<Rightarrow> barrier_ref list \<Rightarrow> ('a, 'w) disruptor \<Rightarrow> (u64 \<times> ('a, 'w) disruptor) option" where
  "upper_wait t mn = barriers_wait (ref_wait (op_wait (write_ops t) mn) (op_wait (own_ops (buffer_size t)) mn))"

definition upper_try_wait :: "('a, 'w) disruptor_type \<Rightarrow> u64 \<Rightarrow> barrier_ref list \<Rightarrow> ('a, 'w) disruptor \<Rightarrow> (u64 \<times> ('a, 'w) disruptor) option" where
  "upper_try_wait t mn = barriers_wait (ref_wait (op_try_wait (write_ops t) mn) (op_try_wait (own_ops (buffer_size t)) mn))"

text \<open>\<open>read_barrier_.set(pos, end)\<close> of a consumer.\<close>

definition finish :: "('a, 'w) disruptor_type \<Rightarrow> nat \<Rightarrow> u64 \<Rightarrow> u64 \<Rightarrow> ('a, 'w) disruptor \<Rightarrow> ('a, 'w) disruptor option" where
  "finish t i pos end' d = do {
     c \<leftarrow> get_consumer i d;
     b \<leftarrow> op_set (own_ops (buffer_size t)) pos end' (own c);
     Some (put_own i b d) }"

section \<open>Reading\<close>

definition consumer_block_dequeue :: "('a, 'w) disruptor_type \<Rightarrow> nat \<Rightarrow> 'a list \<Rightarrow> u64 \<Rightarrow> ('a, 'w) disruptor \<Rightarrow> ('a list \<times> ('a, 'w) disruptor) option" where
  "consumer_block_dequeue t i ptr sz d = do {
     c \<leftarrow> get_consumer i d;
     let (base, b) = op_reserve (own_ops (buffer_size t)) sz (own c); end' = base + sz in do {
       (_, d1) \<leftarrow> upper_wait t end' (upper_barriers c) (put_own i b d);
       let pos = ring_mode (buffer_size t) base;
       out \<leftarrow> block_read (buffer_size t) pos ptr sz (ring_buffer d1);
       d2 \<leftarrow> finish t i pos end' d1;
       Some (out, d2) } }"

definition consumer_try_block_dequeue :: "('a, 'w) disruptor_type \<Rightarrow> nat \<Rightarrow> 'a list \<Rightarrow> u64 \<Rightarrow> ('a, 'w) disruptor \<Rightarrow> (bool \<times> 'a list \<times> ('a, 'w) disruptor) option" where
  "consumer_try_block_dequeue t i ptr sz d = do {
     c \<leftarrow> get_consumer i d;
     let base = op_try_reserve (own_ops (buffer_size t)) (own c);
     let end' = base + sz;
     (v, d1) \<leftarrow> upper_try_wait t end' (upper_barriers c) d;
     if v = 0 then Some (False, ptr, d1)
     else do {
       c1 \<leftarrow> get_consumer i d1;
       let (ok, b) = op_set_reserve (own_ops (buffer_size t)) base end' (own c1); d2 = put_own i b d1
       in if \<not> ok then Some (False, ptr, d2)
          else do {
            let pos = ring_mode (buffer_size t) base;
            out \<leftarrow> block_read (buffer_size t) pos ptr sz (ring_buffer d2);
            d3 \<leftarrow> finish t i pos end' d2;
            Some (True, out, d3) } } }"

definition consumer_dequeue :: "('a, 'w) disruptor_type \<Rightarrow> nat \<Rightarrow> ('a, 'w) disruptor \<Rightarrow> ('a \<times> ('a, 'w) disruptor) option" where
  "consumer_dequeue t i d = do {
     c \<leftarrow> get_consumer i d;
     let (base, b) = op_reserve (own_ops (buffer_size t)) 1 (own c); end' = base + 1 in do {
       (_, d1) \<leftarrow> upper_wait t end' (upper_barriers c) (put_own i b d);
       let pos = ring_mode (buffer_size t) base;
       (value', buf) \<leftarrow> smart_copy (moved t) pos (ring_buffer d1);
       d2 \<leftarrow> finish t i pos end' (d1\<lparr>ring_buffer := buf\<rparr>);
       Some (value', d2) } }"

text \<open>The argument of \<open>try_dequeue\<close> keeps its value when the call returns false, here \<open>None\<close>.\<close>

definition consumer_try_dequeue :: "('a, 'w) disruptor_type \<Rightarrow> nat \<Rightarrow> ('a, 'w) disruptor \<Rightarrow> ('a option \<times> ('a, 'w) disruptor) option" where
  "consumer_try_dequeue t i d = do {
     c \<leftarrow> get_consumer i d;
     let base = op_try_reserve (own_ops (buffer_size t)) (own c);
     let end' = base + 1;
     (v, d1) \<leftarrow> upper_try_wait t end' (upper_barriers c) d;
     if v = 0 then Some (None, d1)
     else do {
       c1 \<leftarrow> get_consumer i d1;
       let (ok, b) = op_set_reserve (own_ops (buffer_size t)) base end' (own c1); d2 = put_own i b d1
       in if \<not> ok then Some (None, d2)
          else do {
            let pos = ring_mode (buffer_size t) base;
            (value', buf) \<leftarrow> smart_copy (moved t) pos (ring_buffer d2);
            d3 \<leftarrow> finish t i pos end' (d2\<lparr>ring_buffer := buf\<rparr>);
            Some (Some value', d3) } } }"

text \<open>A block that is read in place; its callback is \<open>finish\<close> with the two captured values.\<close>

definition consumer_reserve_block :: "('a, 'w) disruptor_type \<Rightarrow> nat \<Rightarrow> u64 \<Rightarrow> ('a, 'w) disruptor \<Rightarrow> (read_reserve \<times> ('a, 'w) disruptor) option" where
  "consumer_reserve_block t i sz d = do {
     c \<leftarrow> get_consumer i d;
     let r = empty_reserve;
     let base = op_try_reserve (own_ops (buffer_size t)) (own c);
     let end' = base + sz;
     (v, d1) \<leftarrow> upper_try_wait t end' (upper_barriers c) d;
     if v = 0 then Some (r, d1)
     else do {
       c1 \<leftarrow> get_consumer i d1;
       let (ok, b) = op_set_reserve (own_ops (buffer_size t)) base end' (own c1); d2 = put_own i b d1
       in if \<not> ok then Some (r, d2)
          else
            let pos = ring_mode (buffer_size t) base; rest = buffer_size t - pos;
                r = (if rest \<ge> sz then r\<lparr>rr_buff := Some (unat pos), rr_size_first := sz, rr_size := sz\<rparr>
                     else r\<lparr>rr_buff := Some (unat pos), rr_size_first := rest, rr_buff2 := Some 0, rr_size := sz\<rparr>)
            in Some (r\<lparr>rr_cb := Some (pos, end')\<rparr>, d2) } }"

definition consumer_release :: "('a, 'w) disruptor_type \<Rightarrow> nat \<Rightarrow> read_reserve \<Rightarrow> ('a, 'w) disruptor \<Rightarrow> (read_reserve \<times> ('a, 'w) disruptor) option" where
  "consumer_release t i r d =
     (case rr_cb r of None \<Rightarrow> Some (r, d)
      | Some (pos, end') \<Rightarrow> do {
          d1 \<leftarrow> finish t i pos end' d;
          Some (r\<lparr>rr_cb := None\<rparr>, d1) })"

section \<open>add and clear\<close>

text \<open>\<open>add\<close> and \<open>clear\<close> of a consumer and of the ring; \<open>configure\<close> calls \<open>add\<close> of consumers only.\<close>

definition consumer_add :: "nat \<Rightarrow> barrier_ref \<Rightarrow> ('a, 'w) disruptor \<Rightarrow> ('a, 'w) disruptor option" where
  "consumer_add i y d = do {
     c \<leftarrow> get_consumer i d;
     Some (put_consumers ((disruptor_consumers d)[i := c\<lparr>upper_barriers := upper_barriers c @ [y]\<rparr>]) d) }"

definition consumer_clear :: "nat \<Rightarrow> ('a, 'w) disruptor \<Rightarrow> ('a, 'w) disruptor option" where
  "consumer_clear i d = do {
     c \<leftarrow> get_consumer i d;
     Some (put_consumers ((disruptor_consumers d)[i := c\<lparr>upper_barriers := []\<rparr>]) d) }"

definition ring_add :: "nat \<Rightarrow> ('a, 'w) disruptor \<Rightarrow> ('a, 'w) disruptor" where
  "ring_add i d = d\<lparr>read_barrier := (read_barrier d)\<lparr>waits_for := waits_for (read_barrier d) @ [i]\<rparr>\<rparr>"

definition ring_clear :: "('a, 'w) disruptor \<Rightarrow> ('a, 'w) disruptor" where
  "ring_clear d = d\<lparr>read_barrier := (read_barrier d)\<lparr>waits_for := []\<rparr>\<rparr>"

end
