(* ===== verification/Disruptor_Config.thy ===== *)
theory Disruptor_Config
  imports Disruptor
begin

text \<open>
  How a disruptor is put together (class \<open>configure\<close> of \<open>rapid_ring/ring_buffer_disruptor.hpp\<close>): the graph of which
  consumer waits for which, the choice of the consumers that the ring waits for, and the run that warms all
  of them up. \<open>ord\<close> is the order in which a hash set or hash map with the given elements is traversed.
\<close>

section \<open>The graph\<close>

datatype link_error = Link_not_found | Ring_link_to_other | Duplicate_link | Ring_link | No_consumer_link

record grap_node =
  max_step :: u64
  link_set :: "barrier_ref list"

definition new_node :: grap_node where
  "new_node = \<lparr>max_step = 0, link_set = []\<rparr>"

type_synonym grap_map = "(barrier_ref \<times> grap_node) list"

record configure =
  grap :: grap_map
  max_steps :: "(u64 \<times> barrier_ref list) list"
  already_commit :: bool

definition new_configure :: configure where
  "new_configure = \<lparr>grap = [], max_steps = [], already_commit = False\<rparr>"

text \<open>\<open>grap_[p]\<close> makes a node that is not there.\<close>

definition node_of :: "grap_map \<Rightarrow> barrier_ref \<Rightarrow> grap_node" where
  "node_of g p = (case map_of g p of None \<Rightarrow> new_node | Some n \<Rightarrow> n)"

definition touch :: "barrier_ref \<Rightarrow> grap_map \<Rightarrow> grap_map" where
  "touch p g = (if p \<in> fst ` set g then g else g @ [(p, new_node)])"

definition put_node_of :: "barrier_ref \<Rightarrow> grap_node \<Rightarrow> grap_map \<Rightarrow> grap_map" where
  "put_node_of p n g = map (\<lambda>(q, n'). (q, if q = p then n else n')) g"

text \<open>\<open>max_step_[s].insert(p)\<close>, in a map that is ordered from the greatest step down.\<close>

fun level_insert :: "u64 \<Rightarrow> barrier_ref \<Rightarrow> (u64 \<times> barrier_ref list) list \<Rightarrow> (u64 \<times> barrier_ref list) list" where
  "level_insert s p [] = [(s, [p])]"
| "level_insert s p ((s', ps) # ls) =
     (if s = s' then (s', if p \<in> set ps then ps else ps @ [p]) # ls
      else if s' < s then (s, [p]) # (s', ps) # ls
      else (s', ps) # level_insert s p ls)"

section \<open>Links\<close>

text \<open>
  The calls of \<open>check_ring\<close> in the order they are made: \<open>ys\<close> are the calls that are still to come. The result is
  false when one of them throws.
\<close>

partial_function (option) check_ring ::
    "(barrier_ref list \<Rightarrow> barrier_ref list) \<Rightarrow> barrier_ref \<Rightarrow> barrier_ref list \<Rightarrow> grap_map \<Rightarrow> (bool \<times> grap_map) option" where
  [code]: "check_ring ord x ys g =
     (case ys of [] \<Rightarrow> Some (True, g)
      | y # ys' \<Rightarrow> if x = y then Some (False, g)
                   else check_ring ord x (ord (link_set (node_of g y)) @ ys') (touch y g))"

text \<open>The virtual call \<open>x.add(y)\<close>; \<open>x\<close> is never the ring there.\<close>

definition add_upper :: "barrier_ref \<Rightarrow> barrier_ref \<Rightarrow> ('a, 'w) disruptor \<Rightarrow> ('a, 'w) disruptor option" where
  "add_upper x y d = (case x of Root \<Rightarrow> None | Consumer i \<Rightarrow> consumer_add i y d)"

text \<open>
  \<open>x_depends_y\<close>: what it throws, and what it leaves, also when it throws. Outer \<open>None\<close>: it does not return, or \<open>x\<close> is
  not a consumer that there is.
\<close>

definition x_depends_y :: "(barrier_ref list \<Rightarrow> barrier_ref list) \<Rightarrow> barrier_ref \<Rightarrow> barrier_ref \<Rightarrow> configure \<times> ('a, 'w) disruptor
    \<Rightarrow> (link_error option \<times> configure \<times> ('a, 'w) disruptor) option" where
  "x_depends_y ord x y = (\<lambda>(c, d).
     if x = Root then Some (Some Ring_link_to_other, c, d)
     else if y = Root then
       (let g = touch x (grap c); node = node_of g x
        in if y \<in> set (link_set node) then Some (Some Duplicate_link, c\<lparr>grap := g\<rparr>, d)
           else
             let node = node\<lparr>link_set := link_set node @ [y]\<rparr>;
                 (node, levels) = (if max_step node = 0 then (node\<lparr>max_step := 1\<rparr>, level_insert 1 x (max_steps c)) else (node, max_steps c))
             in do {
               d' \<leftarrow> add_upper x y d;
               Some (None, c\<lparr>grap := put_node_of x node g, max_steps := levels\<rparr>, d') })
     else if y \<notin> fst ` set (grap c) then Some (Some Link_not_found, c, d)
     else if x \<in> fst ` set (grap c) \<and> y \<in> set (link_set (node_of (grap c) x)) then Some (Some Duplicate_link, c, d)
     else do {
       (ok, g) \<leftarrow> check_ring ord x [y] (touch x (grap c));
       if \<not> ok then Some (Some Ring_link, c\<lparr>grap := g\<rparr>, d)
       else
         let node = node_of g x;
             node = node\<lparr>link_set := link_set node @ [y]\<rparr>;
             g = put_node_of x node g;
             step = max_step (node_of g y) + 1;
             (node, levels) = (if max_step node < step then (node\<lparr>max_step := step\<rparr>, level_insert step x (max_steps c)) else (node, max_steps c))
         in do {
           d' \<leftarrow> add_upper x y d;
           Some (None, c\<lparr>grap := put_node_of x node g, max_steps := levels\<rparr>, d') } })"

section \<open>Commit\<close>

definition consumer_ids :: "barrier_ref list \<Rightarrow> nat list" where
  "consumer_ids = List.map_filter (\<lambda>p. case p of Root \<Rightarrow> None | Consumer i \<Rightarrow> Some i)"

definition commit :: "(barrier_ref list \<Rightarrow> barrier_ref list) \<Rightarrow> configure \<times> ('a, 'w) disruptor
    \<Rightarrow> link_error option \<times> configure \<times> ('a, 'w) disruptor" where
  "commit ord = (\<lambda>(c, d).
     if already_commit c then (None, c, d)
     else case max_steps c of
       [] \<Rightarrow> (Some No_consumer_link, c, d)
     | (s, ps) # _ \<Rightarrow>
         (None, c\<lparr>already_commit := True\<rparr>,
          fold ring_add (consumer_ids (ord ps)) d))"

section \<open>Warming up\<close>

text \<open>One pass over the graph: what is left of it, the records and the order so far.\<close>

fun topo_pass :: "(barrier_ref \<times> barrier_ref list) list \<Rightarrow> barrier_ref list \<Rightarrow> barrier_ref list
    \<Rightarrow> (barrier_ref \<times> barrier_ref list) list \<times> barrier_ref list \<times> barrier_ref list" where
  "topo_pass [] records rt = ([], records, rt)"
| "topo_pass ((p, ls) # g) records rt =
     (let ls' = filter (\<lambda>l. l \<notin> set records) ls
      in if ls' = [] \<and> p \<noteq> Root then topo_pass g (p # records) (rt @ [p])
         else let (g', records', rt') = topo_pass g records rt in ((p, ls') # g', records', rt'))"

partial_function (option) topo_loop :: "(barrier_ref \<times> barrier_ref list) list \<Rightarrow> barrier_ref list \<Rightarrow> barrier_ref list \<Rightarrow> barrier_ref list option" where
  [code]: "topo_loop g records rt =
     (if g = [] then Some rt
      else case topo_pass g records rt of (g', records', rt') \<Rightarrow> topo_loop g' records' rt')"

definition toposort :: "(barrier_ref list \<Rightarrow> barrier_ref list) \<Rightarrow> configure \<Rightarrow> barrier_ref list option" where
  "toposort ord c =
     topo_loop (map (\<lambda>p. (p, link_set (node_of (grap c) p))) (ord (removeAll Root (map fst (grap c))))) [Root] []"

text \<open>
  \<open>dynamic_cast\<close> to the class of single-threaded consumers gives a null pointer for the other class, it does not
  throw; calling \<open>dequeue\<close> on it is undefined.
\<close>

definition warm_up_client :: "('a, 'w) disruptor_type \<Rightarrow> barrier_ref \<Rightarrow> ('a, 'w) disruptor \<Rightarrow> ('a \<times> ('a, 'w) disruptor) option" where
  "warm_up_client t p d =
     (case p of Root \<Rightarrow> None
      | Consumer i \<Rightarrow> do {
          c \<leftarrow> get_consumer i d;
          case own c of Own_st _ \<Rightarrow> consumer_dequeue t i d | Own_mt _ \<Rightarrow> None })"

fun warm_up_clients :: "('a, 'w) disruptor_type \<Rightarrow> barrier_ref list \<Rightarrow> 'a \<Rightarrow> ('a, 'w) disruptor \<Rightarrow> ('a \<times> ('a, 'w) disruptor) option" where
  "warm_up_clients t [] obj d = Some (obj, d)"
| "warm_up_clients t (p # ps) obj d = do {
     (obj', d1) \<leftarrow> warm_up_client t p d;
     warm_up_clients t ps obj' d1 }"

primrec warm_up_rounds :: "('a, 'w) disruptor_type \<Rightarrow> barrier_ref list \<Rightarrow> nat \<Rightarrow> 'a \<Rightarrow> ('a, 'w) disruptor \<Rightarrow> ('a, 'w) disruptor option" where
  "warm_up_rounds t ps 0 obj d = Some d"
| "warm_up_rounds t ps (Suc n) obj d = do {
     d1 \<leftarrow> enqueue t obj d;
     (obj', d2) \<leftarrow> warm_up_clients t ps obj d1;
     warm_up_rounds t ps n obj' d2 }"

definition disruptor_warm_up :: "(barrier_ref list \<Rightarrow> barrier_ref list) \<Rightarrow> ('a, 'w) disruptor_type \<Rightarrow> 'a \<Rightarrow> configure \<times> ('a, 'w) disruptor
    \<Rightarrow> ('a, 'w) disruptor option" where
  "disruptor_warm_up ord t obj = (\<lambda>(c, d).
     if \<not> already_commit c then Some d
     else do {
       clients \<leftarrow> toposort ord c;
       warm_up_rounds t clients (unat (buffer_size t)) obj d })"

end
