(* ===== verification/Disruptor_Waits.thy ===== *)
theory Disruptor_Waits
  imports Disruptor
begin

text \<open>
  What the barriers of a disruptor promise: a consumer's own barrier keeps the contract of a barrier,
  and waiting for several of them returns exactly when all have come far enough.
\<close>

section \<open>A consumer's own barrier\<close>

fun own_rep :: "nat \<Rightarrow> own_barrier \<Rightarrow> nat \<Rightarrow> nat \<Rightarrow> nat \<Rightarrow> bool" where
  "own_rep m (Own_st s) res lo pub \<longleftrightarrow> st_rep m s res lo pub"
| "own_rep m (Own_mt s) res lo pub \<longleftrightarrow> mt_rep m s res lo pub"

lemma own_ops_st:
  "op_reset (own_ops bs) (Own_st s) = Own_st (op_reset (st_ops bs) s)"
  "op_reserve (own_ops bs) n (Own_st s) = apsnd Own_st (op_reserve (st_ops bs) n s)"
  "op_try_reserve (own_ops bs) (Own_st s) = op_try_reserve (st_ops bs) s"
  "op_set_reserve (own_ops bs) base e (Own_st s) = apsnd Own_st (op_set_reserve (st_ops bs) base e s)"
  "op_wait (own_ops bs) w (Own_st s) = map_option (apsnd Own_st) (op_wait (st_ops bs) w s)"
  "op_try_wait (own_ops bs) w (Own_st s) = map_option (apsnd Own_st) (op_try_wait (st_ops bs) w s)"
  "op_set (own_ops bs) p e (Own_st s) = map_option Own_st (op_set (st_ops bs) p e s)"
  "op_ready (own_ops bs) (Own_st s) = op_ready (st_ops bs) s"
  by (simp_all add: own_ops_def st_ops_def)

lemma own_ops_mt:
  "op_reset (own_ops bs) (Own_mt b) = Own_mt (op_reset (mt_ops bs) b)"
  "op_reserve (own_ops bs) n (Own_mt b) = apsnd Own_mt (op_reserve (mt_ops bs) n b)"
  "op_try_reserve (own_ops bs) (Own_mt b) = op_try_reserve (mt_ops bs) b"
  "op_set_reserve (own_ops bs) base e (Own_mt b) = apsnd Own_mt (op_set_reserve (mt_ops bs) base e b)"
  "op_wait (own_ops bs) w (Own_mt b) = map_option (apsnd Own_mt) (op_wait (mt_ops bs) w b)"
  "op_try_wait (own_ops bs) w (Own_mt b) = map_option (apsnd Own_mt) (op_try_wait (mt_ops bs) w b)"
  "op_set (own_ops bs) p e (Own_mt b) = map_option Own_mt (op_set (mt_ops bs) p e b)"
  "op_ready (own_ops bs) (Own_mt b) = op_ready (mt_ops bs) b"
  by (simp_all add: own_ops_def mt_ops_def)

lemmas own_ops_kinds = own_ops_st own_ops_mt

interpretation own: barrier "own_ops (2 ^ m)" m "own_rep m" False for m
proof
  fix b res lo pub assume "own_rep m b res lo pub"
  then show "m < 63 \<and> 2 ^ m \<le> lo \<and> lo \<le> pub \<and> pub \<le> lo + 2 ^ m \<and> pub < 2 ^ 64 \<and> res < 2 ^ 64"
    using st.rep_order mt.rep_order by (cases b) fastforce+
next
  fix b assume "m < 63"
  then show "own_rep m (op_reset (own_ops (2 ^ m)) b) (2 ^ m) (2 ^ m) (2 ^ m)"
    by (cases b) (simp_all add: own_ops_kinds st.reset mt.reset)
next
  fix b res lo pub assume "own_rep m b res lo pub"
  then show "op_ready (own_ops (2 ^ m)) b = of_nat lo" "op_try_reserve (own_ops (2 ^ m)) b = of_nat res"
    by (cases b; simp add: own_ops_kinds st.ready mt.ready st.try_reserve mt.try_reserve)+
next
  fix b res lo pub and n :: u64 assume "own_rep m b res lo pub" "res + unat n < 2 ^ 64"
  then show "\<exists>b'. op_reserve (own_ops (2 ^ m)) n b = (of_nat res, b') \<and> own_rep m b' (res + unat n) lo pub"
    by (cases b) (auto simp: own_ops_kinds dest: st.reserve mt.reserve)
next
  fix b res lo pub and e :: u64 assume "own_rep m b res lo pub"
  then show "\<exists>ok b'. op_set_reserve (own_ops (2 ^ m)) (of_nat res) e b = (ok, b')
      \<and> own_rep m b' (if ok then unat e else res) lo pub \<and> (False \<longrightarrow> ok)"
    using st.set_reserve [of m _ res lo pub e] mt.set_reserve [of m _ res lo pub e]
    by (cases b) (fastforce simp: own_ops_kinds)+
next
  fix b res lo pub and w :: u64 assume "own_rep m b res lo pub" "unat w \<le> pub"
  then show "\<exists>v b' lo'. op_wait (own_ops (2 ^ m)) w b = Some (v, b') \<and> own_rep m b' res lo' pub \<and> lo \<le> lo' \<and> unat w \<le> lo'"
    using st.wait [of m _ res lo pub w] mt.wait [of m _ res lo pub w]
    by (cases b) (fastforce simp: own_ops_kinds)+
next
  fix b res lo pub and w :: u64 assume "own_rep m b res lo pub" "pub < unat w"
  then show "op_wait (own_ops (2 ^ m)) w b = None"
    by (cases b) (simp_all add: own_ops_kinds st.wait_spins mt.wait_spins)
next
  fix b res lo pub and w :: u64 assume "own_rep m b res lo pub"
  then show "\<exists>v b' lo'. op_try_wait (own_ops (2 ^ m)) w b = Some (v, b') \<and> own_rep m b' res lo' pub \<and> lo \<le> lo'
        \<and> (v = 0 \<longleftrightarrow> pub < unat w) \<and> (v \<noteq> 0 \<longrightarrow> unat w \<le> lo')"
    using st.try_wait [of m _ res lo pub w] mt.try_wait [of m _ res lo pub w]
    by (cases b) (fastforce simp: own_ops_kinds)+
next
  fix b res lo pub and e :: u64 assume "own_rep m b res lo pub" "pub < unat e" "unat e \<le> lo + 2 ^ m"
  then show "\<exists>b' lo'. op_set (own_ops (2 ^ m)) (ring_mode (2 ^ m) (of_nat pub)) e b = Some b' \<and> own_rep m b' res lo' (unat e) \<and> lo \<le> lo'"
    using st.set_done [of m _ res lo pub e] mt.set_done [of m _ res lo pub e]
    by (cases b) (fastforce simp: own_ops_kinds)+
qed simp_all

section \<open>All barriers of a disruptor\<close>

definition known :: "('a, 'w) disruptor \<Rightarrow> barrier_ref \<Rightarrow> bool" where
  "known d p \<longleftrightarrow> (case p of Root \<Rightarrow> True | Consumer i \<Rightarrow> i < length (disruptor_consumers d))"

definition bars :: "nat \<Rightarrow> ('w \<Rightarrow> nat \<Rightarrow> nat \<Rightarrow> nat \<Rightarrow> bool) \<Rightarrow> ('a, 'w) disruptor
    \<Rightarrow> (barrier_ref \<Rightarrow> nat) \<Rightarrow> (barrier_ref \<Rightarrow> nat) \<Rightarrow> (barrier_ref \<Rightarrow> nat) \<Rightarrow> bool" where
  "bars m wrep d res lo pub \<longleftrightarrow> wrep (write_barrier d) (res Root) (lo Root) (pub Root)
     \<and> (\<forall>i < length (disruptor_consumers d).
          own_rep m (own (disruptor_consumers d ! i)) (res (Consumer i)) (lo (Consumer i)) (pub (Consumer i)))"

text \<open>What waiting does not change: the buffer, and who waits for whom.\<close>

definition same_fan :: "('a, 'w) disruptor \<Rightarrow> ('a, 'w) disruptor \<Rightarrow> bool" where
  "same_fan d d' \<longleftrightarrow> ring_buffer d' = ring_buffer d \<and> waits_for (read_barrier d') = waits_for (read_barrier d)
     \<and> map upper_barriers (disruptor_consumers d') = map upper_barriers (disruptor_consumers d)"

lemma same_fan_refl [simp]: "same_fan d d"
  by (simp add: same_fan_def)

lemma same_fan_trans: "same_fan d d1 \<Longrightarrow> same_fan d1 d2 \<Longrightarrow> same_fan d d2"
  by (simp add: same_fan_def)

lemma same_fan_length: "same_fan d d' \<Longrightarrow> length (disruptor_consumers d') = length (disruptor_consumers d)"
  unfolding same_fan_def using length_map by metis

lemma same_fan_known: "same_fan d d' \<Longrightarrow> known d' p \<longleftrightarrow> known d p"
  by (simp add: known_def same_fan_length split: barrier_ref.split)

lemma put_consumers_simps [simp]:
  "disruptor_consumers (put_consumers cs d) = cs" "write_barrier (put_consumers cs d) = write_barrier d"
  "ring_buffer (put_consumers cs d) = ring_buffer d" "waits_for (read_barrier (put_consumers cs d)) = waits_for (read_barrier d)"
  by (simp_all add: put_consumers_def)

lemma map_upper_put [simp]: "map upper_barriers (cs[i := (cs ! i)\<lparr>own := b\<rparr>]) = map upper_barriers cs"
  by (cases "i < length cs") (simp_all add: map_update list_update_beyond list_update_same_conv)

lemma put_own_simps [simp]:
  "write_barrier (put_own i b d) = write_barrier d" "ring_buffer (put_own i b d) = ring_buffer d"
  "disruptor_consumers (put_own i b d) = (disruptor_consumers d)[i := (disruptor_consumers d ! i)\<lparr>own := b\<rparr>]"
  by (simp_all add: put_own_def)

lemma put_own_same [simp]: "same_fan d (put_own i b d)" "same_fan (put_own i b d) d' \<longleftrightarrow> same_fan d d'"
  by (auto simp: same_fan_def put_own_def)

lemma bars_put_own:
  assumes "bars m wrep d res lo pub" "own_rep m b r l p"
  shows "bars m wrep (put_own i b d) (res(Consumer i := r)) (lo(Consumer i := l)) (pub(Consumer i := p))"
  using assms by (auto simp: bars_def nth_list_update)

lemma bars_put_own_lo:
  assumes "bars m wrep d res lo pub" "own_rep m b (res (Consumer i)) l (pub (Consumer i))"
  shows "bars m wrep (put_own i b d) res (lo(Consumer i := l)) pub"
  using bars_put_own [OF assms, of i] by (simp add: fun_upd_triv)

lemma get_consumer_same:
  assumes "same_fan d d'" "i < length (disruptor_consumers d)"
  obtains c where "get_consumer i d' = Some c" "c = disruptor_consumers d' ! i" "upper_barriers c = upper_barriers (disruptor_consumers d ! i)"
proof
  have l: "i < length (disruptor_consumers d')"
    using assms by (simp add: same_fan_length)
  then show "get_consumer i d' = Some (disruptor_consumers d' ! i)"
    by (simp add: get_consumer_def)
  have "map upper_barriers (disruptor_consumers d') ! i = map upper_barriers (disruptor_consumers d) ! i"
    using assms(1) by (simp only: same_fan_def)
  then show "upper_barriers (disruptor_consumers d' ! i) = upper_barriers (disruptor_consumers d ! i)"
    using assms(2) l by simp
qed simp

section \<open>Waiting\<close>

locale disruptor_ring = w: barrier wops m wrep wstrong
  for m :: nat and wops :: "'w barrier_ops" and wrep wstrong
begin

abbreviation ref_waits where
  "ref_waits mn \<equiv> ref_wait (op_wait wops mn) (op_wait (own_ops (2 ^ m)) mn)"

abbreviation ref_tries where
  "ref_tries mn \<equiv> ref_wait (op_try_wait wops mn) (op_try_wait (own_ops (2 ^ m)) mn)"

lemma bars_order:
  assumes "bars m wrep d res lo pub" "known d p"
  shows "m < 63 \<and> 2 ^ m \<le> lo p \<and> lo p \<le> pub p \<and> pub p \<le> lo p + 2 ^ m \<and> pub p < 2 ^ 64 \<and> res p < 2 ^ 64"
  using assms w.rep_order own.rep_order by (cases p) (auto simp: bars_def known_def)

lemma bars_write:
  assumes "bars m wrep d res lo pub" "wrep wb (res Root) l (pub Root)"
  shows "bars m wrep (d\<lparr>write_barrier := wb\<rparr>) res (lo(Root := l)) pub"
  using assms by (simp add: bars_def)

lemma ref_wait_ok:
  assumes "bars m wrep d res lo pub" "known d p" "unat mn \<le> pub p"
  shows "\<exists>v d' l. ref_waits mn p d = Some (v, d') \<and> bars m wrep d' res (lo(p := l)) pub \<and> lo p \<le> l \<and> unat mn \<le> l \<and> same_fan d d'"
proof (cases p)
  case Root
  then show ?thesis
    using assms w.wait [of "write_barrier d" "res p" "lo p" "pub p" mn]
    by (auto simp: bars_def same_fan_def)
next
  case (Consumer i)
  then have i: "i < length (disruptor_consumers d)"
    using assms(2) by (simp add: known_def)
  then obtain v b l where b: "op_wait (own_ops (2 ^ m)) mn (own (disruptor_consumers d ! i)) = Some (v, b)"
    "own_rep m b (res p) l (pub p)" "lo p \<le> l" "unat mn \<le> l"
    using assms own.wait [of m "own (disruptor_consumers d ! i)" "res p" "lo p" "pub p" mn] by (auto simp: bars_def Consumer)
  then show ?thesis
    using bars_put_own_lo [OF assms(1), of b i l] i Consumer put_own_same(1) [of d i b] by (auto simp: consumer_wait_def put_own_def)
qed

lemma ref_wait_spins:
  assumes "bars m wrep d res lo pub" "pub p < unat mn"
  shows "ref_waits mn p d = None"
  using assms by (cases p) (auto simp: bars_def consumer_wait_def w.wait_spins own.wait_spins)

lemma ref_try_result:
  assumes "bars m wrep d res lo pub" "known d p"
  shows "\<exists>v d' l. ref_tries mn p d = Some (v, d') \<and> bars m wrep d' res (lo(p := l)) pub \<and> lo p \<le> l
    \<and> (v = 0 \<longleftrightarrow> pub p < unat mn) \<and> (v \<noteq> 0 \<longrightarrow> unat mn \<le> l) \<and> same_fan d d'"
proof (cases p)
  case Root
  then show ?thesis
    using assms w.try_wait [of "write_barrier d" "res p" "lo p" "pub p" mn]
    by (auto simp: bars_def same_fan_def)
next
  case (Consumer i)
  then have i: "i < length (disruptor_consumers d)"
    using assms(2) by (simp add: known_def)
  then obtain v b l where b: "op_try_wait (own_ops (2 ^ m)) mn (own (disruptor_consumers d ! i)) = Some (v, b)"
    "own_rep m b (res p) l (pub p)" "lo p \<le> l" "v = 0 \<longleftrightarrow> pub p < unat mn" "v \<noteq> 0 \<longrightarrow> unat mn \<le> l"
    using assms own.try_wait [of m "own (disruptor_consumers d ! i)" "res p" "lo p" "pub p" mn] by (auto simp: bars_def Consumer)
  then show ?thesis
    using bars_put_own_lo [OF assms(1), of b i l] i Consumer put_own_same(1) [of d i b] by (auto simp: consumer_wait_def put_own_def)
qed

lemma loop_wait_ok:
  "bars m wrep d res lo pub \<Longrightarrow> \<forall>p \<in> set ps. known d p \<and> unat mn \<le> pub p \<Longrightarrow>
    \<exists>v d' lo'. barriers_loop (ref_waits mn) ps rt d = Some (v, d') \<and> bars m wrep d' res lo' pub
      \<and> (\<forall>p. lo p \<le> lo' p) \<and> (\<forall>p \<in> set ps. unat mn \<le> lo' p) \<and> same_fan d d'"
proof (induction ps arbitrary: rt d lo)
  case (Cons p ps)
  obtain v d1 l where one: "ref_waits mn p d = Some (v, d1)" "bars m wrep d1 res (lo(p := l)) pub" "lo p \<le> l" "unat mn \<le> l" "same_fan d d1"
    using ref_wait_ok [OF Cons.prems(1), of p mn] Cons.prems(2) by auto
  obtain v' d' lo' where rest: "barriers_loop (ref_waits mn) ps (if v < rt then v else rt) d1 = Some (v', d')" "bars m wrep d' res lo' pub"
    "\<forall>q. (lo(p := l)) q \<le> lo' q" "\<forall>q \<in> set ps. unat mn \<le> lo' q" "same_fan d1 d'"
    using Cons.IH [OF one(2)] Cons.prems(2) same_fan_known [OF one(5)] by fastforce
  have "lo q \<le> lo' q" for q
    using rest(3) [rule_format, of q] one(3) by (cases "q = p") simp_all
  moreover have "unat mn \<le> lo' p"
    using rest(3) [rule_format, of p] one(4) by simp
  moreover have "same_fan d d'"
    using one(5) rest(5) by (rule same_fan_trans)
  ultimately show ?case
    using one(1) rest(1,2,4) by auto
qed auto

lemma loop_wait_spins:
  "bars m wrep d res lo pub \<Longrightarrow> \<forall>p \<in> set ps. known d p \<Longrightarrow> \<exists>p \<in> set ps. pub p < unat mn \<Longrightarrow>
    barriers_loop (ref_waits mn) ps rt d = None"
proof (induction ps arbitrary: rt d lo)
  case (Cons p ps)
  show ?case
  proof (cases "pub p < unat mn")
    case True
    then show ?thesis
      using ref_wait_spins [OF Cons.prems(1)] by simp
  next
    case False
    then obtain v d1 l where one: "ref_waits mn p d = Some (v, d1)" "bars m wrep d1 res (lo(p := l)) pub" "same_fan d d1"
      using ref_wait_ok [OF Cons.prems(1), of p mn] Cons.prems(2) by auto
    then show ?thesis
      using Cons.IH [OF one(2)] Cons.prems(2,3) False same_fan_known [OF one(3)] by auto
  qed
qed auto

lemma loop_try_result:
  "bars m wrep d res lo pub \<Longrightarrow> \<forall>p \<in> set ps. known d p \<Longrightarrow>
    \<exists>v d' lo'. barriers_loop (ref_tries mn) ps rt d = Some (v, d') \<and> bars m wrep d' res lo' pub
      \<and> (\<forall>p. lo p \<le> lo' p) \<and> (v = 0 \<longleftrightarrow> rt = 0 \<or> (\<exists>p \<in> set ps. pub p < unat mn))
      \<and> (\<forall>p \<in> set ps. unat mn \<le> pub p \<longrightarrow> unat mn \<le> lo' p) \<and> same_fan d d'"
proof (induction ps arbitrary: rt d lo)
  case (Cons p ps)
  obtain v d1 l where one: "ref_tries mn p d = Some (v, d1)" "bars m wrep d1 res (lo(p := l)) pub" "lo p \<le> l"
    "v = 0 \<longleftrightarrow> pub p < unat mn" "v \<noteq> 0 \<longrightarrow> unat mn \<le> l" "same_fan d d1"
    using ref_try_result [OF Cons.prems(1), of p mn] Cons.prems(2) by auto
  let ?rt = "if v < rt then v else rt"
  obtain v' d' lo' where rest: "barriers_loop (ref_tries mn) ps ?rt d1 = Some (v', d')" "bars m wrep d' res lo' pub"
    "\<forall>q. (lo(p := l)) q \<le> lo' q" "v' = 0 \<longleftrightarrow> ?rt = 0 \<or> (\<exists>q \<in> set ps. pub q < unat mn)"
    "\<forall>q \<in> set ps. unat mn \<le> pub q \<longrightarrow> unat mn \<le> lo' q" "same_fan d1 d'"
    using Cons.IH [OF one(2), of ?rt] Cons.prems(2) same_fan_known [OF one(6)] by auto
  have "lo q \<le> lo' q" for q
    using rest(3) [rule_format, of q] one(3) by (cases "q = p") simp_all
  moreover have "unat mn \<le> pub p \<longrightarrow> unat mn \<le> lo' p"
    using rest(3) [rule_format, of p] one(4,5) by auto
  moreover have "?rt = 0 \<longleftrightarrow> v = 0 \<or> rt = 0"
    by (auto simp: word_gt_0)
  moreover have "same_fan d d'"
    using one(6) rest(6) by (rule same_fan_trans)
  ultimately show ?case
    using one(1,4) rest(1,2,4,5) by auto
qed auto

end

section \<open>The ring's read barrier\<close>

lemma fan_loop_refs:
  "barriers_loop (ref_wait fw f) (map Consumer js) rt (put_consumers cs d)
    = map_option (\<lambda>(v, cs'). (v, put_consumers cs' d)) (barriers_loop (consumer_wait f) js rt cs)"
proof (induction js arbitrary: rt cs)
  case (Cons j js)
  have put: "put_consumers cs' (put_consumers cs d) = put_consumers cs' d" for cs'
    by (simp add: put_consumers_def)
  show ?case
    by (cases "consumer_wait f j cs") (auto simp: put Cons.IH)
qed simp

lemma fan_wait_refs:
  "map_option (\<lambda>(v, rb). (v, d\<lparr>read_barrier := rb\<rparr>)) (fan_wait f (read_barrier d))
    = barriers_wait (ref_wait fw f) (map Consumer (waits_for (read_barrier d))) d"
proof -
  have "put_consumers (disruptor_consumers d) d = d"
    by (simp add: put_consumers_def)
  then show ?thesis
    using fan_loop_refs [of fw f "waits_for (read_barrier d)" "- 1" "disruptor_consumers d" d]
    by (auto simp: fan_wait_def barriers_wait_def put_consumers_def option.map_comp comp_def split_def)
qed

section \<open>One and several producers\<close>

interpretation sp_waits: disruptor_ring m "st_ops (2 ^ m)" "st_rep m" True for m
  ..

interpretation mp_waits: disruptor_ring m "mt_ops (2 ^ m)" "mt_rep m" False for m
  ..

end
