(* ===== verification/Disruptor_Log.thy ===== *)
theory Disruptor_Log
  imports Disruptor_Waits
begin

text \<open>
  A disruptor stands for a log: the entries that were written, of which each consumer has read a prefix.
  Every operation appends to the log or moves one consumer on, provided that each consumer is waited
  for by the ring, directly or through consumers after it.
\<close>

section \<open>Who waits for whom\<close>

text \<open>\<open>ws\<close> are the consumers the ring waits for, \<open>us ! i\<close> the upper barriers of consumer \<open>i\<close>.\<close>

inductive watched :: "nat list \<Rightarrow> barrier_ref list list \<Rightarrow> nat \<Rightarrow> bool" for ws us where
  by_ring: "i \<in> set ws \<Longrightarrow> watched ws us i"
| by_consumer: "watched ws us k \<Longrightarrow> k < length us \<Longrightarrow> Consumer i \<in> set (us ! k) \<Longrightarrow> watched ws us i"

inductive fed :: "barrier_ref list list \<Rightarrow> nat \<Rightarrow> bool" for us where
  from_ring: "k < length us \<Longrightarrow> Root \<in> set (us ! k) \<Longrightarrow> fed us k"
| from_consumer: "fed us i \<Longrightarrow> k < length us \<Longrightarrow> Consumer i \<in> set (us ! k) \<Longrightarrow> fed us k"

definition sound_fan :: "nat list \<Rightarrow> barrier_ref list list \<Rightarrow> bool" where
  "sound_fan ws us \<longleftrightarrow> ws \<noteq> [] \<and> (\<forall>j \<in> set ws. j < length us)
     \<and> (\<forall>k < length us. (\<forall>i. Consumer i \<in> set (us ! k) \<longrightarrow> i < length us) \<and> fed us k \<and> watched ws us k)"

section \<open>What a disruptor stands for\<close>

fun place :: "nat \<Rightarrow> (nat \<Rightarrow> nat) \<Rightarrow> barrier_ref \<Rightarrow> nat" where
  "place n cur Root = n"
| "place n cur (Consumer i) = cur i"

definition seq :: "nat \<Rightarrow> nat \<Rightarrow> (nat \<Rightarrow> nat) \<Rightarrow> barrier_ref \<Rightarrow> nat" where
  "seq m n cur p = 2 ^ m + place n cur p"

text \<open>The buffer holds the last entries of the log.\<close>

definition holds :: "nat \<Rightarrow> 'a list \<Rightarrow> 'a list \<Rightarrow> bool" where
  "holds m buf log \<longleftrightarrow> length buf = 2 ^ m
     \<and> ring_window m buf (2 ^ m + (length log - 2 ^ m)) (2 ^ m + length log) = drop (length log - 2 ^ m) log"

definition spaced :: "nat \<Rightarrow> nat list \<Rightarrow> barrier_ref list list \<Rightarrow> (barrier_ref \<Rightarrow> nat) \<Rightarrow> (barrier_ref \<Rightarrow> nat) \<Rightarrow> bool" where
  "spaced m ws us lo pub \<longleftrightarrow> (\<forall>k < length us. \<forall>p \<in> set (us ! k). pub (Consumer k) \<le> lo p)
     \<and> (\<forall>j \<in> set ws. pub Root \<le> lo (Consumer j) + 2 ^ m)"

definition log_rep where
  "log_rep m wrep ws us d log cur \<longleftrightarrow> waits_for (read_barrier d) = ws \<and> map upper_barriers (disruptor_consumers d) = us
     \<and> holds m (ring_buffer d) log
     \<and> (\<exists>lo. bars m wrep d (seq m (length log) cur) lo (seq m (length log) cur) \<and> spaced m ws us lo (seq m (length log) cur))"

lemma log_repI:
  assumes "waits_for (read_barrier d) = ws" "map upper_barriers (disruptor_consumers d) = us" "holds m (ring_buffer d) log"
    "bars m wrep d (seq m (length log) cur) lo (seq m (length log) cur)" "spaced m ws us lo (seq m (length log) cur)"
  shows "log_rep m wrep ws us d log cur"
  using assms unfolding log_rep_def by blast

lemma log_repE:
  assumes "log_rep m wrep ws us d log cur"
  obtains lo where "waits_for (read_barrier d) = ws" "map upper_barriers (disruptor_consumers d) = us" "holds m (ring_buffer d) log"
    "bars m wrep d (seq m (length log) cur) lo (seq m (length log) cur)" "spaced m ws us lo (seq m (length log) cur)"
  using assms unfolding log_rep_def by blast

lemma seq_simps [simp]: "seq m n cur Root = 2 ^ m + n" "seq m n cur (Consumer i) = 2 ^ m + cur i"
  by (simp_all add: seq_def)

lemma seq_advance: "seq m n (cur(i := c)) = (seq m n cur)(Consumer i := 2 ^ m + c)"
proof
  fix p show "seq m n (cur(i := c)) p = ((seq m n cur)(Consumer i := 2 ^ m + c)) p"
    by (cases p) simp_all
qed

lemma seq_append: "seq m (n + k) cur = (seq m n cur)(Root := 2 ^ m + n + k)"
proof
  fix p show "seq m (n + k) cur p = ((seq m n cur)(Root := 2 ^ m + n + k)) p"
    by (cases p) simp_all
qed

text \<open>Everybody is behind the ring, and the ring at most one buffer ahead of anybody.\<close>

lemma fed_behind:
  assumes "fed us k" "spaced m ws us lo pub" "\<forall>i < length us. lo (Consumer i) \<le> pub (Consumer i)"
    and "\<forall>k < length us. \<forall>i. Consumer i \<in> set (us ! k) \<longrightarrow> i < length us"
  shows "pub (Consumer k) \<le> lo Root"
  using assms(1)
proof induction
  case (from_consumer i k)
  then have "pub (Consumer k) \<le> lo (Consumer i)" "lo (Consumer i) \<le> pub (Consumer i)"
    using assms(2-4) by (auto simp: spaced_def)
  then show ?case
    using from_consumer.IH by simp
qed (use assms(2) in \<open>auto simp: spaced_def\<close>)

lemma watched_room:
  assumes "watched ws us i" "spaced m ws us lo pub" "\<forall>i < length us. lo (Consumer i) \<le> pub (Consumer i)"
  shows "pub Root \<le> lo (Consumer i) + 2 ^ m"
  using assms(1)
proof induction
  case (by_consumer k i)
  then have "pub (Consumer k) \<le> lo (Consumer i)" "lo (Consumer k) \<le> pub (Consumer k)"
    using assms(2,3) by (auto simp: spaced_def)
  then show ?case
    using by_consumer.IH by simp
qed (use assms(2) in \<open>auto simp: spaced_def\<close>)

lemma spaced_mono: "spaced m ws us lo pub \<Longrightarrow> \<forall>p. lo p \<le> lo' p \<Longrightarrow> spaced m ws us lo' pub"
  unfolding spaced_def by (meson add_le_mono1 le_trans)

section \<open>The buffer\<close>

lemma holds_window:
  assumes "holds m buf log" "r \<le> length log" "length log \<le> r + 2 ^ m"
  shows "ring_window m buf (2 ^ m + r) (2 ^ m + length log) = drop r log"
proof -
  define r0 where "r0 = length log - 2 ^ m"
  have "ring_window m buf (2 ^ m + r0 + (r - r0)) (2 ^ m + length log) = drop (r - r0) (drop r0 log)"
    using assms by (subst ring_window_drop [symmetric]) (auto simp: holds_def r0_def)
  moreover have "2 ^ m + r0 + (r - r0) = 2 ^ m + r" "r - r0 + r0 = r"
    using assms(2,3) by (simp_all add: r0_def)
  ultimately show ?thesis
    by simp
qed

lemma holds_part:
  assumes "holds m buf log" "r + k \<le> length log" "length log \<le> r + 2 ^ m"
  shows "ring_window m buf (2 ^ m + r) (2 ^ m + r + k) = take k (drop r log)"
  using holds_window [OF assms(1) _ assms(3)] assms(2) ring_window_take [of "2 ^ m + r" k "2 ^ m + length log" m buf]
  by simp

lemma holds_stored:
  assumes "holds m buf log" "stored m buf (2 ^ m + length log) xs buf'" "length xs \<le> 2 ^ m"
  shows "holds m buf' (log @ xs)"
proof -
  define r where "r = length log + length xs - 2 ^ m"
  have r: "r \<le> length log" "length log \<le> r + 2 ^ m" "2 ^ m + length log + length xs \<le> (2 ^ m + r) + 2 ^ m"
    using assms(3) by (simp_all add: r_def)
  have "ring_window m buf' (2 ^ m + r) (2 ^ m + length log + length xs) = drop r log @ xs"
    using ring_window_stored [OF assms(2) _ r(3)] holds_window [OF assms(1) r(1,2)] r(1) by simp
  then show ?thesis
    using assms(1,2) r(1) by (simp add: holds_def stored_def r_def add.assoc)
qed

section \<open>Operations\<close>

locale disruptor_log = disruptor_ring m wops wrep wstrong
  for m :: nat and wops :: "'w barrier_ops" and wrep wstrong +
  fixes ws :: "nat list" and us :: "barrier_ref list list"
  assumes sound: "sound_fan ws us"
begin

abbreviation dt where "dt \<equiv> ring_type m wops (fan_ops (2 ^ m)) None"

abbreviation repr where "repr \<equiv> log_rep m wrep ws us"

lemma bars_seq:
  assumes "bars m wrep d res lo pub" "map upper_barriers (disruptor_consumers d) = us" "spaced m ws us lo pub"
  shows "\<forall>i < length us. lo (Consumer i) \<le> pub (Consumer i)"
    and "k < length us \<Longrightarrow> pub (Consumer k) \<le> lo Root"
    and "k < length us \<Longrightarrow> pub Root \<le> lo (Consumer k) + 2 ^ m"
    and "lo Root \<le> pub Root"
proof -
  have n: "length us = length (disruptor_consumers d)"
    unfolding assms(2) [symmetric] by simp
  show lo: "\<forall>i < length us. lo (Consumer i) \<le> pub (Consumer i)"
    using bars_order [OF assms(1)] by (simp add: n known_def)
  show "lo Root \<le> pub Root"
    using bars_order [OF assms(1), of Root] by (simp add: known_def)
  have s: "fed us k" "watched ws us k" if "k < length us"
    using sound that by (simp_all add: sound_fan_def)
  have inside: "\<forall>k < length us. \<forall>i. Consumer i \<in> set (us ! k) \<longrightarrow> i < length us"
    using sound by (simp add: sound_fan_def)
  show "pub (Consumer k) \<le> lo Root" if "k < length us"
    by (rule fed_behind [OF s(1) [OF that] assms(3) lo inside])
  show "pub Root \<le> lo (Consumer k) + 2 ^ m" if "k < length us"
    by (rule watched_room [OF s(2) [OF that] assms(3) lo])
qed

lemma rep_bounds:
  assumes "repr d log cur"
  shows "m < 63" "2 ^ m + length log < 2 ^ 64" "length (ring_buffer d) = 2 ^ m" "length (disruptor_consumers d) = length us"
    and "k < length us \<Longrightarrow> cur k \<le> length log" "k < length us \<Longrightarrow> length log \<le> cur k + 2 ^ m"
    and "k < length us \<Longrightarrow> Consumer i \<in> set (us ! k) \<Longrightarrow> cur k \<le> cur i"
proof -
  obtain lo where l: "map upper_barriers (disruptor_consumers d) = us" "holds m (ring_buffer d) log"
    "bars m wrep d (seq m (length log) cur) lo (seq m (length log) cur)" "spaced m ws us lo (seq m (length log) cur)"
    using assms by (rule log_repE)
  note b = bars_seq [OF l(3,1,4)] bars_order [OF l(3), of Root]
  show "m < 63" "2 ^ m + length log < 2 ^ 64"
    using b(5) by (simp_all add: known_def)
  show "length (ring_buffer d) = 2 ^ m"
    using l(2) by (simp add: holds_def)
  show "length (disruptor_consumers d) = length us"
    unfolding l(1) [symmetric] by simp
  show "cur k \<le> length log" if "k < length us"
    using b(2) [OF that] b(4) by simp
  show "length log \<le> cur k + 2 ^ m" if "k < length us"
    using b(3) [OF that] b(1) that by fastforce
  show "cur k \<le> cur i" if "k < length us" "Consumer i \<in> set (us ! k)"
  proof -
    have "i < length us"
      using sound that by (auto simp: sound_fan_def)
    then show ?thesis
      using b(1) l(4) that by (fastforce simp: spaced_def)
  qed
qed

text \<open>A consumer that has its entries and is done.\<close>

lemma dt_simps [simp]:
  "buffer_size dt = 2 ^ m" "write_ops dt = wops" "read_ops dt = fan_ops (2 ^ m)" "moved dt = None"
  by (simp_all add: ring_type_def)

lemma us_known:
  assumes "map upper_barriers (disruptor_consumers d) = us" "k < length us" "p \<in> set (us ! k)"
  shows "known d p"
proof -
  have "length us = length (disruptor_consumers d)"
    unfolding assms(1) [symmetric] by simp
  then show ?thesis
    using assms(2,3) sound by (cases p) (auto simp: known_def sound_fan_def)
qed

lemma us_nonempty: "k < length us \<Longrightarrow> us ! k \<noteq> []"
  using sound by (fastforce simp: sound_fan_def elim: fed.cases)

lemma finish_ok:
  assumes fan: "waits_for (read_barrier d) = ws" "map upper_barriers (disruptor_consumers d) = us" "holds m (ring_buffer d) log"
    and bars: "bars m wrep d ((seq m (length log) cur)(Consumer i := 2 ^ m + cur i + unat n)) lo (seq m (length log) cur)"
      "spaced m ws us lo (seq m (length log) cur)"
    and i: "i < length us" "0 < unat n" "2 ^ m + cur i + unat n < 2 ^ 64" "\<forall>p \<in> set (us ! i). 2 ^ m + cur i + unat n \<le> lo p"
  shows "\<exists>d2. finish dt i (ring_mode (2 ^ m) (of_nat (2 ^ m + cur i))) (of_nat (2 ^ m + cur i) + n) d = Some d2
    \<and> repr d2 log (cur(i := cur i + unat n))"
proof -
  let ?pub = "seq m (length log) cur" and ?e = "of_nat (2 ^ m + cur i) + n :: u64"
  have e: "unat ?e = 2 ^ m + cur i + unat n"
    by (rule seq_end [OF i(3)])
  note b = bars_seq [OF bars(1) fan(2) bars(2)]
  have len: "i < length (disruptor_consumers d)"
    using i(1) unfolding fan(2) [symmetric] by simp
  obtain p where p: "p \<in> set (us ! i)"
    using us_nonempty [OF i(1)] by (cases "us ! i") auto
  have "lo p \<le> ?pub Root"
  proof (cases p)
    case (Consumer k)
    then have "k < length us"
      using p i(1) sound by (auto simp: sound_fan_def)
    then show ?thesis
      using b(1) b(2) [of k] b(4) Consumer by fastforce
  qed (use b(4) in simp)
  then have "unat ?e \<le> lo (Consumer i) + 2 ^ m"
    using b(3) [OF i(1)] i(4) p unfolding e by fastforce
  moreover have own: "own_rep m (own (disruptor_consumers d ! i)) (2 ^ m + cur i + unat n) (lo (Consumer i)) (2 ^ m + cur i)"
    using bars(1) len by (auto simp: bars_def)
  ultimately obtain own' l where l: "op_set (own_ops (2 ^ m)) (ring_mode (2 ^ m) (of_nat (2 ^ m + cur i))) ?e (own (disruptor_consumers d ! i)) = Some own'"
    "own_rep m own' (2 ^ m + cur i + unat n) l (unat ?e)" "lo (Consumer i) \<le> l"
    using own.set_done [OF own, of ?e] i(2) e by auto
  let ?d2 = "put_own i own' d" and ?cur = "cur(i := cur i + unat n)"
  have "bars m wrep ?d2 (seq m (length log) ?cur) (lo(Consumer i := l)) (seq m (length log) ?cur)"
    using bars_put_own [OF bars(1) l(2), of i] unfolding e by (simp add: seq_advance add.assoc)
  moreover have "spaced m ws us (lo(Consumer i := l)) (seq m (length log) ?cur)"
    using bars(2) i(4) l(3) unfolding spaced_def by (force simp: add.assoc)
  ultimately have "repr ?d2 log ?cur"
    using fan by (intro log_repI [where lo = "lo(Consumer i := l)"]) (simp_all add: put_own_def)
  moreover have "finish dt i (ring_mode (2 ^ m) (of_nat (2 ^ m + cur i))) ?e d = Some ?d2"
    using l(1) len by (simp add: finish_def get_consumer_def)
  ultimately show ?thesis
    by blast
qed

end

end
