(* ===== verification/Disruptor_Graph.thy ===== *)
theory Disruptor_Graph
  imports Disruptor_Config Disruptor_Log
begin

text \<open>
  The graph that \<open>configure\<close> builds: it never has a cycle, the levels hold every consumer at its greatest step,
  and the upper barriers of the consumers are the links of the graph.
\<close>

section \<open>Traversals\<close>

definition traversal :: "(barrier_ref list \<Rightarrow> barrier_ref list) \<Rightarrow> bool" where
  "traversal ord \<longleftrightarrow> (\<forall>ps. set (ord ps) = set ps \<and> (distinct ps \<longrightarrow> distinct (ord ps)))"

lemma traversal_set [simp]: "traversal ord \<Longrightarrow> set (ord ps) = set ps"
  by (simp add: traversal_def)

section \<open>Nodes\<close>

definition keys :: "grap_map \<Rightarrow> barrier_ref set" where
  "keys g = fst ` set g"

abbreviation links_of :: "grap_map \<Rightarrow> barrier_ref \<Rightarrow> barrier_ref list" where
  "links_of g p \<equiv> link_set (node_of g p)"

abbreviation steps_of :: "grap_map \<Rightarrow> barrier_ref \<Rightarrow> u64" where
  "steps_of g p \<equiv> max_step (node_of g p)"

lemma map_of_none: "map_of g p = None \<longleftrightarrow> p \<notin> keys g"
  by (induction g) (auto simp: keys_def)

lemma node_of_outside: "p \<notin> keys g \<Longrightarrow> node_of g p = new_node"
  by (simp add: node_of_def flip: map_of_none)

lemma finite_keys [simp]: "finite (keys g)"
  by (simp add: keys_def)

lemma node_of_touch [simp]: "node_of (touch p g) = node_of g"
proof
  fix q
  show "node_of (touch p g) q = node_of g q"
    using map_of_none [of g q] by (auto simp: touch_def node_of_def map_add_def keys_def split: option.splits)
qed

lemma keys_touch [simp]: "keys (touch p g) = insert p (keys g)"
  by (auto simp: touch_def keys_def)

lemma distinct_touch: "distinct (map fst g) \<Longrightarrow> distinct (map fst (touch p g))"
  by (auto simp: touch_def)

lemma keys_put [simp]: "keys (put_node_of p n g) = keys g"
  by (force simp: put_node_of_def keys_def)

lemma fst_put [simp]: "map fst (put_node_of p n g) = map fst g"
  by (induction g) (auto simp: put_node_of_def)

lemma map_of_put: "map_of (put_node_of p n g) q = (if q = p then map_option (\<lambda>_. n) (map_of g p) else map_of g q)"
  by (cases "q = p"; induction g) (simp_all add: put_node_of_def split_def)

lemma node_of_put: "p \<in> keys g \<Longrightarrow> node_of (put_node_of p n g) = (node_of g)(p := n)"
proof
  fix q assume "p \<in> keys g"
  then obtain n' where "map_of g p = Some n'"
    using map_of_none [of g p] by blast
  then show "node_of (put_node_of p n g) q = ((node_of g)(p := n)) q"
    by (simp add: node_of_def map_of_put)
qed

section \<open>Levels\<close>

definition on_level :: "(u64 \<times> barrier_ref list) list \<Rightarrow> u64 \<Rightarrow> barrier_ref \<Rightarrow> bool" where
  "on_level ls s p \<longleftrightarrow> (\<exists>ps. (s, ps) \<in> set ls \<and> p \<in> set ps)"

definition levels_shape :: "(u64 \<times> barrier_ref list) list \<Rightarrow> bool" where
  "levels_shape ls \<longleftrightarrow> sorted_wrt (>) (map fst ls) \<and> (\<forall>l \<in> set ls. snd l \<noteq> [])"

lemma level_insert_keys: "fst ` set (level_insert s p ls) = insert s (fst ` set ls)"
  by (induction s p ls rule: level_insert.induct) auto

lemma on_level_insert [simp]: "on_level (level_insert s p ls) s' q \<longleftrightarrow> on_level ls s' q \<or> s' = s \<and> q = p"
proof (induction s p ls rule: level_insert.induct)
  case (2 s p s0 ps ls)
  then show ?case
    by (cases "s = s0"; cases "s0 < s") (auto simp: on_level_def)
qed (auto simp: on_level_def)

lemma level_insert_shape: "levels_shape ls \<Longrightarrow> levels_shape (level_insert s p ls)"
proof (induction s p ls rule: level_insert.induct)
  case (2 s p s0 ps ls)
  have above: "\<forall>s' \<in> fst ` set ls. s' < s0" "levels_shape ls" "ps \<noteq> []"
    using 2(2) by (auto simp: levels_shape_def)
  consider "s = s0" | "s0 < s" | "s < s0"
    by force
  then show ?case
  proof cases
    case 1
    then show ?thesis
      using above by (auto simp: levels_shape_def)
  next
    case 2
    then show ?thesis
      using above by (force simp: levels_shape_def)
  next
    case 3
    then have "levels_shape (level_insert s p ls)"
      using 2(1) above(2) by auto
    moreover have "\<forall>s' \<in> fst ` set (level_insert s p ls). s' < s0"
      using above(1) 3 by (simp add: level_insert_keys)
    ultimately show ?thesis
      using 3 above(3) by (auto simp: levels_shape_def)
  qed
qed (simp add: levels_shape_def)

section \<open>The invariant of the graph\<close>

text \<open>
  \<open>K\<close> are the nodes, \<open>L\<close> their links, \<open>M\<close> their greatest steps; \<open>us\<close> the upper barriers of the consumers.
\<close>

definition edges :: "(barrier_ref \<Rightarrow> barrier_ref list) \<Rightarrow> (barrier_ref \<times> barrier_ref) set" where
  "edges L = {(q, p). q \<in> set (L p)}"

definition graph_ok :: "barrier_ref set \<Rightarrow> (barrier_ref \<Rightarrow> barrier_ref list) \<Rightarrow> (barrier_ref \<Rightarrow> u64)
    \<Rightarrow> (u64 \<times> barrier_ref list) list \<Rightarrow> barrier_ref list list \<Rightarrow> bool" where
  "graph_ok K L M ls us \<longleftrightarrow> finite K \<and> acyclic (edges L)
     \<and> L Root = [] \<and> (\<forall>p \<in> K. p \<noteq> Root \<longrightarrow> L p \<noteq> []) \<and> (\<forall>p. p \<notin> K \<longrightarrow> L p = [])
     \<and> (\<forall>p. \<forall>q \<in> set (L p). q = Root \<or> q \<in> K) \<and> (\<forall>p. Root \<in> set (L p) \<longrightarrow> M p \<noteq> 0)
     \<and> (\<forall>i. Consumer i \<in> K \<longrightarrow> i < length us) \<and> (\<forall>i < length us. us ! i = L (Consumer i))
     \<and> levels_shape ls \<and> (\<forall>s p. on_level ls s p \<longrightarrow> 0 < s \<and> p \<in> K \<and> p \<noteq> Root \<and> s \<le> M p)
     \<and> (\<forall>p. M p \<noteq> 0 \<longrightarrow> on_level ls (M p) p)"

lemma graph_okD:
  assumes "graph_ok K L M ls us"
  shows "finite K" "acyclic (edges L)" "L Root = []" "p \<in> K \<Longrightarrow> p \<noteq> Root \<Longrightarrow> L p \<noteq> []" "p \<notin> K \<Longrightarrow> L p = []"
    "q \<in> set (L p) \<Longrightarrow> q = Root \<or> q \<in> K" "Root \<in> set (L p) \<Longrightarrow> M p \<noteq> 0" "Consumer i \<in> K \<Longrightarrow> i < length us"
    "i < length us \<Longrightarrow> us ! i = L (Consumer i)" "levels_shape ls"
    "on_level ls s p \<Longrightarrow> 0 < s \<and> p \<in> K \<and> p \<noteq> Root \<and> s \<le> M p" "M p \<noteq> 0 \<Longrightarrow> on_level ls (M p) p"
  using assms unfolding graph_ok_def by blast+

lemma edges_finite:
  assumes "graph_ok K L M ls us"
  shows "finite (edges L)"
proof -
  have "edges L \<subseteq> (\<lambda>(p, q). (q, p)) ` (SIGMA p : K. set (L p))"
    using graph_okD(5) [OF assms] by (force simp: edges_def)
  then show ?thesis
    using graph_okD(1) [OF assms] by (meson finite_SigmaI finite_imageI finite_set finite_subset)
qed

lemma edges_wf: "graph_ok K L M ls us \<Longrightarrow> wf (edges L)"
  using finite_acyclic_wf [OF edges_finite graph_okD(2)] .

lemma edges_wf_converse: "graph_ok K L M ls us \<Longrightarrow> wf ((edges L)\<inverse>)"
  using finite_acyclic_wf_converse [OF edges_finite graph_okD(2)] .

lemma edges_add: "edges (L(x := L x @ [y])) = insert (y, x) (edges L)"
  by (auto simp: edges_def)

lemma root_first: "graph_ok K L M ls us \<Longrightarrow> (p, Root) \<in> (edges L)\<^sup>* \<longleftrightarrow> p = Root"
  by (auto simp: edges_def graph_okD(3) elim: rtranclE)

text \<open>A link that closes no cycle keeps the invariant.\<close>

lemma graph_ok_link:
  assumes ok: "graph_ok K L M ls us" and i: "i < length us" and y: "y = Root \<or> y \<in> K"
    and new: "(Consumer i, y) \<notin> (edges L)\<^sup>*" and s: "y = Root \<Longrightarrow> s \<noteq> 0"
    and K': "insert (Consumer i) K \<subseteq> K'" "K' \<subseteq> insert Root (insert (Consumer i) K)"
    and M': "M' = (if M (Consumer i) < s then M(Consumer i := s) else M)"
    and ls': "ls' = (if M (Consumer i) < s then level_insert s (Consumer i) ls else ls)"
  shows "graph_ok K' (L(Consumer i := L (Consumer i) @ [y])) M' ls' (us[i := us ! i @ [y]])"
proof -
  note g = graph_okD [OF ok]
  let ?x = "Consumer i"
  have mono: "M p \<le> M' p" for p
    by (simp add: M' less_imp_le)
  have "finite K'"
    using g(1) K'(2) finite_subset by blast
  moreover have "acyclic (edges (L(?x := L ?x @ [y])))"
    using g(2) new by (simp add: edges_add acyclic_insert)
  moreover have "M' p \<noteq> 0" if "Root \<in> set ((L(?x := L ?x @ [y])) p)" for p
  proof (cases "M p = 0")
    case True
    then have "p = ?x" "y = Root"
      using that g(7) [of p] by (auto split: if_splits)
    then show ?thesis
      using s True by (auto simp: M' word_gt_0)
  next
    case False
    then show ?thesis
      using mono [of p] by auto
  qed
  moreover have "i' < length us" if "Consumer i' \<in> K'" for i'
    using that K'(2) g(8) [of i'] i by auto
  moreover have "levels_shape ls'"
    using g(10) level_insert_shape by (simp add: ls')
  moreover have "0 < s' \<and> p \<in> K' \<and> p \<noteq> Root \<and> s' \<le> M' p" if "on_level ls' s' p" for s' p
  proof (cases "on_level ls s' p")
    case True
    then show ?thesis
      using g(11) [OF True] K'(1) mono [of p] by (meson insert_subset order_trans subsetD)
  next
    case False
    then show ?thesis
      using that K'(1) by (auto simp: ls' M' word_gt_0 split: if_splits)
  qed
  moreover have "on_level ls' (M' p) p" if "M' p \<noteq> 0" for p
    using that g(12) [of p] by (auto simp: ls' M' split: if_splits)
  moreover have "\<forall>p \<in> K'. p \<noteq> Root \<longrightarrow> (L(?x := L ?x @ [y])) p \<noteq> []"
    using g(4) K'(2) by (auto simp: subset_iff)
  moreover have "\<forall>p. p \<notin> K' \<longrightarrow> (L(?x := L ?x @ [y])) p = []"
    using g(5) K'(1) by auto
  moreover have "\<forall>p. \<forall>q \<in> set ((L(?x := L ?x @ [y])) p). q = Root \<or> q \<in> K'"
    using g(6) y K'(1) by (fastforce split: if_splits)
  moreover have "\<forall>k < length us. us[i := us ! i @ [y]] ! k = (L(?x := L ?x @ [y])) (Consumer k)"
    using g(9) by (simp add: nth_list_update)
  moreover have "(L(?x := L ?x @ [y])) Root = []"
    using g(3) by simp
  ultimately show ?thesis
    unfolding graph_ok_def length_list_update by blast
qed

end
