(* ===== verification/Disruptor_Links.thy ===== *)
theory Disruptor_Links
  imports Disruptor_Graph
begin

text \<open>
  Links are made or refused as they should be: \<open>check_ring\<close> ends and finds exactly the cycles, so that the graph
  of a disruptor never has one; \<open>toposort\<close> ends with an order in which nobody stands before what it waits for.
\<close>

section \<open>Looking for a cycle\<close>

text \<open>Graphs that differ in a node for the ring at most.\<close>

definition same_links :: "grap_map \<Rightarrow> grap_map \<Rightarrow> bool" where
  "same_links g g' \<longleftrightarrow> node_of g' = node_of g \<and> keys g \<subseteq> keys g' \<and> keys g' \<subseteq> insert Root (keys g)
     \<and> (distinct (map fst g) \<longrightarrow> distinct (map fst g'))"

lemma same_links_refl [simp]: "same_links g g"
  by (auto simp: same_links_def)

lemma same_links_trans: "same_links g g1 \<Longrightarrow> same_links g1 g2 \<Longrightarrow> same_links g g2"
  unfolding same_links_def by (auto dest: subsetD)

lemma same_links_touch: "p = Root \<or> p \<in> keys g \<Longrightarrow> same_links g (touch p g)"
  by (auto simp: same_links_def distinct_touch)

text \<open>\<open>x\<close> is reached from \<open>y\<close>: then the call for \<open>y\<close> throws, else it returns and the next call is made.\<close>

definition looked :: "(barrier_ref list \<Rightarrow> barrier_ref list) \<Rightarrow> barrier_ref \<Rightarrow> bool \<Rightarrow> barrier_ref list \<Rightarrow> barrier_ref list \<Rightarrow> grap_map \<Rightarrow> bool" where
  "looked ord x found now ys g \<longleftrightarrow>
     (if found then \<exists>g'. check_ring ord x now g = Some (False, g') \<and> same_links g g'
      else \<exists>g'. check_ring ord x now g = check_ring ord x ys g' \<and> same_links g g')"

lemma looked_on:
  assumes "looked ord x found now' ys g1" "check_ring ord x now g = check_ring ord x now' g1" "same_links g g1"
  shows "looked ord x found now ys g"
  using assms(1,2) same_links_trans [OF assms(3)] unfolding looked_def by (cases found) (simp_all, blast+)

lemma looked_list:
  assumes "\<And>z g. z \<in> set zs \<Longrightarrow> node_of g = node_of g0 \<Longrightarrow> keys g0 \<subseteq> keys g \<Longrightarrow> \<forall>ys. looked ord x (found z) (z # ys) ys g"
    and "node_of g = node_of g0" "keys g0 \<subseteq> keys g"
  shows "looked ord x (\<exists>z \<in> set zs. found z) (zs @ ys) ys g"
  using assms
proof (induction zs arbitrary: g)
  case Nil
  then show ?case
    by (auto simp: looked_def)
next
  case (Cons z zs)
  have one: "looked ord x (found z) (z # zs @ ys) (zs @ ys) g"
    using Cons.prems by simp
  show ?case
  proof (cases "found z")
    case True
    then show ?thesis
      using one by (simp add: looked_def)
  next
    case False
    then obtain g1 where g1: "check_ring ord x (z # zs @ ys) g = check_ring ord x (zs @ ys) g1" "same_links g g1"
      using one by (auto simp: looked_def)
    have "node_of g1 = node_of g0" "keys g0 \<subseteq> keys g1"
      using Cons.prems(2,3) g1(2) by (auto simp: same_links_def)
    then have "looked ord x (\<exists>z \<in> set zs. found z) (zs @ ys) ys g1"
      using Cons.prems(1) by (intro Cons.IH) simp_all
    then show ?thesis
      using False looked_on [OF _ g1] by simp
  qed
qed

lemma check_ring_looks:
  assumes ok: "graph_ok (keys g0) (links_of g0) M ls us" and ord: "traversal ord" and y: "y = Root \<or> y \<in> keys g0"
    and g: "node_of g = node_of g0" "keys g0 \<subseteq> keys g"
  shows "\<forall>ys. looked ord x ((x, y) \<in> (edges (links_of g0))\<^sup>*) (y # ys) ys g"
  using edges_wf [OF ok] y g
proof (induction y arbitrary: g rule: wf_induct_rule)
  case (less y)
  let ?E = "edges (links_of g0)"
  show ?case
  proof
    fix ys
    show "looked ord x ((x, y) \<in> ?E\<^sup>*) (y # ys) ys g"
    proof (cases "x = y")
      case True
      then show ?thesis
        by (simp add: looked_def check_ring.simps [of ord y "y # ys" g])
    next
      case False
      let ?zs = "ord (links_of g0 y)"
      have zs: "set ?zs = {z. (z, y) \<in> ?E}"
        using ord by (simp add: edges_def)
      have step: "(x, y) \<in> ?E\<^sup>* \<longleftrightarrow> (\<exists>z \<in> set ?zs. (x, z) \<in> ?E\<^sup>*)"
        using False unfolding zs by (auto elim: rtranclE)
      have "looked ord x (\<exists>z \<in> set ?zs. (x, z) \<in> ?E\<^sup>*) (?zs @ ys) ys (touch y g)"
      proof (rule looked_list)
        fix z g' assume z: "z \<in> set ?zs" and g': "node_of g' = node_of g0" "keys g0 \<subseteq> keys g'"
        have "(z, y) \<in> ?E" "z = Root \<or> z \<in> keys g0"
          using z graph_okD(6) [OF ok] unfolding zs by (auto simp: edges_def)
        then show "\<forall>ys. looked ord x ((x, z) \<in> ?E\<^sup>*) (z # ys) ys g'"
          using less.IH g' by blast
      qed (use less.prems in auto)
      moreover have "check_ring ord x (y # ys) g = check_ring ord x (?zs @ ys) (touch y g)"
        using False less.prems(2) by (simp add: check_ring.simps [of ord x "y # ys"])
      moreover have "same_links g (touch y g)"
        using less.prems by (intro same_links_touch) auto
      ultimately show ?thesis
        unfolding step by (rule looked_on)
    qed
  qed
qed

lemma check_ring_result:
  assumes "graph_ok (keys g0) (links_of g0) M ls us" "traversal ord" "y = Root \<or> y \<in> keys g0"
  obtains g where "check_ring ord x [y] (touch x g0) = Some ((x, y) \<notin> (edges (links_of g0))\<^sup>*, g)" "same_links (touch x g0) g"
proof -
  have "looked ord x ((x, y) \<in> (edges (links_of g0))\<^sup>*) [y] [] (touch x g0)"
    using check_ring_looks [OF assms, of "touch x g0" x] by auto
  then show thesis
    using that by (auto simp: looked_def check_ring.simps [of ord x "[]"] split: if_splits)
qed

section \<open>Making a link\<close>

definition config_ok :: "configure \<Rightarrow> ('a, 'w) disruptor \<Rightarrow> bool" where
  "config_ok c d \<longleftrightarrow> distinct (map fst (grap c))
     \<and> graph_ok (keys (grap c)) (links_of (grap c)) (steps_of (grap c)) (max_steps c) (map upper_barriers (disruptor_consumers d))"

text \<open>The error a link meets, if any.\<close>

definition link_refused :: "barrier_ref \<Rightarrow> barrier_ref \<Rightarrow> grap_map \<Rightarrow> link_error option" where
  "link_refused x y g =
     (if x = Root then Some Ring_link_to_other
      else if y \<noteq> Root \<and> y \<notin> keys g then Some Link_not_found
      else if y \<in> set (links_of g x) then Some Duplicate_link
      else if (x, y) \<in> (edges (links_of g))\<^sup>* then Some Ring_link
      else None)"

lemma config_okI:
  "distinct (map fst (grap c)) \<Longrightarrow>
    graph_ok (keys (grap c)) (links_of (grap c)) (steps_of (grap c)) (max_steps c) (map upper_barriers (disruptor_consumers d)) \<Longrightarrow> config_ok c d"
  by (simp add: config_ok_def)

lemma config_okD:
  assumes "config_ok c d"
  shows "distinct (map fst (grap c))"
    "graph_ok (keys (grap c)) (links_of (grap c)) (steps_of (grap c)) (max_steps c) (map upper_barriers (disruptor_consumers d))"
  using assms by (simp_all add: config_ok_def)

text \<open>What a link leaves alone.\<close>

definition same_ring :: "('a, 'w) disruptor \<Rightarrow> ('a, 'w) disruptor \<Rightarrow> bool" where
  "same_ring d d' \<longleftrightarrow> ring_buffer d' = ring_buffer d \<and> write_barrier d' = write_barrier d
     \<and> waits_for (read_barrier d') = waits_for (read_barrier d) \<and> map own (disruptor_consumers d') = map own (disruptor_consumers d)"

lemma same_ring_refl [simp]: "same_ring d d"
  by (simp add: same_ring_def)

lemma same_ring_trans: "same_ring d d1 \<Longrightarrow> same_ring d1 d2 \<Longrightarrow> same_ring d d2"
  by (simp add: same_ring_def)

lemma same_ring_length: "same_ring d d' \<Longrightarrow> length (disruptor_consumers d') = length (disruptor_consumers d)"
  unfolding same_ring_def using length_map by metis

lemma add_upper_some:
  assumes "i < length (disruptor_consumers d)"
  obtains d' where "add_upper (Consumer i) y d = Some d'" "same_ring d d'"
    "map upper_barriers (disruptor_consumers d') = (map upper_barriers (disruptor_consumers d))[i := map upper_barriers (disruptor_consumers d) ! i @ [y]]"
proof
  let ?c = "disruptor_consumers d ! i"
  let ?d' = "put_consumers ((disruptor_consumers d)[i := ?c\<lparr>upper_barriers := upper_barriers ?c @ [y]\<rparr>]) d"
  show "add_upper (Consumer i) y d = Some ?d'"
    using assms by (simp add: add_upper_def consumer_add_def get_consumer_def)
  have "(map own (disruptor_consumers d))[i := own ?c] = map own (disruptor_consumers d)"
    using assms by (metis list_update_id nth_map)
  then show "same_ring d ?d'"
    by (simp add: same_ring_def map_update)
  show "map upper_barriers (disruptor_consumers ?d')
    = (map upper_barriers (disruptor_consumers d))[i := map upper_barriers (disruptor_consumers d) ! i @ [y]]"
    using assms by (simp add: map_update)
qed

lemma word_less_one: "(w :: u64) < 1 \<longleftrightarrow> w = 0"
  by (simp add: word_less_nat_alt unat_eq_0)

lemma put_put: "put_node_of p n (put_node_of p n' g) = put_node_of p n g"
  by (simp add: put_node_of_def comp_def split_def)

lemma graph_ok_root: "graph_ok K L M ls us \<Longrightarrow> K \<subseteq> K' \<Longrightarrow> K' \<subseteq> insert Root K \<Longrightarrow> graph_ok K' L M ls us"
  unfolding graph_ok_def using finite_subset [of K' "insert Root K"] by blast

text \<open>A link that is made.\<close>

lemma link_made:
  assumes ok: "config_ok c d" and i: "i < length (disruptor_consumers d)" and y: "y = Root \<or> y \<in> keys (grap c)"
    and new: "(Consumer i, y) \<notin> (edges (links_of (grap c)))\<^sup>*" and s: "y = Root \<Longrightarrow> s \<noteq> 0"
    and g: "same_links (touch (Consumer i) (grap c)) g"
    and node: "node = (node_of g (Consumer i))\<lparr>link_set := links_of g (Consumer i) @ [y]\<rparr>"
    and node': "node' = (if max_step node < s then node\<lparr>max_step := s\<rparr> else node)"
    and ls': "ls' = (if max_step node < s then level_insert s (Consumer i) (max_steps c) else max_steps c)"
    and grap': "grap c' = put_node_of (Consumer i) node' g" "max_steps c' = ls'"
    and d': "map upper_barriers (disruptor_consumers d') = (map upper_barriers (disruptor_consumers d))[i := map upper_barriers (disruptor_consumers d) ! i @ [y]]"
  shows "config_ok c' d'" "links_of (grap c') = (links_of (grap c))(Consumer i := links_of (grap c) (Consumer i) @ [y])"
proof -
  let ?x = "Consumer i" and ?g0 = "grap c"
  note k = config_okD [OF ok]
  have keys: "keys g \<subseteq> insert Root (insert ?x (keys ?g0))" "insert ?x (keys ?g0) \<subseteq> keys g" and nodes: "node_of g = node_of ?g0"
    and dist: "distinct (map fst g)"
    using g distinct_touch [OF k(1), of ?x] by (auto simp: same_links_def)
  have put: "node_of (grap c') = (node_of ?g0)(?x := node')"
    using keys(2) by (simp add: grap'(1) node_of_put nodes)
  have links: "links_of (grap c') = (links_of ?g0)(?x := links_of ?g0 ?x @ [y])"
    unfolding put by (auto simp: node' node nodes)
  have steps: "steps_of (grap c') = (if steps_of ?g0 ?x < s then (steps_of ?g0)(?x := s) else steps_of ?g0)"
    unfolding put by (auto simp: node' node nodes)
  show "links_of (grap c') = (links_of (grap c))(?x := links_of (grap c) ?x @ [y])"
    by (rule links)
  show "config_ok c' d'"
  proof (rule config_okI)
    show "distinct (map fst (grap c'))"
      using dist by (simp add: grap'(1))
    show "graph_ok (keys (grap c')) (links_of (grap c')) (steps_of (grap c')) (max_steps c') (map upper_barriers (disruptor_consumers d'))"
      unfolding links d'
      by (rule graph_ok_link [OF k(2) _ y new s]) (use i keys steps in \<open>auto simp: grap' ls' node nodes\<close>)
  qed
qed

lemma link_step:
  assumes ok: "config_ok c d" and ord: "traversal ord" and x: "known d x"
  obtains c' d' where "x_depends_y ord x y (c, d) = Some (link_refused x y (grap c), c', d')" "config_ok c' d'" "same_ring d d'"
    "already_commit c' = already_commit c"
    "links_of (grap c') = (if link_refused x y (grap c) = None then (links_of (grap c))(x := links_of (grap c) x @ [y]) else links_of (grap c))"
proof -
  note k = config_okD [OF ok] and gk = graph_okD [OF config_okD(2) [OF ok]]
  let ?E = "edges (links_of (grap c))"
  have other: "config_ok (c\<lparr>grap := g\<rparr>) d" if "same_links (grap c) g" for g
  proof -
    have "graph_ok (keys g) (links_of (grap c)) (steps_of (grap c)) (max_steps c) (map upper_barriers (disruptor_consumers d))"
      using graph_ok_root [OF k(2)] that by (simp add: same_links_def)
    then show ?thesis
      using that k(1) by (simp add: config_ok_def same_links_def)
  qed
  show thesis
  proof (cases x)
    case Root
    then show thesis
      using that [of c d] ok by (simp add: x_depends_y_def link_refused_def)
  next
    case (Consumer i)
    then have i: "i < length (disruptor_consumers d)"
      using x by (simp add: known_def)
    obtain d' where d': "add_upper x y d = Some d'" "same_ring d d'"
      "map upper_barriers (disruptor_consumers d') = (map upper_barriers (disruptor_consumers d))[i := map upper_barriers (disruptor_consumers d) ! i @ [y]]"
      using add_upper_some [OF i] unfolding Consumer by blast
    have inside: "x \<in> keys (grap c)" if "links_of (grap c) x \<noteq> []"
      using that gk(5) by blast
    consider (unknown) "y \<noteq> Root" "y \<notin> keys (grap c)"
      | (twice) "y = Root \<or> y \<in> keys (grap c)" "y \<in> set (links_of (grap c) x)"
      | (root) "y = Root" "y \<notin> set (links_of (grap c) x)"
      | (linked) "y \<noteq> Root" "y \<in> keys (grap c)" "y \<notin> set (links_of (grap c) x)"
      by blast
    then show thesis
    proof cases
      case unknown
      then show thesis
        using that [of c d] ok Consumer by (simp add: x_depends_y_def link_refused_def keys_def)
    next
      case twice
      then have xk: "x \<in> keys (grap c)"
        using inside by fastforce
      then have "touch x (grap c) = grap c"
        by (simp add: touch_def keys_def)
      then show thesis
        using that [of c d] ok Consumer twice xk by (cases "y = Root") (simp_all add: x_depends_y_def link_refused_def keys_def Let_def)
    next
      case root
      have new: "(x, y) \<notin> ?E\<^sup>*"
        using root_first [OF k(2)] root Consumer by simp
      let ?x = "Consumer i" and ?g = "touch (Consumer i) (grap c)"
      define node where "node = (node_of ?g ?x)\<lparr>link_set := links_of ?g ?x @ [y]\<rparr>"
      define node' where "node' = (if max_step node < 1 then node\<lparr>max_step := 1\<rparr> else node)"
      define ls' where "ls' = (if max_step node < 1 then level_insert 1 ?x (max_steps c) else max_steps c)"
      let ?c = "c\<lparr>grap := put_node_of ?x node' ?g, max_steps := ls'\<rparr>"
      have made: "config_ok ?c d'" "links_of (grap ?c) = (links_of (grap c))(?x := links_of (grap c) ?x @ [y])"
        by (rule link_made [OF ok i disjI1 [OF root(1)] new [unfolded Consumer] _ same_links_refl node_def node'_def ls'_def _ _ d'(3)]; simp)+
      have "x_depends_y ord x y (c, d) = Some (None, ?c, d')"
        using root Consumer d'(1) by (simp add: x_depends_y_def node_def node'_def ls'_def word_less_one Let_def)
      moreover have "link_refused x y (grap c) = None"
        using root new Consumer by (simp add: link_refused_def)
      ultimately show thesis
        using that [of ?c d'] made d'(2) Consumer by simp
    next
      case linked
      obtain g where g: "check_ring ord x [y] (touch x (grap c)) = Some ((x, y) \<notin> ?E\<^sup>*, g)" "same_links (touch x (grap c)) g"
        using check_ring_result [OF k(2) ord] linked(2) by blast
      show thesis
      proof (cases "(x, y) \<in> ?E\<^sup>*")
        case True
        then have "x \<in> keys (grap c)"
          using linked(2) gk(6) [of x] Consumer by (auto simp: edges_def elim: converse_rtranclE)
        then have "same_links (grap c) g"
          using g(2) same_links_trans [OF same_links_touch] by blast
        moreover have "x_depends_y ord x y (c, d) = Some (Some Ring_link, c\<lparr>grap := g\<rparr>, d)" "link_refused x y (grap c) = Some Ring_link"
          using linked True Consumer g(1) by (simp_all add: x_depends_y_def link_refused_def keys_def)
        ultimately show thesis
          using that [of "c\<lparr>grap := g\<rparr>" d] other [of g] by (simp add: same_links_def)
      next
        case False
        then have "x \<noteq> y"
          by auto
        let ?x = "Consumer i"
        define node where "node = (node_of g ?x)\<lparr>link_set := links_of g ?x @ [y]\<rparr>"
        define st where "st = steps_of g y + 1"
        define node' where "node' = (if max_step node < st then node\<lparr>max_step := st\<rparr> else node)"
        define ls' where "ls' = (if max_step node < st then level_insert st ?x (max_steps c) else max_steps c)"
        let ?c = "c\<lparr>grap := put_node_of ?x node' g, max_steps := ls'\<rparr>"
        have made: "config_ok ?c d'" "links_of (grap ?c) = (links_of (grap c))(?x := links_of (grap c) ?x @ [y])"
          by (rule link_made [OF ok i disjI2 [OF linked(2)] False [unfolded Consumer] _ g(2) [unfolded Consumer] node_def node'_def ls'_def _ _ d'(3)];
              simp add: linked(1))+
        have "x \<in> keys g"
          using g(2) by (auto simp: same_links_def)
        then have "steps_of (put_node_of x n g) y = steps_of g y" for n
          using \<open>x \<noteq> y\<close> by (simp add: node_of_put)
        then have "x_depends_y ord x y (c, d) = Some (None, ?c, d')"
          using linked Consumer d'(1) g(1) False
          by (simp add: x_depends_y_def node_def node'_def ls'_def st_def Let_def keys_def put_put)
        moreover have "link_refused x y (grap c) = None"
          using linked False Consumer by (simp add: link_refused_def)
        ultimately show thesis
          using that [of ?c d'] made d'(2) Consumer by simp
      qed
    qed
  qed
qed

section \<open>Sequences of links\<close>

text \<open>A caller that goes on after an exception.\<close>

fun link_all :: "(barrier_ref list \<Rightarrow> barrier_ref list) \<Rightarrow> (barrier_ref \<times> barrier_ref) list \<Rightarrow> configure \<times> ('a, 'w) disruptor
    \<Rightarrow> (link_error option list \<times> configure \<times> ('a, 'w) disruptor) option" where
  "link_all ord [] cd = Some ([], cd)"
| "link_all ord ((x, y) # xys) cd = do {
     (e, cd1) \<leftarrow> x_depends_y ord x y cd;
     (es, cd2) \<leftarrow> link_all ord xys cd1;
     Some (e # es, cd2) }"

definition fresh :: "('a, 'w) disruptor \<Rightarrow> bool" where
  "fresh d \<longleftrightarrow> waits_for (read_barrier d) = [] \<and> (\<forall>c \<in> set (disruptor_consumers d). upper_barriers c = [])"

lemma node_of_nil [simp]: "node_of [] p = new_node" "keys [] = {}"
  by (simp_all add: node_of_def keys_def)

lemma fresh_ok:
  assumes "fresh d"
  shows "config_ok new_configure d"
proof -
  have "map upper_barriers (disruptor_consumers d) ! i = []" if "i < length (disruptor_consumers d)" for i
    using assms that by (simp add: fresh_def)
  then show ?thesis
    by (simp add: config_ok_def new_configure_def new_node_def graph_ok_def edges_def levels_shape_def on_level_def acyclic_def)
qed

lemma link_all_ok:
  assumes "config_ok c d" "traversal ord" "\<forall>xy \<in> set xys. known d (fst xy)"
  shows "\<exists>es c' d'. link_all ord xys (c, d) = Some (es, c', d') \<and> length es = length xys \<and> config_ok c' d' \<and> same_ring d d'
    \<and> already_commit c' = already_commit c"
  using assms
proof (induction xys arbitrary: c d)
  case (Cons xy xys)
  obtain x y where xy: "xy = (x, y)"
    by (cases xy)
  have x: "known d x"
    using Cons.prems(3) xy by simp
  obtain c1 d1 where one: "x_depends_y ord x y (c, d) = Some (link_refused x y (grap c), c1, d1)" "config_ok c1 d1" "same_ring d d1"
    "already_commit c1 = already_commit c"
    using link_step [OF Cons.prems(1,2) x] by metis
  have "\<forall>xy \<in> set xys. known d1 (fst xy)"
    using Cons.prems(3) same_ring_length [OF one(3)] by (auto simp: known_def split: barrier_ref.split)
  then obtain es c' d' where rest: "link_all ord xys (c1, d1) = Some (es, c', d')" "length es = length xys" "config_ok c' d'" "same_ring d1 d'"
    "already_commit c' = already_commit c1"
    using Cons.IH [OF one(2) Cons.prems(2)] by blast
  then show ?case
    using one same_ring_trans [OF one(3)] by (auto simp: xy)
qed auto

section \<open>The order for warming up\<close>

text \<open>\<open>rt\<close> has everything that is waited for before what waits for it.\<close>

fun in_order :: "(barrier_ref \<Rightarrow> barrier_ref list) \<Rightarrow> barrier_ref set \<Rightarrow> barrier_ref list \<Rightarrow> bool" where
  "in_order L done [] \<longleftrightarrow> True"
| "in_order L done (p # rt) \<longleftrightarrow> set (L p) \<subseteq> done \<and> in_order L (insert p done) rt"

lemma in_order_append: "in_order L D (rt @ rt') \<longleftrightarrow> in_order L D rt \<and> in_order L (D \<union> set rt) rt'"
  by (induction rt arbitrary: D) auto

text \<open>
  What is left of the graph, the records and the order: an entry's links that are not recorded are still in it.
\<close>

definition topo_ok :: "(barrier_ref \<Rightarrow> barrier_ref list) \<Rightarrow> barrier_ref set \<Rightarrow> (barrier_ref \<times> barrier_ref list) list \<Rightarrow> barrier_ref list
    \<Rightarrow> barrier_ref list \<Rightarrow> bool" where
  "topo_ok L K g records rt \<longleftrightarrow> set records = insert Root (set rt) \<and> distinct (rt @ map fst g) \<and> set rt \<union> fst ` set g = K \<and> Root \<notin> K
     \<and> in_order L {Root} rt \<and> (\<forall>p ls. (p, ls) \<in> set g \<longrightarrow> set ls \<subseteq> set (L p) \<and> set (L p) \<subseteq> set ls \<union> set records)"

lemma topo_okD:
  assumes "topo_ok L K g records rt"
  shows "(p, ls) \<in> set g \<Longrightarrow> set ls \<subseteq> set (L p)" "(p, ls) \<in> set g \<Longrightarrow> set (L p) \<subseteq> set ls \<union> set records"
    "set records = insert Root (set rt)" "set rt \<union> fst ` set g = K" "Root \<notin> K" "in_order L {Root} rt" "distinct (rt @ map fst g)"
  using assms unfolding topo_ok_def by blast+

text \<open>The same for a pass that has \<open>g0\<close> behind it.\<close>

lemma topo_pass_ok:
  assumes "topo_pass g records rt = (g', records', rt')" "topo_ok L K (g0 @ g) records rt"
  shows "topo_ok L K (g0 @ g') records' rt' \<and> length g' \<le> length g \<and> set records \<subseteq> set records'
    \<and> ((\<exists>p ls. (p, ls) \<in> set g \<and> set (L p) \<subseteq> set records) \<longrightarrow> length g' < length g)"
  using assms
proof (induction g records rt arbitrary: g0 g' records' rt' rule: topo_pass.induct)
  case (2 p ls g records rt)
  let ?ls = "filter (\<lambda>l. l \<notin> set records) ls"
  have e: "set ls \<subseteq> set (L p)" "set (L p) \<subseteq> set ls \<union> set records" "p \<noteq> Root"
    using topo_okD(1,2) [OF 2(4), of p ls] topo_okD(4,5) [OF 2(4)] by auto
  show ?case
  proof (cases "?ls = []")
    case True
    then have "set (L p) \<subseteq> set records"
      using e(2) by (auto simp: filter_empty_conv)
    moreover have "set ls' \<subseteq> set (L p') \<and> set (L p') \<subseteq> set ls' \<union> set (p # records)" if "(p', ls') \<in> set (g0 @ g)" for p' ls'
      using topo_okD(1,2) [OF 2(4), of p' ls'] that by auto
    ultimately have "topo_ok L K (g0 @ g) (p # records) (rt @ [p])"
      using topo_okD(3-7) [OF 2(4)] unfolding topo_ok_def by (simp add: in_order_append) blast
    moreover have "topo_pass g (p # records) (rt @ [p]) = (g', records', rt')"
      using 2(3) True e(3) by (simp add: Let_def)
    ultimately show ?thesis
      using 2(1) [OF refl _ _ ] True e(3) by fastforce
  next
    case False
    obtain g1 where g1: "topo_pass g records rt = (g1, records', rt')" "g' = (p, ?ls) # g1"
      using 2(3) False by (auto simp: Let_def split: prod.splits)
    have "set ls' \<subseteq> set (L p') \<and> set (L p') \<subseteq> set ls' \<union> set records" if "(p', ls') \<in> set ((g0 @ [(p, ?ls)]) @ g)" for p' ls'
      using topo_okD(1,2) [OF 2(4), of p' ls'] that e by auto
    then have "topo_ok L K ((g0 @ [(p, ?ls)]) @ g) records rt"
      using topo_okD(3-7) [OF 2(4)] unfolding topo_ok_def by simp
    then have "topo_ok L K ((g0 @ [(p, ?ls)]) @ g1) records' rt' \<and> length g1 \<le> length g \<and> set records \<subseteq> set records'
        \<and> ((\<exists>p ls. (p, ls) \<in> set g \<and> set (L p) \<subseteq> set records) \<longrightarrow> length g1 < length g)"
      using 2(2) [OF refl _ g1(1)] False by blast
    moreover have "\<not> set (L p) \<subseteq> set records"
      using False e(1) by (auto simp: filter_empty_conv)
    ultimately show ?thesis
      using g1(2) by auto
  qed
qed auto

lemma topo_loop_returns:
  assumes "topo_ok L K g records rt" "wf (edges L)" "\<And>p q. p \<in> K \<Longrightarrow> q \<in> set (L p) \<Longrightarrow> q = Root \<or> q \<in> K"
  shows "\<exists>rt'. topo_loop g records rt = Some rt' \<and> distinct rt' \<and> set rt' = K \<and> in_order L {Root} rt'"
  using assms(1)
proof (induction "length g" arbitrary: g records rt rule: less_induct)
  case less
  note t = topo_okD [OF less.prems]
  show ?case
  proof (cases "g = []")
    case True
    then show ?thesis
      using t(4,6,7) by (simp add: topo_loop.simps [of "[]"])
  next
    case False
    obtain g' records' rt' where pass: "topo_pass g records rt = (g', records', rt')"
      by (cases "topo_pass g records rt")
    have "fst ` set g \<noteq> {}"
      using False by simp
    then obtain p where p: "p \<in> fst ` set g" "\<And>q. (q, p) \<in> edges L \<Longrightarrow> q \<notin> fst ` set g"
      using wfE_min' [OF assms(2), of "fst ` set g"] by metis
    have "set (L p) \<subseteq> set records"
    proof
      fix q assume q: "q \<in> set (L p)"
      have "p \<in> K"
        using p(1) t(4) by blast
      then have "q = Root \<or> q \<in> K" "q \<notin> fst ` set g"
        using q assms(3) p(2) by (simp_all add: edges_def)
      then show "q \<in> set records"
        using t(3,4) by blast
    qed
    moreover obtain ls where "(p, ls) \<in> set g"
      using p(1) by auto
    ultimately have "length g' < length g" "topo_ok L K g' records' rt'"
      using topo_pass_ok [OF pass, of L K "[]"] less.prems by (simp, blast, simp)
    then show ?thesis
      using less.hyps False pass by (simp add: topo_loop.simps [of g])
  qed
qed

lemma toposort_result:
  assumes ok: "config_ok c d" and ord: "traversal ord"
  shows "\<exists>rt. toposort ord c = Some rt \<and> distinct rt \<and> set rt = keys (grap c) - {Root} \<and> in_order (links_of (grap c)) {Root} rt"
proof -
  note k = config_okD [OF ok] and gk = graph_okD [OF config_okD(2) [OF ok]]
  let ?ps = "ord (removeAll Root (map fst (grap c)))" and ?L = "links_of (grap c)"
  have ps: "set ?ps = keys (grap c) - {Root}" "distinct ?ps"
    using ord k(1) by (auto simp: traversal_def keys_def distinct_removeAll)
  have "topo_ok ?L (keys (grap c) - {Root}) (map (\<lambda>p. (p, ?L p)) ?ps) [Root] []"
    using ps by (auto simp: topo_ok_def comp_def image_image)
  then show ?thesis
    unfolding toposort_def by (rule topo_loop_returns [OF _ edges_wf [OF k(2)]]) (use gk(6) in blast)
qed

end
