(* ===== verification/Disruptor_Commit.thy ===== *)
theory Disruptor_Commit
  imports Disruptor_Links
begin

text \<open>
  The choice of \<open>commit\<close>: the ring waits for the consumers of the greatest step, and that covers all of them
  exactly when every consumer at the end of a chain has that step. Also the state of a disruptor that has
  been put together.
\<close>

section \<open>The greatest step\<close>

definition greatest :: "grap_map \<Rightarrow> nat \<Rightarrow> bool" where
  "greatest g i \<longleftrightarrow> Consumer i \<in> keys g \<and> (\<forall>p \<in> keys g. steps_of g p \<le> steps_of g (Consumer i))"

text \<open>Nobody waits for consumer \<open>i\<close>.\<close>

definition last_one :: "barrier_ref list list \<Rightarrow> nat \<Rightarrow> bool" where
  "last_one us i \<longleftrightarrow> (\<forall>k < length us. Consumer i \<notin> set (us ! k))"

lemma set_consumer_ids [simp]: "set (consumer_ids ps) = {i. Consumer i \<in> set ps}"
  by (induction ps) (auto simp: consumer_ids_def List.map_filter_def split: barrier_ref.splits)

lemma some_link:
  assumes ok: "graph_ok K L M ls us" and p: "p \<in> K" "p \<noteq> Root"
  shows "\<exists>q \<in> K. Root \<in> set (L q)"
  using edges_wf [OF ok] p
proof (induction p rule: wf_induct_rule)
  case (less p)
  obtain q where q: "q \<in> set (L p)"
    using graph_okD(4) [OF ok less.prems] by (cases "L p") auto
  then show ?case
    using less graph_okD(6) [OF ok q] by (cases "q = Root") (auto simp: edges_def)
qed

lemma levels_top:
  assumes ok: "config_ok c d" and ls: "max_steps c = (s, ps) # rest"
  shows "{i. Consumer i \<in> set ps} = {i. greatest (grap c) i}" "ps \<noteq> []" "Root \<notin> set ps"
proof -
  note g = graph_okD [OF config_okD(2) [OF ok]]
  let ?M = "steps_of (grap c)"
  have shape: "\<forall>s' \<in> fst ` set rest. s' < s" "ps \<noteq> []"
    using g(10) ls by (auto simp: levels_shape_def)
  show "ps \<noteq> []"
    by (rule shape)
  have top: "on_level (max_steps c) s p \<longleftrightarrow> p \<in> set ps" for p
    using shape(1) ls by (force simp: on_level_def)
  show "Root \<notin> set ps"
    using g(11) [of s Root] top by blast
  have below: "?M p \<le> s" for p
  proof (cases "?M p = 0")
    case False
    then have "?M p = s \<or> ?M p \<in> fst ` set rest"
      using g(12) [of p] ls by (force simp: on_level_def)
    then show ?thesis
      using shape(1) by (auto intro: less_imp_le)
  qed simp
  have at_top: "p \<in> set ps \<Longrightarrow> ?M p = s \<and> p \<in> keys (grap c) \<and> s \<noteq> 0" for p
    using g(11) [of s p] top [of p] below [of p] by (auto simp: antisym word_gt_0)
  obtain q where q: "q \<in> set ps"
    using shape(2) by (cases ps) auto
  show "{i. Consumer i \<in> set ps} = {i. greatest (grap c) i}"
  proof (rule Collect_cong)
    fix i
    show "Consumer i \<in> set ps \<longleftrightarrow> greatest (grap c) i"
    proof
      assume "Consumer i \<in> set ps"
      then show "greatest (grap c) i"
        using at_top [of "Consumer i"] below by (simp add: greatest_def)
    next
      assume i: "greatest (grap c) i"
      then have "?M (Consumer i) = s" "s \<noteq> 0"
        using at_top [OF q] below [of "Consumer i"] by (auto simp: greatest_def intro: antisym)
      then show "Consumer i \<in> set ps"
        using g(12) [of "Consumer i"] top by auto
    qed
  qed
qed

lemma no_levels:
  assumes ok: "config_ok c d"
  shows "max_steps c = [] \<longleftrightarrow> keys (grap c) \<subseteq> {Root}"
proof -
  note g = graph_okD [OF config_okD(2) [OF ok]]
  show ?thesis
  proof
    assume no: "max_steps c = []"
    show "keys (grap c) \<subseteq> {Root}"
    proof
      fix p assume "p \<in> keys (grap c)"
      then show "p \<in> {Root}"
        using some_link [OF config_okD(2) [OF ok], of p] g(7,12) no by (force simp: on_level_def)
    qed
  next
    assume only: "keys (grap c) \<subseteq> {Root}"
    show "max_steps c = []"
    proof (cases "max_steps c")
      case (Cons l rest)
      then obtain s ps where l: "max_steps c = (s, ps) # rest"
        by (cases l) auto
      then obtain p where "p \<in> set ps"
        using levels_top(2) [OF ok l] by (cases ps) auto
      then show ?thesis
        using g(11) [of s p] l only by (auto simp: on_level_def)
    qed
  qed
qed

lemma add_all: "fold ring_add js d = d\<lparr>read_barrier := (read_barrier d)\<lparr>waits_for := waits_for (read_barrier d) @ js\<rparr>\<rparr>"
  by (induction js arbitrary: d) (simp_all add: ring_add_def)

lemma commit_result:
  assumes ok: "config_ok c d" and ord: "traversal ord" and new: "\<not> already_commit c" "waits_for (read_barrier d) = []"
  shows "if keys (grap c) \<subseteq> {Root} then commit ord (c, d) = (Some No_consumer_link, c, d)
    else \<exists>ws. commit ord (c, d) = (None, c\<lparr>already_commit := True\<rparr>, d\<lparr>read_barrier := (read_barrier d)\<lparr>waits_for := ws\<rparr>\<rparr>)
      \<and> set ws = {i. greatest (grap c) i} \<and> ws \<noteq> []"
proof (cases "max_steps c")
  case Nil
  then show ?thesis
    using no_levels [OF ok] new by (simp add: commit_def)
next
  case (Cons l rest)
  then obtain s ps where l: "max_steps c = (s, ps) # rest"
    by (cases l) auto
  note top = levels_top [OF ok l]
  have "set (consumer_ids (ord ps)) = {i. greatest (grap c) i}"
    using ord top(1) by simp
  moreover obtain i where "Consumer i \<in> set ps"
    using top(2,3) by (metis barrier_ref.exhaust list.set_intros(1) neq_Nil_conv)
  then have "consumer_ids (ord ps) \<noteq> []"
    using ord set_consumer_ids [of "ord ps"] by (metis empty_iff list.set(1) mem_Collect_eq traversal_set)
  ultimately show ?thesis
    using no_levels [OF ok] new l by (auto simp: commit_def add_all)
qed

section \<open>Who is covered\<close>

lemma fed_linked:
  assumes ok: "graph_ok K L M ls us" and k: "k < length us" "us ! k \<noteq> []"
  shows "fed us k"
proof -
  have "p = Consumer k \<Longrightarrow> k < length us \<Longrightarrow> us ! k \<noteq> [] \<Longrightarrow> fed us k" for p
    using edges_wf [OF ok]
  proof (induction p arbitrary: k rule: wf_induct_rule)
    case (less p)
    note u = graph_okD(9) [OF ok less.prems(2)]
    obtain q where q: "q \<in> set (us ! k)"
      using less.prems(3) by (cases "us ! k") auto
    show ?case
    proof (cases q)
      case Root
      then show ?thesis
        using q less.prems(2) by (intro fed.from_ring) simp_all
    next
      case (Consumer j)
      then have j: "Consumer j \<in> K" "(Consumer j, p) \<in> edges L"
        using q u less.prems(1) graph_okD(6) [OF ok, of q "Consumer k"] by (auto simp: edges_def)
      then have "j < length us" "us ! j \<noteq> []"
        using graph_okD(8) [OF ok j(1)] graph_okD(9) [OF ok, of j] graph_okD(4) [OF ok j(1)] by simp_all
      then have "fed us j"
        using less.IH [OF j(2)] by simp
      then show ?thesis
        using q Consumer less.prems(2) by (auto intro: fed.from_consumer)
    qed
  qed
  then show ?thesis
    using k by blast
qed

lemma watched_linked:
  assumes ok: "graph_ok (keys g) (links_of g) (steps_of g) ls us" and ws: "set ws = {i. greatest g i}"
    and w: "watched ws us i"
  shows "i < length us" "us ! i \<noteq> []" "last_one us i \<Longrightarrow> greatest g i"
proof -
  have i: "Consumer i \<in> keys g"
    using w
  proof cases
    case by_ring
    then show ?thesis
      using ws by (simp add: greatest_def)
  next
    case (by_consumer k)
    then have "Consumer i \<in> set (links_of g (Consumer k))"
      by (simp flip: graph_okD(9) [OF ok by_consumer(2)])
    then show ?thesis
      using graph_okD(6) [OF ok] by blast
  qed
  then show "i < length us" "us ! i \<noteq> []"
    using graph_okD(8) [OF ok i] graph_okD(9) [OF ok, of i] graph_okD(4) [OF ok i] by simp_all
  show "greatest g i" if "last_one us i"
    using w that ws by cases (auto simp: last_one_def)
qed

lemma linked_watched:
  assumes ok: "graph_ok (keys g) (links_of g) (steps_of g) ls us" and ws: "set ws = {i. greatest g i}"
    and all: "\<forall>i < length us. us ! i \<noteq> [] \<and> (last_one us i \<longrightarrow> greatest g i)" and i: "i < length us"
  shows "watched ws us i"
proof -
  have "p = Consumer i \<Longrightarrow> i < length us \<Longrightarrow> watched ws us i" for p
    using edges_wf_converse [OF ok]
  proof (induction p arbitrary: i rule: wf_induct_rule)
    case (less p)
    show ?case
    proof (cases "last_one us i")
      case True
      then show ?thesis
        using all less.prems(2) ws by (intro watched.by_ring) auto
    next
      case False
      then obtain k where k: "k < length us" "Consumer i \<in> set (us ! k)"
        by (auto simp: last_one_def)
      then have "(Consumer k, p) \<in> (edges (links_of g))\<inverse>"
        using graph_okD(9) [OF ok k(1)] less.prems(1) by (simp add: edges_def)
      then have "watched ws us k"
        using less.IH k(1) by blast
      then show ?thesis
        using k by (rule watched.by_consumer)
    qed
  qed
  then show ?thesis
    using i by blast
qed

lemma all_watched_iff:
  assumes "graph_ok (keys g) (links_of g) (steps_of g) ls us" "set ws = {i. greatest g i}"
  shows "(\<forall>i < length us. watched ws us i) \<longleftrightarrow> (\<forall>i < length us. us ! i \<noteq> [] \<and> (last_one us i \<longrightarrow> greatest g i))"
  using watched_linked [OF assms] linked_watched [OF assms] by blast

lemma watched_sound:
  assumes ok: "graph_ok (keys g) (links_of g) (steps_of g) ls us" and ws: "set ws = {i. greatest g i}" "ws \<noteq> []"
    and all: "\<forall>i < length us. watched ws us i"
  shows "sound_fan ws us"
proof -
  have "j < length us" if "j \<in> set ws" for j
    using that ws(1) graph_okD(8) [OF ok] by (auto simp: greatest_def)
  moreover have "i < length us" if "k < length us" "Consumer i \<in> set (us ! k)" for i k
  proof -
    have "Consumer i \<in> set (links_of g (Consumer k))"
      using that(2) by (simp flip: graph_okD(9) [OF ok that(1)])
    then show ?thesis
      using graph_okD(6) [OF ok] graph_okD(8) [OF ok, of i] by blast
  qed
  moreover have "fed us k" if "k < length us" for k
    using fed_linked [OF ok that] watched_linked(2) [OF ok ws(1)] all that by blast
  ultimately show ?thesis
    using ws(2) all by (simp add: sound_fan_def)
qed

section \<open>Putting a disruptor together\<close>

text \<open>Links, then \<open>commit\<close>; the last of the results is that of \<open>commit\<close>.\<close>

definition put_together :: "(barrier_ref list \<Rightarrow> barrier_ref list) \<Rightarrow> (barrier_ref \<times> barrier_ref) list \<Rightarrow> ('a, 'w) disruptor
    \<Rightarrow> (link_error option list \<times> configure \<times> ('a, 'w) disruptor) option" where
  "put_together ord xys d = do {
     (es, c1, d1) \<leftarrow> link_all ord xys (new_configure, d);
     (case commit ord (c1, d1) of (e, c2, d2) \<Rightarrow> Some (es @ [e], c2, d2)) }"

definition new_disruptor :: "('a, 'w) disruptor_type \<Rightarrow> 'a \<Rightarrow> 'w \<Rightarrow> consumer list \<Rightarrow> ('a, 'w) disruptor" where
  "new_disruptor t node wb cs = ring_buffer_base t node wb \<lparr>waits_for = [], consumers = cs\<rparr>"

definition new_consumers :: "u64 \<Rightarrow> consumer list \<Rightarrow> bool" where
  "new_consumers bs cs \<longleftrightarrow> (\<forall>c \<in> set cs. c = new_consumer_st bs \<or> (\<exists>weak. c = new_consumer_mt bs weak))"

abbreviation disruptor_uppers :: "('a, 'w) disruptor \<Rightarrow> barrier_ref list list" where
  "disruptor_uppers d \<equiv> map upper_barriers (disruptor_consumers d)"

definition all_watched :: "('a, 'w) disruptor \<Rightarrow> bool" where
  "all_watched d \<longleftrightarrow> (\<forall>i < length (disruptor_consumers d). watched (waits_for (read_barrier d)) (disruptor_uppers d) i)"

lemma put_together_result:
  assumes run: "put_together ord xys d = Some (es, c', d')" and ord: "traversal ord"
    and d: "fresh d" "\<forall>xy \<in> set xys. known d (fst xy)"
  shows "config_ok c' d'" "ring_buffer d' = ring_buffer d" "write_barrier d' = write_barrier d"
    "map own (disruptor_consumers d') = map own (disruptor_consumers d)"
    "last es = None \<Longrightarrow> set (waits_for (read_barrier d')) = {i. greatest (grap c') i} \<and> waits_for (read_barrier d') \<noteq> []"
    "last es = None \<longleftrightarrow> \<not> keys (grap c') \<subseteq> {Root}" "already_commit c' \<longleftrightarrow> last es = None"
proof -
  obtain es1 c1 d1 where l: "link_all ord xys (new_configure, d) = Some (es1, c1, d1)" "config_ok c1 d1" "same_ring d d1"
    "already_commit c1 = already_commit new_configure"
    using link_all_ok [OF fresh_ok [OF d(1)] ord d(2)] by blast
  have new: "\<not> already_commit c1" "waits_for (read_barrier d1) = []"
    using l(3,4) d(1) by (simp_all add: new_configure_def same_ring_def fresh_def)
  have result: "(case commit ord (c1, d1) of (e, c2, d2) \<Rightarrow> Some (es1 @ [e], c2, d2)) = Some (es, c', d')"
    using run l(1) by (simp add: put_together_def)
  consider (none) "keys (grap c1) \<subseteq> {Root}" "commit ord (c1, d1) = (Some No_consumer_link, c1, d1)"
    | (some) ws where "\<not> keys (grap c1) \<subseteq> {Root}"
        "commit ord (c1, d1) = (None, c1\<lparr>already_commit := True\<rparr>, d1\<lparr>read_barrier := (read_barrier d1)\<lparr>waits_for := ws\<rparr>\<rparr>)"
        "set ws = {i. greatest (grap c1) i}" "ws \<noteq> []"
    using commit_result [OF l(2) ord new] by (auto split: if_splits)
  then have "config_ok c' d' \<and> ring_buffer d' = ring_buffer d \<and> write_barrier d' = write_barrier d
    \<and> map own (disruptor_consumers d') = map own (disruptor_consumers d)
    \<and> (last es = None \<longrightarrow> set (waits_for (read_barrier d')) = {i. greatest (grap c') i} \<and> waits_for (read_barrier d') \<noteq> [])
    \<and> (last es = None \<longleftrightarrow> \<not> keys (grap c') \<subseteq> {Root}) \<and> (already_commit c' \<longleftrightarrow> last es = None)"
  proof cases
    case none
    then have "es = es1 @ [Some No_consumer_link]" "c' = c1" "d' = d1"
      using result by simp_all
    then show ?thesis
      using none(1) l(2,3) new(1) by (simp add: same_ring_def)
  next
    case some
    then have e: "es = es1 @ [None]" "c' = c1\<lparr>already_commit := True\<rparr>" "d' = d1\<lparr>read_barrier := (read_barrier d1)\<lparr>waits_for := ws\<rparr>\<rparr>"
      using result by simp_all
    show ?thesis
      using some(1,3,4) l(2,3) unfolding e by (simp add: same_ring_def config_ok_def)
  qed
  then show "config_ok c' d'" "ring_buffer d' = ring_buffer d" "write_barrier d' = write_barrier d"
    "map own (disruptor_consumers d') = map own (disruptor_consumers d)"
    "last es = None \<Longrightarrow> set (waits_for (read_barrier d')) = {i. greatest (grap c') i} \<and> waits_for (read_barrier d') \<noteq> []"
    "last es = None \<longleftrightarrow> \<not> keys (grap c') \<subseteq> {Root}" "already_commit c' \<longleftrightarrow> last es = None"
    by blast+
qed

end
