(* ===== verification/Disruptor_Steps.thy ===== *)
theory Disruptor_Steps
  imports Disruptor_Log
begin

text \<open>
  Every operation of a disruptor against the log: what it returns, when it waits for ever, and what it leaves.
\<close>

section \<open>Reading\<close>

context disruptor_log
begin

definition behind :: "nat \<Rightarrow> nat \<Rightarrow> nat \<Rightarrow> (nat \<Rightarrow> nat) \<Rightarrow> bool" where
  "behind i n len cur \<longleftrightarrow> (\<forall>p \<in> set (us ! i). cur i + n \<le> place len cur p)"

text \<open>A consumer at its barrier.\<close>

lemma at_barrier:
  assumes rep: "repr d log cur" and i: "i < length us"
  obtains lo where "get_consumer i d = Some (disruptor_consumers d ! i)" "upper_barriers (disruptor_consumers d ! i) = us ! i"
    "waits_for (read_barrier d) = ws" "map upper_barriers (disruptor_consumers d) = us" "holds m (ring_buffer d) log"
    "bars m wrep d (seq m (length log) cur) lo (seq m (length log) cur)" "spaced m ws us lo (seq m (length log) cur)"
    "own_rep m (own (disruptor_consumers d ! i)) (2 ^ m + cur i) (lo (Consumer i)) (2 ^ m + cur i)"
    "\<forall>p \<in> set (us ! i). known d p"
proof -
  obtain lo where l: "waits_for (read_barrier d) = ws" "map upper_barriers (disruptor_consumers d) = us" "holds m (ring_buffer d) log"
    "bars m wrep d (seq m (length log) cur) lo (seq m (length log) cur)" "spaced m ws us lo (seq m (length log) cur)"
    using rep by (rule log_repE)
  have len: "i < length (disruptor_consumers d)"
    using i unfolding l(2) [symmetric] by simp
  show thesis
  proof (rule that [OF _ _ l])
    show "get_consumer i d = Some (disruptor_consumers d ! i)"
      using len by (simp add: get_consumer_def)
    show "upper_barriers (disruptor_consumers d ! i) = us ! i"
      using len unfolding l(2) [symmetric] by simp
    show "own_rep m (own (disruptor_consumers d ! i)) (2 ^ m + cur i) (lo (Consumer i)) (2 ^ m + cur i)"
      using l(4) len by (auto simp: bars_def)
    show "\<forall>p \<in> set (us ! i). known d p"
      using us_known [OF l(2) i] by blast
  qed
qed

lemma own_updates:
  assumes "bars m wrep d (seq m n cur) lo (seq m n cur)" "own_rep m b r (lo (Consumer i)) (2 ^ m + cur i)"
  shows "bars m wrep (put_own i b d) ((seq m n cur)(Consumer i := r)) lo (seq m n cur)"
  using bars_put_own [OF assms, of i] by (simp add: fun_upd_idem)

lemma same_fan_parts:
  assumes "same_fan d d'" "waits_for (read_barrier d) = ws" "map upper_barriers (disruptor_consumers d) = us" "holds m (ring_buffer d) log"
  shows "waits_for (read_barrier d') = ws" "map upper_barriers (disruptor_consumers d') = us" "holds m (ring_buffer d') log"
  using assms by (simp_all add: same_fan_def)

lemma read_turn:
  assumes rep: "repr d log cur" and i: "i < length us" "0 < unat n" "2 ^ m + cur i + unat n < 2 ^ 64" "behind i (unat n) (length log) cur"
  obtains b v d1 d2 where "get_consumer i d = Some (disruptor_consumers d ! i)"
    "op_reserve (own_ops (2 ^ m)) n (own (disruptor_consumers d ! i)) = (of_nat (2 ^ m + cur i), b)"
    "upper_wait dt (of_nat (2 ^ m + cur i) + n) (upper_barriers (disruptor_consumers d ! i)) (put_own i b d) = Some (v, d1)"
    "ring_buffer d1 = ring_buffer d"
    "finish dt i (ring_mode (2 ^ m) (of_nat (2 ^ m + cur i))) (of_nat (2 ^ m + cur i) + n) d1 = Some d2"
    "finish dt i (ring_mode (2 ^ m) (of_nat (2 ^ m + cur i))) (of_nat (2 ^ m + cur i) + n) (d1\<lparr>ring_buffer := ring_buffer d\<rparr>) = Some d2"
    "repr d2 log (cur(i := cur i + unat n))"
proof -
  let ?e = "of_nat (2 ^ m + cur i) + n :: u64" and ?pub = "seq m (length log) cur"
  obtain lo where l: "get_consumer i d = Some (disruptor_consumers d ! i)" "upper_barriers (disruptor_consumers d ! i) = us ! i"
    "waits_for (read_barrier d) = ws" "map upper_barriers (disruptor_consumers d) = us" "holds m (ring_buffer d) log"
    "bars m wrep d ?pub lo ?pub" "spaced m ws us lo ?pub"
    "own_rep m (own (disruptor_consumers d ! i)) (2 ^ m + cur i) (lo (Consumer i)) (2 ^ m + cur i)"
    "\<forall>p \<in> set (us ! i). known d p"
    using rep i(1) by (rule at_barrier)
  have e: "unat ?e = 2 ^ m + cur i + unat n"
    by (rule seq_end [OF i(3)])
  obtain b where b: "op_reserve (own_ops (2 ^ m)) n (own (disruptor_consumers d ! i)) = (of_nat (2 ^ m + cur i), b)"
    "own_rep m b (2 ^ m + cur i + unat n) (lo (Consumer i)) (2 ^ m + cur i)"
    using own.reserve [OF l(8) i(3)] by blast
  have far: "\<forall>p \<in> set (us ! i). known (put_own i b d) p \<and> unat ?e \<le> ?pub p"
    using i(4) l(9) same_fan_known [OF put_own_same(1) [of d i b]] unfolding e by (auto simp: behind_def seq_def)
  obtain v d1 lo' where w: "barriers_loop (ref_waits ?e) (us ! i) (- 1) (put_own i b d) = Some (v, d1)"
    "bars m wrep d1 (?pub(Consumer i := 2 ^ m + cur i + unat n)) lo' ?pub" "\<forall>p. lo p \<le> lo' p"
    "\<forall>p \<in> set (us ! i). unat ?e \<le> lo' p" "same_fan d d1"
    using loop_wait_ok [OF own_updates [OF l(6) b(2)] far, of "- 1"] by auto
  note parts = same_fan_parts [OF w(5) l(3-5)]
  obtain d2 where d2: "finish dt i (ring_mode (2 ^ m) (of_nat (2 ^ m + cur i))) ?e d1 = Some d2" "repr d2 log (cur(i := cur i + unat n))"
    using finish_ok [OF parts w(2) spaced_mono [OF l(7) w(3)] i(1-3)] w(4) unfolding e by blast
  have "d1\<lparr>ring_buffer := ring_buffer d\<rparr> = d1"
    using w(5) by (simp add: same_fan_def)
  then show thesis
    using that [OF l(1) b(1) _ _ d2(1) _ d2(2)] d2(1) w(1,5) l(2)
    by (simp add: upper_wait_def barriers_wait_def same_fan_def del: of_nat_add)
qed

lemma read_blocks:
  assumes rep: "repr d log cur" and i: "i < length us" "2 ^ m + cur i + unat n < 2 ^ 64" "\<not> behind i (unat n) (length log) cur"
  obtains b where "get_consumer i d = Some (disruptor_consumers d ! i)"
    "op_reserve (own_ops (2 ^ m)) n (own (disruptor_consumers d ! i)) = (of_nat (2 ^ m + cur i), b)"
    "upper_wait dt (of_nat (2 ^ m + cur i) + n) (upper_barriers (disruptor_consumers d ! i)) (put_own i b d) = None"
proof -
  let ?e = "of_nat (2 ^ m + cur i) + n :: u64" and ?pub = "seq m (length log) cur"
  obtain lo where l: "get_consumer i d = Some (disruptor_consumers d ! i)" "upper_barriers (disruptor_consumers d ! i) = us ! i"
    "bars m wrep d ?pub lo ?pub" "own_rep m (own (disruptor_consumers d ! i)) (2 ^ m + cur i) (lo (Consumer i)) (2 ^ m + cur i)"
    "\<forall>p \<in> set (us ! i). known d p"
    using rep i(1) by (rule at_barrier)
  have e: "unat ?e = 2 ^ m + cur i + unat n"
    by (rule seq_end [OF i(2)])
  obtain b where b: "op_reserve (own_ops (2 ^ m)) n (own (disruptor_consumers d ! i)) = (of_nat (2 ^ m + cur i), b)"
    "own_rep m b (2 ^ m + cur i + unat n) (lo (Consumer i)) (2 ^ m + cur i)"
    using own.reserve [OF l(4) i(2)] by blast
  have "\<forall>p \<in> set (us ! i). known (put_own i b d) p" "\<exists>p \<in> set (us ! i). ?pub p < unat ?e"
    using i(3) l(5) same_fan_known [OF put_own_same(1) [of d i b]] unfolding e by (auto simp: behind_def seq_def not_le)
  then have "barriers_loop (ref_waits ?e) (us ! i) (- 1) (put_own i b d) = None"
    by (rule loop_wait_spins [OF own_updates [OF l(3) b(2)]])
  then show thesis
    using that [OF l(1) b(1)] l(2) by (simp add: upper_wait_def barriers_wait_def)
qed

text \<open>The ways a \<open>try_\<close> operation of a consumer can go.\<close>

lemma read_try:
  assumes rep: "repr d log cur" and i: "i < length us" "0 < unat n" "2 ^ m + cur i + unat n < 2 ^ 64"
  obtains (none) d1 where "\<not> behind i (unat n) (length log) cur"
      "upper_try_wait dt (of_nat (2 ^ m + cur i) + n) (upper_barriers (disruptor_consumers d ! i)) d = Some (0, d1)"
      "repr d1 log cur"
  | (beaten) v d1 b where "behind i (unat n) (length log) cur"
      "upper_try_wait dt (of_nat (2 ^ m + cur i) + n) (upper_barriers (disruptor_consumers d ! i)) d = Some (v, d1)" "v \<noteq> 0"
      "get_consumer i d1 = Some (disruptor_consumers d1 ! i)"
      "op_set_reserve (own_ops (2 ^ m)) (of_nat (2 ^ m + cur i)) (of_nat (2 ^ m + cur i) + n) (own (disruptor_consumers d1 ! i)) = (False, b)"
      "repr (put_own i b d1) log cur"
  | (claimed) v d1 b d2 where "behind i (unat n) (length log) cur"
      "upper_try_wait dt (of_nat (2 ^ m + cur i) + n) (upper_barriers (disruptor_consumers d ! i)) d = Some (v, d1)" "v \<noteq> 0"
      "get_consumer i d1 = Some (disruptor_consumers d1 ! i)"
      "op_set_reserve (own_ops (2 ^ m)) (of_nat (2 ^ m + cur i)) (of_nat (2 ^ m + cur i) + n) (own (disruptor_consumers d1 ! i)) = (True, b)"
      "ring_buffer d1 = ring_buffer d"
      "finish dt i (ring_mode (2 ^ m) (of_nat (2 ^ m + cur i))) (of_nat (2 ^ m + cur i) + n) ((put_own i b d1)\<lparr>ring_buffer := ring_buffer d\<rparr>) = Some d2"
      "finish dt i (ring_mode (2 ^ m) (of_nat (2 ^ m + cur i))) (of_nat (2 ^ m + cur i) + n) (put_own i b d1) = Some d2"
      "repr d2 log (cur(i := cur i + unat n))"
proof -
  let ?e = "of_nat (2 ^ m + cur i) + n :: u64" and ?pub = "seq m (length log) cur"
  obtain lo where l: "get_consumer i d = Some (disruptor_consumers d ! i)" "upper_barriers (disruptor_consumers d ! i) = us ! i"
    "waits_for (read_barrier d) = ws" "map upper_barriers (disruptor_consumers d) = us" "holds m (ring_buffer d) log"
    "bars m wrep d ?pub lo ?pub" "spaced m ws us lo ?pub"
    "own_rep m (own (disruptor_consumers d ! i)) (2 ^ m + cur i) (lo (Consumer i)) (2 ^ m + cur i)"
    "\<forall>p \<in> set (us ! i). known d p"
    using rep i(1) by (rule at_barrier)
  have e: "unat ?e = 2 ^ m + cur i + unat n"
    by (rule seq_end [OF i(3)])
  obtain v d1 lo' where w: "barriers_loop (ref_tries ?e) (us ! i) (- 1) d = Some (v, d1)" "bars m wrep d1 ?pub lo' ?pub" "\<forall>p. lo p \<le> lo' p"
    "v = 0 \<longleftrightarrow> (\<exists>p \<in> set (us ! i). ?pub p < unat ?e)" "\<forall>p \<in> set (us ! i). unat ?e \<le> ?pub p \<longrightarrow> unat ?e \<le> lo' p" "same_fan d d1"
    using loop_try_result [OF l(6,9), of ?e "- 1"] by auto
  note parts = same_fan_parts [OF w(6) l(3-5)]
  have tried: "upper_try_wait dt ?e (upper_barriers (disruptor_consumers d ! i)) d = Some (v, d1)"
    using w(1) l(2) by (simp add: upper_try_wait_def barriers_wait_def)
  have v: "v = 0 \<longleftrightarrow> \<not> behind i (unat n) (length log) cur"
    using w(4) unfolding e by (auto simp: behind_def seq_def not_le)
  have rep1: "repr d1 log cur"
    by (rule log_repI [OF parts w(2) spaced_mono [OF l(7) w(3)]])
  obtain lo1 where l1: "get_consumer i d1 = Some (disruptor_consumers d1 ! i)"
    using at_barrier [OF rep1 i(1)] by blast
  have own1: "own_rep m (own (disruptor_consumers d1 ! i)) (2 ^ m + cur i) (lo' (Consumer i)) (2 ^ m + cur i)"
    using w(2) l1 by (auto simp: bars_def get_consumer_def split: if_splits)
  then obtain ok b where b: "op_set_reserve (own_ops (2 ^ m)) (of_nat (2 ^ m + cur i)) ?e (own (disruptor_consumers d1 ! i)) = (ok, b)"
    "own_rep m b (if ok then unat ?e else 2 ^ m + cur i) (lo' (Consumer i)) (2 ^ m + cur i)"
    using own.set_reserve by blast
  have same: "same_fan d (put_own i b d1)"
    using same_fan_trans [OF w(6) put_own_same(1)] .
  note parts1 = same_fan_parts [OF same l(3-5)]
  note bars1 = own_updates [OF w(2) b(2)]
  consider "v = 0" | "v \<noteq> 0" "\<not> ok" | "v \<noteq> 0" ok
    by blast
  then show thesis
  proof cases
    case 1
    then show thesis
      using none tried v rep1 by simp
  next
    case 2
    have "?pub(Consumer i := 2 ^ m + cur i) = ?pub"
      by (simp add: fun_upd_idem)
    then have "repr (put_own i b d1) log cur"
      using log_repI [OF parts1 _ spaced_mono [OF l(7) w(3)]] bars1 2(2) by simp
    then show thesis
      using beaten [OF _ tried 2(1) l1] b(1) 2 v by simp
  next
    case 3
    have far: "\<forall>p \<in> set (us ! i). 2 ^ m + cur i + unat n \<le> lo' p"
      using 3(1) w(4,5) unfolding e by (meson not_le)
    have "bars m wrep (put_own i b d1) (?pub(Consumer i := 2 ^ m + cur i + unat n)) lo' ?pub"
      using bars1 3(2) unfolding e by simp
    then obtain d2 where d2: "finish dt i (ring_mode (2 ^ m) (of_nat (2 ^ m + cur i))) ?e (put_own i b d1) = Some d2"
      "repr d2 log (cur(i := cur i + unat n))"
      using finish_ok [OF parts1 _ spaced_mono [OF l(7) w(3)] i(1-3) far] by blast
    have "(put_own i b d1)\<lparr>ring_buffer := ring_buffer d\<rparr> = put_own i b d1"
      using same by (simp add: same_fan_def)
    then show thesis
      using claimed [OF _ tried 3(1) l1 _ _ _ d2] d2(1) b(1) 3 v w(6) by (simp add: same_fan_def del: of_nat_add)
  qed
qed

text \<open>What is read: the next entries of the log.\<close>

lemma enough:
  assumes rep: "repr d log cur" and i: "i < length us" "behind i k (length log) cur"
  shows "cur i + k \<le> length log"
proof -
  obtain p where p: "p \<in> set (us ! i)"
    using us_nonempty [OF i(1)] by (cases "us ! i") auto
  then have "cur i + k \<le> place (length log) cur p"
    using i(2) by (simp add: behind_def)
  also have "\<dots> \<le> length log"
  proof (cases p)
    case (Consumer k)
    then have "k < length us"
      using p i(1) sound by (simp add: sound_fan_def)
    then show ?thesis
      using Consumer rep_bounds(5) [OF rep] by simp
  qed simp
  finally show ?thesis .
qed

lemma block_entries:
  assumes rep: "repr d log cur" and i: "i < length us" "behind i (unat n) (length log) cur" "unat n \<le> length ptr"
  shows "block_read (2 ^ m) (ring_mode (2 ^ m) (of_nat (2 ^ m + cur i))) ptr n (ring_buffer d)
    = Some (take (unat n) (drop (cur i) log) @ drop (unat n) ptr)"
proof -
  note b = rep_bounds [OF rep]
  have near: "cur i + unat n \<le> length log"
    using enough [OF rep i(1,2)] .
  have holds: "holds m (ring_buffer d) log"
    using rep by (rule log_repE)
  have "unat n \<le> 2 ^ m" "2 ^ m + cur i < 2 ^ 64"
    using near b(2) b(6) [OF i(1)] by simp_all
  then show ?thesis
    using block_read_window [OF b(1) _ b(3) _ i(3), of "2 ^ m + cur i"] holds_part [OF holds near b(6) [OF i(1)]]
    by (simp add: add.assoc)
qed

lemma next_entry:
  assumes rep: "repr d log cur" and i: "i < length us" "behind i 1 (length log) cur"
  shows "smart_copy None (ring_mode (2 ^ m) (of_nat (2 ^ m + cur i))) (ring_buffer d) = Some (log ! cur i, ring_buffer d)"
proof -
  note b = rep_bounds [OF rep]
  have near: "cur i + 1 \<le> length log"
    using enough [OF rep i] .
  have holds: "holds m (ring_buffer d) log"
    using rep by (rule log_repE)
  have "ring_window m (ring_buffer d) (2 ^ m + cur i) (2 ^ m + cur i + 1) = [log ! cur i]"
    using holds_part [OF holds near b(6) [OF i(1)]] near by (simp add: take_Suc_conv_app_nth hd_drop_conv_nth take_Suc)
  moreover have "2 ^ m + cur i < 2 ^ 64"
    using near b(2) by simp
  ultimately show ?thesis
    using b(1,3) by (auto simp: ring_window_def smart_copy_def seq_pos Let_def simp del: of_nat_add)
qed

section \<open>The consumer's operations\<close>

lemma consumer_dequeue_some:
  assumes rep: "repr d log cur" and i: "i < length us" "behind i 1 (length log) cur"
  shows "\<exists>d'. consumer_dequeue dt i d = Some (log ! cur i, d') \<and> repr d' log (cur(i := cur i + 1))"
proof -
  have one: "unat (1 :: u64) = 1" "2 ^ m + cur i + unat (1 :: u64) < 2 ^ 64"
    using enough [OF rep i] rep_bounds(2) [OF rep] by simp_all
  show ?thesis
    by (rule read_turn [OF rep i(1), of 1]) (use one i(2) next_entry [OF rep i] in \<open>auto simp: consumer_dequeue_def simp del: of_nat_add\<close>)
qed

lemma consumer_dequeue_none:
  assumes rep: "repr d log cur" and i: "i < length us" "2 ^ m + cur i + 1 < 2 ^ 64" "\<not> behind i 1 (length log) cur"
  shows "consumer_dequeue dt i d = None"
  by (rule read_blocks [OF rep i(1), of 1]) (use i(2,3) in \<open>auto simp: consumer_dequeue_def simp del: of_nat_add\<close>)

lemma consumer_block_dequeue_some:
  assumes rep: "repr d log cur" and i: "i < length us" "0 < unat n" "behind i (unat n) (length log) cur" "unat n \<le> length ptr"
  shows "\<exists>d'. consumer_block_dequeue dt i ptr n d = Some (take (unat n) (drop (cur i) log) @ drop (unat n) ptr, d')
    \<and> repr d' log (cur(i := cur i + unat n))"
proof -
  have "2 ^ m + cur i + unat n < 2 ^ 64"
    using enough [OF rep i(1,3)] rep_bounds(2) [OF rep] by simp
  then show ?thesis
    by (rule read_turn [OF rep i(1,2) _ i(3)]) (use block_entries [OF rep i(1,3,4)] in \<open>auto simp: consumer_block_dequeue_def simp del: of_nat_add\<close>)
qed

lemma consumer_block_dequeue_none:
  assumes rep: "repr d log cur" and i: "i < length us" "2 ^ m + cur i + unat n < 2 ^ 64" "\<not> behind i (unat n) (length log) cur"
  shows "consumer_block_dequeue dt i ptr n d = None"
  by (rule read_blocks [OF rep i]) (auto simp: consumer_block_dequeue_def)

lemma consumer_try_dequeue_result:
  assumes rep: "repr d log cur" and i: "i < length us" "2 ^ m + cur i + 1 < 2 ^ 64"
  shows "\<exists>res d'. consumer_try_dequeue dt i d = Some (res, d')
    \<and> (case res of None \<Rightarrow> repr d' log cur
       | Some v \<Rightarrow> behind i 1 (length log) cur \<and> v = log ! cur i \<and> repr d' log (cur(i := cur i + 1)))"
proof -
  obtain lo where l: "get_consumer i d = Some (disruptor_consumers d ! i)"
    "own_rep m (own (disruptor_consumers d ! i)) (2 ^ m + cur i) (lo (Consumer i)) (2 ^ m + cur i)"
    using at_barrier [OF rep i(1)] by blast
  have t: "op_try_reserve (own_ops (2 ^ m)) (own (disruptor_consumers d ! i)) = of_nat (2 ^ m + cur i)"
    by (rule own.try_reserve [OF l(2)])
  have one: "unat (1 :: u64) = 1" "0 < unat (1 :: u64)" "2 ^ m + cur i + unat (1 :: u64) < 2 ^ 64"
    using i(2) by simp_all
  show ?thesis
  proof (cases rule: read_try [OF rep i(1) one(2,3)])
    case (1 d1)
    then show ?thesis
      using l(1) t by (auto simp: consumer_try_dequeue_def simp del: of_nat_add)
  next
    case (2 v d1 b)
    then show ?thesis
      using l(1) t by (auto simp: consumer_try_dequeue_def simp del: of_nat_add)
  next
    case (3 v d1 b d2)
    then show ?thesis
      using l(1) t next_entry [OF rep i(1)] one(1) by (auto simp: consumer_try_dequeue_def simp del: of_nat_add)
  qed
qed

lemma consumer_try_block_dequeue_result:
  assumes rep: "repr d log cur" and i: "i < length us" "0 < unat n" "2 ^ m + cur i + unat n < 2 ^ 64" "unat n \<le> length ptr"
  shows "\<exists>ok out d'. consumer_try_block_dequeue dt i ptr n d = Some (ok, out, d')
    \<and> (if ok then behind i (unat n) (length log) cur \<and> out = take (unat n) (drop (cur i) log) @ drop (unat n) ptr
         \<and> repr d' log (cur(i := cur i + unat n))
       else out = ptr \<and> repr d' log cur)"
proof -
  obtain lo where l: "get_consumer i d = Some (disruptor_consumers d ! i)"
    "own_rep m (own (disruptor_consumers d ! i)) (2 ^ m + cur i) (lo (Consumer i)) (2 ^ m + cur i)"
    using at_barrier [OF rep i(1)] by blast
  have t: "op_try_reserve (own_ops (2 ^ m)) (own (disruptor_consumers d ! i)) = of_nat (2 ^ m + cur i)"
    by (rule own.try_reserve [OF l(2)])
  show ?thesis
  proof (cases rule: read_try [OF rep i(1-3)])
    case (1 d1)
    then show ?thesis
      using l(1) t by (auto simp: consumer_try_block_dequeue_def simp del: of_nat_add)
  next
    case (2 v d1 b)
    then show ?thesis
      using l(1) t by (auto simp: consumer_try_block_dequeue_def simp del: of_nat_add)
  next
    case (3 v d1 b d2)
    then show ?thesis
      using l(1) t block_entries [OF rep i(1) _ i(4)] by (auto simp: consumer_try_block_dequeue_def simp del: of_nat_add)
  qed
qed

lemma consumer_reserve_block_result:
  assumes rep: "repr d log cur" and i: "i < length us" "0 < unat n" "2 ^ m + cur i + unat n < 2 ^ 64"
  shows "\<exists>r d1. consumer_reserve_block dt i n d = Some (r, d1)
    \<and> (if reserve_bool r
       then behind i (unat n) (length log) cur \<and> ring_buffer d1 = ring_buffer d
         \<and> rr_buff r = Some ((cur i) mod 2 ^ m) \<and> unat (rr_size_first r) = min (unat n) (2 ^ m - cur i mod 2 ^ m)
         \<and> (\<exists>d2. consumer_release dt i r d1 = Some (r\<lparr>rr_cb := None\<rparr>, d2) \<and> repr d2 log (cur(i := cur i + unat n)))
       else r = empty_reserve \<and> repr d1 log cur)"
proof -
  obtain lo where l: "get_consumer i d = Some (disruptor_consumers d ! i)"
    "own_rep m (own (disruptor_consumers d ! i)) (2 ^ m + cur i) (lo (Consumer i)) (2 ^ m + cur i)"
    using at_barrier [OF rep i(1)] by blast
  have t: "op_try_reserve (own_ops (2 ^ m)) (own (disruptor_consumers d ! i)) = of_nat (2 ^ m + cur i)"
    by (rule own.try_reserve [OF l(2)])
  have r: "2 ^ m + cur i < 2 ^ 64"
    using i(3) by simp
  have p: "unat (ring_mode (2 ^ m) (of_nat (2 ^ m + cur i)) :: u64) = cur i mod 2 ^ m"
    "unat (2 ^ m - ring_mode (2 ^ m) (of_nat (2 ^ m + cur i)) :: u64) = 2 ^ m - cur i mod 2 ^ m"
    using seq_pos [OF rep_bounds(1) [OF rep] r] seq_rest [OF rep_bounds(1) [OF rep], of "of_nat (2 ^ m + cur i)"] r
    by (simp_all add: unat_of_nat_id del: of_nat_add)
  have n: "n \<noteq> 0"
    using i(2) by auto
  show ?thesis
  proof (cases rule: read_try [OF rep i(1-3)])
    case (1 d1)
    then show ?thesis
      using l(1) t by (simp add: consumer_reserve_block_def reserve_bool_def empty_reserve_def del: of_nat_add)
  next
    case (2 v d1 b)
    then show ?thesis
      using l(1) t by (simp add: consumer_reserve_block_def reserve_bool_def empty_reserve_def del: of_nat_add)
  next
    case (3 v d1 b d2)
    then show ?thesis
      using l(1) t p n
      by (auto simp: consumer_reserve_block_def consumer_release_def reserve_bool_def empty_reserve_def Let_def word_le_nat_alt min_def
          simp del: of_nat_add)
  qed
qed

section \<open>Writing\<close>

definition room :: "nat \<Rightarrow> nat \<Rightarrow> (nat \<Rightarrow> nat) \<Rightarrow> bool" where
  "room n len cur \<longleftrightarrow> (\<forall>j \<in> set ws. len + n \<le> cur j + 2 ^ m)"

lemma fan_of_refs:
  assumes "barriers_loop (ref_wait fw f) (map Consumer ws) (- 1) d = Some (v, d')" "waits_for (read_barrier d) = ws"
  obtains rb where "fan_wait f (read_barrier d) = Some (v, rb)" "d' = d\<lparr>read_barrier := rb\<rparr>"
  using assms fan_wait_refs [of d f fw] by (auto simp: barriers_wait_def)

lemma ws_known:
  assumes "map upper_barriers (disruptor_consumers d) = us"
  shows "\<forall>p \<in> set (map Consumer ws). known d p"
proof -
  have "length us = length (disruptor_consumers d)"
    unfolding assms [symmetric] by simp
  then show ?thesis
    using sound by (simp add: known_def sound_fan_def)
qed

text \<open>A writer that has its place copies in and is done.\<close>

lemma write_done:
  assumes fan: "same_fan d (d\<lparr>read_barrier := rb\<rparr>)" "waits_for (read_barrier d) = ws" "map upper_barriers (disruptor_consumers d) = us"
      "holds m (ring_buffer d) log"
    and bars: "bars m wrep (d\<lparr>write_barrier := wb, read_barrier := rb\<rparr>) ((seq m (length log) cur)(Root := 2 ^ m + length log + unat n)) lo
      (seq m (length log) cur)" "spaced m ws us lo (seq m (length log) cur)"
    and n: "0 < unat n" "2 ^ m + length log + unat n < 2 ^ 64" "\<forall>j \<in> set ws. length log + unat n \<le> lo (Consumer j)"
    and st: "stored m (ring_buffer d) (2 ^ m + length log) ys buf'" "length ys = unat n"
  obtains wb' where "op_set wops (ring_mode (2 ^ m) (of_nat (2 ^ m + length log))) (of_nat (2 ^ m + length log) + n) wb = Some wb'"
    "repr (d\<lparr>ring_buffer := buf', write_barrier := wb', read_barrier := rb\<rparr>) (log @ ys) cur"
proof -
  let ?pub = "seq m (length log) cur" and ?e = "of_nat (2 ^ m + length log) + n :: u64"
  have e: "unat ?e = 2 ^ m + length log + unat n"
    by (rule seq_end [OF n(2)])
  have us: "map upper_barriers (disruptor_consumers (d\<lparr>write_barrier := wb, read_barrier := rb\<rparr>)) = us"
    using fan(1,3) by (simp add: same_fan_def)
  note b = bars_seq [OF bars(1) us bars(2)]
  obtain j where j: "j \<in> set ws" "j < length us"
    using sound by (cases ws) (auto simp: sound_fan_def)
  have "length log + unat n \<le> lo Root"
    using n(3) j b(1) b(2) [OF j(2)] by fastforce
  moreover have w: "wrep wb (2 ^ m + length log + unat n) (lo Root) (2 ^ m + length log)"
    using bars(1) by (simp add: bars_def)
  ultimately obtain wb' l where l: "op_set wops (ring_mode (2 ^ m) (of_nat (2 ^ m + length log))) ?e wb = Some wb'"
    "wrep wb' (2 ^ m + length log + unat n) l (unat ?e)" "lo Root \<le> l"
    using w.set_done [OF w, of ?e] n(1) e by auto
  let ?d = "d\<lparr>ring_buffer := buf', write_barrier := wb', read_barrier := rb\<rparr>"
  have "bars m wrep ?d (seq m (length (log @ ys)) cur) (lo(Root := l)) (seq m (length (log @ ys)) cur)"
    using bars(1) l(2) unfolding e by (simp add: bars_def st(2) add.assoc)
  moreover have "spaced m ws us (lo(Root := l)) (seq m (length (log @ ys)) cur)"
    using bars(2) l(3) n(3) st(2) unfolding spaced_def by (force simp: add.assoc)
  moreover have "length ys \<le> 2 ^ m"
  proof -
    have "lo (Consumer j) \<le> 2 ^ m + length log"
      using b(1) b(2) [OF j(2)] b(4) j(2) by fastforce
    then show ?thesis
      using n(3) j(1) st(2) by fastforce
  qed
  ultimately have "repr ?d (log @ ys) cur"
    using fan us holds_stored [OF fan(4) st(1)]
    by (intro log_repI [where lo = "lo(Root := l)"]) (simp_all add: same_fan_def)
  then show thesis
    using that l(1) by blast
qed

lemma back_one:
  assumes "m < 63" "2 ^ m + len + unat n < 2 ^ 64"
  shows "unat (of_nat (2 ^ m + len) + n - 2 ^ m :: u64) = len + unat n"
  using assms seq_end [of "2 ^ m + len" n] seq_back [of m "of_nat (2 ^ m + len) + n"] by (simp del: of_nat_add)

lemma write_turn:
  assumes rep: "repr d log cur" and n: "0 < unat n" "room (unat n) (length log) cur" "2 ^ m + length log + unat n < 2 ^ 64"
    and st: "stored m (ring_buffer d) (2 ^ m + length log) ys buf'" "length ys = unat n"
  obtains wb v' rb wb' where "op_reserve wops n (write_barrier d) = (of_nat (2 ^ m + length log), wb)"
    "op_wait (fan_ops (2 ^ m)) (of_nat (2 ^ m + length log) + n - 2 ^ m) (read_barrier d) = Some (v', rb)"
    "op_set wops (ring_mode (2 ^ m) (of_nat (2 ^ m + length log))) (of_nat (2 ^ m + length log) + n) wb = Some wb'"
    "repr (d\<lparr>ring_buffer := buf', write_barrier := wb', read_barrier := rb\<rparr>) (log @ ys) cur"
proof -
  let ?pub = "seq m (length log) cur" and ?b = "of_nat (2 ^ m + length log) + n - 2 ^ m :: u64"
  obtain lo where l: "waits_for (read_barrier d) = ws" "map upper_barriers (disruptor_consumers d) = us" "holds m (ring_buffer d) log"
    "bars m wrep d ?pub lo ?pub" "spaced m ws us lo ?pub"
    using rep by (rule log_repE)
  have wr: "wrep (write_barrier d) (2 ^ m + length log) (lo Root) (2 ^ m + length log)"
    using l(4) by (simp add: bars_def)
  obtain wb where wb: "op_reserve wops n (write_barrier d) = (of_nat (2 ^ m + length log), wb)"
    "wrep wb (2 ^ m + length log + unat n) (lo Root) (2 ^ m + length log)"
    using w.reserve [OF wr n(3)] by blast
  note ahead = back_one [OF rep_bounds(1) [OF rep] n(3)]
  let ?d0 = "d\<lparr>write_barrier := wb\<rparr>"
  have bars0: "bars m wrep ?d0 (?pub(Root := 2 ^ m + length log + unat n)) lo ?pub"
    using l(4) wb(2) by (simp add: bars_def)
  have far: "\<forall>p \<in> set (map Consumer ws). known ?d0 p \<and> unat ?b \<le> ?pub p"
    using ws_known [of ?d0] l(2) n(2) unfolding ahead by (auto simp: room_def add.commute)
  obtain v d1 lo' where w: "barriers_loop (ref_waits ?b) (map Consumer ws) (- 1) ?d0 = Some (v, d1)"
    "bars m wrep d1 (?pub(Root := 2 ^ m + length log + unat n)) lo' ?pub"
    "\<forall>p. lo p \<le> lo' p" "\<forall>p \<in> set (map Consumer ws). unat ?b \<le> lo' p" "same_fan ?d0 d1"
    using loop_wait_ok [OF bars0 far, of "- 1"] by auto
  obtain rb where rb: "fan_wait (op_wait (own_ops (2 ^ m)) ?b) (read_barrier ?d0) = Some (v, rb)" "d1 = ?d0\<lparr>read_barrier := rb\<rparr>"
    using fan_of_refs [OF w(1)] l(1) by auto
  have same: "same_fan d (d\<lparr>read_barrier := rb\<rparr>)"
    using w(5) unfolding rb(2) by (simp add: same_fan_def)
  have near: "\<forall>j \<in> set ws. length log + unat n \<le> lo' (Consumer j)"
    using w(4) unfolding ahead by simp
  show thesis
  proof (rule write_done [OF same l(1-3) _ spaced_mono [OF l(5) w(3)] n(1,3) near st])
    show "bars m wrep (d\<lparr>write_barrier := wb, read_barrier := rb\<rparr>) (?pub(Root := 2 ^ m + length log + unat n)) lo' ?pub"
      using w(2) unfolding rb(2) by simp
  qed (use that [OF wb(1)] rb(1) in \<open>simp add: fan_ops_def del: of_nat_add\<close>)
qed

lemma write_blocks:
  assumes rep: "repr d log cur" and n: "\<not> room (unat n) (length log) cur" "2 ^ m + length log + unat n < 2 ^ 64"
  obtains wb where "op_reserve wops n (write_barrier d) = (of_nat (2 ^ m + length log), wb)"
    "op_wait (fan_ops (2 ^ m)) (of_nat (2 ^ m + length log) + n - 2 ^ m) (read_barrier d) = None"
proof -
  let ?pub = "seq m (length log) cur" and ?b = "of_nat (2 ^ m + length log) + n - 2 ^ m :: u64"
  obtain lo where l: "waits_for (read_barrier d) = ws" "map upper_barriers (disruptor_consumers d) = us" "holds m (ring_buffer d) log"
    "bars m wrep d ?pub lo ?pub" "spaced m ws us lo ?pub"
    using rep by (rule log_repE)
  have wr: "wrep (write_barrier d) (2 ^ m + length log) (lo Root) (2 ^ m + length log)"
    using l(4) by (simp add: bars_def)
  obtain wb where wb: "op_reserve wops n (write_barrier d) = (of_nat (2 ^ m + length log), wb)"
    using w.reserve [OF wr n(2)] by blast
  note ahead = back_one [OF rep_bounds(1) [OF rep] n(2)]
  have "\<exists>p \<in> set (map Consumer ws). ?pub p < unat ?b"
    using n(1) unfolding ahead by (auto simp: room_def not_le add.commute)
  then have "barriers_loop (ref_waits ?b) (map Consumer ws) (- 1) d = None"
    by (rule loop_wait_spins [OF l(4) ws_known [OF l(2)]])
  then have "fan_wait (op_wait (own_ops (2 ^ m)) ?b) (read_barrier d) = None"
    using fan_wait_refs [of d "op_wait (own_ops (2 ^ m)) ?b" "op_wait wops ?b"] l(1) by (simp add: barriers_wait_def del: of_nat_add)
  then show thesis
    using that [OF wb] by (simp add: fan_ops_def del: of_nat_add)
qed

text \<open>The ways a \<open>try_\<close> operation of a writer can go.\<close>

lemma write_try:
  assumes rep: "repr d log cur" and n: "0 < unat n" "2 ^ m + length log + unat n < 2 ^ 64"
    and st: "room (unat n) (length log) cur \<Longrightarrow> stored m (ring_buffer d) (2 ^ m + length log) ys buf'" "length ys = unat n"
  obtains (full) rb where "\<not> room (unat n) (length log) cur"
      "op_try_wait (fan_ops (2 ^ m)) (of_nat (2 ^ m + length log) + n - 2 ^ m) (read_barrier d) = Some (0, rb)"
      "repr (d\<lparr>read_barrier := rb\<rparr>) log cur"
  | (beaten) v rb wb where "\<not> wstrong"
      "op_try_wait (fan_ops (2 ^ m)) (of_nat (2 ^ m + length log) + n - 2 ^ m) (read_barrier d) = Some (v, rb)" "v \<noteq> 0"
      "op_set_reserve wops (of_nat (2 ^ m + length log)) (of_nat (2 ^ m + length log) + n) (write_barrier d) = (False, wb)"
      "repr (d\<lparr>read_barrier := rb, write_barrier := wb\<rparr>) log cur"
  | (did) v rb wb wb' where "room (unat n) (length log) cur"
      "op_try_wait (fan_ops (2 ^ m)) (of_nat (2 ^ m + length log) + n - 2 ^ m) (read_barrier d) = Some (v, rb)" "v \<noteq> 0"
      "op_set_reserve wops (of_nat (2 ^ m + length log)) (of_nat (2 ^ m + length log) + n) (write_barrier d) = (True, wb)"
      "op_set wops (ring_mode (2 ^ m) (of_nat (2 ^ m + length log))) (of_nat (2 ^ m + length log) + n) wb = Some wb'"
      "repr (d\<lparr>read_barrier := rb, ring_buffer := buf', write_barrier := wb'\<rparr>) (log @ ys) cur"
proof -
  let ?pub = "seq m (length log) cur" and ?e = "of_nat (2 ^ m + length log) + n :: u64"
  let ?b = "?e - 2 ^ m"
  obtain lo where l: "waits_for (read_barrier d) = ws" "map upper_barriers (disruptor_consumers d) = us" "holds m (ring_buffer d) log"
    "bars m wrep d ?pub lo ?pub" "spaced m ws us lo ?pub"
    using rep by (rule log_repE)
  note ahead = back_one [OF rep_bounds(1) [OF rep] n(2)]
  obtain v d1 lo' where w: "barriers_loop (ref_tries ?b) (map Consumer ws) (- 1) d = Some (v, d1)" "bars m wrep d1 ?pub lo' ?pub"
    "\<forall>p. lo p \<le> lo' p" "v = 0 \<longleftrightarrow> (\<exists>p \<in> set (map Consumer ws). ?pub p < unat ?b)"
    "\<forall>p \<in> set (map Consumer ws). unat ?b \<le> ?pub p \<longrightarrow> unat ?b \<le> lo' p" "same_fan d d1"
    using loop_try_result [OF l(4) ws_known [OF l(2)], of ?b "- 1"] by auto
  obtain rb where rb: "fan_wait (op_try_wait (own_ops (2 ^ m)) ?b) (read_barrier d) = Some (v, rb)" "d1 = d\<lparr>read_barrier := rb\<rparr>"
    using fan_of_refs [OF w(1) l(1)] .
  have tried: "op_try_wait (fan_ops (2 ^ m)) ?b (read_barrier d) = Some (v, rb)"
    using rb(1) by (simp add: fan_ops_def)
  have v: "v = 0 \<longleftrightarrow> \<not> room (unat n) (length log) cur"
    using w(4) unfolding ahead by (auto simp: room_def not_le add.commute)
  have same: "same_fan d (d\<lparr>read_barrier := rb\<rparr>)"
    using w(6) unfolding rb(2) .
  note parts = same_fan_parts [OF same l(1-3)]
  have wr: "wrep (write_barrier d) (2 ^ m + length log) (lo' Root) (2 ^ m + length log)"
    using w(2) unfolding rb(2) by (simp add: bars_def)
  obtain ok wb where wb: "op_set_reserve wops (of_nat (2 ^ m + length log)) ?e (write_barrier d) = (ok, wb)"
    "wrep wb (if ok then unat ?e else 2 ^ m + length log) (lo' Root) (2 ^ m + length log)" "wstrong \<longrightarrow> ok"
    using w.set_reserve [OF wr, of ?e] by blast
  have bars: "bars m wrep (d\<lparr>write_barrier := wb, read_barrier := rb\<rparr>) (?pub(Root := (if ok then unat ?e else 2 ^ m + length log))) lo' ?pub"
    using w(2) wb(2) unfolding rb(2) by (simp add: bars_def)
  have comm: "d\<lparr>read_barrier := rb, write_barrier := wb\<rparr> = d\<lparr>write_barrier := wb, read_barrier := rb\<rparr>"
    by simp
  consider "v = 0" | "v \<noteq> 0" "\<not> ok" | "v \<noteq> 0" ok
    by blast
  then show thesis
  proof cases
    case 1
    have "repr (d\<lparr>read_barrier := rb\<rparr>) log cur"
      using log_repI [OF parts _ spaced_mono [OF l(5) w(3)]] w(2) unfolding rb(2) by blast
    then show thesis
      using full tried 1 v by blast
  next
    case 2
    have "?pub(Root := 2 ^ m + length log) = ?pub"
      by (simp add: fun_upd_idem)
    then have "repr (d\<lparr>read_barrier := rb, write_barrier := wb\<rparr>) log cur"
      using parts bars 2(2) spaced_mono [OF l(5) w(3)] unfolding comm by (intro log_repI [where lo = lo']) simp_all
    moreover have "\<not> wstrong" "op_set_reserve wops (of_nat (2 ^ m + length log)) ?e (write_barrier d) = (False, wb)"
      using wb(1,3) 2(2) by simp_all
    ultimately show thesis
      by (intro beaten [OF _ tried 2(1)])
  next
    case 3
    have r: "room (unat n) (length log) cur"
      using 3(1) v by blast
    have e: "unat ?e = 2 ^ m + length log + unat n"
      by (rule seq_end [OF n(2)])
    have near: "\<forall>j \<in> set ws. length log + unat n \<le> lo' (Consumer j)"
      using w(5) r unfolding ahead by (auto simp: room_def add.commute)
    show thesis
    proof (rule write_done [OF same l(1-3) _ spaced_mono [OF l(5) w(3)] n near st(1) [OF r] st(2)])
      show "bars m wrep (d\<lparr>write_barrier := wb, read_barrier := rb\<rparr>) (?pub(Root := 2 ^ m + length log + unat n)) lo' ?pub"
        using bars 3(2) unfolding e by simp
      fix wb' assume wb': "op_set wops (ring_mode (2 ^ m) (of_nat (2 ^ m + length log))) ?e wb = Some wb'"
        "repr (d\<lparr>ring_buffer := buf', write_barrier := wb', read_barrier := rb\<rparr>) (log @ ys) cur"
      have "repr (d\<lparr>read_barrier := rb, ring_buffer := buf', write_barrier := wb'\<rparr>) (log @ ys) cur"
        using wb'(2) by (simp add: log_rep_def bars_def)
      then show thesis
        using did [OF r tried 3(1) _ wb'(1)] wb(1) 3(2) by simp
    qed
  qed
qed

text \<open>The buffer takes what there is room for.\<close>

lemma room_bound:
  assumes rep: "repr d log cur" and n: "room n (length log) cur"
  shows "n \<le> 2 ^ m"
proof -
  obtain j where j: "j \<in> set ws" "j < length us"
    using sound by (cases ws) (auto simp: sound_fan_def)
  then have "length log + n \<le> cur j + 2 ^ m"
    using n by (simp add: room_def)
  then show ?thesis
    using rep_bounds(5) [OF rep j(2)] by simp
qed

lemma node_stored:
  assumes rep: "repr d log cur"
  obtains buf' where "put_node (ring_mode (2 ^ m) (of_nat (2 ^ m + length log))) v (ring_buffer d) = Some buf'"
    "stored m (ring_buffer d) (2 ^ m + length log) [v] buf'"
  using put_node_stored [OF rep_bounds(1,2,3) [OF rep], of v] that by blast

lemma block_stored:
  assumes rep: "repr d log cur" and n: "room (unat n) (length log) cur" "unat n \<le> length ptr"
  obtains buf' where "block_write (2 ^ m) (ring_mode (2 ^ m) (of_nat (2 ^ m + length log))) ptr n (ring_buffer d) = Some buf'"
    "stored m (ring_buffer d) (2 ^ m + length log) (take (unat n) ptr) buf'"
  using block_write_stored [OF rep_bounds(1,2,3) [OF rep] room_bound [OF rep n(1)] n(2)] that by blast

section \<open>The ring's operations\<close>

lemma enqueue_some:
  assumes rep: "repr d log cur" and n: "room 1 (length log) cur" "2 ^ m + length log + 1 < 2 ^ 64"
  shows "\<exists>d'. enqueue dt v d = Some d' \<and> repr d' (log @ [v]) cur"
proof -
  obtain buf' where buf: "put_node (ring_mode (2 ^ m) (of_nat (2 ^ m + length log))) v (ring_buffer d) = Some buf'"
    "stored m (ring_buffer d) (2 ^ m + length log) [v] buf'"
    using node_stored [OF rep] .
  show ?thesis
    by (rule write_turn [OF rep _ _ _ buf(2), of 1]) (use n buf(1) in \<open>simp_all add: enqueue_def del: of_nat_add\<close>)
qed

lemma enqueue_none:
  assumes rep: "repr d log cur" and n: "\<not> room 1 (length log) cur" "2 ^ m + length log + 1 < 2 ^ 64"
  shows "enqueue dt v d = None"
  by (rule write_blocks [OF rep, of 1]) (use n in \<open>simp_all add: enqueue_def del: of_nat_add\<close>)

lemma block_enqueue_some:
  assumes rep: "repr d log cur" and n: "0 < unat n" "room (unat n) (length log) cur" "unat n \<le> length ptr" "2 ^ m + length log + unat n < 2 ^ 64"
  shows "\<exists>d'. block_enqueue dt ptr n d = Some d' \<and> repr d' (log @ take (unat n) ptr) cur"
proof -
  obtain buf' where buf: "block_write (2 ^ m) (ring_mode (2 ^ m) (of_nat (2 ^ m + length log))) ptr n (ring_buffer d) = Some buf'"
    "stored m (ring_buffer d) (2 ^ m + length log) (take (unat n) ptr) buf'"
    using block_stored [OF rep n(2,3)] .
  show ?thesis
    by (rule write_turn [OF rep n(1,2,4) buf(2)]) (use n buf(1) in \<open>simp_all add: block_enqueue_def del: of_nat_add\<close>)
qed

lemma block_enqueue_none:
  assumes rep: "repr d log cur" and n: "\<not> room (unat n) (length log) cur" "2 ^ m + length log + unat n < 2 ^ 64"
  shows "block_enqueue dt ptr n d = None"
  by (rule write_blocks [OF rep n]) (simp add: block_enqueue_def del: of_nat_add)

lemma try_enqueue_result:
  assumes rep: "repr d log cur" and n: "2 ^ m + length log + 1 < 2 ^ 64"
  shows "\<exists>ok d'. try_enqueue dt v d = Some (ok, d') \<and> (ok \<longrightarrow> room 1 (length log) cur) \<and> (wstrong \<longrightarrow> room 1 (length log) cur \<longrightarrow> ok)
    \<and> repr d' (if ok then log @ [v] else log) cur"
proof -
  obtain lo where wr: "wrep (write_barrier d) (2 ^ m + length log) lo (2 ^ m + length log)"
    using rep by (auto simp: bars_def elim!: log_repE)
  have t: "op_try_reserve wops (write_barrier d) = of_nat (2 ^ m + length log)"
    by (rule w.try_reserve [OF wr])
  obtain buf' where buf: "put_node (ring_mode (2 ^ m) (of_nat (2 ^ m + length log))) v (ring_buffer d) = Some buf'"
    "stored m (ring_buffer d) (2 ^ m + length log) [v] buf'"
    using node_stored [OF rep] .
  show ?thesis
    by (rule write_try [OF rep _ _ buf(2), of 1]) (use n buf(1) t in \<open>auto simp: try_enqueue_def simp del: of_nat_add\<close>)
qed

lemma try_block_enqueue_result:
  assumes rep: "repr d log cur" and n: "0 < unat n" "unat n \<le> length ptr" "2 ^ m + length log + unat n < 2 ^ 64"
  shows "\<exists>ok d'. try_block_enqueue dt ptr n d = Some (ok, d') \<and> (ok \<longrightarrow> room (unat n) (length log) cur)
    \<and> (wstrong \<longrightarrow> room (unat n) (length log) cur \<longrightarrow> ok) \<and> repr d' (if ok then log @ take (unat n) ptr else log) cur"
proof -
  obtain lo where wr: "wrep (write_barrier d) (2 ^ m + length log) lo (2 ^ m + length log)"
    using rep by (auto simp: bars_def elim!: log_repE)
  have t: "op_try_reserve wops (write_barrier d) = of_nat (2 ^ m + length log)"
    by (rule w.try_reserve [OF wr])
  show ?thesis
  proof (cases "room (unat n) (length log) cur")
    case True
    obtain buf' where buf: "block_write (2 ^ m) (ring_mode (2 ^ m) (of_nat (2 ^ m + length log))) ptr n (ring_buffer d) = Some buf'"
      "stored m (ring_buffer d) (2 ^ m + length log) (take (unat n) ptr) buf'"
      using block_stored [OF rep True n(2)] .
    show ?thesis
      by (rule write_try [OF rep n(1,3) buf(2)]) (use n buf(1) t True in \<open>auto simp: try_block_enqueue_def simp del: of_nat_add\<close>)
  next
    case False
    show ?thesis
      by (rule write_try [OF rep n(1,3), of "take (unat n) ptr" "ring_buffer d"])
        (use False n t in \<open>auto simp: try_block_enqueue_def simp del: of_nat_add\<close>)
  qed
qed

end

end
