(* ===== verification/Disruptor_Runs.thy ===== *)
theory Disruptor_Runs
  imports Disruptor_Commit Disruptor_Steps
begin

text \<open>
  Sequences of calls to a disruptor: what was written, what each consumer has read, and how the two agree.
\<close>

section \<open>Calls and their results\<close>

text \<open>The calls and results of the queues, to the ring or to a consumer; each has only the calls of its class.\<close>

datatype 'a disruptor_call = By_ring "'a call" | By_consumer nat "'a call"

fun disruptor_step :: "('a, 'w) disruptor_type \<Rightarrow> 'a disruptor_call \<Rightarrow> ('a, 'w) disruptor \<Rightarrow> ('a result \<times> ('a, 'w) disruptor) option" where
  "disruptor_step t (By_ring (Enqueue v)) d = map_option (Pair Done) (enqueue t v d)"
| "disruptor_step t (By_ring (Try_enqueue v)) d = map_option (apfst Flag) (try_enqueue t v d)"
| "disruptor_step t (By_ring (Block_enqueue ys)) d = map_option (Pair Done) (block_enqueue t ys (of_nat (length ys)) d)"
| "disruptor_step t (By_ring (Try_block_enqueue ys)) d = map_option (apfst Flag) (try_block_enqueue t ys (of_nat (length ys)) d)"
| "disruptor_step t (By_consumer i Dequeue) d = map_option (apfst (Value \<circ> Some)) (consumer_dequeue t i d)"
| "disruptor_step t (By_consumer i Try_dequeue) d = map_option (apfst Value) (consumer_try_dequeue t i d)"
| "disruptor_step t (By_consumer i (Block_dequeue ys)) d =
     map_option (apfst Block) (consumer_block_dequeue t i ys (of_nat (length ys)) d)"
| "disruptor_step t (By_consumer i (Try_block_dequeue ys)) d =
     map_option (\<lambda>(ok, out, d'). (Flag_block ok out, d')) (consumer_try_block_dequeue t i ys (of_nat (length ys)) d)"
| "disruptor_step t _ d = None"

fun disruptor_run :: "('a, 'w) disruptor_type \<Rightarrow> 'a disruptor_call list \<Rightarrow> ('a, 'w) disruptor \<Rightarrow> ('a result list \<times> ('a, 'w) disruptor) option" where
  "disruptor_run t [] d = Some ([], d)"
| "disruptor_run t (c # cs) d = do {
     (res, d1) \<leftarrow> disruptor_step t c d;
     (ress, d2) \<leftarrow> disruptor_run t cs d1;
     Some (res # ress, d2) }"

fun disruptor_call_size :: "'a disruptor_call \<Rightarrow> nat" where
  "disruptor_call_size (By_ring c) = call_size c"
| "disruptor_call_size (By_consumer i c) = call_size c"

definition proper_disruptor_calls :: "'a disruptor_call list \<Rightarrow> bool" where
  "proper_disruptor_calls cs \<longleftrightarrow> (\<forall>c \<in> set cs. 0 < disruptor_call_size c) \<and> sum_list (map disruptor_call_size cs) < 2 ^ 63"

text \<open>What a call wrote, and what consumer \<open>i\<close> got from it.\<close>

fun written :: "'a disruptor_call \<times> 'a result \<Rightarrow> 'a list" where
  "written (By_ring (Enqueue v), Done) = [v]"
| "written (By_ring (Try_enqueue v), Flag True) = [v]"
| "written (By_ring (Block_enqueue ys), Done) = ys"
| "written (By_ring (Try_block_enqueue ys), Flag True) = ys"
| "written _ = []"

fun result_entries :: "'a result \<Rightarrow> 'a list" where
  "result_entries (Value (Some v)) = [v]"
| "result_entries (Block out) = out"
| "result_entries (Flag_block True out) = out"
| "result_entries _ = []"

fun taken_by :: "nat \<Rightarrow> 'a disruptor_call \<times> 'a result \<Rightarrow> 'a list" where
  "taken_by i (By_consumer j c, res) = (if i = j then result_entries res else [])"
| "taken_by i _ = []"

definition sent :: "('a disruptor_call \<times> 'a result) list \<Rightarrow> 'a list" where
  "sent es = concat (map written es)"

definition received :: "nat \<Rightarrow> ('a disruptor_call \<times> 'a result) list \<Rightarrow> 'a list" where
  "received i es = concat (map (taken_by i) es)"

section \<open>Every call moves the log on\<close>

context disruptor_log
begin

text \<open>What a call with a result does to the log and the places in it.\<close>

definition moves :: "'a disruptor_call \<times> 'a result \<Rightarrow> 'a list \<Rightarrow> (nat \<Rightarrow> nat) \<Rightarrow> ('a, 'w) disruptor \<Rightarrow> bool" where
  "moves e log cur d' \<longleftrightarrow> repr d' (log @ written e) (\<lambda>i. cur i + length (taken_by i e))
     \<and> (\<forall>i < length us. taken_by i e = take (length (taken_by i e)) (drop (cur i) log)
          \<and> cur i + length (taken_by i e) \<le> length log) \<and> length (written e) \<le> disruptor_call_size (fst e)"

lemma moves_write:
  assumes rep: "repr d log cur" and c: "repr d' (log @ ys) cur" "written (By_ring c, res) = ys" "length ys \<le> call_size c"
  shows "moves (By_ring c, res) log cur d'"
  using assms rep_bounds(5) [OF rep] by (simp add: moves_def)

lemma moves_read:
  assumes rep: "repr d log cur" and i: "i < length us" and c: "result_entries res = take n (drop (cur i) log)" "behind i n (length log) cur"
    "repr d' log (cur(i := cur i + n))"
  shows "moves (By_consumer i c, res) log cur d'"
proof -
  have n: "cur i + n \<le> length log"
    using enough [OF rep i c(2)] .
  have "(\<lambda>j. cur j + length (taken_by j (By_consumer i c, res))) = cur(i := cur i + n)"
    using n c(1) by auto
  then show ?thesis
    using c n rep_bounds(5) [OF rep] by (simp add: moves_def)
qed

lemma moves_nothing:
  assumes rep: "repr d log cur" and d': "repr d' log cur" and e: "written e = []" "\<And>i. taken_by i e = []"
  shows "moves e log cur d'"
  using assms rep_bounds(5) [OF rep] by (simp add: moves_def)

lemma ring_call_moves:
  assumes rep: "repr d log cur" and c: "0 < call_size c" "2 ^ m + length log + call_size c < 2 ^ 64"
    and run: "disruptor_step dt (By_ring c) d = Some (res, d')"
  shows "moves (By_ring c, res) log cur d'"
proof (cases c)
  case (Enqueue v)
  then have r: "room 1 (length log) cur"
    using run enqueue_none [OF rep, of v] c by (cases "room 1 (length log) cur") simp_all
  show ?thesis
    using enqueue_some [OF rep r, of v] c run Enqueue by (intro moves_write [OF rep, of d' "[v]"]) auto
next
  case (Try_enqueue v)
  obtain ok d1 where t: "try_enqueue dt v d = Some (ok, d1)" "repr d1 (if ok then log @ [v] else log) cur"
    using try_enqueue_result [OF rep, of v] c Try_enqueue by auto
  show ?thesis
  proof (cases ok)
    case True
    then show ?thesis
      using t run Try_enqueue by (intro moves_write [OF rep, of d' "[v]"]) auto
  next
    case False
    then show ?thesis
      using t run Try_enqueue by (intro moves_nothing [OF rep]) auto
  qed
next
  case (Block_enqueue ys)
  have n: "unat (of_nat (length ys) :: u64) = length ys"
    using c Block_enqueue by (simp add: unat_of_nat_id)
  have r: "room (length ys) (length log) cur"
    using run block_enqueue_none [OF rep, of "of_nat (length ys)" ys] c n Block_enqueue by (cases "room (length ys) (length log) cur") auto
  show ?thesis
    using block_enqueue_some [OF rep, of "of_nat (length ys)" ys] r c n run Block_enqueue
    by (intro moves_write [OF rep, of d' ys]) auto
next
  case (Try_block_enqueue ys)
  have n: "unat (of_nat (length ys) :: u64) = length ys"
    using c Try_block_enqueue by (simp add: unat_of_nat_id)
  obtain ok d1 where t: "try_block_enqueue dt ys (of_nat (length ys)) d = Some (ok, d1)" "repr d1 (if ok then log @ ys else log) cur"
    using try_block_enqueue_result [OF rep, of "of_nat (length ys)" ys, unfolded n, simplified take_all [OF order_refl]] c Try_block_enqueue by auto
  show ?thesis
  proof (cases ok)
    case True
    then show ?thesis
      using t run Try_block_enqueue by (intro moves_write [OF rep, of d' ys]) auto
  next
    case False
    then show ?thesis
      using t run Try_block_enqueue by (intro moves_nothing [OF rep]) auto
  qed
qed (use run in simp_all)

lemma consumer_call_moves:
  assumes rep: "repr d log cur" and c: "0 < call_size c" "2 ^ m + length log + call_size c < 2 ^ 64"
    and run: "disruptor_step dt (By_consumer i c) d = Some (res, d')"
  shows "moves (By_consumer i c, res) log cur d'"
proof -
  have i: "i < length us"
  proof (rule ccontr)
    assume "\<not> i < length us"
    then have "get_consumer i d = None"
      using rep_bounds(4) [OF rep] by (simp add: get_consumer_def)
    then show False
      using run by (cases c) (simp_all add: consumer_dequeue_def consumer_try_dequeue_def consumer_block_dequeue_def consumer_try_block_dequeue_def)
  qed
  note le = rep_bounds(5) [OF rep i]
  show ?thesis
  proof (cases c)
    case Dequeue
    then have b: "behind i 1 (length log) cur"
      using run consumer_dequeue_none [OF rep i] c le by (cases "behind i 1 (length log) cur") simp_all
    have "[log ! cur i] = take 1 (drop (cur i) log)"
      using enough [OF rep i b] by (simp add: take_Suc_conv_app_nth take_Suc hd_drop_conv_nth)
    then show ?thesis
      using consumer_dequeue_some [OF rep i b] run b Dequeue by (intro moves_read [OF rep i, of _ 1]) auto
  next
    case Try_dequeue
    obtain v d1 where t: "consumer_try_dequeue dt i d = Some (v, d1)" "(case v of None \<Rightarrow> repr d1 log cur
       | Some v \<Rightarrow> behind i 1 (length log) cur \<and> v = log ! cur i \<and> repr d1 log (cur(i := cur i + 1)))"
      using consumer_try_dequeue_result [OF rep i] c le Try_dequeue by fastforce
    show ?thesis
    proof (cases v)
      case None
      then show ?thesis
        using t run Try_dequeue by (auto intro!: moves_nothing [OF rep])
    next
      case (Some y)
      then have b: "behind i 1 (length log) cur" "y = log ! cur i" "repr d1 log (cur(i := cur i + 1))"
        using t(2) by simp_all
      have "[log ! cur i] = take 1 (drop (cur i) log)"
        using enough [OF rep i b(1)] by (simp add: take_Suc_conv_app_nth take_Suc hd_drop_conv_nth)
      then show ?thesis
        using t(1) run b Some Try_dequeue by (intro moves_read [OF rep i, of _ 1]) auto
    qed
  next
    case (Block_dequeue ys)
    have n: "unat (of_nat (length ys) :: u64) = length ys"
      using c Block_dequeue by (simp add: unat_of_nat_id)
    have b: "behind i (length ys) (length log) cur"
      using run consumer_block_dequeue_none [OF rep i, of "of_nat (length ys)" ys] c n le Block_dequeue
      by (cases "behind i (length ys) (length log) cur") auto
    show ?thesis
      using consumer_block_dequeue_some [OF rep i, of "of_nat (length ys)" ys] b c n run Block_dequeue
      by (intro moves_read [OF rep i, of _ "length ys"]) auto
  next
    case (Try_block_dequeue ys)
    have n: "unat (of_nat (length ys) :: u64) = length ys"
      using c Try_block_dequeue by (simp add: unat_of_nat_id)
    obtain ok out d1 where t: "consumer_try_block_dequeue dt i ys (of_nat (length ys)) d = Some (ok, out, d1)"
      "if ok then behind i (length ys) (length log) cur \<and> out = take (length ys) (drop (cur i) log) @ drop (length ys) ys
         \<and> repr d1 log (cur(i := cur i + length ys)) else out = ys \<and> repr d1 log cur"
      using consumer_try_block_dequeue_result [OF rep i, of "of_nat (length ys)" ys, unfolded n] c le Try_block_dequeue by auto
    show ?thesis
    proof (cases ok)
      case True
      then show ?thesis
        using t run Try_block_dequeue by (intro moves_read [OF rep i, of _ "length ys"]) auto
    next
      case False
      then show ?thesis
        using t run Try_block_dequeue by (auto intro!: moves_nothing [OF rep])
    qed
  qed (use run in simp_all)
qed

lemma call_moves:
  assumes "repr d log cur" "0 < disruptor_call_size c" "2 ^ m + length log + disruptor_call_size c < 2 ^ 64"
    "disruptor_step dt c d = Some (res, d')"
  shows "moves (c, res) log cur d'"
  using ring_call_moves [of d log cur _ res d'] consumer_call_moves [of d log cur _ _ res d'] assms by (cases c) auto

lemma run_moves:
  "repr d log cur \<Longrightarrow> \<forall>i < length us. got i = take (cur i) log \<Longrightarrow> \<forall>c \<in> set cs. 0 < disruptor_call_size c \<Longrightarrow>
    2 ^ m + length log + sum_list (map disruptor_call_size cs) < 2 ^ 64 \<Longrightarrow> disruptor_run dt cs d = Some (ress, d') \<Longrightarrow>
    \<exists>cur'. repr d' (log @ sent (zip cs ress)) cur' \<and> (\<forall>i < length us. got i @ received i (zip cs ress) = take (cur' i) (log @ sent (zip cs ress)))
      \<and> length (sent (zip cs ress)) \<le> sum_list (map disruptor_call_size cs)"
proof (induction cs arbitrary: d log cur got ress)
  case Nil
  then show ?case
    by (auto simp: sent_def received_def)
next
  case (Cons c cs)
  obtain res d1 ress' where run: "disruptor_step dt c d = Some (res, d1)" "disruptor_run dt cs d1 = Some (ress', d')" "ress = res # ress'"
    using Cons.prems(5) by (auto split: Option.bind_splits)
  have step: "moves (c, res) log cur d1"
    using call_moves [OF Cons.prems(1) _ _ run(1)] Cons.prems(3,4) by simp
  let ?log = "log @ written (c, res)" and ?cur = "\<lambda>i. cur i + length (taken_by i (c, res))" and ?got = "\<lambda>i. got i @ taken_by i (c, res)"
  have got: "\<forall>i < length us. ?got i = take (?cur i) ?log"
  proof (intro allI impI)
    fix i assume i: "i < length us"
    then have "taken_by i (c, res) = take (length (taken_by i (c, res))) (drop (cur i) log)" "?cur i \<le> length log"
      using step by (simp_all add: moves_def)
    then show "?got i = take (?cur i) ?log"
      using Cons.prems(2) i by (simp add: take_add)
  qed
  have "repr d1 ?log ?cur" "length (written (c, res)) \<le> disruptor_call_size c"
    using step by (simp_all add: moves_def)
  then have "\<exists>cur'. repr d' (?log @ sent (zip cs ress')) cur'
      \<and> (\<forall>i < length us. ?got i @ received i (zip cs ress') = take (cur' i) (?log @ sent (zip cs ress')))
      \<and> length (sent (zip cs ress')) \<le> sum_list (map disruptor_call_size cs)"
    using Cons.IH [OF _ got _ _ run(2)] Cons.prems(3,4) by simp
  then show ?case
    using run(3) \<open>length (written (c, res)) \<le> disruptor_call_size c\<close> by (auto simp: sent_def received_def)
qed

text \<open>When the calls return.\<close>

lemma disruptor_returns:
  assumes rep: "repr d log cur" and b: "2 ^ m + length log + 1 < 2 ^ 64"
  shows "enqueue dt v d \<noteq> None \<longleftrightarrow> room 1 (length log) cur" "try_enqueue dt v d \<noteq> None"
    "i < length us \<Longrightarrow> consumer_dequeue dt i d \<noteq> None \<longleftrightarrow> behind i 1 (length log) cur"
    "i < length us \<Longrightarrow> consumer_try_dequeue dt i d \<noteq> None"
proof -
  show "enqueue dt v d \<noteq> None \<longleftrightarrow> room 1 (length log) cur"
    using enqueue_some [OF rep _ b, of v] enqueue_none [OF rep _ b, of v] by (cases "room 1 (length log) cur") auto
  show "try_enqueue dt v d \<noteq> None"
    using try_enqueue_result [OF rep b, of v] by auto
  show "consumer_dequeue dt i d \<noteq> None \<longleftrightarrow> behind i 1 (length log) cur" if "i < length us"
  proof -
    have "2 ^ m + cur i + 1 < 2 ^ 64"
      using rep_bounds(5) [OF rep that] b by simp
    then show ?thesis
      using consumer_dequeue_some [OF rep that] consumer_dequeue_none [OF rep that] by (cases "behind i 1 (length log) cur") auto
  qed
  show "consumer_try_dequeue dt i d \<noteq> None" if "i < length us"
  proof -
    have "2 ^ m + cur i + 1 < 2 ^ 64"
      using rep_bounds(5) [OF rep that] b by simp
    then show ?thesis
      using consumer_try_dequeue_result [OF rep that] by auto
  qed
qed

text \<open>A run of a new disruptor.\<close>

lemma run_log:
  assumes rep: "repr d [] (\<lambda>_. 0)" and cs: "proper_disruptor_calls cs" "disruptor_run dt cs d = Some (ress, d')"
  obtains cur where "repr d' (sent (zip cs ress)) cur" "2 ^ m + length (sent (zip cs ress)) + 1 < 2 ^ 64"
    "\<And>i. i < length us \<Longrightarrow> received i (zip cs ress) = take (cur i) (sent (zip cs ress))"
    "\<And>i. i < length us \<Longrightarrow> length (received i (zip cs ress)) = cur i"
proof -
  have total: "sum_list (map disruptor_call_size cs) < 2 ^ 63" "\<forall>c \<in> set cs. 0 < disruptor_call_size c"
    using cs(1) by (simp_all add: proper_disruptor_calls_def)
  then have "2 ^ m + length [] + sum_list (map disruptor_call_size cs) < 2 ^ 64"
    using size_le [OF rep_bounds(1) [OF rep]] by simp
  then obtain cur where run: "repr d' (sent (zip cs ress)) cur" "\<forall>i < length us. received i (zip cs ress) = take (cur i) (sent (zip cs ress))"
    "length (sent (zip cs ress)) \<le> sum_list (map disruptor_call_size cs)"
    using run_moves [OF rep _ total(2) _ cs(2), of "\<lambda>_. []"] by auto
  have "length (received i (zip cs ress)) = cur i" if "i < length us" for i
    using run(2) that rep_bounds(5) [OF run(1) that] by simp
  then show thesis
    using that [OF run(1)] run(2,3) total(1) size_le [OF rep_bounds(1) [OF rep]] by simp
qed

text \<open>The ring has room exactly when it has room before each consumer.\<close>

lemma room_all:
  assumes rep: "repr d log cur"
  shows "room n (length log) cur \<longleftrightarrow> (\<forall>i < length us. length log + n \<le> cur i + 2 ^ m)"
proof
  assume room: "room n (length log) cur"
  show "\<forall>i < length us. length log + n \<le> cur i + 2 ^ m"
  proof (intro allI impI)
    fix i assume "i < length us"
    then have "watched ws us i"
      using sound by (simp add: sound_fan_def)
    then show "length log + n \<le> cur i + 2 ^ m"
    proof induction
      case (by_consumer k i)
      then show ?case
        using rep_bounds(7) [OF rep by_consumer(2,3)] by simp
    qed (use room in \<open>simp add: room_def\<close>)
  qed
qed (use sound in \<open>simp add: room_def sound_fan_def\<close>)

text \<open>When the ring has entries that somebody has not read, somebody can read one.\<close>

lemma somebody_reads:
  assumes wf: "wf (edges L)" "\<forall>i < length us. us ! i = L (Consumer i)" and i: "i < length us" "cur i < len"
  shows "\<exists>k < length us. behind k 1 len cur"
proof -
  have "p = Consumer i \<Longrightarrow> i < length us \<Longrightarrow> cur i < len \<Longrightarrow> \<exists>k < length us. behind k 1 len cur" for p
    using wf(1)
  proof (induction p arbitrary: i rule: wf_induct_rule)
    case (less p)
    show ?case
    proof (cases "behind i 1 len cur")
      case True
      then show ?thesis
        using less.prems(2) by blast
    next
      case False
      then obtain q where q: "q \<in> set (us ! i)" "place len cur q < cur i + 1"
        by (auto simp: behind_def not_le)
      obtain j where j: "q = Consumer j" "cur j < len"
        using q(2) less.prems(3) by (cases q) auto
      have "(q, p) \<in> edges L" "j < length us"
        using q(1) j(1) wf(2) less.prems(1,2) sound by (auto simp: edges_def sound_fan_def)
      then show ?thesis
        using less.IH [of q j] j by simp
    qed
  qed
  then show ?thesis
    using i by blast
qed

end

section \<open>Disruptors that cover their consumers\<close>

text \<open>The plans of who waits for whom in which nobody is left out; each is a case of the lemmas above.\<close>

typedef plan = "{(ws, us). sound_fan ws us}"
proof
  have "fed [[Root]] 0" "watched [0] [[Root]] 0"
    by (simp_all add: fed.from_ring watched.by_ring)
  then show "([0], [[Root]]) \<in> {(ws, us). sound_fan ws us}"
    by (simp add: sound_fan_def)
qed

lemma plan_sound: "sound_fan (fst (Rep_plan p)) (snd (Rep_plan p))"
  using Rep_plan [of p] by (simp add: split_def)

interpretation sp: disruptor_log m "st_ops (2 ^ m)" "st_rep m" True "fst (Rep_plan p)" "snd (Rep_plan p)" for m p
  by unfold_locales (rule plan_sound)

interpretation mp: disruptor_log m "mt_ops (2 ^ m)" "mt_rep m" False "fst (Rep_plan p)" "snd (Rep_plan p)" for m p
  by unfold_locales (rule plan_sound)

lemma plan_of:
  assumes "sound_fan ws us"
  obtains p where "fst (Rep_plan p) = ws" "snd (Rep_plan p) = us"
  using Abs_plan_inverse [of "(ws, us)"] assms by (metis case_prodI fst_conv mem_Collect_eq snd_conv)

section \<open>New disruptors\<close>

lemma seq_start [simp]: "seq m 0 (\<lambda>_. 0) = (\<lambda>_. 2 ^ m)"
proof
  fix p show "seq m 0 (\<lambda>_. 0) p = 2 ^ m"
    by (cases p) simp_all
qed

lemma new_consumer_rep:
  assumes "m < 63" "new_consumers (2 ^ m) cs" "c \<in> set cs"
  shows "own_rep m (own c) (2 ^ m) (2 ^ m) (2 ^ m)"
  using assms st.reset [OF assms(1)] mt.reset [OF assms(1)]
  by (auto simp: new_consumers_def new_consumer_st_def new_consumer_mt_def new_st_def new_mt_def st_ops_def mt_ops_def)

text \<open>A disruptor whose barriers are new and that covers its consumers stands for the empty log.\<close>

lemma new_log:
  assumes m: "m < 63" "length (ring_buffer d) = 2 ^ m" "wrep (write_barrier d) (2 ^ m) (2 ^ m) (2 ^ m)"
    and cs: "new_consumers (2 ^ m) cs" "map own (disruptor_consumers d) = map own cs"
  shows "log_rep m wrep (waits_for (read_barrier d)) (disruptor_uppers d) d [] (\<lambda>_. 0)"
proof (rule log_repI [where lo = "\<lambda>_. 2 ^ m"])
  show "holds m (ring_buffer d) []"
    using m(2) by (simp add: holds_def ring_window_def)
  have n: "length (disruptor_consumers d) = length cs"
    using cs(2) by (metis length_map)
  have "own_rep m (own (disruptor_consumers d ! i)) (2 ^ m) (2 ^ m) (2 ^ m)" if "i < length (disruptor_consumers d)" for i
  proof -
    have "own (disruptor_consumers d ! i) = own (cs ! i)"
      using cs(2) that n by (metis nth_map)
    then show ?thesis
      using new_consumer_rep [OF m(1) cs(1)] that n by simp
  qed
  then show "bars m wrep d (seq m (length []) (\<lambda>_. 0)) (\<lambda>_. 2 ^ m) (seq m (length []) (\<lambda>_. 0))"
    using m(3) by (simp add: bars_def)
  show "spaced m (waits_for (read_barrier d)) (disruptor_uppers d) (\<lambda>_. 2 ^ m) (seq m (length []) (\<lambda>_. 0))"
    by (simp add: spaced_def)
qed simp_all

lemma new_disruptor_simps [simp]:
  "write_barrier (new_disruptor t node wb cs) = wb" "disruptor_consumers (new_disruptor t node wb cs) = cs"
  "length (ring_buffer (new_disruptor t node wb cs)) = unat (buffer_size t)"
  by (simp_all add: new_disruptor_def ring_buffer_base_def)

lemma new_disruptor_fresh: "new_consumers bs cs \<Longrightarrow> fresh (new_disruptor t node wb cs)"
  by (auto simp: fresh_def new_disruptor_def ring_buffer_base_def new_consumers_def new_consumer_st_def new_consumer_mt_def)

lemma together_log:
  assumes built: "put_together ord xys (new_disruptor t node wb cs) = Some (es, c, d)" "last es = None" "all_watched d"
    and ord: "traversal ord" "\<forall>xy \<in> set xys. known (new_disruptor t node wb cs) (fst xy)"
    and m: "m < 63" "unat (buffer_size t) = 2 ^ m" "new_consumers (2 ^ m) cs" "wrep wb (2 ^ m) (2 ^ m) (2 ^ m)"
  shows "log_rep m wrep (waits_for (read_barrier d)) (disruptor_uppers d) d [] (\<lambda>_. 0)"
    "sound_fan (waits_for (read_barrier d)) (disruptor_uppers d)" "length (disruptor_consumers d) = length cs"
proof -
  note p = put_together_result [OF built(1) ord(1) new_disruptor_fresh [OF m(3)] ord(2)]
  have own: "map own (disruptor_consumers d) = map own cs"
    using p(4) by simp
  show "length (disruptor_consumers d) = length cs"
    using own by (metis length_map)
  show "log_rep m wrep (waits_for (read_barrier d)) (disruptor_uppers d) d [] (\<lambda>_. 0)"
    using new_log [OF m(1) _ _ m(3) own, of wrep] m(2,4) p(2,3) by simp
  have "\<forall>i < length (disruptor_uppers d). watched (waits_for (read_barrier d)) (disruptor_uppers d) i"
    using built(3) by (simp add: all_watched_def)
  then show "sound_fan (waits_for (read_barrier d)) (disruptor_uppers d)"
    using watched_sound [OF config_okD(2) [OF p(1)]] p(5) [OF built(2)] by blast
qed

text \<open>Which disruptor a size gives.\<close>

lemma sp_disruptor_type:
  assumes "sp_ring_buffer_disruptor None sz = Some t" "unat sz \<le> 2 ^ 62"
  obtains m where "m < 63" "t = ring_type m (st_ops (2 ^ m)) (fan_ops (2 ^ m)) None" "unat (buffer_size t) = 2 ^ m" "buffer_size t = 2 ^ m"
    "st_rep m (new_st (buffer_size t)) (2 ^ m) (2 ^ m) (2 ^ m)"
proof -
  obtain bs where bs: "size_to_pow_2 sz = Some bs" "t = \<lparr>buffer_size = bs, write_ops = st_ops bs, read_ops = fan_ops bs, moved = None\<rparr>"
    using assms(1) by (auto simp: sp_ring_buffer_disruptor_def)
  obtain m where m: "m < 63" "bs = 2 ^ m"
    using size_pow [OF bs(1) assms(2)] .
  show thesis
    using that [of m] m bs(2) st.reset [OF m(1)] by (simp add: ring_type_def unat_pow2 new_st_def st_ops_def)
qed

lemma mp_disruptor_type:
  assumes "mp_ring_buffer_disruptor None sz = Some t" "unat sz \<le> 2 ^ 62"
  obtains m where "m < 63" "t = ring_type m (mt_ops (2 ^ m)) (fan_ops (2 ^ m)) None" "unat (buffer_size t) = 2 ^ m" "buffer_size t = 2 ^ m"
    "\<And>weak. mt_rep m (new_mt (buffer_size t) weak) (2 ^ m) (2 ^ m) (2 ^ m)"
proof -
  obtain bs where bs: "size_to_pow_2 sz = Some bs" "t = \<lparr>buffer_size = bs, write_ops = mt_ops bs, read_ops = fan_ops bs, moved = None\<rparr>"
    using assms(1) by (auto simp: mp_ring_buffer_disruptor_def)
  obtain m where m: "m < 63" "bs = 2 ^ m"
    using size_pow [OF bs(1) assms(2)] .
  show thesis
    using that [of m] m bs(2) mt.reset [OF m(1)] by (simp add: ring_type_def unat_pow2 new_mt_def mt_ops_def)
qed

end
