(* ===== verification/Disruptor_Warm_Up.thy ===== *)
theory Disruptor_Warm_Up
  imports Disruptor_Runs
begin

text \<open>
  \<open>configure::warm_up\<close>: with consumers for one thread each it goes once through every place of the buffer and
  returns; consumers keep their kind in all it calls.
\<close>

section \<open>Consumers keep their kind\<close>

definition all_st :: "consumer list \<Rightarrow> bool" where
  "all_st cs \<longleftrightarrow> (\<forall>c \<in> set cs. \<exists>s. own c = Own_st s)"

lemma all_st_update: "all_st cs \<Longrightarrow> all_st (cs[i := (cs ! i)\<lparr>own := Own_st s\<rparr>])"
  by (auto simp: all_st_def dest!: subsetD [OF set_update_subset_insert])

lemma all_st_own: "all_st cs \<Longrightarrow> i < length cs \<Longrightarrow> \<exists>s. own (cs ! i) = Own_st s"
  by (simp add: all_st_def)

lemma all_st_wait:
  assumes "all_st cs" "consumer_wait (op_wait (own_ops bs) mn) i cs = Some (v, cs')"
  shows "all_st cs'"
proof -
  have i: "i < length cs"
    using assms(2) by (simp add: consumer_wait_def split: if_splits)
  obtain s where s: "own (cs ! i) = Own_st s"
    using all_st_own [OF assms(1) i] by blast
  show ?thesis
    using assms(2) all_st_update [OF assms(1)] i s by (auto simp: consumer_wait_def own_ops_kinds)
qed

lemma loop_keeps:
  "(\<And>b s v s'. P s \<Longrightarrow> w b s = Some (v, s') \<Longrightarrow> P s') \<Longrightarrow> P s \<Longrightarrow> barriers_loop w bs rt s = Some (v, s') \<Longrightarrow> P s'"
proof (induction bs arbitrary: rt s)
  case (Cons b bs)
  then obtain v1 s1 where s1: "w b s = Some (v1, s1)" "barriers_loop w bs (if v1 < rt then v1 else rt) s1 = Some (v, s')"
    by (auto split: Option.bind_splits)
  show ?case
    by (rule Cons.IH [OF Cons.prems(1) _ s1(2)]) (use Cons.prems(1,2) s1(1) in blast)+
qed simp

lemma enqueue_keeps:
  assumes "all_st (disruptor_consumers d)" "enqueue t v d = Some d'" "read_ops t = fan_ops bs"
  shows "all_st (disruptor_consumers d')"
proof -
  obtain mn v' rb where rb: "fan_wait (op_wait (own_ops bs) mn) (read_barrier d) = Some (v', rb)" "read_barrier d' = rb"
    using assms(2,3) by (auto simp: enqueue_def fan_ops_def Let_def split: prod.splits Option.bind_splits)
  then obtain cs where cs: "barriers_loop (consumer_wait (op_wait (own_ops bs) mn)) (waits_for (read_barrier d)) (- 1) (disruptor_consumers d)
      = Some (v', cs)" "rb = (read_barrier d)\<lparr>consumers := cs\<rparr>"
    by (auto simp: fan_wait_def barriers_wait_def)
  have "all_st cs"
    by (rule loop_keeps [where P = all_st, OF _ assms(1) cs(1)]) (rule all_st_wait)
  then show ?thesis
    using rb(2) cs(2) by simp
qed

lemma ref_wait_keeps:
  assumes "all_st (disruptor_consumers d)" "ref_wait fw (op_wait (own_ops bs) mn) p d = Some (v, d')"
  shows "all_st (disruptor_consumers d')"
  using assms all_st_wait by (cases p) auto

lemma put_own_keeps:
  assumes "all_st (disruptor_consumers d)"
  shows "all_st (disruptor_consumers (put_own i (Own_st s) d))"
  using all_st_update [OF assms] by simp

lemma finish_keeps:
  assumes "all_st (disruptor_consumers d)" "finish t i pos e d = Some d'"
  shows "all_st (disruptor_consumers d')"
proof -
  have i: "i < length (disruptor_consumers d)"
    using assms(2) by (simp add: finish_def get_consumer_def split: if_splits)
  obtain s where s: "own (disruptor_consumers d ! i) = Own_st s"
    using all_st_own [OF assms(1) i] by blast
  then obtain s' where "d' = put_own i (Own_st s') d"
    using assms(2) i by (auto simp: finish_def get_consumer_def own_ops_kinds)
  then show ?thesis
    using put_own_keeps [OF assms(1)] by simp
qed

lemma consumer_dequeue_keeps:
  assumes "all_st (disruptor_consumers d)" "consumer_dequeue t i d = Some (v, d')"
  shows "all_st (disruptor_consumers d')"
proof -
  have i: "i < length (disruptor_consumers d)"
    using assms(2) by (simp add: consumer_dequeue_def get_consumer_def split: if_splits)
  obtain s where s: "own (disruptor_consumers d ! i) = Own_st s"
    using all_st_own [OF assms(1) i] by blast
  obtain s' mn v1 d1 buf pos e where d1: "upper_wait t mn (upper_barriers (disruptor_consumers d ! i)) (put_own i (Own_st s') d) = Some (v1, d1)"
    "finish t i pos e (d1\<lparr>ring_buffer := buf\<rparr>) = Some d'"
    using assms(2) i s
    by (cases "op_reserve (st_ops (buffer_size t)) 1 s")
      (auto simp: consumer_dequeue_def get_consumer_def own_ops_kinds Let_def split: prod.splits Option.bind_splits)
  have "all_st (disruptor_consumers d1)"
    by (rule loop_keeps [where P = "\<lambda>d. all_st (disruptor_consumers d)", OF ref_wait_keeps put_own_keeps [OF assms(1)]
          d1(1) [unfolded upper_wait_def barriers_wait_def]])
  then show ?thesis
    using finish_keeps [OF _ d1(2)] by simp
qed

section \<open>Rounds\<close>

lemma holds_full:
  assumes "holds m buf log" "length log = 2 ^ m"
  shows "buf = log"
proof -
  have "ring_window m buf (2 ^ m) (2 ^ m + 2 ^ m) = log" "length buf = 2 ^ m"
    using assms by (simp_all add: holds_def)
  moreover have "ring_window m buf (2 ^ m) (2 ^ m + 2 ^ m) ! i = buf ! i" if "i < 2 ^ m" for i
    using that by (simp add: ring_window_def)
  ultimately show ?thesis
    using assms(2) by (intro nth_equalityI) simp_all
qed

context disruptor_log
begin

definition caught_up :: "barrier_ref set \<Rightarrow> nat \<Rightarrow> (nat \<Rightarrow> nat) \<Rightarrow> bool" where
  "caught_up D len cur \<longleftrightarrow> (\<forall>k < length us. cur k = (if Consumer k \<in> D then len + 1 else len))"

lemma clients_read:
  "repr d (log @ [obj]) cur \<Longrightarrow> all_st (disruptor_consumers d) \<Longrightarrow> caught_up D (length log) cur \<Longrightarrow> in_order L (insert Root D) ps \<Longrightarrow>
    set ps \<subseteq> Consumer ` {..<length us} - D \<Longrightarrow> distinct ps \<Longrightarrow> \<forall>i < length us. us ! i = L (Consumer i) \<Longrightarrow>
    \<exists>d' cur'. warm_up_clients dt ps obj d = Some (obj, d') \<and> repr d' (log @ [obj]) cur' \<and> all_st (disruptor_consumers d')
      \<and> caught_up (D \<union> set ps) (length log) cur'"
proof (induction ps arbitrary: d cur D)
  case (Cons p ps)
  obtain i where i: "p = Consumer i" "i < length us" "p \<notin> D"
    using Cons.prems(5) by auto
  have len: "i < length (disruptor_consumers d)"
    using rep_bounds(4) [OF Cons.prems(1)] i(2) by simp
  have ahead: "place (length (log @ [obj])) cur q = length log + 1" if "q \<in> set (us ! i)" for q
  proof (cases q)
    case (Consumer k)
    then have "k < length us" "Consumer k \<in> D"
      using that i sound Cons.prems(4,7) by (auto simp: sound_fan_def)
    then show ?thesis
      using Cons.prems(3) Consumer by (simp add: caught_up_def)
  qed simp
  have cur: "cur i = length log"
    using Cons.prems(3) i by (simp add: caught_up_def)
  then have "behind i 1 (length (log @ [obj])) cur"
    using ahead by (simp add: behind_def)
  then obtain d1 where d1: "consumer_dequeue dt i d = Some (obj, d1)" "repr d1 (log @ [obj]) (cur(i := cur i + 1))"
    using consumer_dequeue_some [OF Cons.prems(1) i(2)] cur by auto
  have client: "warm_up_client dt p d = Some (obj, d1)"
    using all_st_own [OF Cons.prems(2) len] d1(1) len i(1) by (auto simp: warm_up_client_def get_consumer_def)
  have "caught_up (insert p D) (length log) (cur(i := cur i + 1))"
    using Cons.prems(3) cur i(1) by (simp add: caught_up_def)
  moreover have "in_order L (insert Root (insert p D)) ps"
    using Cons.prems(4) by (simp add: insert_commute)
  moreover have "set ps \<subseteq> Consumer ` {..<length us} - insert p D" "distinct ps"
    using Cons.prems(5,6) by auto
  ultimately obtain d' cur' where "warm_up_clients dt ps obj d1 = Some (obj, d')" "repr d' (log @ [obj]) cur'" "all_st (disruptor_consumers d')"
    "caught_up (insert p D \<union> set ps) (length log) cur'"
    using Cons.IH [OF d1(2) consumer_dequeue_keeps [OF Cons.prems(2) d1(1)]] Cons.prems(7) by blast
  then show ?case
    using client by auto
qed auto

lemma rounds_return:
  assumes ps: "in_order L {Root} ps" "set ps = Consumer ` {..<length us}" "distinct ps" and us: "\<forall>i < length us. us ! i = L (Consumer i)"
  shows "repr d log cur \<Longrightarrow> all_st (disruptor_consumers d) \<Longrightarrow> caught_up {} (length log) cur \<Longrightarrow> 2 ^ m + length log + n < 2 ^ 64 \<Longrightarrow>
    \<exists>d' cur'. warm_up_rounds dt ps n obj d = Some d' \<and> repr d' (log @ replicate n obj) cur' \<and> caught_up {} (length log + n) cur'"
proof (induction n arbitrary: d log cur)
  case (Suc n)
  have "room 1 (length log) cur"
    using Suc.prems(3) sound one_le_power [of "2 :: nat" m] by (auto simp: room_def caught_up_def sound_fan_def)
  then obtain d1 where d1: "enqueue dt obj d = Some d1" "repr d1 (log @ [obj]) cur"
    using enqueue_some [OF Suc.prems(1), of obj] Suc.prems(4) by auto
  have "all_st (disruptor_consumers d1)"
    using enqueue_keeps [OF Suc.prems(2) d1(1)] by simp
  then obtain d2 cur2 where d2: "warm_up_clients dt ps obj d1 = Some (obj, d2)" "repr d2 (log @ [obj]) cur2" "all_st (disruptor_consumers d2)"
    "caught_up ({} \<union> set ps) (length log) cur2"
    using clients_read [OF d1(2) _ Suc.prems(3), of L ps] ps us by auto
  have "caught_up {} (length (log @ [obj])) cur2"
    using d2(4) ps(2) by (simp add: caught_up_def)
  then show ?case
    using Suc.IH [OF d2(2,3)] Suc.prems(4) d1(1) d2(1) by simp
qed auto

end

end
