(* ===== verification/Disruptor_Properties.thy ===== *)
theory Disruptor_Properties
  imports Disruptor_Warm_Up Ring_Properties
begin

text \<open>
  What a disruptor promises: the graph has no cycle and links are refused exactly when they should be, \<open>toposort\<close>
  ends in a right order, each consumer sees all entries in order and none is overwritten before, the
  calls return when they can and never all wait; all this where \<open>commit\<close> covers every consumer, which is
  characterised. Also what goes wrong where it does not.
\<close>

section \<open>Links\<close>

text \<open>
  C28: whatever links a caller asks for, and whether it goes on after an exception or not, every
  call of \<open>x_depends_y\<close> returns, the graph of who waits for whom never has a cycle, and it is what the
  consumers' upper barriers say.
\<close>

theorem links_never_cyclic:
  assumes "fresh d" "traversal ord" "\<forall>xy \<in> set xys. known d (fst xy)"
  shows "\<exists>es c d'. link_all ord xys (new_configure, d) = Some (es, c, d') \<and> acyclic (edges (links_of (grap c)))
    \<and> (\<forall>i < length (disruptor_consumers d). upper_barriers (disruptor_consumers d' ! i) = links_of (grap c) (Consumer i))"
proof -
  obtain es c d' where l: "link_all ord xys (new_configure, d) = Some (es, c, d')" "config_ok c d'" "same_ring d d'"
    using link_all_ok [OF fresh_ok [OF assms(1)] assms(2,3)] by blast
  have "upper_barriers (disruptor_consumers d' ! i) = links_of (grap c) (Consumer i)" if "i < length (disruptor_consumers d)" for i
    using graph_okD(9) [OF config_okD(2) [OF l(2)], of i] that same_ring_length [OF l(3)] by simp
  then show ?thesis
    using l(1) graph_okD(2) [OF config_okD(2) [OF l(2)]] by blast
qed

text \<open>The example: three consumers on a ring of two entries; the third waits for the first, which waits for the ring.\<close>

definition three_consumers :: "consumer list" where
  "three_consumers = [new_consumer_st 2, new_consumer_st 2, new_consumer_st 2]"

definition sp_type :: "(nat, barrier_st) disruptor_type" where
  "sp_type = \<lparr>buffer_size = 2, write_ops = st_ops 2, read_ops = fan_ops 2, moved = None\<rparr>"

definition three_ring :: "(nat, barrier_st) disruptor" where
  "three_ring = new_disruptor sp_type 0 (new_st 2) three_consumers"

definition asked_links :: "(barrier_ref \<times> barrier_ref) list" where
  "asked_links = [(Consumer 1, Consumer 0), (Consumer 0, Root), (Consumer 1, Consumer 0), (Consumer 0, Consumer 1), (Consumer 1, Root),
     (Consumer 2, Consumer 1), (Consumer 2, Consumer 1), (Root, Consumer 0)]"

lemma traversals: "traversal (\<lambda>ps. ps)" "traversal rev"
  by (simp_all add: traversal_def)

lemma three_fresh: "fresh three_ring" "\<forall>xy \<in> set asked_links. known three_ring (fst xy)"
  by (simp_all add: fresh_def known_def three_ring_def new_disruptor_def ring_buffer_base_def three_consumers_def new_consumer_st_def asked_links_def)

theorem links_never_cyclic_witness:
  "\<exists>es c d'. link_all rev asked_links (new_configure, three_ring) = Some (es, c, d') \<and> acyclic (edges (links_of (grap c)))"
  using links_never_cyclic [OF three_fresh(1) traversals(2) three_fresh(2)] by blast

lemma asked_links_run:
  "map_option fst (link_all rev asked_links (new_configure, three_ring))
    = Some [Some Link_not_found, None, None, Some Ring_link, None, None, Some Duplicate_link, Some Ring_link_to_other]"
  by code_simp

text \<open>
  C29: after any such calls, one more returns as well, and it throws exactly what it should: \<open>Ring_link\<close>
  if and only if the link would close a cycle, the other errors for the ring itself as the one that waits, for a
  target that has no link yet, and for a link that is there. A refused link changes no link.
\<close>

theorem link_errors_exact:
  assumes "fresh d" "traversal ord" "\<forall>xy \<in> set xys. known d (fst xy)" "link_all ord xys (new_configure, d) = Some (es, c, d')" "known d x"
  shows "\<exists>c' d''. x_depends_y ord x y (c, d') = Some (link_refused x y (grap c), c', d'')
    \<and> links_of (grap c') = (if link_refused x y (grap c) = None then (links_of (grap c))(x := links_of (grap c) x @ [y]) else links_of (grap c))"
proof -
  have l: "config_ok c d'" "same_ring d d'"
    using link_all_ok [OF fresh_ok [OF assms(1)] assms(2,3)] assms(4) by auto
  have "known d' x"
    using assms(5) same_ring_length [OF l(2)] by (simp add: known_def split: barrier_ref.splits)
  then show ?thesis
    using link_step [OF l(1) assms(2), of x y] by metis
qed

lemma asked_linked:
  obtains es c d where "link_all rev asked_links (new_configure, three_ring) = Some (es, c, d)"
  using links_never_cyclic [OF three_fresh(1) traversals(2) three_fresh(2)] by blast

theorem link_errors_exact_witness:
  "\<exists>es c d e c' d'. link_all rev asked_links (new_configure, three_ring) = Some (es, c, d)
    \<and> x_depends_y rev (Consumer 0) (Consumer 2) (c, d) = Some (link_refused (Consumer 0) (Consumer 2) (grap c), c', d')"
proof -
  obtain es c d where l: "link_all rev asked_links (new_configure, three_ring) = Some (es, c, d)"
    by (rule asked_linked)
  have "known three_ring (Consumer 0)"
    by (simp add: known_def three_ring_def three_consumers_def)
  from link_errors_exact [OF three_fresh(1) traversals(2) three_fresh(2) l this, of "Consumer 2"] l show ?thesis
    by blast
qed

section \<open>The order of the consumers\<close>

text \<open>
  C30: after any links, \<open>toposort\<close> ends, whatever the order in which its copy of the graph is traversed; it
  gives each linked consumer once, and never before one that it waits for.
\<close>

theorem toposort_ends:
  assumes "fresh d" "traversal ord" "\<forall>xy \<in> set xys. known d (fst xy)" "link_all ord xys (new_configure, d) = Some (es, c, d')" "traversal ord'"
  shows "\<exists>rt. toposort ord' c = Some rt \<and> distinct rt \<and> set rt = keys (grap c) - {Root} \<and> in_order (links_of (grap c)) {Root} rt"
proof -
  have "config_ok c d'"
    using link_all_ok [OF fresh_ok [OF assms(1)] assms(2,3)] assms(4) by auto
  then show ?thesis
    using assms(5) by (rule toposort_result)
qed

theorem toposort_ends_witness:
  "\<exists>es c d rt. link_all rev asked_links (new_configure, three_ring) = Some (es, c, d) \<and> toposort (\<lambda>ps. ps) c = Some rt
    \<and> in_order (links_of (grap c)) {Root} rt"
proof -
  obtain es c d where l: "link_all rev asked_links (new_configure, three_ring) = Some (es, c, d)"
    by (rule asked_linked)
  from toposort_ends [OF three_fresh(1) traversals(2) three_fresh(2) l traversals(1)] l show ?thesis
    by blast
qed

section \<open>Whom the ring waits for\<close>

text \<open>
  C27: the ring waits for exactly the consumers of the greatest step. Every consumer is then waited for,
  directly or through others, if and only if each has a link and each that nobody waits for has the
  greatest step.
\<close>

theorem commit_covers:
  assumes "fresh d" "traversal ord" "\<forall>xy \<in> set xys. known d (fst xy)" "put_together ord xys d = Some (es, c, d')" "last es = None"
  shows "set (waits_for (read_barrier d')) = {i. greatest (grap c) i}
    \<and> (all_watched d' \<longleftrightarrow> (\<forall>i < length (disruptor_consumers d').
       disruptor_uppers d' ! i \<noteq> [] \<and> (last_one (disruptor_uppers d') i \<longrightarrow> greatest (grap c) i)))"
proof -
  note p = put_together_result [OF assms(4,2,1,3)]
  have "all_watched d' \<longleftrightarrow> (\<forall>i < length (disruptor_uppers d'). watched (waits_for (read_barrier d')) (disruptor_uppers d') i)"
    by (simp add: all_watched_def)
  then show ?thesis
    using all_watched_iff [OF config_okD(2) [OF p(1)]] p(5) [OF assms(5)] by auto
qed

text \<open>Two ways to link the three consumers: one after the other, and so that a chain grows after its end was linked.\<close>

definition chain_links :: "(barrier_ref \<times> barrier_ref) list" where
  "chain_links = [(Consumer 0, Root), (Consumer 1, Consumer 0), (Consumer 2, Consumer 1)]"

definition side_links :: "(barrier_ref \<times> barrier_ref) list" where
  "side_links = [(Consumer 0, Root), (Consumer 1, Consumer 0), (Consumer 2, Root)]"

lemma three_known: "\<forall>xy \<in> set chain_links. known three_ring (fst xy)" "\<forall>xy \<in> set side_links. known three_ring (fst xy)"
  by (simp_all add: known_def three_ring_def three_consumers_def chain_links_def side_links_def)

definition wiring :: "(link_error option list \<times> configure \<times> (nat, barrier_st) disruptor) option
    \<Rightarrow> (link_error option list \<times> nat list \<times> barrier_ref list list) option" where
  "wiring = map_option (\<lambda>(es, c, d). (es, waits_for (read_barrier d), disruptor_uppers d))"

lemma chain_wiring:
  "wiring (put_together rev chain_links three_ring) = Some ([None, None, None, None], [2], [[Root], [Consumer 0], [Consumer 1]])"
  by code_simp

lemma side_wiring:
  "wiring (put_together rev side_links three_ring) = Some ([None, None, None, None], [1], [[Root], [Consumer 0], [Root]])"
  by code_simp

lemma chain_built:
  obtains es c d where "put_together rev chain_links three_ring = Some (es, c, d)" "last es = None"
    "waits_for (read_barrier d) = [2]" "disruptor_uppers d = [[Root], [Consumer 0], [Consumer 1]]" "length (disruptor_consumers d) = 3"
proof -
  obtain es c d where b: "put_together rev chain_links three_ring = Some (es, c, d)" "es = [None, None, None, None]"
    "waits_for (read_barrier d) = [2]" "disruptor_uppers d = [[Root], [Consumer 0], [Consumer 1]]"
    using chain_wiring by (auto simp: wiring_def)
  moreover have "length (disruptor_consumers d) = 3"
    using arg_cong [OF b(4), of length] by simp
  ultimately show thesis
    using that by simp
qed

theorem commit_covers_witness:
  "\<exists>es c d. put_together rev chain_links three_ring = Some (es, c, d) \<and> {i. greatest (grap c) i} = {2}"
proof -
  obtain es c d where b: "put_together rev chain_links three_ring = Some (es, c, d)" "last es = None" "waits_for (read_barrier d) = [2]"
    using chain_built by blast
  from commit_covers [OF three_fresh(1) traversals(2) three_known(1) b(1,2)] b show ?thesis
    by auto
qed

lemma chain_watched:
  assumes "waits_for (read_barrier d) = [2]" "disruptor_uppers d = [[Root], [Consumer 0], [Consumer 1]]" "length (disruptor_consumers d) = 3"
  shows "all_watched d"
proof -
  have two: "watched [2] [[Root], [Consumer 0], [Consumer 1]] 2"
    by (rule watched.by_ring) simp
  then have one: "watched [2] [[Root], [Consumer 0], [Consumer 1]] 1"
    by (rule watched.by_consumer) simp_all
  then have "watched [2] [[Root], [Consumer 0], [Consumer 1]] 0"
    by (rule watched.by_consumer) simp_all
  then show ?thesis
    using assms one two by (auto simp: all_watched_def less_Suc_eq numeral_3_eq_3 numeral_2_eq_2)
qed

section \<open>Runs\<close>

text \<open>
  C25: in a run of a new disruptor with any number of producers, whose consumers are all
  covered, whichever weak exchanges fail: each consumer receives what was written, in order and without a
  gap; the ring is at most one buffer ahead of each, so that no entry is overwritten before all have
  read it; and no consumer is ahead of one that it waits for.
\<close>

theorem mp_disruptor_broadcasts:
  assumes "mp_ring_buffer_disruptor None sz = Some t" "unat sz \<le> 2 ^ 62" "new_consumers (buffer_size t) cs" "traversal ord"
    and "\<forall>xy \<in> set xys. known (new_disruptor t node (new_mt (buffer_size t) weak) cs) (fst xy)"
    and "put_together ord xys (new_disruptor t node (new_mt (buffer_size t) weak) cs) = Some (es, c, d)" "last es = None" "all_watched d"
    and "proper_disruptor_calls calls" "disruptor_run t calls d = Some (ress, d')" "i < length cs"
  shows "received i (zip calls ress) = take (length (received i (zip calls ress))) (sent (zip calls ress))
    \<and> length (sent (zip calls ress)) \<le> length (received i (zip calls ress)) + unat (buffer_size t)
    \<and> (\<forall>k. Consumer k \<in> set (disruptor_uppers d ! i) \<longrightarrow> length (received i (zip calls ress)) \<le> length (received k (zip calls ress)))"
proof -
  obtain m where m: "m < 63" "t = ring_type m (mt_ops (2 ^ m)) (fan_ops (2 ^ m)) None" "unat (buffer_size t) = 2 ^ m" "buffer_size t = 2 ^ m"
    "mt_rep m (new_mt (buffer_size t) weak) (2 ^ m) (2 ^ m) (2 ^ m)"
    using mp_disruptor_type [OF assms(1,2)] by metis
  note l = together_log [where wrep = "mt_rep m", OF assms(6-8,4,5) m(1,3) assms(3) [unfolded m(4)] m(5)]
  obtain p where p: "fst (Rep_plan p) = waits_for (read_barrier d)" "snd (Rep_plan p) = disruptor_uppers d"
    using plan_of [OF l(2)] .
  obtain cur where cur: "log_rep m (mt_rep m) (waits_for (read_barrier d)) (disruptor_uppers d) d' (sent (zip calls ress)) cur"
    "\<And>i. i < length cs \<Longrightarrow> received i (zip calls ress) = take (cur i) (sent (zip calls ress))"
    "\<And>i. i < length cs \<Longrightarrow> length (received i (zip calls ress)) = cur i"
    using mp.run_log [of m p d calls ress d'] l(1,3) assms(9,10) p m(2) by (metis length_map)
  have i: "i < length (disruptor_uppers d)"
    using assms(11) l(3) by simp
  have inside: "k < length cs" if "Consumer k \<in> set (disruptor_uppers d ! i)" for k
    using l(2,3) i that by (auto simp: sound_fan_def)
  note b = mp.rep_bounds [of m p d' "sent (zip calls ress)" cur, unfolded p, OF cur(1)]
  show ?thesis
    using cur(2,3) assms(11) b(6) [OF i] b(7) [OF i] inside m(3) by auto
qed

text \<open>The example with weak exchanges that fail, and consumers of both kinds.\<close>

definition mp_type :: "(nat, barrier_mt) disruptor_type" where
  "mp_type = \<lparr>buffer_size = 2, write_ops = mt_ops 2, read_ops = fan_ops 2, moved = None\<rparr>"

definition mixed_consumers :: "consumer list" where
  "mixed_consumers = [new_consumer_st 2, new_consumer_mt 2 [True, False], new_consumer_st 2]"

definition mixed_ring :: "(nat, barrier_mt) disruptor" where
  "mixed_ring = new_disruptor mp_type 0 (new_mt 2 [False, True]) mixed_consumers"

definition mixed_calls :: "nat disruptor_call list" where
  "mixed_calls = [By_ring (Enqueue 5), By_ring (Try_enqueue 6), By_ring (Try_enqueue 7), By_consumer 0 (Block_dequeue [0, 0]),
     By_consumer 1 Try_dequeue, By_consumer 1 Dequeue, By_consumer 2 Dequeue, By_ring (Enqueue 8), By_consumer 0 Dequeue]"

definition mixed_results :: "nat result list" where
  "mixed_results = [Done, Flag True, Flag False, Block [5, 6], Value None, Value (Some 5), Value (Some 5), Done, Value (Some 8)]"

lemma mixed_run:
  "map_option (\<lambda>(es, c, d). (es, waits_for (read_barrier d), disruptor_uppers d, map_option fst (disruptor_run mp_type mixed_calls d)))
     (put_together rev chain_links mixed_ring)
    = Some ([None, None, None, None], [2], [[Root], [Consumer 0], [Consumer 1]], Some mixed_results)"
  by code_simp

lemma disruptor_types: "mp_ring_buffer_disruptor None 2 = Some mp_type" "sp_ring_buffer_disruptor None 2 = Some sp_type"
  by (simp_all add: mp_ring_buffer_disruptor_def sp_ring_buffer_disruptor_def size_to_pow_2_examples mp_type_def sp_type_def)

lemma mixed_new: "new_consumers (buffer_size mp_type) mixed_consumers" "\<forall>xy \<in> set chain_links. known mixed_ring (fst xy)"
  "proper_disruptor_calls mixed_calls"
  by (auto simp: new_consumers_def mixed_consumers_def mp_type_def known_def mixed_ring_def chain_links_def proper_disruptor_calls_def mixed_calls_def)

lemma mixed_ring_new: "mixed_ring = new_disruptor mp_type 0 (new_mt (buffer_size mp_type) [False, True]) mixed_consumers"
  by (simp add: mixed_ring_def mp_type_def)

lemma mixed_count: "length mixed_consumers = 3" "unat (2 :: u64) \<le> 2 ^ 62"
  by (simp_all add: mixed_consumers_def)

lemma mixed_built:
  obtains es c d d' where "put_together rev chain_links mixed_ring = Some (es, c, d)" "last es = None" "all_watched d"
    "disruptor_run mp_type mixed_calls d = Some (mixed_results, d')"
proof -
  obtain es c d d' where b: "put_together rev chain_links mixed_ring = Some (es, c, d)" "es = [None, None, None, None]"
    "waits_for (read_barrier d) = [2]" "disruptor_uppers d = [[Root], [Consumer 0], [Consumer 1]]"
    "disruptor_run mp_type mixed_calls d = Some (mixed_results, d')"
    using mixed_run by auto
  have "length (disruptor_consumers d) = 3"
    using arg_cong [OF b(4), of length] by simp
  then have "all_watched d"
    by (rule chain_watched [OF b(3,4)])
  then show thesis
    using that [OF b(1) _ _ b(5)] b(2) by simp
qed

theorem mp_disruptor_broadcasts_witness:
  "received 1 (zip mixed_calls mixed_results) = [5] \<and> length (sent (zip mixed_calls mixed_results)) \<le> 1 + 2"
proof -
  obtain es c d d' where b: "put_together rev chain_links mixed_ring = Some (es, c, d)" "last es = None" "all_watched d"
    "disruptor_run mp_type mixed_calls d = Some (mixed_results, d')"
    using mixed_built .
  have "length (sent (zip mixed_calls mixed_results)) \<le> length (received 1 (zip mixed_calls mixed_results)) + unat (buffer_size mp_type)"
    using mp_disruptor_broadcasts [OF disruptor_types(1) _ mixed_new(1) traversals(2) mixed_new(2) [unfolded mixed_ring_new]
        b(1) [unfolded mixed_ring_new] b(2,3) mixed_new(3) b(4), of 1] mixed_count by simp
  then show ?thesis
    by (simp add: received_def mixed_calls_def mixed_results_def mp_type_def)
qed

text \<open>What a run of a covered disruptor with one producer leaves.\<close>

lemma sp_run:
  assumes "sp_ring_buffer_disruptor None sz = Some t" "unat sz \<le> 2 ^ 62" "new_consumers (buffer_size t) cs" "traversal ord"
    and "\<forall>xy \<in> set xys. known (new_disruptor t node (new_st (buffer_size t)) cs) (fst xy)"
    and "put_together ord xys (new_disruptor t node (new_st (buffer_size t)) cs) = Some (es, c, d)" "last es = None" "all_watched d"
    and "proper_disruptor_calls calls" "disruptor_run t calls d = Some (ress, d')"
  obtains m p cur where "t = ring_type m (st_ops (2 ^ m)) (fan_ops (2 ^ m)) None" "unat (buffer_size t) = 2 ^ m"
    "fst (Rep_plan p) = waits_for (read_barrier d)" "snd (Rep_plan p) = disruptor_uppers d" "length (disruptor_uppers d) = length cs"
    "log_rep m (st_rep m) (fst (Rep_plan p)) (snd (Rep_plan p)) d' (sent (zip calls ress)) cur"
    "2 ^ m + length (sent (zip calls ress)) + 1 < 2 ^ 64"
    "\<And>i. i < length cs \<Longrightarrow> length (received i (zip calls ress)) = cur i" "config_ok c d" "sound_fan (waits_for (read_barrier d)) (disruptor_uppers d)"
proof -
  obtain m where m: "m < 63" "t = ring_type m (st_ops (2 ^ m)) (fan_ops (2 ^ m)) None" "unat (buffer_size t) = 2 ^ m" "buffer_size t = 2 ^ m"
    "st_rep m (new_st (buffer_size t)) (2 ^ m) (2 ^ m) (2 ^ m)"
    using sp_disruptor_type [OF assms(1,2)] by metis
  note l = together_log [where wrep = "st_rep m", OF assms(6-8,4,5) m(1,3) assms(3) [unfolded m(4)] m(5)]
  obtain p where p: "fst (Rep_plan p) = waits_for (read_barrier d)" "snd (Rep_plan p) = disruptor_uppers d"
    using plan_of [OF l(2)] .
  have rep: "log_rep m (st_rep m) (fst (Rep_plan p)) (snd (Rep_plan p)) d [] (\<lambda>_. 0)" and us: "length (snd (Rep_plan p)) = length cs"
    using l(1,3) by (simp_all add: p)
  obtain cur where cur: "log_rep m (st_rep m) (fst (Rep_plan p)) (snd (Rep_plan p)) d' (sent (zip calls ress)) cur"
    "2 ^ m + length (sent (zip calls ress)) + 1 < 2 ^ 64" "\<And>i. i < length cs \<Longrightarrow> length (received i (zip calls ress)) = cur i"
    using sp.run_log [OF rep assms(9) assms(10) [unfolded m(2)]] us by metis
  have "config_ok c d"
    by (rule put_together_result(1) [OF assms(6,4) new_disruptor_fresh [OF assms(3)] assms(5)])
  then show thesis
    using that [OF m(2,3) p _ cur] l(2,3) by simp
qed

text \<open>
  C26: after any run of a disruptor with one producer whose consumers are all covered, \<open>enqueue\<close> returns exactly when
  the slowest consumer is less than a buffer behind, \<open>dequeue\<close> of a consumer exactly when everything it waits for
  is ahead of it, and the \<open>try_\<close> calls always return. Without coverage \<open>enqueue\<close> may return although a consumer is
  a whole buffer behind (\<open>side_consumer_overrun\<close>).
\<close>

theorem disruptor_calls_return:
  assumes "sp_ring_buffer_disruptor None sz = Some t" "unat sz \<le> 2 ^ 62" "new_consumers (buffer_size t) cs" "traversal ord"
    and "\<forall>xy \<in> set xys. known (new_disruptor t node (new_st (buffer_size t)) cs) (fst xy)"
    and "put_together ord xys (new_disruptor t node (new_st (buffer_size t)) cs) = Some (es, c, d)" "last es = None" "all_watched d"
    and "proper_disruptor_calls calls" "disruptor_run t calls d = Some (ress, d')" "i < length cs"
  shows "(enqueue t v d' \<noteq> None
      \<longleftrightarrow> (\<forall>k < length cs. length (sent (zip calls ress)) < length (received k (zip calls ress)) + unat (buffer_size t)))
    \<and> (consumer_dequeue t i d' \<noteq> None
      \<longleftrightarrow> (\<forall>p \<in> set (disruptor_uppers d ! i). length (received i (zip calls ress))
           < place (length (sent (zip calls ress))) (\<lambda>k. length (received k (zip calls ress))) p))
    \<and> try_enqueue t v d' \<noteq> None \<and> consumer_try_dequeue t i d' \<noteq> None"
proof -
  obtain m p cur where r: "t = ring_type m (st_ops (2 ^ m)) (fan_ops (2 ^ m)) None" "unat (buffer_size t) = 2 ^ m"
    "fst (Rep_plan p) = waits_for (read_barrier d)" "snd (Rep_plan p) = disruptor_uppers d" "length (disruptor_uppers d) = length cs"
    "log_rep m (st_rep m) (fst (Rep_plan p)) (snd (Rep_plan p)) d' (sent (zip calls ress)) cur"
    "2 ^ m + length (sent (zip calls ress)) + 1 < 2 ^ 64"
    "\<And>i. i < length cs \<Longrightarrow> length (received i (zip calls ress)) = cur i" "sound_fan (waits_for (read_barrier d)) (disruptor_uppers d)"
    using sp_run [OF assms(1-10)] by metis
  note ret = sp.disruptor_returns [OF r(6,7), folded r(1)]
  have i: "i < length (snd (Rep_plan p))"
    using assms(11) r(4,5) by simp
  have inside: "k < length cs" if "Consumer k \<in> set (disruptor_uppers d ! i)" for k
    using r(9) i that unfolding r(4,5) [symmetric] by (simp add: sound_fan_def)
  have places: "place n (\<lambda>k. length (received k (zip calls ress))) q = place n cur q" if "q \<in> set (disruptor_uppers d ! i)" for q n
  proof (cases q)
    case (Consumer k)
    then show ?thesis
      using that inside r(8) by simp
  qed simp
  let ?n = "length (sent (zip calls ress))"
  have "enqueue t v d' \<noteq> None \<longleftrightarrow> (\<forall>k < length cs. ?n < length (received k (zip calls ress)) + unat (buffer_size t))"
    using ret(1) [of v] sp.room_all [OF r(6), of 1] r(2,4,5,8) by (simp add: Suc_le_eq)
  moreover have "consumer_dequeue t i d' \<noteq> None \<longleftrightarrow> (\<forall>q \<in> set (disruptor_uppers d ! i). cur i + 1 \<le> place ?n cur q)"
    using ret(3) [OF i] unfolding sp.behind_def by (simp only: r(4))
  then have "consumer_dequeue t i d' \<noteq> None
      \<longleftrightarrow> (\<forall>q \<in> set (disruptor_uppers d ! i). length (received i (zip calls ress)) < place ?n (\<lambda>k. length (received k (zip calls ress))) q)"
    using places r(8) [OF assms(11)] by (simp only: Suc_eq_plus1 [symmetric] Suc_le_eq cong: ball_cong)
  ultimately show ?thesis
    using ret(2) [of v] ret(4) [OF i] by blast
qed

text \<open>The example: the ring is full, and the third consumer has read nothing.\<close>

definition chain_calls :: "nat disruptor_call list" where
  "chain_calls = [By_ring (Enqueue 5), By_ring (Enqueue 6), By_consumer 0 Dequeue, By_consumer 1 Dequeue, By_consumer 0 Dequeue]"

definition chain_results :: "nat result list" where
  "chain_results = [Done, Done, Value (Some 5), Value (Some 5), Value (Some 6)]"

lemma chain_run:
  "map_option (\<lambda>(es, c, d). (es, waits_for (read_barrier d), disruptor_uppers d, map_option fst (disruptor_run sp_type chain_calls d)))
     (put_together rev chain_links three_ring)
    = Some ([None, None, None, None], [2], [[Root], [Consumer 0], [Consumer 1]], Some chain_results)"
  by code_simp

lemma chain_ran:
  obtains es c d d' where "put_together rev chain_links three_ring = Some (es, c, d)" "last es = None" "all_watched d"
    "disruptor_uppers d = [[Root], [Consumer 0], [Consumer 1]]" "disruptor_run sp_type chain_calls d = Some (chain_results, d')"
proof -
  obtain es c d d' where b: "put_together rev chain_links three_ring = Some (es, c, d)" "es = [None, None, None, None]"
    "waits_for (read_barrier d) = [2]" "disruptor_uppers d = [[Root], [Consumer 0], [Consumer 1]]"
    "disruptor_run sp_type chain_calls d = Some (chain_results, d')"
    using chain_run by auto
  have "length (disruptor_consumers d) = 3"
    using arg_cong [OF b(4), of length] by simp
  then have "all_watched d"
    by (rule chain_watched [OF b(3,4)])
  then show thesis
    using that [OF b(1) _ _ b(4,5)] b(2) by simp
qed

lemma three_new: "new_consumers (buffer_size sp_type) three_consumers" "proper_disruptor_calls chain_calls" "length three_consumers = 3"
  by (simp_all add: new_consumers_def three_consumers_def sp_type_def proper_disruptor_calls_def chain_calls_def)

lemma three_ring_new: "three_ring = new_disruptor sp_type 0 (new_st (buffer_size sp_type)) three_consumers"
  by (simp add: three_ring_def sp_type_def)

lemma chain_amounts:
  "length (sent (zip chain_calls chain_results)) = 2" "length (received 0 (zip chain_calls chain_results)) = 2"
  "length (received 1 (zip chain_calls chain_results)) = 1" "length (received 2 (zip chain_calls chain_results)) = 0"
  by (simp_all add: sent_def received_def chain_calls_def chain_results_def)

theorem disruptor_calls_return_witness:
  "\<exists>es c d d'. put_together rev chain_links three_ring = Some (es, c, d) \<and> disruptor_run sp_type chain_calls d = Some (chain_results, d')
    \<and> enqueue sp_type 7 d' = None \<and> consumer_dequeue sp_type 2 d' \<noteq> None"
proof -
  obtain es c d d' where b: "put_together rev chain_links three_ring = Some (es, c, d)" "last es = None" "all_watched d"
    "disruptor_uppers d = [[Root], [Consumer 0], [Consumer 1]]" "disruptor_run sp_type chain_calls d = Some (chain_results, d')"
    using chain_ran .
  have "enqueue sp_type 7 d' \<noteq> None \<longleftrightarrow> (\<forall>k < length three_consumers. length (sent (zip chain_calls chain_results))
      < length (received k (zip chain_calls chain_results)) + unat (buffer_size sp_type))"
    "consumer_dequeue sp_type 2 d' \<noteq> None \<longleftrightarrow> (\<forall>p \<in> set (disruptor_uppers d ! 2). length (received 2 (zip chain_calls chain_results))
      < place (length (sent (zip chain_calls chain_results))) (\<lambda>k. length (received k (zip chain_calls chain_results))) p)"
    using disruptor_calls_return [OF disruptor_types(2) mixed_count(2) three_new(1) traversals(2) three_known(1) [unfolded three_ring_new]
        b(1) [unfolded three_ring_new] b(2,3) three_new(2) b(5), of 2 7] three_new(3) by simp_all
  then have "enqueue sp_type 7 d' = None" "consumer_dequeue sp_type 2 d' \<noteq> None"
    using chain_amounts b(4) three_new(3) by (auto simp: sp_type_def intro: exI [of _ 2])
  then show ?thesis
    using b(1,5) by blast
qed

text \<open>
  C31: after any run of a covered disruptor with one producer, however its consumers wait for each other, not every call
  waits: \<open>enqueue\<close> returns, or \<open>dequeue\<close> of some consumer does.
\<close>

theorem disruptor_never_stuck:
  assumes "sp_ring_buffer_disruptor None sz = Some t" "unat sz \<le> 2 ^ 62" "new_consumers (buffer_size t) cs" "traversal ord"
    and "\<forall>xy \<in> set xys. known (new_disruptor t node (new_st (buffer_size t)) cs) (fst xy)"
    and "put_together ord xys (new_disruptor t node (new_st (buffer_size t)) cs) = Some (es, c, d)" "last es = None" "all_watched d"
    and "proper_disruptor_calls calls" "disruptor_run t calls d = Some (ress, d')"
  shows "enqueue t v d' \<noteq> None \<or> (\<exists>i < length cs. consumer_dequeue t i d' \<noteq> None)"
proof -
  obtain m p cur where r: "t = ring_type m (st_ops (2 ^ m)) (fan_ops (2 ^ m)) None"
    "snd (Rep_plan p) = disruptor_uppers d" "length (disruptor_uppers d) = length cs"
    "log_rep m (st_rep m) (fst (Rep_plan p)) (snd (Rep_plan p)) d' (sent (zip calls ress)) cur"
    "2 ^ m + length (sent (zip calls ress)) + 1 < 2 ^ 64" "config_ok c d"
    using sp_run [OF assms(1-10)] by metis
  note ret = sp.disruptor_returns [OF r(4,5), folded r(1)]
  note g = config_okD(2) [OF r(6)]
  show ?thesis
  proof (cases "enqueue t v d' = None")
    case True
    then obtain i where i: "i < length (snd (Rep_plan p))" "cur i + 2 ^ m < length (sent (zip calls ress)) + 1"
      using ret(1) [of v] sp.room_all [OF r(4), of 1] by (auto simp: not_le)
    then have "cur i < length (sent (zip calls ress))"
      using one_le_power [of "2 :: nat" m] by linarith
    then obtain k where "k < length (snd (Rep_plan p))" "sp.behind p k 1 (length (sent (zip calls ress))) cur"
      using sp.somebody_reads [OF edges_wf [OF g] _ i(1)] graph_okD(9) [OF g] unfolding r(2) by blast
    then show ?thesis
      using ret(3) [of k] r(2,3) by auto
  qed simp
qed

theorem disruptor_never_stuck_witness:
  "\<exists>es c d d'. put_together rev chain_links three_ring = Some (es, c, d) \<and> disruptor_run sp_type chain_calls d = Some (chain_results, d')
    \<and> (enqueue sp_type 7 d' \<noteq> None \<or> (\<exists>i < 3. consumer_dequeue sp_type i d' \<noteq> None))"
proof -
  obtain es c d d' where b: "put_together rev chain_links three_ring = Some (es, c, d)" "last es = None" "all_watched d"
    "disruptor_run sp_type chain_calls d = Some (chain_results, d')"
    using chain_ran by metis
  from disruptor_never_stuck [OF disruptor_types(2) mixed_count(2) three_new(1) traversals(2) three_known(1) [unfolded three_ring_new]
      b(1) [unfolded three_ring_new] b(2,3) three_new(2) b(4), of 7] b(1,4) three_new(3)
  show ?thesis
    by metis
qed

section \<open>Warming up\<close>

text \<open>
  C32: \<open>warm_up\<close> of a new covered disruptor with one producer whose consumers are for one thread each returns, whatever
  the order of its graph's traversal; then the argument is in every place of the buffer, and every consumer has
  read everything.
\<close>

theorem disruptor_warm_up_returns:
  assumes "sp_ring_buffer_disruptor None sz = Some t" "unat sz \<le> 2 ^ 62" "new_consumers (buffer_size t) cs" "traversal ord"
    and "\<forall>xy \<in> set xys. known (new_disruptor t node (new_st (buffer_size t)) cs) (fst xy)"
    and "put_together ord xys (new_disruptor t node (new_st (buffer_size t)) cs) = Some (es, c, d)" "last es = None" "all_watched d"
    and "all_st cs" "traversal ord'"
  shows "\<exists>d'. disruptor_warm_up ord' t obj (c, d) = Some d' \<and> ring_buffer d' = replicate (unat (buffer_size t)) obj
    \<and> (\<forall>i < length cs. consumer_dequeue t i d' = None)"
proof -
  obtain m where m: "m < 63" "t = ring_type m (st_ops (2 ^ m)) (fan_ops (2 ^ m)) None" "unat (buffer_size t) = 2 ^ m" "buffer_size t = 2 ^ m"
    "st_rep m (new_st (buffer_size t)) (2 ^ m) (2 ^ m) (2 ^ m)"
    using sp_disruptor_type [OF assms(1,2)] by metis
  note l = together_log [where wrep = "st_rep m", OF assms(6-8,4,5) m(1,3) assms(3) [unfolded m(4)] m(5)]
  note b = put_together_result [OF assms(6,4) new_disruptor_fresh [OF assms(3)] assms(5)]
  note g = config_okD(2) [OF b(1)]
  obtain p where p: "fst (Rep_plan p) = waits_for (read_barrier d)" "snd (Rep_plan p) = disruptor_uppers d"
    using plan_of [OF l(2)] .
  have rep: "log_rep m (st_rep m) (fst (Rep_plan p)) (snd (Rep_plan p)) d [] (\<lambda>_. 0)"
    using l(1) by (simp add: p)
  have us: "length (snd (Rep_plan p)) = length cs" "\<forall>i < length (snd (Rep_plan p)). snd (Rep_plan p) ! i = links_of (grap c) (Consumer i)"
    using l(3) graph_okD(9) [OF g] unfolding p(2) by simp_all
  obtain rt where rt: "toposort ord' c = Some rt" "distinct rt" "set rt = keys (grap c) - {Root}" "in_order (links_of (grap c)) {Root} rt"
    using toposort_result [OF b(1) assms(10)] by blast
  have "Consumer i \<in> keys (grap c)" if "i < length cs" for i
    using sp.us_nonempty [of i p] us that graph_okD(5) [OF g, of "Consumer i"] by auto
  moreover have "q \<in> Consumer ` {..<length cs}" if "q \<in> keys (grap c)" "q \<noteq> Root" for q
    using that graph_okD(8) [OF g] us(1) unfolding p(2) by (cases q) auto
  ultimately have set_rt: "set rt = Consumer ` {..<length (snd (Rep_plan p))}"
    unfolding rt(3) us(1) by auto
  have own: "map own (disruptor_consumers d) = map own cs"
    using b(4) by simp
  have "\<exists>s. own (disruptor_consumers d ! i) = Own_st s" if "i < length (disruptor_consumers d)" for i
  proof -
    have "own (disruptor_consumers d ! i) = own (cs ! i)"
      using arg_cong [OF own, of "\<lambda>xs. xs ! i"] that l(3) by simp
    then show ?thesis
      using all_st_own [OF assms(9)] that l(3) by simp
  qed
  then have st: "all_st (disruptor_consumers d)"
    by (auto simp: all_st_def in_set_conv_nth)
  have "2 ^ m + length [] + 2 ^ m < (2 :: nat) ^ 64" "sp.caught_up p {} (length []) (\<lambda>_. 0)"
    using size_le [OF m(1)] by (simp_all add: sp.caught_up_def)
  then obtain d' cur where d': "warm_up_rounds t rt (2 ^ m) obj d = Some d'"
    "log_rep m (st_rep m) (fst (Rep_plan p)) (snd (Rep_plan p)) d' (replicate (2 ^ m) obj) cur" "sp.caught_up p {} (2 ^ m) cur"
    using sp.rounds_return [OF rt(4) set_rt rt(2) us(2) rep st, of "2 ^ m" obj, folded m(2)] by auto
  have "ring_buffer d' = replicate (2 ^ m) obj"
    using holds_full [of m "ring_buffer d'" "replicate (2 ^ m) obj"] log_repE [OF d'(2)] by auto
  moreover have "consumer_dequeue t i d' = None" if i: "i < length cs" for i
  proof -
    have cur: "cur i = 2 ^ m"
      using d'(3) i us(1) by (simp add: sp.caught_up_def)
    have "\<not> sp.behind p i 1 (2 ^ m) cur"
      using sp.enough [OF d'(2), of i 1] i us(1) cur by auto
    then show ?thesis
      using sp.consumer_dequeue_none [OF d'(2), of i, folded m(2)] i us(1) cur size_le [OF m(1)] by simp
  qed
  moreover have "disruptor_warm_up ord' t obj (c, d) = Some d'"
    using b(7) assms(7) rt(1) d'(1) m(3) by (simp add: disruptor_warm_up_def)
  ultimately show ?thesis
    using m(3) by simp
qed

theorem disruptor_warm_up_returns_witness:
  "\<exists>es c d d'. put_together rev chain_links three_ring = Some (es, c, d) \<and> disruptor_warm_up (\<lambda>ps. ps) sp_type 1 (c, d) = Some d'
    \<and> ring_buffer d' = [1, 1]"
proof -
  obtain es c d where b: "put_together rev chain_links three_ring = Some (es, c, d)" "last es = None" "all_watched d"
    using chain_ran by metis
  have "all_st three_consumers"
    by (simp add: all_st_def three_consumers_def new_consumer_st_def)
  from disruptor_warm_up_returns [OF disruptor_types(2) mixed_count(2) three_new(1) traversals(2) three_known(1) [unfolded three_ring_new]
      b(1) [unfolded three_ring_new] b(2,3) this traversals(1), of 1]
  obtain d' where "disruptor_warm_up (\<lambda>ps. ps) sp_type 1 (c, d) = Some d'" "ring_buffer d' = replicate (unat (buffer_size sp_type)) 1"
    by blast
  moreover have "replicate (unat (buffer_size sp_type)) (1 :: nat) = [1, 1]"
    by code_simp
  ultimately show ?thesis
    using b(1) by metis
qed

section \<open>What goes wrong\<close>

text \<open>
  With \<open>side_links\<close> the third consumer waits for the ring only; \<open>commit\<close> picks the second alone, which is one step
  further, so the ring does not wait for the third: its first entry is overwritten, and it reads the third in its place.
\<close>

definition overrun_calls :: "nat disruptor_call list" where
  "overrun_calls = concat (map (\<lambda>v. [By_ring (Enqueue v), By_consumer 0 Dequeue, By_consumer 1 Dequeue]) [5, 6, 7]) @ [By_consumer 2 Dequeue]"

lemma side_consumer_overrun:
  "map_option (\<lambda>(es, c, d). map_option (\<lambda>(ress, d'). last ress) (disruptor_run sp_type overrun_calls d)) (put_together rev side_links three_ring)
    = Some (Some (Value (Some 7)))"
  by code_simp

text \<open>
  An entry of a type whose move assignment \<open>smart_copy\<close> finds (it has to be \<open>const\<close>-qualified, see \<open>moved\<close>) is moved out by
  the first consumer; the next one finds what the move left. Entries of ordinary types are copied.
\<close>

lemma second_consumer_gets_moved_entry:
  "map_option (\<lambda>(es, c, d). map_option (\<lambda>(ress, d'). ress) (disruptor_run (sp_type\<lparr>moved := Some (\<lambda>_. 0)\<rparr>)
      [By_ring (Enqueue 5), By_consumer 0 Dequeue, By_consumer 1 Dequeue] d)) (put_together rev chain_links three_ring)
    = Some (Some [Done, Value (Some 5), Value (Some 0)])"
  by code_simp

text \<open>\<open>warm_up\<close> calls through a null pointer when a consumer is one for several threads.\<close>

lemma warm_up_needs_single_threaded:
  "Option.bind (put_together rev chain_links mixed_ring) (\<lambda>(es, c, d). disruptor_warm_up rev mp_type 1 (c, d)) = None"
  "map_option (\<lambda>d. ring_buffer d) (Option.bind (put_together rev chain_links three_ring) (\<lambda>(es, c, d). disruptor_warm_up rev sp_type 1 (c, d)))
    = Some [1, 1]"
  by code_simp+

end
