(* ===== verification/Spec2Isabelle.thy ===== *)
theory Spec2Isabelle
  imports Order_Handler Order_Kinds Cancel_Amend Implied_Orders Md_Properties Ring_Properties Ring_Pool Object_Pool Spin_Mutex Recovery Engine_Defects Uncrossed Codec_Properties Disruptor_Properties
begin

text \<open>
  A model of the matching engine of this repository and of the parts it is built from, with what makes them
  correct. The sources are C++; paths below are under \<open>src/\<close>.

  \<^bold>\<open>The program.\<close> Bytes of a socket are cut into orders by an \<open>order_handler\<close>
  (\<open>matching/order/inc/matching/order_handler.hpp\<close>) and handed to \<open>engine::handle\<close>
  (\<open>matching/inc/matching/engine.hpp\<close>), one engine per instrument. An engine locks itself and the engines its
  implied orders lean on (\<open>core/inc/core/spin_mutex.hpp\<close>), matches the order against its book and
  against implied orders, prices of which come from the classes under \<open>implier/\<close> and
  \<open>matching/inc/matching/implied_*.hpp\<close>, triggers stop orders, and reports every change by a callback. The reports
  feed the market-data books (\<open>md/\<close>): a book of price levels per instrument, and the levels two other
  instruments imply for it. Threads hand messages on through ring buffers (\<open>rapid_ring/\<close>) and take objects
  from pools (\<open>memory/\<close>, \<open>rapid_ring/\<close>). The websocket servers encode bytes with the codecs of
  \<open>common/\<close>.

  \<^bold>\<open>The theories, in the order of their imports.\<close>
  \<^item> \<open>Prelude\<close>: \<open>long long\<close> as \<open>int\<close> with the wrap-around written out (\<open>ll_add\<close> and so on),
    \<open>unsigned long long\<close> as \<open>64 word\<close>, an execution without a defined result (a failed dereference, a
    division that traps, a call that never returns) as \<open>None\<close>, and association lists for \<open>std::map\<close>.
  \<^item> \<open>Order\<close>, \<open>Order_Handler\<close>: the message, its layout of 160 bytes, \<open>can_amend\<close>, and the
    reassembly of messages from reads of any length.
  \<^item> \<open>Implier\<close>: rounding, commissions and the six implied prices. Doubles of the repo prices are rationals with
    the rounding to nearest even that \<open>lround\<close> of the source is given.
  \<^item> \<open>Book\<close>, \<open>Engine_State\<close>, \<open>Iterator\<close>, \<open>Matcher\<close>, \<open>Engine\<close>:
    \<open>engine.hpp\<close>. A book is the list of its levels; a pointer to an order is its id, read through
    \<open>_odr_map\<close> (\<open>slot\<close>), so that an iterator that outlives its order fails. All engines and impliers
    are one store, \<open>sys\<close>, which also holds the order being handled (\<open>arg\<close>), the clock, the id generator
    and the reports made so far. \<open>handle\<close> is composed as in the source; \<open>submit\<close> and \<open>submits\<close>
    are calls from outside.
  \<^item> \<open>Matching\<close>, \<open>Sweep\<close>, \<open>Fill_Or_Kill\<close>: with no implier registered, matching is the greedy fill
    \<open>sweep\<close> of the resting orders in price-time order, which conserves quantity, keeps the limit and takes a
    prefix of the queue.
  \<^item> \<open>Plain_Orders\<close>, \<open>Plain_Handling\<close>, \<open>Plain_Runs\<close>: the invariant \<open>plain_inv\<close> of an engine
    that gets buy and sell orders, kept by every operation, each of which returns.
  \<^item> \<open>Uncrossed\<close>: the best bid stays below the best ask. \<open>Order_Kinds\<close>, \<open>Cancel_Amend\<close>: what a call does
    for each time condition, for cancels, amendments and bad orders. \<open>Recovery\<close>: a dump restores an engine.
    \<open>Example_Market\<close> holds the market of the witnesses, \<open>Engine_Defects\<close> behaviour that looks unintended.
  \<^item> \<open>Implied_Orders\<close>: the eight classes of implied orders, their prices over two engines, and that quotes
    implied from uncrossed legs do not cross.
  \<^item> \<open>Md_Levels\<close>, \<open>Md_Basic\<close>, \<open>Md_Implied\<close>, \<open>Md_Replace\<close>, \<open>Md_Book\<close>, \<open>Md_Runs\<close>,
    \<open>Md_Properties\<close>: the market-data books as a machine fed with reports; every level is the sum of the open
    orders and the implied levels at its price.
  \<^item> \<open>Ring_Math\<close>, \<open>Ring_Barrier\<close>, \<open>Ring_Mt\<close>, \<open>Ring_Queue\<close>, \<open>Ring_Window\<close>, \<open>Ring_Fifo\<close>,
    \<open>Ring_Calls\<close>, \<open>Ring_Runs\<close>, \<open>Ring_Properties\<close>, \<open>Ring_Pool\<close>: the ring buffer queue over either
    of two barriers. The locale \<open>barrier\<close> is the contract of a barrier, interpreted for both; \<open>ring_queue\<close> proves
    the queue's operations once over the contract and is interpreted for the four kinds of queue.
  \<^item> \<open>Disruptor\<close>, \<open>Disruptor_Config\<close>: \<open>ring_buffer_disruptor.hpp\<close>, a ring that several consumers read, and the graph of
    who waits for whom that \<open>configure\<close> builds. The ring is \<open>Root\<close>, the consumers are numbered; the order in which hash
    sets are traversed is an argument. \<open>Disruptor_Waits\<close>: waiting for several barriers (locale \<open>disruptor_ring\<close>).
    \<open>Disruptor_Log\<close>, \<open>Disruptor_Steps\<close>: a disruptor stands for a log and each consumer's place in it (locale
    \<open>disruptor_log\<close>, over a plan in which every consumer is covered; interpreted for one and several producers and all plans).
    \<open>Disruptor_Graph\<close>, \<open>Disruptor_Links\<close>, \<open>Disruptor_Commit\<close>: the graph stays acyclic, the order of \<open>toposort\<close>, whom \<open>commit\<close>
    covers. \<open>Disruptor_Runs\<close>, \<open>Disruptor_Warm_Up\<close>, \<open>Disruptor_Properties\<close>: runs of calls, and what they promise.
  \<^item> \<open>Object_Pool\<close>, \<open>Spin_Mutex\<close>: the pool of one thread; threads that take the mutexes of several engines, as an
    interleaving of atomic steps.
  \<^item> \<open>Codec\<close>, \<open>Codec_Streams\<close>, \<open>Hex\<close>, \<open>Base64\<close>, \<open>Codec_Properties\<close>: \<open>common/codec.h\<close>,
    \<open>codec.tcc\<close>, \<open>hex.cpp\<close>, \<open>base64.cpp\<close>. The locale \<open>stream_codec\<close> is what a codec must keep for its output not to
    depend on buffer sizes; it is interpreted for the four codecs. Each label of a loop is a function.

  \<^bold>\<open>Termination and bounds.\<close> The loops that the types do not bound (matching, collecting, triggering stops, waiting)
  are \<open>partial_function (option)\<close>: \<open>None\<close> is also not to return, and the theorems say that a call gives
  \<open>Some\<close>. Ids have 57 bits below the node's number, so the theorems on sequences of calls bound the ids
  drawn by \<open>2 ^ 57\<close>; a call draws at most three more than the orders it takes off. Ring buffers have at most
  \<open>2 ^ 62\<close> entries and pass fewer than \<open>2 ^ 63\<close> in all. Weak exchanges fail as an argument says, a finite
  number of times. Looking for a cycle and sorting the graph of a disruptor end because it is acyclic. No fuel is used.

  \<^bold>\<open>Concurrency.\<close> An engine holds its lock for the whole of \<open>handle\<close>, so one call is one step; \<open>Spin_Mutex\<close> shows
  that calls on one engine exclude each other and that taking several locks in their order makes no circle of waiting
  threads. What does stop them is a lock that is never given back: \<open>handle\<close> returns without \<open>unlock\<close> on an auction order
  of a stop side, and whoever then needs the lock waits for ever. The
  ring buffers' operations run without another thread in between. Atomics are sequentially consistent; the source's relaxed
  orders are listed among the findings.

  \<^bold>\<open>Not modelled.\<close> Sockets, ZeroMQ, Pulsar, websockets and configuration (\<open>net/\<close>, \<open>*_service/\<close>, \<open>*_proxy/\<close>,
  \<open>proxy_*/\<close>, \<open>config_parser/\<close>): I/O and calls of libraries. Vendored code (\<open>contrib/\<close>,
  \<open>inc/nlohmann/\<close>, \<open>include/\<close>, \<open>pulsar/\<close>). Copying and moving an engine or a market-data book: the
  copies keep pointers into their source. \<open>configure::clear\<close> of the disruptor, which does not compile. Destructors, the placement of objects in cache lines, and what a
  callback does with a report.
\<close>

end
